(* ===== verification/Grumpy_Prelude.thy ===== *)
theory Grumpy_Prelude
  imports Main "HOL-Library.Word" "HOL-Library.List_Lexorder" "HOL-Library.Product_Lexorder"
    "HOL-Library.Multiset" "HOL-Library.Sublist"
begin

text \<open>
  Shared vocabulary of the development: the machine integers of the Rust sources, the error
  type of \<^verbatim>\<open>src/src/error.rs\<close>, results with an explicit panic outcome, little- and
  big-endian byte codecs, reads and writes inside a fixed-size buffer, the ordered map
  \<^verbatim>\<open>BTreeMap\<close> as a sorted association list, the binary searches of Rust slices, and two
  interfaces used by several components: prefix codecs (\<open>prefix_codec\<close>) and idempotent
  commutative merges (\<open>merge_semilattice\<close>).

  Conventions. \<^verbatim>\<open>u8\<close>, \<^verbatim>\<open>u16\<close>, \<^verbatim>\<open>u32\<close>, \<^verbatim>\<open>u64\<close>, \<^verbatim>\<open>u128\<close> are words of that width and
  their operators wrap, as release builds do. \<^verbatim>\<open>usize\<close> is \<open>nat\<close>: every \<^verbatim>\<open>usize\<close> of the
  modelled code is a buffer length or an index into one. A \<^verbatim>\<open>Vec<u8>\<close>, a \<^verbatim>\<open>&[u8]\<close> and the
  bytes of a \<^verbatim>\<open>String\<close> are \<open>byte list\<close>; the orders of \<^verbatim>\<open>Vec<u8>\<close>, \<^verbatim>\<open>String\<close> and tuples are
  the lexicographic ones.
\<close>

named_theorems buf_simps \<open>reads and writes inside buffers\<close>
named_theorems codec_simps \<open>byte codecs\<close>

section \<open>Machine types and results\<close>

type_synonym byte = "8 word"
type_synonym u16 = "16 word"
type_synonym u32 = "32 word"
type_synonym u64 = "64 word"
type_synonym u128 = "128 word"
type_synonym uuid = "128 word"
type_synonym bytes = "byte list"

text \<open>
  The texts of \<^verbatim>\<open>GrumpyError::Codec\<close>: one constructor per message template, with the values the
  template prints.
\<close>

datatype codec_msg =
    NestingDepth
  | UnexpectedEnd
  | UnexpectedEndU32
  | UnexpectedEndI64
  | UnexpectedEndF64
  | UnexpectedEndBytes nat nat
  | InvalidUtf8
  | StringTooLong u32
  | BytesTooLong u32
  | ArrayTooLong u32
  | ObjectTooManyKeys u32
  | ObjectKeyTooLong u32
  | RefNameTooLong u32
  | TombstoneHlcEnd
  | TombstoneVclockTooLong u32
  | UnknownCrdtKind byte
  | CrdtPayloadTooLong u32
  | UnknownTag byte
  | DocumentTooShort
  | SlotLengthTooLong u16
  | DuplicateVarKey nat
  | VarKeyNotFound nat

datatype vclock_error = Truncated nat nat | TooManyEntries u16

datatype hlc_error = SkewExceeded u64 u64 | LogicalOverflow u64 | BeforeEpoch

datatype name_msg = NameEmpty | NameTooLong nat | NameReserved | NameBadChar byte

datatype corruption_msg =
    SplitInternalEmpty | RebalanceLeafEmptyPath | RebalanceInternalEmptyPath
  | EmptyLeftLeaf | EmptyLeftInternal | DirtyFrameWithoutPage | MalformedOverflowRef

datatype grumpy_error =
    Io
  | PageNotFound u32
  | PageFull u32
  | DuplicateKey uuid
  | KeyNotFound uuid
  | ChecksumMismatch u32 u32 u32
  | WalCorrupted u64
  | BufferPoolExhausted
  | DocumentTooLarge nat nat
  | Codec codec_msg
  | NotIndexable
  | IndexNotFound bytes
  | IndexAlreadyExists bytes
  | CollectionNotFound bytes
  | InvalidName name_msg
  | InvalidArgument bytes
  | CyclicReference
  | ClientNotFound bytes
  | DatabaseNotFound bytes
  | Corruption corruption_msg
  | InvalidPageOffset u32 u16
  | InvalidVarKey bytes
  | HlcErr hlc_error
  | VectorClockErr vclock_error
  | UnsupportedWalVersion u16

text \<open>
  A Rust call returns \<^verbatim>\<open>Ok\<close>, returns \<^verbatim>\<open>Err\<close>, or panics (a slice or an index out of range).
  The panic is a value of its own, so that its absence is something to prove.
\<close>

datatype 'e failure = Err 'e | Panic

type_synonym ('e, 'a) rust = "'e failure + 'a"
type_synonym 'a result = "(grumpy_error, 'a) rust"

fun bind_res :: "'f + 'a \<Rightarrow> ('a \<Rightarrow> 'f + 'b) \<Rightarrow> 'f + 'b" where
  "bind_res (Inl e) f = Inl e"
| "bind_res (Inr x) f = f x"

lemma bind_res_eq_Inr: "bind_res r f = Inr y \<longleftrightarrow> (\<exists>x. r = Inr x \<and> f x = Inr y)"
  by (cases r) auto

lemma bind_res_eq_Inl:
  "bind_res r f = Inl e \<longleftrightarrow> (r = Inl e \<or> (\<exists>x. r = Inr x \<and> f x = Inl e))"
  by (cases r) auto

lemma bind_res_cong [fundef_cong]:
  "r = r' \<Longrightarrow> (\<And>x. r' = Inr x \<Longrightarrow> f x = g x) \<Longrightarrow> bind_res r f = bind_res r' g"
  by (cases r') auto

text \<open>
  A method on \<^verbatim>\<open>&mut self\<close> maps the state before the call to the state after it and the result;
  \<open>bind_op\<close> sequences two of them the way \<^verbatim>\<open>?\<close> does, keeping the state a failing call left.
\<close>

type_synonym ('s, 'a) op = "'s \<Rightarrow> 's \<times> 'a result"

definition ret_op :: "'a \<Rightarrow> ('s, 'a) op" where
  "ret_op x s = (s, Inr x)"

definition fail_op :: "grumpy_error \<Rightarrow> ('s, 'a) op" where
  "fail_op e s = (s, Inl (Err e))"

definition panic_op :: "('s, 'a) op" where
  "panic_op s = (s, Inl Panic)"

definition bind_op :: "('s, 'a) op \<Rightarrow> ('a \<Rightarrow> ('s, 'b) op) \<Rightarrow> ('s, 'b) op" where
  "bind_op m f s = (case m s of (s', Inl e) \<Rightarrow> (s', Inl e) | (s', Inr x) \<Rightarrow> f x s')"

lemma op_simps [simp]:
  "ret_op x s = (s, Inr x)" "fail_op e s = (s, Inl (Err e))" "panic_op s = (s, Inl Panic)"
  by (simp_all add: ret_op_def fail_op_def panic_op_def)

lemma bind_op_Inr: "m s = (s', Inr x) \<Longrightarrow> bind_op m f s = f x s'"
  by (simp add: bind_op_def)

lemma bind_op_Inl: "m s = (s', Inl e) \<Longrightarrow> bind_op m f s = (s', Inl e)"
  by (simp add: bind_op_def)

lemma bind_op_eq_Inr:
  "bind_op m f s = (s', Inr y) \<longleftrightarrow> (\<exists>s'' x. m s = (s'', Inr x) \<and> f x s'' = (s', Inr y))"
  by (auto simp: bind_op_def split: prod.splits sum.splits)

lemma bind_op_cong [fundef_cong]:
  assumes "s = s'" and "m s' = m' s'" and "\<And>x t. m' s' = (t, Inr x) \<Longrightarrow> f x t = g x t"
  shows "bind_op m f s = bind_op m' g s'"
  using assms by (auto simp: bind_op_def split: prod.splits sum.splits)

section \<open>Byte codecs of machine integers\<close>

primrec le_bytes :: "nat \<Rightarrow> nat \<Rightarrow> bytes" where
  "le_bytes 0 n = []"
| "le_bytes (Suc k) n = word_of_nat n # le_bytes k (n div 256)"

primrec le_nat :: "bytes \<Rightarrow> nat" where
  "le_nat [] = 0"
| "le_nat (b # bs) = unat b + 256 * le_nat bs"

definition to_le :: "'a::len word \<Rightarrow> bytes" where
  "to_le w = le_bytes (LENGTH('a) div 8) (unat w)"

definition of_le :: "bytes \<Rightarrow> 'a::len word" where
  "of_le bs = word_of_nat (le_nat bs)"

definition to_be :: "'a::len word \<Rightarrow> bytes" where
  "to_be w = rev (to_le w)"

definition of_be :: "bytes \<Rightarrow> 'a::len word" where
  "of_be bs = of_le (rev bs)"

lemma le_bytes_numeral [simp]:
  "le_bytes (numeral k) n = word_of_nat n # le_bytes (pred_numeral k) (n div 256)"
  by (simp only: numeral_eq_Suc [of k] le_bytes.simps)

lemma length_le_bytes [simp]: "length (le_bytes k n) = k"
  by (induction k arbitrary: n) auto

lemma le_nat_le_bytes: "le_nat (le_bytes k n) = n mod 256 ^ k"
proof (induction k arbitrary: n)
  case 0
  then show ?case by simp
next
  case (Suc k)
  have "n mod 256 ^ Suc k = 256 * (n div 256 mod 256 ^ k) + n mod 256"
    by (simp add: mod_mult2_eq mult.commute)
  with Suc show ?case
    by (simp add: unat_of_nat take_bit_eq_mod)
qed

lemma le_nat_bound: "le_nat bs < 256 ^ length bs"
proof (induction bs)
  case Nil
  then show ?case by simp
next
  case (Cons b bs)
  have "unat b < 256" using unsigned_less [of b] by simp
  with Cons show ?case by (simp add: algebra_simps)
qed

lemma le_bytes_le_nat: "le_bytes (length bs) (le_nat bs) = bs"
proof (induction bs)
  case Nil
  then show ?case by simp
next
  case (Cons b bs)
  have b: "unat b < 256" using unsigned_less [of b] by simp
  have "(word_of_nat (unat b + 256 * le_nat bs) :: byte) = b"
    by (rule word_unat_eq_iff [THEN iffD2])
      (simp add: unat_of_nat take_bit_eq_mod b del: of_nat_add of_nat_mult)
  moreover have "(unat b + 256 * le_nat bs) div 256 = le_nat bs" using b by simp
  ultimately show ?case using Cons by (simp del: of_nat_add)
qed

lemma length_to_le [simp]: "length (to_le (w :: 'a::len word)) = LENGTH('a) div 8"
  by (simp add: to_le_def)

lemma length_to_be [simp]: "length (to_be (w :: 'a::len word)) = LENGTH('a) div 8"
  by (simp add: to_be_def)

lemma le_pow_length:
  assumes "8 dvd LENGTH('a::len)"
  shows "(256::nat) ^ (LENGTH('a) div 8) = 2 ^ LENGTH('a)"
proof -
  have "(256::nat) ^ (LENGTH('a) div 8) = (2 ^ 8) ^ (LENGTH('a) div 8)"
    by simp
  also have "\<dots> = 2 ^ LENGTH('a)"
    using assms by (simp only: power_mult [symmetric] dvd_mult_div_cancel)
  finally show ?thesis .
qed

lemma of_le_to_le [simp, codec_simps]:
  assumes "8 dvd LENGTH('a)"
  shows "of_le (to_le (w :: 'a::len word)) = w"
proof -
  show ?thesis
    using le_pow_length [OF assms]
    by (simp add: of_le_def to_le_def le_nat_le_bytes)
qed


lemma to_le_of_le:
  assumes "8 dvd LENGTH('a)" and "length bs = LENGTH('a) div 8"
  shows "to_le (of_le bs :: 'a::len word) = bs"
proof -
  have "le_nat bs < 2 ^ LENGTH('a)"
    using le_nat_bound [of bs] le_pow_length [OF assms(1)] assms(2) by simp
  then have "unat (of_le bs :: 'a word) = le_nat bs"
    by (simp add: of_le_def unat_of_nat take_bit_eq_mod)
  then show ?thesis
    using le_bytes_le_nat [of bs] assms(2) by (simp add: to_le_def)
qed

lemma to_le_inject:
  assumes "8 dvd LENGTH('a)" and "to_le (v :: 'a::len word) = to_le w"
  shows "v = w"
proof -
  have "v = of_le (to_le v)" by (simp add: assms(1))
  also have "\<dots> = w" by (simp add: assms)
  finally show ?thesis .
qed

lemma of_be_to_be [simp, codec_simps]:
  "8 dvd LENGTH('a) \<Longrightarrow> of_be (to_be (w :: 'a::len word)) = w"
  by (simp add: of_be_def to_be_def)

lemma unat_of_nat_small: "n < 2 ^ LENGTH('a) \<Longrightarrow> unat (word_of_nat n :: 'a::len word) = n"
  by (simp add: unat_of_nat take_bit_eq_mod)

section \<open>Buffers\<close>

text \<open>
  \<open>slice i n buf\<close> is \<^verbatim>\<open>buf[i..i + n]\<close> and \<open>blit i xs buf\<close> is
  \<^verbatim>\<open>buf[i..i + xs.len()].copy_from_slice(xs)\<close>, both for ranges inside the buffer;
  \<open>try_slice\<close> and \<open>try_blit\<close> panic on the other ranges, as Rust does.
\<close>

definition slice :: "nat \<Rightarrow> nat \<Rightarrow> 'a list \<Rightarrow> 'a list" where
  "slice i n buf = take n (drop i buf)"

definition blit :: "nat \<Rightarrow> 'a list \<Rightarrow> 'a list \<Rightarrow> 'a list" where
  "blit i xs buf = take i buf @ xs @ drop (i + length xs) buf"

definition try_slice :: "nat \<Rightarrow> nat \<Rightarrow> 'a list \<Rightarrow> ('e, 'a list) rust" where
  "try_slice start stop buf =
     (if start \<le> stop \<and> stop \<le> length buf then Inr (slice start (stop - start) buf)
      else Inl Panic)"

definition try_blit :: "nat \<Rightarrow> 'a list \<Rightarrow> 'a list \<Rightarrow> ('e, 'a list) rust" where
  "try_blit i xs buf =
     (if i + length xs \<le> length buf then Inr (blit i xs buf) else Inl Panic)"

lemma length_slice [simp, buf_simps]: "i + n \<le> length buf \<Longrightarrow> length (slice i n buf) = n"
  by (simp add: slice_def)

lemma nth_slice: "k < n \<Longrightarrow> i + n \<le> length buf \<Longrightarrow> slice i n buf ! k = buf ! (i + k)"
  by (simp add: slice_def)

lemma length_blit [simp, buf_simps]:
  "i + length xs \<le> length buf \<Longrightarrow> length (blit i xs buf) = length buf"
  by (simp add: blit_def)

lemma nth_blit:
  assumes "i + length xs \<le> length buf" and "k < length buf"
  shows "blit i xs buf ! k = (if i \<le> k \<and> k < i + length xs then xs ! (k - i) else buf ! k)"
  using assms by (auto simp: blit_def nth_append min_def)

lemma slice_blit_same [buf_simps]:
  assumes "i + length xs \<le> length buf" and "n = length xs"
  shows "slice i n (blit i xs buf) = xs"
  using assms by (simp add: slice_def blit_def)

lemma slice_blit_other [buf_simps]:
  assumes "i + length xs \<le> length buf" and "j + n \<le> length buf"
    and "j + n \<le> i \<or> i + length xs \<le> j"
  shows "slice j n (blit i xs buf) = slice j n buf"
  using assms by (intro nth_equalityI) (auto simp: nth_slice nth_blit)

lemma slice_blit_inside:
  assumes "i + length xs \<le> length buf" and "i \<le> j" and "j + n \<le> i + length xs"
  shows "slice j n (blit i xs buf) = slice (j - i) n xs"
  using assms by (intro nth_equalityI) (auto simp: nth_slice nth_blit)

lemma nth_blit_other [buf_simps]:
  assumes "i + length xs \<le> length buf" and "k < length buf" and "k < i \<or> i + length xs \<le> k"
  shows "blit i xs buf ! k = buf ! k"
  using assms by (auto simp: nth_blit)

lemma slice_replicate [buf_simps]:
  "i + n \<le> m \<Longrightarrow> slice i n (replicate m x) = replicate n x"
  by (simp add: slice_def)

lemma slice_slice: "j + m \<le> n \<Longrightarrow> slice j m (slice i n buf) = slice (i + j) m buf"
  by (simp add: slice_def take_drop add.commute min_def)

lemma slice_append_left [buf_simps]: "i + n \<le> length xs \<Longrightarrow> slice i n (xs @ ys) = slice i n xs"
  by (simp add: slice_def)

lemma slice_append_right [buf_simps]:
  "length xs \<le> i \<Longrightarrow> slice i n (xs @ ys) = slice (i - length xs) n ys"
  by (simp add: slice_def)

lemma slice_0_length [simp]: "slice 0 (length xs) xs = xs"
  by (simp add: slice_def)

lemma slice_zero [simp]: "slice i 0 xs = []"
  by (simp add: slice_def)

section \<open>Ordered maps\<close>

text \<open>
  A \<^verbatim>\<open>BTreeMap<K, V>\<close> is the list of its entries in key order. \<open>bt_ok\<close> is the representation
  invariant; \<open>bt_get\<close>, \<open>bt_insert\<close> and \<open>bt_remove\<close> are \<^verbatim>\<open>get\<close>, \<^verbatim>\<open>insert\<close> and \<^verbatim>\<open>remove\<close>.
\<close>

type_synonym ('k, 'v) btreemap = "('k \<times> 'v) list"

definition bt_ok :: "('k::linorder, 'v) btreemap \<Rightarrow> bool" where
  "bt_ok m \<longleftrightarrow> sorted_wrt (<) (map fst m)"

abbreviation bt_get :: "('k, 'v) btreemap \<Rightarrow> 'k \<Rightarrow> 'v option" where
  "bt_get m k \<equiv> map_of m k"

fun bt_insert :: "'k::linorder \<Rightarrow> 'v \<Rightarrow> ('k, 'v) btreemap \<Rightarrow> ('k, 'v) btreemap" where
  "bt_insert k v [] = [(k, v)]"
| "bt_insert k v ((k', v') # m) =
     (if k < k' then (k, v) # (k', v') # m
      else if k = k' then (k, v) # m
      else (k', v') # bt_insert k v m)"

definition bt_remove :: "'k \<Rightarrow> ('k, 'v) btreemap \<Rightarrow> ('k, 'v) btreemap" where
  "bt_remove k m = filter (\<lambda>e. fst e \<noteq> k) m"

lemma bt_ok_Nil [simp]: "bt_ok []"
  by (simp add: bt_ok_def)

lemma bt_ok_Cons [simp]: "bt_ok ((k, v) # m) \<longleftrightarrow> (\<forall>e \<in> set m. k < fst e) \<and> bt_ok m"
  by (auto simp: bt_ok_def)

lemma set_bt_insert: "fst ` set (bt_insert k v m) = insert k (fst ` set m)"
proof (induction m)
  case Nil
  then show ?case by simp
next
  case (Cons e m)
  obtain a b where "e = (a, b)" by (cases e)
  with Cons show ?case by (cases k a rule: linorder_cases) auto
qed

lemma ball_bt_insert:
  "(\<forall>e \<in> set (bt_insert k v m). P (fst e)) \<longleftrightarrow> P k \<and> (\<forall>e \<in> set m. P (fst e))"
proof -
  have "(\<forall>x \<in> fst ` set (bt_insert k v m). P x) \<longleftrightarrow> P k \<and> (\<forall>x \<in> fst ` set m. P x)"
    by (simp only: set_bt_insert ball_simps)
  then show ?thesis by simp
qed

lemma bt_ok_insert [simp]: "bt_ok m \<Longrightarrow> bt_ok (bt_insert k v m)"
proof (induction m)
  case Nil
  then show ?case by simp
next
  case (Cons e m)
  obtain a b where e: "e = (a, b)" by (cases e)
  show ?case
  proof (cases k a rule: linorder_cases)
    case less
    with Cons.prems e show ?thesis by (auto intro: less_trans)
  next
    case equal
    with Cons.prems e show ?thesis by simp
  next
    case greater
    then have "\<not> k < a" "k \<noteq> a" by auto
    with greater Cons e show ?thesis by (simp add: ball_bt_insert)
  qed
qed

lemma bt_get_insert: "bt_get (bt_insert k v m) = (bt_get m)(k \<mapsto> v)"
proof (induction m)
  case Nil
  then show ?case by simp
next
  case (Cons e m)
  then show ?case by (cases e) (auto simp: fun_eq_iff)
qed

lemma bt_ok_remove [simp]: "bt_ok m \<Longrightarrow> bt_ok (bt_remove k m)"
  by (induction m) (auto simp: bt_remove_def)

lemma bt_get_remove: "bt_get (bt_remove k m) = (bt_get m)(k := None)"
  by (induction m) (auto simp: bt_remove_def fun_eq_iff)

lemma bt_ok_distinct: "bt_ok m \<Longrightarrow> distinct (map fst m)"
  unfolding bt_ok_def by (simp add: strict_sorted_iff)

lemma length_bt_insert: "length (bt_insert k v m) \<le> Suc (length m)"
  by (induction m rule: bt_insert.induct [of _ k v]) auto

lemma ball_bt_insert_pair:
  assumes "P k v" and "\<forall>(k, v) \<in> set m. P k v"
  shows "\<forall>(k, v) \<in> set (bt_insert k v m). P k v"
  using assms by (induction m) (auto split: if_splits)

lemma bt_insert_last:
  assumes "\<forall>k' \<in> fst ` set m. k' < k"
  shows "bt_insert k v m = m @ [(k, v)]"
  using assms by (induction m) auto

text \<open>Two well-formed maps with the same entries are the same list.\<close>

lemma bt_eqI:
  assumes "bt_ok m" and "bt_ok n" and "bt_get m = bt_get n"
  shows "m = n"
proof -
  have "set m = set n"
    using map_of_inject_set [OF bt_ok_distinct bt_ok_distinct] assms by blast
  moreover have "sorted (map fst m)" "sorted (map fst n)"
    using assms(1,2) by (simp_all add: bt_ok_def strict_sorted_iff)
  moreover have "distinct (map fst m)" "distinct (map fst n)"
    using assms(1,2) by (simp_all add: bt_ok_distinct)
  moreover have "inj_on fst (set m \<union> set n)"
    using \<open>set m = set n\<close> \<open>distinct (map fst m)\<close> by (simp add: distinct_map)
  ultimately show ?thesis
    by (intro map_sorted_distinct_set_unique [of fst])
qed

section \<open>Searches in sorted slices\<close>

text \<open>
  \<^verbatim>\<open>partition_point\<close>, and \<^verbatim>\<open>binary_search\<close> on a slice without equal keys: \<open>Inr i\<close> is \<^verbatim>\<open>Ok(i)\<close>,
  \<open>Inl i\<close> is \<^verbatim>\<open>Err(i)\<close>, the position that keeps the slice sorted.
\<close>

definition partition_point :: "('a \<Rightarrow> bool) \<Rightarrow> 'a list \<Rightarrow> nat" where
  "partition_point p xs = length (takeWhile p xs)"

definition binary_search :: "('a \<Rightarrow> 'k::linorder) \<Rightarrow> 'k \<Rightarrow> 'a list \<Rightarrow> nat + nat" where
  "binary_search f k xs =
     (let i = partition_point (\<lambda>x. f x < k) xs
      in if i < length xs \<and> f (xs ! i) = k then Inr i else Inl i)"

definition unwrap_or_else_id :: "nat + nat \<Rightarrow> nat" where
  "unwrap_or_else_id r = (case r of Inl i \<Rightarrow> i | Inr i \<Rightarrow> i)"

definition vec_insert :: "nat \<Rightarrow> 'a \<Rightarrow> 'a list \<Rightarrow> 'a list" where
  "vec_insert i x xs = take i xs @ x # drop i xs"

definition vec_remove :: "nat \<Rightarrow> 'a list \<Rightarrow> 'a list" where
  "vec_remove i xs = take i xs @ drop (Suc i) xs"

lemma partition_point_le [simp]: "partition_point p xs \<le> length xs"
  by (simp add: partition_point_def length_takeWhile_le)

lemma unwrap_binary_search:
  "unwrap_or_else_id (binary_search f k xs) = partition_point (\<lambda>x. f x < k) xs"
  by (simp add: unwrap_or_else_id_def binary_search_def Let_def)

section \<open>Interfaces\<close>

subsection \<open>Prefix codecs\<close>

locale prefix_codec =
  fixes enc :: "'a \<Rightarrow> bytes"
    and dec :: "bytes \<Rightarrow> 'f + 'a \<times> bytes"
    and ok :: "'a \<Rightarrow> bool"
  assumes dec_enc: "ok x \<Longrightarrow> dec (enc x @ rest) = Inr (x, rest)"
begin

lemma dec_enc_exact: "ok x \<Longrightarrow> dec (enc x) = Inr (x, [])"
  using dec_enc [of x "[]"] by simp

lemma enc_prefix_free:
  assumes "ok x" and "ok y" and "enc x @ r = enc y @ s"
  shows "x = y \<and> r = s"
proof -
  have "Inr (x, r) = dec (enc y @ s)" unfolding assms(3) [symmetric] by (rule dec_enc [OF assms(1), symmetric])
  also have "\<dots> = Inr (y, s)" by (rule dec_enc [OF assms(2)])
  finally show ?thesis by simp
qed

lemma enc_inject: "ok x \<Longrightarrow> ok y \<Longrightarrow> enc x = enc y \<Longrightarrow> x = y"
  using enc_prefix_free [of x y "[]" "[]"] by simp

lemma concat_enc_inject:
  assumes "\<forall>x \<in> set xs. ok x" and "\<forall>y \<in> set ys. ok y" and "length xs = length ys"
    and "concat (map enc xs) = concat (map enc ys)"
  shows "xs = ys"
  using assms(3,1,2,4)
proof (induction xs ys rule: list_induct2)
  case Nil
  then show ?case by simp
next
  case (Cons x xs y ys)
  from Cons.prems have "enc x @ concat (map enc xs) = enc y @ concat (map enc ys)" by simp
  moreover have "ok x" "ok y" using Cons.prems by simp_all
  ultimately have "x = y \<and> concat (map enc xs) = concat (map enc ys)"
    by (intro enc_prefix_free)
  moreover from this have "xs = ys" using Cons.IH Cons.prems by simp
  ultimately show ?case by simp
qed

end

subsection \<open>Merges of replicated state\<close>

text \<open>
  The laws a state-based replicated type needs of its merge. \<open>convergence\<close>: replicas that
  received the same set of states, in any order and with any repetition, hold the same state.
\<close>

locale merge_semilattice =
  fixes merge :: "'s \<Rightarrow> 's \<Rightarrow> 's"
    and ok :: "'s \<Rightarrow> bool"
  assumes merge_ok: "ok a \<Longrightarrow> ok b \<Longrightarrow> ok (merge a b)"
    and merge_idem: "ok a \<Longrightarrow> merge a a = a"
    and merge_comm: "ok a \<Longrightarrow> ok b \<Longrightarrow> merge a b = merge b a"
    and merge_assoc: "ok a \<Longrightarrow> ok b \<Longrightarrow> ok c \<Longrightarrow> merge (merge a b) c = merge a (merge b c)"
begin

abbreviation absorbed :: "'s \<Rightarrow> 's \<Rightarrow> bool" where
  "absorbed a b \<equiv> merge a b = b"

lemma merge_all_ok: "\<forall>x \<in> set xs. ok x \<Longrightarrow> ok a \<Longrightarrow> ok (foldl merge a xs)"
  by (induction xs arbitrary: a) (auto simp: merge_ok)

lemma absorbed_trans:
  assumes "ok a" "ok b" "ok c" "absorbed a b" "absorbed b c"
  shows "absorbed a c"
  using merge_assoc [OF assms(1-3)] assms(4,5) by simp

lemma absorbed_left: "ok a \<Longrightarrow> ok b \<Longrightarrow> absorbed a (merge a b)"
  using merge_assoc [of a a b] merge_idem [of a] by simp

lemma absorbed_right:
  assumes "ok a" "ok b"
  shows "absorbed b (merge a b)"
  unfolding merge_comm [OF assms] by (rule absorbed_left [OF assms(2,1)])

lemma absorbed_lub:
  assumes "ok a" "ok b" "ok c" "absorbed a c" "absorbed b c"
  shows "absorbed (merge a b) c"
  unfolding merge_assoc [OF assms(1-3)] assms(5) by (rule assms(4))

lemma foldl_start:
  assumes "\<forall>x \<in> set xs. ok x" "ok a"
  shows "absorbed a (foldl merge a xs)"
  using assms
proof (induction xs arbitrary: a)
  case Nil
  then show ?case by (simp add: merge_idem)
next
  case (Cons x xs)
  then have "absorbed (merge a x) (foldl merge (merge a x) xs)"
    by (simp add: merge_ok)
  with Cons.prems show ?case
    using absorbed_trans [of a "merge a x" "foldl merge (merge a x) xs"]
    by (simp add: merge_ok merge_all_ok absorbed_left)
qed

lemma foldl_member:
  assumes "\<forall>x \<in> set xs. ok x" "ok a" "x \<in> set xs"
  shows "absorbed x (foldl merge a xs)"
  using assms
proof (induction xs arbitrary: a)
  case Nil
  then show ?case by simp
next
  case (Cons y ys)
  show ?case
  proof (cases "x \<in> set ys")
    case True
    with Cons show ?thesis by (simp add: merge_ok)
  next
    case False
    with Cons.prems have "x = y" by simp
    moreover have "absorbed (merge a y) (foldl merge (merge a y) ys)"
      using Cons.prems by (simp add: foldl_start merge_ok)
    ultimately show ?thesis
      using Cons.prems absorbed_trans [of y "merge a y" "foldl merge (merge a y) ys"]
      by (simp add: merge_ok merge_all_ok absorbed_right)
  qed
qed

lemma foldl_least:
  assumes "\<forall>x \<in> set xs. ok x" "ok a" "ok z" "absorbed a z" "\<forall>x \<in> set xs. absorbed x z"
  shows "absorbed (foldl merge a xs) z"
  using assms
proof (induction xs arbitrary: a)
  case Nil
  then show ?case by simp
next
  case (Cons x xs)
  then have "absorbed (merge a x) z" by (intro absorbed_lub) auto
  with Cons show ?case by (simp add: merge_ok)
qed

lemma convergence:
  assumes xs: "\<forall>x \<in> set xs. ok x" and a: "ok a" and eq: "set xs = set ys"
  shows "foldl merge a xs = foldl merge a ys"
proof -
  have ys: "\<forall>x \<in> set ys. ok x" using xs eq by simp
  have ok: "ok (foldl merge a xs)" "ok (foldl merge a ys)"
    using merge_all_ok [OF xs a] merge_all_ok [OF ys a] .
  have "foldl merge a ys = merge (foldl merge a xs) (foldl merge a ys)"
    using foldl_least [OF xs a ok(2) foldl_start [OF ys a]] foldl_member [OF ys a] eq by simp
  also have "\<dots> = merge (foldl merge a ys) (foldl merge a xs)"
    by (rule merge_comm [OF ok])
  also have "\<dots> = foldl merge a xs"
    using foldl_least [OF ys a ok(1) foldl_start [OF xs a]] foldl_member [OF xs a] eq by simp
  finally show ?thesis by (rule sym)
qed

end

subsection \<open>Merges of ordered maps\<close>

text \<open>
  The loop \<^verbatim>\<open>for (k, v) in right { left.entry(k).and_modify(f).or_insert(v) }\<close>. If the values
  have a semilattice merge, so have the maps.
\<close>

definition bt_merge :: "('v \<Rightarrow> 'v \<Rightarrow> 'v) \<Rightarrow> ('k::linorder, 'v) btreemap \<Rightarrow> ('k, 'v) btreemap
    \<Rightarrow> ('k, 'v) btreemap" where
  "bt_merge f left right =
     foldl (\<lambda>out (k, rv). bt_insert k (case bt_get out k of None \<Rightarrow> rv | Some lv \<Rightarrow> f lv rv) out)
       left right"

definition combine_option :: "('v \<Rightarrow> 'v \<Rightarrow> 'v) \<Rightarrow> 'v option \<Rightarrow> 'v option \<Rightarrow> 'v option" where
  "combine_option f a b =
     (case (a, b) of (None, _) \<Rightarrow> b | (Some _, None) \<Rightarrow> a | (Some x, Some y) \<Rightarrow> Some (f x y))"

lemma bt_ok_merge: "bt_ok a \<Longrightarrow> bt_ok (bt_merge f a b)"
  unfolding bt_merge_def by (induction b arbitrary: a) (auto simp: split_beta)

lemma bt_get_merge_distinct:
  "distinct (map fst b) \<Longrightarrow> bt_get (bt_merge f a b) k = combine_option f (bt_get a k) (bt_get b k)"
proof (induction b arbitrary: a)
  case Nil
  then show ?case by (simp add: bt_merge_def combine_option_def split: option.split)
next
  case (Cons e b)
  obtain k' v where e: "e = (k', v)" by (cases e)
  define a' where "a' = bt_insert k' (case bt_get a k' of None \<Rightarrow> v | Some u \<Rightarrow> f u v) a"
  have "bt_merge f a (e # b) = bt_merge f a' b" by (simp add: bt_merge_def e a'_def)
  then have "bt_get (bt_merge f a (e # b)) k = combine_option f (bt_get a' k) (bt_get b k)"
    using Cons by simp
  moreover have "bt_get b k' = None" using Cons.prems e by (simp add: map_of_eq_None_iff)
  ultimately show ?case
    by (auto simp: e a'_def bt_get_insert combine_option_def split: option.splits)
qed

lemma bt_get_merge: "bt_ok b \<Longrightarrow> bt_get (bt_merge f a b) k = combine_option f (bt_get a k) (bt_get b k)"
  by (rule bt_get_merge_distinct) (rule bt_ok_distinct)

definition bt_all :: "('v \<Rightarrow> bool) \<Rightarrow> ('k::linorder, 'v) btreemap \<Rightarrow> bool" where
  "bt_all p m \<longleftrightarrow> bt_ok m \<and> (\<forall>v \<in> snd ` set m. p v)"

lemma bt_all_get: "bt_all p m \<Longrightarrow> bt_get m k = Some v \<Longrightarrow> p v"
  by (force simp: bt_all_def dest: map_of_SomeD)

lemma bt_allI: "bt_ok m \<Longrightarrow> (\<And>k v. bt_get m k = Some v \<Longrightarrow> p v) \<Longrightarrow> bt_all p m"
  unfolding bt_all_def using map_of_is_SomeI [OF bt_ok_distinct] by fastforce

locale map_merge = merge_semilattice merge ok
  for merge :: "'v \<Rightarrow> 'v \<Rightarrow> 'v" and ok :: "'v \<Rightarrow> bool"

sublocale map_merge \<subseteq> maps: merge_semilattice
  "bt_merge merge :: ('k::linorder, 'v) btreemap \<Rightarrow> _ \<Rightarrow> _" "bt_all ok"
proof unfold_locales
  fix a b c :: "('k, 'v) btreemap"
  assume a: "bt_all ok a"
  have oa: "bt_ok a" using a by (simp add: bt_all_def)
  have ga: "bt_get a k = Some v \<Longrightarrow> ok v" for k v using bt_all_get [OF a] .
  show "bt_merge merge a a = a"
    using ga merge_idem
    by (intro bt_eqI [OF bt_ok_merge [OF oa] oa])
      (auto simp: fun_eq_iff bt_get_merge [OF oa] combine_option_def split: option.split)
  assume b: "bt_all ok b"
  have ob: "bt_ok b" using b by (simp add: bt_all_def)
  have gb: "bt_get b k = Some v \<Longrightarrow> ok v" for k v using bt_all_get [OF b] .
  show "bt_all ok (bt_merge merge a b)"
    using ga gb merge_ok
    by (intro bt_allI [OF bt_ok_merge [OF oa]])
      (auto simp: bt_get_merge [OF ob] combine_option_def split: option.splits)
  show "bt_merge merge a b = bt_merge merge b a"
    using ga gb merge_comm
    by (intro bt_eqI [OF bt_ok_merge [OF oa] bt_ok_merge [OF ob]])
      (auto simp: fun_eq_iff bt_get_merge [OF ob] bt_get_merge [OF oa] combine_option_def
        split: option.split)
  assume c: "bt_all ok c"
  have oc: "bt_ok c" using c by (simp add: bt_all_def)
  have gc: "bt_get c k = Some v \<Longrightarrow> ok v" for k v using bt_all_get [OF c] .
  show "bt_merge merge (bt_merge merge a b) c = bt_merge merge a (bt_merge merge b c)"
    using ga gb gc merge_assoc
    by (intro bt_eqI bt_ok_merge oa)
      (auto simp: fun_eq_iff bt_get_merge ob oc bt_ok_merge combine_option_def
        split: option.split)
qed

interpretation max_map: map_merge "max :: 'v::linorder \<Rightarrow> 'v \<Rightarrow> 'v" "\<lambda>_. True"
  by unfold_locales (simp_all add: ac_simps)

section \<open>Calls that may not return\<close>

text \<open>
  A method that runs a loop which may not end maps the state before the call to \<^term>\<open>None\<close> (it does
  not return) or to the state after it and the result. \<open>lift_op\<close> embeds the methods that always
  return, and \<open>zoom\<close> runs a method of a part of the state.
\<close>

type_synonym ('s, 'a) call = "'s \<Rightarrow> ('s \<times> 'a result) option"

definition lift_op :: "('s, 'a) op \<Rightarrow> ('s, 'a) call" where
  "lift_op m s = Some (m s)"

definition ret_call :: "'a \<Rightarrow> ('s, 'a) call" where
  "ret_call x s = Some (s, Inr x)"

definition fail_call :: "grumpy_error \<Rightarrow> ('s, 'a) call" where
  "fail_call e s = Some (s, Inl (Err e))"

definition bind_call :: "('s, 'a) call \<Rightarrow> ('a \<Rightarrow> ('s, 'b) call) \<Rightarrow> ('s, 'b) call" where
  "bind_call m f s =
     (case m s of None \<Rightarrow> None | Some (s', Inl e) \<Rightarrow> Some (s', Inl e) | Some (s', Inr x) \<Rightarrow> f x s')"

definition zoom :: "('s \<Rightarrow> 't) \<Rightarrow> ('t \<Rightarrow> 's \<Rightarrow> 's) \<Rightarrow> ('t, 'a) call \<Rightarrow> ('s, 'a) call" where
  "zoom get put m s = map_option (\<lambda>(t, r). (put t s, r)) (m (get s))"

text \<open>A computation that only reads the state, and an outcome that is already known.\<close>

definition read_call :: "('s \<Rightarrow> 'a result option) \<Rightarrow> ('s, 'a) call" where
  "read_call f s = map_option (Pair s) (f s)"

definition result_call :: "'a result \<Rightarrow> ('s, 'a) call" where
  "result_call r s = Some (s, r)"

lemma call_simps [simp]:
  "lift_op m s = Some (m s)" "ret_call x s = Some (s, Inr x)" "fail_call e s = Some (s, Inl (Err e))"
  "result_call r s = Some (s, r)"
  by (simp_all add: lift_op_def ret_call_def fail_call_def result_call_def)

lemma bind_call_Inr: "m s = Some (s', Inr x) \<Longrightarrow> bind_call m f s = f x s'"
  by (simp add: bind_call_def)

lemma bind_call_Inl: "m s = Some (s', Inl e) \<Longrightarrow> bind_call m f s = Some (s', Inl e)"
  by (simp add: bind_call_def)

lemma zoom_Some: "m (get s) = Some (t, r) \<Longrightarrow> zoom get put m s = Some (put t s, r)"
  by (simp add: zoom_def)

lemma read_call_Some: "f s = Some r \<Longrightarrow> read_call f s = Some (s, r)"
  by (simp add: read_call_def)

text \<open>A loop over a list of arguments that stops at the first failure.\<close>

fun for_each :: "('a \<Rightarrow> ('s, unit) call) \<Rightarrow> 'a list \<Rightarrow> ('s, unit) call" where
  "for_each f [] = ret_call ()"
| "for_each f (x # xs) = bind_call (f x) (\<lambda>_. for_each f xs)"

section \<open>Lexicographic order of byte strings\<close>

lemma lex_append_same [simp]: "(xs @ ys < xs @ (zs :: 'a::linorder list)) \<longleftrightarrow> ys < zs"
  by (induction xs) auto

lemma lex_append:
  "length xs = length ys \<Longrightarrow> (xs @ us < ys @ (vs :: 'a::linorder list)) \<longleftrightarrow> xs < ys \<or> xs = ys \<and> us < vs"
  by (induction xs ys rule: list_induct2) auto

lemma lex_incomparable:
  assumes "\<not> prefix xs ys" and "\<not> prefix ys xs"
  shows "(xs @ us < ys @ (vs :: 'a::linorder list)) \<longleftrightarrow> xs < ys"
  using assms by (induction xs ys rule: list_induct2') auto

lemma zeros_least: "length xs = n \<Longrightarrow> replicate n (0 :: byte) \<le> xs"
proof (induction xs arbitrary: n)
  case (Cons x xs)
  then show ?case by (cases "x = 0") (auto simp: word_gt_0)
qed simp

lemma le_nat_append: "le_nat (xs @ [x]) = le_nat xs + 256 ^ length xs * unat x"
  by (induction xs) (simp_all add: algebra_simps)

lemma lex_nat:
  "length xs = length ys \<Longrightarrow> xs < ys \<longleftrightarrow> le_nat (rev xs) < le_nat (rev ys)"
proof (induction xs ys rule: list_induct2)
  case (Cons x xs y ys)
  define n where "n = (256 :: nat) ^ length ys"
  have b: "le_nat (rev xs) < n" "le_nat (rev ys) < n"
    using le_nat_bound [of "rev xs"] le_nat_bound [of "rev ys"] Cons.hyps by (simp_all add: n_def)
  have less: "a + n * i < b + n * j" if "i < j" "a < n" for a b i j
  proof -
    have "n * i + n \<le> n * j" using that(1) mult_le_mono2 [of "Suc i" j n] by simp
    then show ?thesis using that(2) by simp
  qed
  have "unat x < unat y \<or> x = y \<or> unat y < unat x" by (metis nat_neq_iff word_unat_eq_iff)
  then show ?case
    using Cons less [of "unat x" "unat y" "le_nat (rev xs)" "le_nat (rev ys)"] b
      less [of "unat y" "unat x" "le_nat (rev ys)" "le_nat (rev xs)"]
    by (auto simp: le_nat_append word_less_nat_alt n_def)
qed simp

lemma to_be_less:
  assumes "8 dvd LENGTH('a)"
  shows "to_be (v :: 'a::len word) < to_be w \<longleftrightarrow> v < w"
proof -
  have "unat x mod 2 ^ LENGTH('a) = unat x" for x :: "'a word" by simp
  then show ?thesis
    using le_pow_length [OF assms]
    by (simp add: lex_nat to_be_def to_le_def le_nat_le_bytes word_less_nat_alt)
qed

end
