(* ===== verification/Document_Codec.thy ===== *)
theory Document_Codec
  imports Grumpy_Prelude
begin

text \<open>
  The document model: \<^verbatim>\<open>src/src/document/value.rs\<close> (the \<^verbatim>\<open>Value\<close> and \<^verbatim>\<open>CrdtKind\<close> types),
  \<^verbatim>\<open>src/src/document/codec.rs\<close> (\<^verbatim>\<open>encode\<close>, \<^verbatim>\<open>encoded_size\<close>, \<^verbatim>\<open>decode\<close>) and
  \<^verbatim>\<open>src/src/document/mod.rs\<close> (\<^verbatim>\<open>Document\<close>). A \<^verbatim>\<open>String\<close> is its UTF-8 bytes, an \<^verbatim>\<open>i64\<close> its two's
  complement word, an \<^verbatim>\<open>f64\<close> its bit pattern, a \<^verbatim>\<open>BTreeMap<String, Value>\<close> the sorted list of
  its entries. \<open>wf_value\<close> collects what the Rust types guarantee (UTF-8 strings, ordered
  distinct keys) and the size limits \<^verbatim>\<open>decode\<close> enforces.
\<close>

section \<open>Values\<close>

datatype crdt_kind = GCounter | PNCounter | LwwSet | OrSet | Mvr

fun to_tag :: "crdt_kind \<Rightarrow> byte" where
  "to_tag GCounter = 0"
| "to_tag PNCounter = 1"
| "to_tag LwwSet = 2"
| "to_tag OrSet = 3"
| "to_tag Mvr = 4"

definition from_tag :: "byte \<Rightarrow> crdt_kind option" where
  "from_tag tag =
     (if tag = 0 then Some GCounter
      else if tag = 1 then Some PNCounter
      else if tag = 2 then Some LwwSet
      else if tag = 3 then Some OrSet
      else if tag = 4 then Some Mvr
      else None)"

datatype grumpy_value =
    VNull
  | VBool bool
  | VInteger u64
  | VFloat u64
  | VString bytes
  | VBytes bytes
  | VArray "grumpy_value list"
  | VObject "(bytes \<times> grumpy_value) list"
  | VRef bytes uuid
  | VTombstone u64 bytes
  | VCrdt crdt_kind bytes

fun is_tombstone :: "grumpy_value \<Rightarrow> bool" where
  "is_tombstone (VTombstone _ _) = True"
| "is_tombstone _ = False"

fun as_crdt :: "grumpy_value \<Rightarrow> (crdt_kind \<times> bytes) option" where
  "as_crdt (VCrdt kind payload) = Some (kind, payload)"
| "as_crdt _ = None"

section \<open>Limits and tags\<close>

definition MAX_REF_NAME_LEN :: u32 where "MAX_REF_NAME_LEN = 64"
definition MAX_TOMBSTONE_VCLOCK_LEN :: u32 where "MAX_TOMBSTONE_VCLOCK_LEN = 131072"
definition MAX_CRDT_PAYLOAD_LEN :: u32 where "MAX_CRDT_PAYLOAD_LEN = 16777216"
definition MAX_NESTING_DEPTH :: nat where "MAX_NESTING_DEPTH = 64"
definition MAX_BLOB_LEN :: u32 where "MAX_BLOB_LEN = 16777216"
definition MAX_ARRAY_LEN :: u32 where "MAX_ARRAY_LEN = 1000000"
definition MAX_OBJECT_KEYS :: u32 where "MAX_OBJECT_KEYS = 100000"

lemmas limit_defs = MAX_REF_NAME_LEN_def MAX_TOMBSTONE_VCLOCK_LEN_def MAX_CRDT_PAYLOAD_LEN_def
  MAX_NESTING_DEPTH_def MAX_BLOB_LEN_def MAX_ARRAY_LEN_def MAX_OBJECT_KEYS_def

abbreviation len32 :: "'a list \<Rightarrow> u32" where
  "len32 xs \<equiv> word_of_nat (length xs)"

section \<open>UTF-8\<close>

text \<open>
  \<^verbatim>\<open>String::from_utf8\<close> accepts exactly the well-formed byte sequences of the Unicode standard
  (no overlong forms, no surrogates, nothing above U+10FFFF).
\<close>

definition utf8_cont :: "byte \<Rightarrow> bool" where
  "utf8_cont b \<longleftrightarrow> 128 \<le> b \<and> b \<le> 191"

fun utf8_valid :: "bytes \<Rightarrow> bool" where
  "utf8_valid [] = True"
| "utf8_valid (b # bs) =
     (if b < 128 then utf8_valid bs
      else if 194 \<le> b \<and> b \<le> 223 then
        (case bs of c # bs' \<Rightarrow> utf8_cont c \<and> utf8_valid bs' | _ \<Rightarrow> False)
      else if 224 \<le> b \<and> b \<le> 239 then
        (case bs of
           c # d # bs' \<Rightarrow>
             utf8_cont c \<and> (b = 224 \<longrightarrow> 160 \<le> c) \<and> (b = 237 \<longrightarrow> c \<le> 159)
             \<and> utf8_cont d \<and> utf8_valid bs'
         | _ \<Rightarrow> False)
      else if 240 \<le> b \<and> b \<le> 244 then
        (case bs of
           c # d # e # bs' \<Rightarrow>
             utf8_cont c \<and> (b = 240 \<longrightarrow> 144 \<le> c) \<and> (b = 244 \<longrightarrow> c \<le> 143)
             \<and> utf8_cont d \<and> utf8_cont e \<and> utf8_valid bs'
         | _ \<Rightarrow> False)
      else False)"

section \<open>Encoding\<close>

fun encode :: "grumpy_value \<Rightarrow> bytes" where
  "encode VNull = [0]"
| "encode (VBool b) = [1, if b then 1 else 0]"
| "encode (VInteger n) = 2 # to_le n"
| "encode (VFloat f) = 3 # to_le f"
| "encode (VString s) = 4 # to_le (len32 s) @ s"
| "encode (VBytes b) = 5 # to_le (len32 b) @ b"
| "encode (VArray arr) = 6 # to_le (len32 arr) @ concat (map encode arr)"
| "encode (VObject m) =
     7 # to_le (len32 m) @ concat (map (\<lambda>(k, v). to_le (len32 k) @ k @ encode v) m)"
| "encode (VRef collection uuid) =
     8 # to_le (len32 collection) @ collection @ to_be uuid"
| "encode (VTombstone deleted_at_hlc vector_clock) =
     9 # to_le deleted_at_hlc @ to_le (len32 vector_clock) @ vector_clock"
| "encode (VCrdt kind payload) = [10, to_tag kind] @ to_le (len32 payload) @ payload"

fun encoded_size :: "grumpy_value \<Rightarrow> nat" where
  "encoded_size VNull = 1"
| "encoded_size (VBool _) = 2"
| "encoded_size (VInteger _) = 9"
| "encoded_size (VFloat _) = 9"
| "encoded_size (VString s) = 1 + 4 + length s"
| "encoded_size (VBytes b) = 1 + 4 + length b"
| "encoded_size (VArray arr) = 1 + 4 + sum_list (map encoded_size arr)"
| "encoded_size (VObject m) =
     1 + 4 + sum_list (map (\<lambda>(k, v). 4 + length k + encoded_size v) m)"
| "encoded_size (VRef collection _) = 1 + 4 + length collection + 16"
| "encoded_size (VTombstone _ vector_clock) = 1 + 8 + 4 + length vector_clock"
| "encoded_size (VCrdt _ payload) = 1 + 1 + 4 + length payload"

section \<open>Cursor reads\<close>

text \<open>Each read returns the value and the rest of the cursor.\<close>

definition read_u8 :: "bytes \<Rightarrow> (byte \<times> bytes) result" where
  "read_u8 cursor =
     (case cursor of [] \<Rightarrow> Inl (Err (Codec UnexpectedEnd)) | b # bs \<Rightarrow> Inr (b, bs))"

definition read_u32_le :: "bytes \<Rightarrow> (u32 \<times> bytes) result" where
  "read_u32_le cursor =
     (if length cursor < 4 then Inl (Err (Codec UnexpectedEndU32))
      else Inr (of_le (take 4 cursor), drop 4 cursor))"

definition read_i64_le :: "bytes \<Rightarrow> (u64 \<times> bytes) result" where
  "read_i64_le cursor =
     (if length cursor < 8 then Inl (Err (Codec UnexpectedEndI64))
      else Inr (of_le (take 8 cursor), drop 8 cursor))"

definition read_f64_le :: "bytes \<Rightarrow> (u64 \<times> bytes) result" where
  "read_f64_le cursor =
     (if length cursor < 8 then Inl (Err (Codec UnexpectedEndF64))
      else Inr (of_le (take 8 cursor), drop 8 cursor))"

definition read_bytes :: "nat \<Rightarrow> bytes \<Rightarrow> (bytes \<times> bytes) result" where
  "read_bytes len cursor =
     (if length cursor < len then Inl (Err (Codec (UnexpectedEndBytes len (length cursor))))
      else Inr (take len cursor, drop len cursor))"

definition read_string :: "nat \<Rightarrow> bytes \<Rightarrow> (bytes \<times> bytes) result" where
  "read_string len cursor =
     bind_res (read_bytes len cursor)
       (\<lambda>(bs, cursor). if utf8_valid bs then Inr (bs, cursor) else Inl (Err (Codec InvalidUtf8)))"

text \<open>\<^verbatim>\<open>read_u32_le\<close> followed by the limit check and the read of that many bytes.\<close>

definition read_len :: "u32 \<Rightarrow> (u32 \<Rightarrow> codec_msg) \<Rightarrow> bytes \<Rightarrow> (nat \<times> bytes) result" where
  "read_len limit msg cursor =
     bind_res (read_u32_le cursor)
       (\<lambda>(len, cursor). if len > limit then Inl (Err (Codec (msg len))) else Inr (unat len, cursor))"

section \<open>Decoding\<close>

function (sequential) decode_recursive :: "nat \<Rightarrow> bytes \<Rightarrow> (grumpy_value \<times> bytes) result"
  and decode_items :: "nat \<Rightarrow> nat \<Rightarrow> bytes \<Rightarrow> (grumpy_value list \<times> bytes) result"
  and decode_entries ::
    "nat \<Rightarrow> nat \<Rightarrow> (bytes \<times> grumpy_value) list \<Rightarrow> bytes \<Rightarrow> ((bytes \<times> grumpy_value) list \<times> bytes) result"
where
  "decode_recursive depth cursor =
     (if depth > MAX_NESTING_DEPTH then Inl (Err (Codec NestingDepth))
      else bind_res (read_u8 cursor) (\<lambda>(tag, cursor).
        if tag = 0 then Inr (VNull, cursor)
        else if tag = 1 then
          bind_res (read_u8 cursor) (\<lambda>(b, cursor). Inr (VBool (b \<noteq> 0), cursor))
        else if tag = 2 then
          bind_res (read_i64_le cursor) (\<lambda>(n, cursor). Inr (VInteger n, cursor))
        else if tag = 3 then
          bind_res (read_f64_le cursor) (\<lambda>(f, cursor). Inr (VFloat f, cursor))
        else if tag = 4 then
          bind_res (read_len MAX_BLOB_LEN StringTooLong cursor) (\<lambda>(len, cursor).
          bind_res (read_string len cursor) (\<lambda>(s, cursor). Inr (VString s, cursor)))
        else if tag = 5 then
          bind_res (read_len MAX_BLOB_LEN BytesTooLong cursor) (\<lambda>(len, cursor).
          bind_res (read_bytes len cursor) (\<lambda>(b, cursor). Inr (VBytes b, cursor)))
        else if tag = 6 then
          bind_res (read_len MAX_ARRAY_LEN ArrayTooLong cursor) (\<lambda>(count, cursor).
          bind_res (decode_items (Suc depth) count cursor) (\<lambda>(arr, cursor).
            Inr (VArray arr, cursor)))
        else if tag = 7 then
          bind_res (read_len MAX_OBJECT_KEYS ObjectTooManyKeys cursor) (\<lambda>(count, cursor).
          bind_res (decode_entries (Suc depth) count [] cursor) (\<lambda>(m, cursor).
            Inr (VObject m, cursor)))
        else if tag = 8 then
          bind_res (read_len MAX_REF_NAME_LEN RefNameTooLong cursor) (\<lambda>(name_len, cursor).
          bind_res (read_string name_len cursor) (\<lambda>(collection, cursor).
          bind_res (read_bytes 16 cursor) (\<lambda>(uuid_bytes, cursor).
            Inr (VRef collection (of_be uuid_bytes), cursor))))
        else if tag = 9 then
          (if length cursor < 8 then Inl (Err (Codec TombstoneHlcEnd))
           else
             (let hlc = of_le (take 8 cursor); cursor = drop 8 cursor in
              bind_res (read_len MAX_TOMBSTONE_VCLOCK_LEN TombstoneVclockTooLong cursor)
                (\<lambda>(vc_len, cursor).
              bind_res (read_bytes vc_len cursor) (\<lambda>(vc, cursor).
                Inr (VTombstone hlc vc, cursor)))))
        else if tag = 10 then
          bind_res (read_u8 cursor) (\<lambda>(kind_tag, cursor).
            case from_tag kind_tag of
              None \<Rightarrow> Inl (Err (Codec (UnknownCrdtKind kind_tag)))
            | Some kind \<Rightarrow>
                bind_res (read_len MAX_CRDT_PAYLOAD_LEN CrdtPayloadTooLong cursor)
                  (\<lambda>(payload_len, cursor).
                bind_res (read_bytes payload_len cursor) (\<lambda>(payload, cursor).
                  Inr (VCrdt kind payload, cursor))))
        else Inl (Err (Codec (UnknownTag tag)))))"
| "decode_items depth 0 cursor = Inr ([], cursor)"
| "decode_items depth (Suc n) cursor =
     bind_res (decode_recursive depth cursor) (\<lambda>(v, cursor).
     bind_res (decode_items depth n cursor) (\<lambda>(vs, cursor). Inr (v # vs, cursor)))"
| "decode_entries depth 0 m cursor = Inr (m, cursor)"
| "decode_entries depth (Suc n) m cursor =
     bind_res (read_len MAX_BLOB_LEN ObjectKeyTooLong cursor) (\<lambda>(key_len, cursor).
     bind_res (read_string key_len cursor) (\<lambda>(key, cursor).
     bind_res (decode_recursive depth cursor) (\<lambda>(val, cursor).
       decode_entries depth n (bt_insert key val m) cursor)))"
  by pat_completeness auto
termination
  by (relation "measures
       [case_sum (\<lambda>(d, _). Suc MAX_NESTING_DEPTH - d)
          (case_sum (\<lambda>(d, _). Suc MAX_NESTING_DEPTH - d) (\<lambda>(d, _). Suc MAX_NESTING_DEPTH - d)),
        case_sum (\<lambda>_. 0) (case_sum (\<lambda>(_, n, _). Suc n) (\<lambda>(_, n, _). Suc n))]")
    (auto simp: MAX_NESTING_DEPTH_def)

declare decode_recursive.simps [simp del]

definition decode :: "bytes \<Rightarrow> grumpy_value result" where
  "decode data = bind_res (decode_recursive 0 data) (\<lambda>(v, _). Inr v)"

section \<open>Documents\<close>

record document =
  key :: uuid
  doc_value :: grumpy_value

definition doc_encode :: "document \<Rightarrow> bytes" where
  "doc_encode d = to_be (key d) @ encode (doc_value d)"

definition doc_decode :: "bytes \<Rightarrow> document result" where
  "doc_decode data =
     (if length data < 16 then Inl (Err (Codec DocumentTooShort))
      else bind_res (decode_recursive 0 (drop 16 data))
        (\<lambda>(v, _). Inr \<lparr>key = of_be (take 16 data), doc_value = v\<rparr>))"

definition doc_encoded_size :: "document \<Rightarrow> nat" where
  "doc_encoded_size d = 16 + encoded_size (doc_value d)"

section \<open>Well-formed values\<close>

fun height :: "grumpy_value \<Rightarrow> nat" where
  "height (VArray arr) = foldr (\<lambda>v h. max (Suc (height v)) h) arr 0"
| "height (VObject m) = foldr (\<lambda>(_, v) h. max (Suc (height v)) h) m 0"
| "height _ = 0"

fun wf_value :: "grumpy_value \<Rightarrow> bool" where
  "wf_value (VString s) \<longleftrightarrow> utf8_valid s \<and> length s \<le> unat MAX_BLOB_LEN"
| "wf_value (VBytes b) \<longleftrightarrow> length b \<le> unat MAX_BLOB_LEN"
| "wf_value (VArray arr) \<longleftrightarrow> length arr \<le> unat MAX_ARRAY_LEN \<and> (\<forall>v \<in> set arr. wf_value v)"
| "wf_value (VObject m) \<longleftrightarrow>
     length m \<le> unat MAX_OBJECT_KEYS \<and> bt_ok m \<and>
     (\<forall>(k, v) \<in> set m. utf8_valid k \<and> length k \<le> unat MAX_BLOB_LEN \<and> wf_value v)"
| "wf_value (VRef collection _) \<longleftrightarrow>
     utf8_valid collection \<and> length collection \<le> unat MAX_REF_NAME_LEN"
| "wf_value (VTombstone _ vc) \<longleftrightarrow> length vc \<le> unat MAX_TOMBSTONE_VCLOCK_LEN"
| "wf_value (VCrdt _ payload) \<longleftrightarrow> length payload \<le> unat MAX_CRDT_PAYLOAD_LEN"
| "wf_value _ \<longleftrightarrow> True"

text \<open>Values that fit below nesting depth \<open>d\<close>.\<close>

definition fits :: "nat \<Rightarrow> grumpy_value \<Rightarrow> bool" where
  "fits d v \<longleftrightarrow> wf_value v \<and> d + height v \<le> MAX_NESTING_DEPTH"

text \<open>What one value's encoding decodes to at nesting depth \<open>d\<close>, whatever follows it.\<close>

definition decodes_at :: "nat \<Rightarrow> grumpy_value \<Rightarrow> bool" where
  "decodes_at d v \<longleftrightarrow> (\<forall>rest. decode_recursive d (encode v @ rest) =
     (if d + height v \<le> MAX_NESTING_DEPTH then Inr (v, rest)
      else Inl (Err (Codec NestingDepth))))"

section \<open>Encoding, then decoding\<close>

lemma from_tag_to_tag [simp, codec_simps]: "from_tag (to_tag kind) = Some kind"
  by (cases kind) (simp_all add: from_tag_def)

lemma to_tag_from_tag: "from_tag t = Some kind \<Longrightarrow> to_tag kind = t"
  by (auto simp: from_tag_def split: if_splits)

lemma unat_limits [simp]:
  "unat MAX_REF_NAME_LEN = 64" "unat MAX_TOMBSTONE_VCLOCK_LEN = 131072"
  "unat MAX_CRDT_PAYLOAD_LEN = 16777216" "unat MAX_BLOB_LEN = 16777216"
  "unat MAX_ARRAY_LEN = 1000000" "unat MAX_OBJECT_KEYS = 100000"
  by (simp_all add: limit_defs)

lemma read_u8_Cons [simp, codec_simps]: "read_u8 (b # bs) = Inr (b, bs)"
  by (simp add: read_u8_def)

lemma read_u32_le_append [simp, codec_simps]: "read_u32_le (to_le w @ rest) = Inr (w, rest)"
  by (simp add: read_u32_le_def)

lemma read_i64_le_append [simp, codec_simps]: "read_i64_le (to_le w @ rest) = Inr (w, rest)"
  by (simp add: read_i64_le_def)

lemma read_f64_le_append [simp, codec_simps]: "read_f64_le (to_le w @ rest) = Inr (w, rest)"
  by (simp add: read_f64_le_def)

lemma read_bytes_append [simp, codec_simps]:
  "n = length bs \<Longrightarrow> read_bytes n (bs @ rest) = Inr (bs, rest)"
  by (simp add: read_bytes_def)

lemma read_string_append [simp, codec_simps]:
  "n = length bs \<Longrightarrow> utf8_valid bs \<Longrightarrow> read_string n (bs @ rest) = Inr (bs, rest)"
  by (simp add: read_string_def)

lemma read_len_append [simp, codec_simps]:
  assumes "length xs \<le> unat limit"
  shows "read_len limit msg (to_le (len32 xs) @ rest) = Inr (length xs, rest)"
proof -
  have lt: "length xs < 2 ^ 32"
    using assms unsigned_less [of limit, where 'a = nat] by simp
  then have "unat (len32 xs) = length xs" by (simp add: unat_of_nat_small)
  moreover from this assms have "\<not> limit < len32 xs" by (simp add: word_less_nat_alt)
  ultimately show ?thesis by (simp add: read_len_def)
qed

interpretation u32_codec: prefix_codec "to_le" read_u32_le "\<lambda>_. True"
  by unfold_locales simp

lemma height_array_le: "height (VArray arr) \<le> n \<longleftrightarrow> (\<forall>v \<in> set arr. Suc (height v) \<le> n)"
proof -
  have "foldr (\<lambda>v h. max (Suc (height v)) h) arr 0 \<le> n \<longleftrightarrow> (\<forall>v \<in> set arr. Suc (height v) \<le> n)"
    by (induction arr) auto
  then show ?thesis by simp
qed

lemma height_object_le:
  "height (VObject m) \<le> n \<longleftrightarrow> (\<forall>(k, v) \<in> set m. Suc (height v) \<le> n)"
proof -
  have "foldr (\<lambda>(_, v) h. max (Suc (height v)) h) m 0 \<le> n
      \<longleftrightarrow> (\<forall>(k, v) \<in> set m. Suc (height v) \<le> n)"
    by (induction m) auto
  then show ?thesis by simp
qed

lemma length_encode: "length (encode v) = encoded_size v"
proof (induction v)
  case (VArray arr)
  then show ?case by (simp add: length_concat comp_def cong: map_cong)
next
  case (VObject m)
  then have "map (\<lambda>e. length (to_le (len32 (fst e)) @ fst e @ encode (snd e))) m
      = map (\<lambda>e. 4 + length (fst e) + encoded_size (snd e)) m"
    by (intro map_cong) (auto elim: snds.cases)
  then show ?case
    by (simp add: length_concat comp_def case_prod_unfold add.assoc del: map_eq_conv)
qed simp_all

lemma decode_array:
  "\<not> MAX_NESTING_DEPTH < d \<Longrightarrow> decode_recursive d (6 # cursor) =
     bind_res (read_len MAX_ARRAY_LEN ArrayTooLong cursor) (\<lambda>(count, cursor).
     bind_res (decode_items (Suc d) count cursor) (\<lambda>(arr, cursor). Inr (VArray arr, cursor)))"
  by (simp add: decode_recursive.simps [of d])

lemma decode_object:
  "\<not> MAX_NESTING_DEPTH < d \<Longrightarrow> decode_recursive d (7 # cursor) =
     bind_res (read_len MAX_OBJECT_KEYS ObjectTooManyKeys cursor) (\<lambda>(count, cursor).
     bind_res (decode_entries (Suc d) count [] cursor) (\<lambda>(m, cursor). Inr (VObject m, cursor)))"
  by (simp add: decode_recursive.simps [of d])

lemma decode_items_encode:
  assumes "\<forall>v \<in> set vs. decodes_at d v"
  shows "decode_items d (length vs) (concat (map encode vs) @ rest) =
    (if \<forall>v \<in> set vs. d + height v \<le> MAX_NESTING_DEPTH then Inr (vs, rest)
     else Inl (Err (Codec NestingDepth)))"
  using assms by (induction vs arbitrary: rest) (auto simp: decodes_at_def)

lemma decode_entries_encode:
  assumes "\<forall>(k, v) \<in> set m. decodes_at d v \<and> utf8_valid k \<and> length k \<le> unat MAX_BLOB_LEN"
    and "bt_ok (m0 @ m)"
  shows "decode_entries d (length m) m0
      (concat (map (\<lambda>(k, v). to_le (len32 k) @ k @ encode v) m) @ rest) =
    (if \<forall>(k, v) \<in> set m. d + height v \<le> MAX_NESTING_DEPTH then Inr (m0 @ m, rest)
     else Inl (Err (Codec NestingDepth)))"
  using assms
proof (induction m arbitrary: m0)
  case Nil
  then show ?case by simp
next
  case (Cons e m)
  obtain k v where e: "e = (k, v)" by (cases e)
  have "bt_insert k v m0 = m0 @ [(k, v)]"
    using Cons.prems(2) e by (intro bt_insert_last) (auto simp: bt_ok_def sorted_wrt_append)
  then show ?case
    using Cons.IH [of "m0 @ [(k, v)]"] Cons.prems e by (auto simp: decodes_at_def)
qed

lemma decodes_at_deep: "MAX_NESTING_DEPTH < d \<Longrightarrow> decodes_at d v"
  by (simp add: decodes_at_def decode_recursive.simps)

lemma decodes_at_wf: "wf_value v \<Longrightarrow> decodes_at d v"
proof (induction v arbitrary: d)
  case (VArray arr)
  then have items: "\<forall>v \<in> set arr. decodes_at (Suc d) v" by simp
  show ?case
  proof (cases "MAX_NESTING_DEPTH < d")
    case False
    then show ?thesis
      using VArray.prems height_array_le [of arr "MAX_NESTING_DEPTH - d"]
      by (auto simp: decodes_at_def decode_array decode_items_encode [OF items] le_diff_conv2
          not_less)
  qed (rule decodes_at_deep)
next
  case (VObject m)
  then have items: "\<forall>(k, v) \<in> set m.
      decodes_at (Suc d) v \<and> utf8_valid k \<and> length k \<le> unat MAX_BLOB_LEN"
    by fastforce
  show ?case
  proof (cases "MAX_NESTING_DEPTH < d")
    case False
    then show ?thesis
      using VObject.prems height_object_le [of m "MAX_NESTING_DEPTH - d"]
      using decode_entries_encode [OF items, of "[]"]
      by (auto simp: decodes_at_def decode_object le_diff_conv2 not_less)
  qed (rule decodes_at_deep)
qed (auto simp: decodes_at_def decode_recursive.simps)


section \<open>Decoded values are well-formed\<close>

lemma read_u8_InrD: "read_u8 c = Inr (b, r) \<Longrightarrow> strict_suffix r c"
  by (auto simp: read_u8_def strict_suffix_def suffix_def split: list.splits)

lemma read_u32_le_InrD: "read_u32_le c = Inr (w, r) \<Longrightarrow> suffix r c"
  by (auto simp: read_u32_le_def suffix_drop split: if_splits)

lemma read_i64_le_InrD: "read_i64_le c = Inr (w, r) \<Longrightarrow> suffix r c"
  by (auto simp: read_i64_le_def suffix_drop split: if_splits)

lemma read_f64_le_InrD: "read_f64_le c = Inr (w, r) \<Longrightarrow> suffix r c"
  by (auto simp: read_f64_le_def suffix_drop split: if_splits)

lemma read_bytes_InrD: "read_bytes n c = Inr (b, r) \<Longrightarrow> suffix r c \<and> length b = n"
  by (auto simp: read_bytes_def suffix_drop split: if_splits)

lemma read_string_InrD:
  "read_string n c = Inr (b, r) \<Longrightarrow> suffix r c \<and> length b = n \<and> utf8_valid b"
  by (auto simp: read_string_def bind_res_eq_Inr split: if_splits dest: read_bytes_InrD)

lemma read_len_InrD: "read_len l msg c = Inr (n, r) \<Longrightarrow> suffix r c \<and> n \<le> unat l"
  by (auto simp: read_len_def bind_res_eq_Inr not_less word_le_nat_alt split: if_splits
      dest: read_u32_le_InrD)

lemmas read_InrD = read_u8_InrD read_u32_le_InrD read_i64_le_InrD read_f64_le_InrD
  read_bytes_InrD read_string_InrD read_len_InrD

lemma fits_array:
  "d \<le> MAX_NESTING_DEPTH \<Longrightarrow> fits d (VArray arr) \<longleftrightarrow>
     length arr \<le> unat MAX_ARRAY_LEN \<and> (\<forall>v \<in> set arr. fits (Suc d) v)"
  using height_array_le [of arr "MAX_NESTING_DEPTH - d"]
  by (auto simp: fits_def le_diff_conv2)

lemma fits_object:
  "d \<le> MAX_NESTING_DEPTH \<Longrightarrow> fits d (VObject m) \<longleftrightarrow>
     length m \<le> unat MAX_OBJECT_KEYS \<and> bt_ok m \<and>
     (\<forall>(k, v) \<in> set m. utf8_valid k \<and> length k \<le> unat MAX_BLOB_LEN \<and> fits (Suc d) v)"
  using height_object_le [of m "MAX_NESTING_DEPTH - d"]
  by (fastforce simp: fits_def le_diff_conv2)

lemma decode_scalar:
  assumes "decode_recursive d c = Inr (v, r)" "read_u8 c = Inr (tag, c1)" "tag \<noteq> 6" "tag \<noteq> 7"
  shows "fits d v \<and> suffix r c1"
  using assms
  by (auto simp: decode_recursive.simps [of d] bind_res_eq_Inr fits_def Let_def
      intro: suffix_order.trans suffix_drop
      split: if_splits option.splits dest!: read_InrD)

lemma decode_fits:
  "decode_recursive d c = Inr (v, r) \<Longrightarrow> fits d v \<and> strict_suffix r c"
  "decode_items d n c = Inr (vs, r) \<Longrightarrow>
     length vs = n \<and> (\<forall>v \<in> set vs. fits d v) \<and> suffix r c"
  "decode_entries d n m c = Inr (m', r) \<Longrightarrow> bt_ok m \<Longrightarrow>
     (\<forall>(k, v) \<in> set m. utf8_valid k \<and> length k \<le> unat MAX_BLOB_LEN \<and> fits d v) \<Longrightarrow>
     bt_ok m' \<and> length m' \<le> n + length m \<and> suffix r c \<and>
     (\<forall>(k, v) \<in> set m'. utf8_valid k \<and> length k \<le> unat MAX_BLOB_LEN \<and> fits d v)"
proof (induction d c and d n c and d n m c arbitrary: v r and vs r and m' r
    rule: decode_recursive_decode_items_decode_entries.induct)
  case (1 d c)
  from "1.prems" obtain tag c1 where
    t: "\<not> MAX_NESTING_DEPTH < d" "read_u8 c = Inr (tag, c1)"
    by (auto simp: decode_recursive.simps [of d] bind_res_eq_Inr split: if_splits)
  then have c: "c = tag # c1" by (auto simp: read_u8_def split: list.splits)
  consider (arr) "tag = 6" | (obj) "tag = 7" | (scalar) "tag \<noteq> 6" "tag \<noteq> 7" by blast
  then have "fits d v \<and> suffix r c1"
  proof cases
    case arr
    with "1.prems" c t(1) obtain n c2 vs where s:
      "read_len MAX_ARRAY_LEN ArrayTooLong c1 = Inr (n, c2)"
      "decode_items (Suc d) n c2 = Inr (vs, r)" "v = VArray vs"
      by (auto simp: decode_array bind_res_eq_Inr)
    have "length vs = n \<and> (\<forall>v \<in> set vs. fits (Suc d) v) \<and> suffix r c2"
      using "1.IH"(1) [OF t refl _ _ _ _ _ _ arr s(1) refl s(2)] arr by simp
    with s read_len_InrD [OF s(1)] t(1) show ?thesis
      by (auto simp: fits_array intro: suffix_order.trans)
  next
    case obj
    with "1.prems" c t(1) obtain n c2 m where s:
      "read_len MAX_OBJECT_KEYS ObjectTooManyKeys c1 = Inr (n, c2)"
      "decode_entries (Suc d) n [] c2 = Inr (m, r)" "v = VObject m"
      by (auto simp: decode_object bind_res_eq_Inr)
    have "bt_ok m \<and> length m \<le> n \<and> suffix r c2 \<and>
      (\<forall>(k, v) \<in> set m. utf8_valid k \<and> length k \<le> unat MAX_BLOB_LEN \<and> fits (Suc d) v)"
      using "1.IH"(2) [OF t refl _ _ _ _ _ _ _ obj s(1) refl s(2)] obj by simp
    with s read_len_InrD [OF s(1)] t(1) show ?thesis
      by (auto simp: fits_object intro: suffix_order.trans)
  next
    case scalar
    with "1.prems" t(2) show ?thesis by (intro decode_scalar)
  qed
  then show ?case
    using read_u8_InrD [OF t(2)] by (blast intro: suffix_order.le_less_trans)
next
  case (2 d c)
  then show ?case by simp
next
  case (3 d n c)
  from "3.prems" obtain w c1 ws where
    "decode_recursive d c = Inr (w, c1)" "decode_items d n c1 = Inr (ws, r)" "vs = w # ws"
    by (auto simp: bind_res_eq_Inr)
  with "3.IH" show ?case
    by (fastforce intro: suffix_order.trans)
next
  case (4 d m c)
  then show ?case by simp
next
  case (5 d n m c)
  from "5.prems" obtain kl c1 k c2 w c3 where s:
    "read_len MAX_BLOB_LEN ObjectKeyTooLong c = Inr (kl, c1)"
    "read_string kl c1 = Inr (k, c2)"
    "decode_recursive d c2 = Inr (w, c3)"
    "decode_entries d n (bt_insert k w m) c3 = Inr (m', r)"
    by (auto simp: bind_res_eq_Inr)
  have w: "fits d w" "strict_suffix c3 c2"
    using "5.IH"(1) s by auto
  have k: "utf8_valid k" "length k \<le> unat MAX_BLOB_LEN" "suffix c2 c"
    using read_InrD(6) [OF s(2)] read_InrD(7) [OF s(1)] by (auto intro: suffix_order.trans)
  have "bt_ok m' \<and> length m' \<le> n + length (bt_insert k w m) \<and> suffix r c3 \<and>
     (\<forall>(k, v) \<in> set m'. utf8_valid k \<and> length k \<le> unat MAX_BLOB_LEN \<and> fits d v)"
    using "5.IH"(2) [OF s(1) _ s(2) _ s(3) _ s(4)] "5.prems" k w
    by (simp add: ball_bt_insert_pair)
  then show ?case
    using length_bt_insert [of k w m] w k
    by (auto intro: suffix_order.trans suffix_order.less_imp_le)
qed

interpretation value_codec: prefix_codec encode "decode_recursive 0" "fits 0"
  using decodes_at_wf by unfold_locales (auto simp: decodes_at_def fits_def)

lemma doc_decode_append:
  "doc_decode (doc_encode d @ rest) =
     bind_res (decode_recursive 0 (encode (doc_value d) @ rest))
       (\<lambda>(v, _). Inr \<lparr>key = key d, doc_value = v\<rparr>)"
  by (simp add: doc_decode_def doc_encode_def)

lemma length_doc_encode: "length (doc_encode d) = doc_encoded_size d"
  by (simp add: doc_encode_def doc_encoded_size_def length_encode)

lemma encoded_size_pos: "1 \<le> encoded_size v"
  by (cases v) auto

section \<open>Properties\<close>

text \<open>
  C1. Decoding inverts encoding. For every well-formed value, at any nesting depth and with any
  bytes after it, \<^verbatim>\<open>decode_recursive\<close> returns exactly that value and leaves exactly those bytes
  when the nesting limit permits it, and otherwise fails with the nesting error. In particular
  a value nested more than 64 levels deep is encoded without complaint but never decoded.
\<close>

theorem decode_encode_roundtrip:
  assumes "wf_value v"
  shows "decode_recursive d (encode v @ rest) =
    (if d + height v \<le> MAX_NESTING_DEPTH then Inr (v, rest)
     else Inl (Err (Codec NestingDepth)))"
  using decodes_at_wf [OF assms] by (simp add: decodes_at_def)

theorem decode_encode_roundtrip_witness:
  "wf_value (VObject [([97], VArray [VInteger 5, VNull]), ([98], VString [104, 105])])
   \<and> decode_recursive 0
       (encode (VObject [([97], VArray [VInteger 5, VNull]), ([98], VString [104, 105])]) @ [7])
     = Inr (VObject [([97], VArray [VInteger 5, VNull]), ([98], VString [104, 105])], [7])"
proof -
  let ?v = "VObject [([97], VArray [VInteger 5, VNull]), ([98], VString [104, 105])]"
  have "wf_value ?v" by (simp add: bt_ok_def)
  moreover have "0 + height ?v \<le> MAX_NESTING_DEPTH" by (simp add: MAX_NESTING_DEPTH_def)
  ultimately show ?thesis
    using decode_encode_roundtrip [of ?v 0 "[7]"] by simp
qed

text \<open>
  C2. Whatever bytes it is given, a decoder that returns a value returns a well-formed one:
  every string is UTF-8, every object has strictly increasing keys, no size limit and no nesting
  limit is exceeded.
\<close>

theorem decode_well_formed:
  assumes "decode data = Inr v"
  shows "wf_value v \<and> height v \<le> MAX_NESTING_DEPTH"
proof -
  from assms obtain r where "decode_recursive 0 data = Inr (v, r)"
    by (auto simp: decode_def bind_res_eq_Inr)
  then show ?thesis using decode_fits(1) by (fastforce simp: fits_def)
qed

theorem decode_well_formed_witness:
  "decode [6, 1, 0, 0, 0, 1, 9] = Inr (VArray [VBool True]) \<and> wf_value (VArray [VBool True])"
proof -
  have "decode [6, 1, 0, 0, 0, 1, 9] = Inr (VArray [VBool True])"
    by code_simp
  with decode_well_formed [OF this] show ?thesis by simp
qed

text \<open>
  \<^verbatim>\<open>encoded_size\<close> is the exact length of the encoding of a value and of a document, so the
  buffers that the code reserves from it are never reallocated and never too large.
\<close>

theorem encoded_size_exact:
  "length (encode v) = encoded_size v \<and> length (doc_encode d) = doc_encoded_size d"
  by (simp add: length_encode length_doc_encode)

text \<open>
  A stored document reads back: its key and value are recovered from its encoding, and two
  documents with the same encoding are equal.
\<close>

theorem document_roundtrip:
  assumes "wf_value (doc_value d)" and "height (doc_value d) \<le> MAX_NESTING_DEPTH"
    and "wf_value (doc_value d')" and "height (doc_value d') \<le> MAX_NESTING_DEPTH"
  shows "doc_decode (doc_encode d @ rest) = Inr d \<and> (doc_encode d = doc_encode d' \<longrightarrow> d = d')"
proof -
  have dec: "doc_decode (doc_encode e @ r) = Inr e"
    if "wf_value (doc_value e)" "height (doc_value e) \<le> MAX_NESTING_DEPTH" for e :: document and r
    using value_codec.dec_enc [of "doc_value e" r] that by (simp add: doc_decode_append fits_def)
  from dec [OF assms(1,2), of "[]"] dec [OF assms(3,4), of "[]"]
  have "doc_encode d = doc_encode d' \<Longrightarrow> d = d'" by simp
  with dec [OF assms(1,2)] show ?thesis by simp
qed

theorem document_roundtrip_witness:
  "doc_decode (doc_encode \<lparr>key = 5, doc_value = VBool True\<rparr> @ [0])
     = Inr \<lparr>key = 5, doc_value = VBool True\<rparr>"
  using document_roundtrip [of "\<lparr>key = 5, doc_value = VBool True\<rparr>"
      "\<lparr>key = 5, doc_value = VBool True\<rparr>" "[0]"] by simp

end
