(* ===== verification/Crdt_Merge.thy ===== *)
theory Crdt_Merge
  imports Document_Codec "HOL-Library.FSet" "HOL-Library.Countable"
begin

text \<open>
  Merging replicated values: \<^verbatim>\<open>src/src/document/crdt.rs\<close>. The three set-like payloads are JSON; their
  parser and printer are those of \<^verbatim>\<open>serde_json\<close>, which are parameters (the record \<open>json\<close>). What is
  relied on is \<open>json_ok\<close>: printing a payload whose strings are UTF-8, as every Rust string is,
  succeeds and parsing the output returns the payload.
\<close>

datatype crdt_error =
    InvalidLength crdt_kind nat | InvalidJson crdt_kind | EncodeFailed crdt_kind
  | LeftNotCrdt | RightNotCrdt | KindMismatch crdt_kind crdt_kind

datatype lww_set = LwwSetPayload (lww_adds: "(bytes, u64) btreemap") (lww_rems: "(bytes, u64) btreemap")

datatype or_set = OrSetPayload (or_adds: "(bytes, bytes fset) btreemap") (or_rems: "(bytes, bytes fset) btreemap")

datatype mvr = MvrPayload (mvr_values: "bytes fset")

instance lww_set :: countable
  by countable_datatype

instance or_set :: countable
  by countable_datatype

instance mvr :: countable
  by countable_datatype

record json =
  parse_lww :: "bytes \<Rightarrow> lww_set option"
  print_lww :: "lww_set \<Rightarrow> bytes option"
  parse_or :: "bytes \<Rightarrow> or_set option"
  print_or :: "or_set \<Rightarrow> bytes option"
  parse_mvr :: "bytes \<Rightarrow> mvr option"
  print_mvr :: "mvr \<Rightarrow> bytes option"

definition decode_u64 :: "bytes \<Rightarrow> crdt_kind \<Rightarrow> crdt_error + u64" where
  "decode_u64 bs kind =
     (if length bs \<noteq> 8 then Inl (InvalidLength kind (length bs)) else Inr (of_le bs))"

definition decode_pn :: "bytes \<Rightarrow> crdt_error + u64 \<times> u64" where
  "decode_pn bs =
     (if length bs \<noteq> 16 then Inl (InvalidLength PNCounter (length bs))
      else Inr (of_le (slice 0 8 bs), of_le (slice 8 8 bs)))"

definition merge_max_u64_maps :: "(bytes, u64) btreemap \<Rightarrow> (bytes, u64) btreemap \<Rightarrow> (bytes, u64) btreemap" where
  "merge_max_u64_maps left right = bt_merge max left right"

definition merge_set_maps ::
  "(bytes, bytes fset) btreemap \<Rightarrow> (bytes, bytes fset) btreemap \<Rightarrow> (bytes, bytes fset) btreemap" where
  "merge_set_maps left right = bt_merge (|\<union>|) left right"

definition decode_payload :: "(bytes \<Rightarrow> 'a option) \<Rightarrow> bytes \<Rightarrow> crdt_kind \<Rightarrow> crdt_error + 'a" where
  "decode_payload parse bs kind =
     (case parse bs of None \<Rightarrow> Inl (InvalidJson kind) | Some x \<Rightarrow> Inr x)"

definition encode_payload :: "('a \<Rightarrow> bytes option) \<Rightarrow> 'a \<Rightarrow> crdt_kind \<Rightarrow> crdt_error + bytes" where
  "encode_payload print x kind =
     (case print x of None \<Rightarrow> Inl (EncodeFailed kind) | Some bs \<Rightarrow> Inr bs)"

fun lww_merge :: "lww_set \<Rightarrow> lww_set \<Rightarrow> lww_set" where
  "lww_merge (LwwSetPayload la lr) (LwwSetPayload ra rr) =
     LwwSetPayload (merge_max_u64_maps la ra) (merge_max_u64_maps lr rr)"

fun or_merge :: "or_set \<Rightarrow> or_set \<Rightarrow> or_set" where
  "or_merge (OrSetPayload la lr) (OrSetPayload ra rr) =
     OrSetPayload (merge_set_maps la ra) (merge_set_maps lr rr)"

fun mvr_merge :: "mvr \<Rightarrow> mvr \<Rightarrow> mvr" where
  "mvr_merge (MvrPayload l) (MvrPayload r) = MvrPayload (l |\<union>| r)"

definition merge_lwwset :: "json \<Rightarrow> bytes \<Rightarrow> bytes \<Rightarrow> crdt_error + bytes" where
  "merge_lwwset j left right =
     bind_res (decode_payload (parse_lww j) left LwwSet) (\<lambda>left.
     bind_res (decode_payload (parse_lww j) right LwwSet) (\<lambda>right.
       encode_payload (print_lww j) (lww_merge left right) LwwSet))"

definition merge_orset :: "json \<Rightarrow> bytes \<Rightarrow> bytes \<Rightarrow> crdt_error + bytes" where
  "merge_orset j left right =
     bind_res (decode_payload (parse_or j) left OrSet) (\<lambda>left.
     bind_res (decode_payload (parse_or j) right OrSet) (\<lambda>right.
       encode_payload (print_or j) (or_merge left right) OrSet))"

definition merge_mvr :: "json \<Rightarrow> bytes \<Rightarrow> bytes \<Rightarrow> crdt_error + bytes" where
  "merge_mvr j left right =
     bind_res (decode_payload (parse_mvr j) left Mvr) (\<lambda>left.
     bind_res (decode_payload (parse_mvr j) right Mvr) (\<lambda>right.
       encode_payload (print_mvr j) (mvr_merge left right) Mvr))"

fun merge_payload :: "json \<Rightarrow> crdt_kind \<Rightarrow> bytes \<Rightarrow> bytes \<Rightarrow> crdt_error + bytes" where
  "merge_payload j GCounter left right =
     bind_res (decode_u64 left GCounter) (\<lambda>l.
     bind_res (decode_u64 right GCounter) (\<lambda>r.
       Inr (to_le (max l r))))"
| "merge_payload j PNCounter left right =
     bind_res (decode_pn left) (\<lambda>(lp, ln).
     bind_res (decode_pn right) (\<lambda>(rp, rn).
       Inr (to_le (max lp rp) @ to_le (max ln rn))))"
| "merge_payload j LwwSet left right = merge_lwwset j left right"
| "merge_payload j OrSet left right = merge_orset j left right"
| "merge_payload j Mvr left right = merge_mvr j left right"

definition merge_values :: "json \<Rightarrow> grumpy_value \<Rightarrow> grumpy_value \<Rightarrow> crdt_error + grumpy_value" where
  "merge_values j left right =
     (case as_crdt left of
        None \<Rightarrow> Inl LeftNotCrdt
      | Some (left_kind, left_payload) \<Rightarrow>
          (case as_crdt right of
             None \<Rightarrow> Inl RightNotCrdt
           | Some (right_kind, right_payload) \<Rightarrow>
               if left_kind \<noteq> right_kind then Inl (KindMismatch left_kind right_kind)
               else bind_res (merge_payload j left_kind left_payload right_payload)
                      (\<lambda>merged. Inr (VCrdt left_kind merged))))"

section \<open>Semilattices of payloads\<close>

text \<open>The payloads a Rust program can hold: ordered maps and sets of strings, which are UTF-8.\<close>

definition text_keys :: "(bytes, 'v) btreemap \<Rightarrow> bool" where
  "text_keys m \<longleftrightarrow> bt_ok m \<and> (\<forall>e \<in> fst ` set m. utf8_valid e)"

definition text_sets :: "(bytes, bytes fset) btreemap \<Rightarrow> bool" where
  "text_sets m \<longleftrightarrow> text_keys m \<and> (\<forall>ts \<in> snd ` set m. \<forall>t \<in> fset ts. utf8_valid t)"

definition lww_ok :: "lww_set \<Rightarrow> bool" where
  "lww_ok x \<longleftrightarrow> text_keys (lww_adds x) \<and> text_keys (lww_rems x)"

definition or_ok :: "or_set \<Rightarrow> bool" where
  "or_ok x \<longleftrightarrow> text_sets (or_adds x) \<and> text_sets (or_rems x)"

definition mvr_ok :: "mvr \<Rightarrow> bool" where
  "mvr_ok x \<longleftrightarrow> (\<forall>v \<in> fset (mvr_values x). utf8_valid v)"

lemma text_keys_get: "text_keys m \<longleftrightarrow> bt_ok m \<and> (\<forall>k v. map_of m k = Some v \<longrightarrow> utf8_valid k)"
  using bt_ok_distinct [of m] by (fastforce simp: text_keys_def map_of_eq_Some_iff)

lemma text_sets_get:
  "text_sets m \<longleftrightarrow> text_keys m \<and> (\<forall>k ts. map_of m k = Some ts \<longrightarrow> (\<forall>t \<in> fset ts. utf8_valid t))"
  using bt_ok_distinct [of m] by (fastforce simp: text_sets_def text_keys_def map_of_eq_Some_iff)

lemma text_keys_ok: "text_keys m \<Longrightarrow> bt_ok m"
  by (simp add: text_keys_def)

lemma text_sets_ok: "text_sets m \<Longrightarrow> bt_ok m"
  by (simp add: text_sets_def text_keys_def)

lemma text_keys_merge: "text_keys a \<Longrightarrow> text_keys b \<Longrightarrow> text_keys (bt_merge f a b)"
  by (auto simp: text_keys_get bt_ok_merge bt_get_merge combine_option_def split: option.splits)

lemma text_sets_merge: "text_sets a \<Longrightarrow> text_sets b \<Longrightarrow> text_sets (bt_merge (|\<union>|) a b)"
  unfolding text_sets_get using text_keys_merge [of a b "(|\<union>|)"] text_keys_ok [of b]
  by (auto simp: bt_get_merge combine_option_def split: option.splits)

interpretation u64_maps: merge_semilattice merge_max_u64_maps bt_ok
  unfolding merge_max_u64_maps_def [abs_def]
  using max_map.maps.merge_semilattice_axioms by (simp add: bt_all_def [abs_def])

interpretation union_map: map_merge "(|\<union>|) :: 'a fset \<Rightarrow> 'a fset \<Rightarrow> 'a fset" "\<lambda>_. True"
  by unfold_locales (simp_all add: ac_simps)

interpretation set_maps: merge_semilattice merge_set_maps bt_ok
  unfolding merge_set_maps_def [abs_def]
  using union_map.maps.merge_semilattice_axioms by (simp add: bt_all_def [abs_def])

interpretation lww_sets: merge_semilattice lww_merge lww_ok
proof unfold_locales
  fix a b c assume a: "lww_ok a"
  show "lww_merge a a = a" using a by (cases a) (simp add: lww_ok_def u64_maps.merge_idem text_keys_ok)
  assume b: "lww_ok b"
  show "lww_ok (lww_merge a b)"
    using a b by (cases a; cases b) (simp add: lww_ok_def merge_max_u64_maps_def text_keys_merge)
  show "lww_merge a b = lww_merge b a"
    using a b by (cases a; cases b) (simp add: lww_ok_def u64_maps.merge_comm text_keys_ok)
  assume c: "lww_ok c"
  show "lww_merge (lww_merge a b) c = lww_merge a (lww_merge b c)"
    using a b c by (cases a; cases b; cases c) (simp add: lww_ok_def u64_maps.merge_assoc text_keys_ok)
qed

interpretation or_sets: merge_semilattice or_merge or_ok
proof unfold_locales
  fix a b c assume a: "or_ok a"
  show "or_merge a a = a" using a by (cases a) (simp add: or_ok_def set_maps.merge_idem text_sets_ok)
  assume b: "or_ok b"
  show "or_ok (or_merge a b)"
    using a b by (cases a; cases b) (simp add: or_ok_def merge_set_maps_def text_sets_merge)
  show "or_merge a b = or_merge b a"
    using a b by (cases a; cases b) (simp add: or_ok_def set_maps.merge_comm text_sets_ok)
  assume c: "or_ok c"
  show "or_merge (or_merge a b) c = or_merge a (or_merge b c)"
    using a b c by (cases a; cases b; cases c) (simp add: or_ok_def set_maps.merge_assoc text_sets_ok)
qed

interpretation mvrs: merge_semilattice mvr_merge mvr_ok
proof unfold_locales
  fix a b c
  show "mvr_ok a \<Longrightarrow> mvr_ok b \<Longrightarrow> mvr_ok (mvr_merge a b)" by (cases a; cases b) (auto simp: mvr_ok_def)
  show "mvr_merge a a = a" by (cases a) simp
  show "mvr_merge a b = mvr_merge b a" by (cases a; cases b) (simp add: ac_simps)
  show "mvr_merge (mvr_merge a b) c = mvr_merge a (mvr_merge b c)"
    by (cases a; cases b; cases c) (simp add: ac_simps)
qed

fun pn_merge :: "u64 \<times> u64 \<Rightarrow> u64 \<times> u64 \<Rightarrow> u64 \<times> u64" where
  "pn_merge (lp, ln) (rp, rn) = (max lp rp, max ln rn)"

interpretation pn_counters: merge_semilattice pn_merge "\<lambda>_. True"
  by unfold_locales (auto simp: ac_simps)

section \<open>Merging payloads\<close>

text \<open>All payloads a replica receives, merged into its own one after the other.\<close>

fun merge_all :: "('b \<Rightarrow> 'b \<Rightarrow> 'e + 'b) \<Rightarrow> 'b \<Rightarrow> 'b list \<Rightarrow> 'e + 'b" where
  "merge_all merge a [] = Inr a"
| "merge_all merge a (x # xs) = bind_res (merge a x) (\<lambda>a. merge_all merge a xs)"

text \<open>Two folds over the same elements agree, wherever they start.\<close>

context merge_semilattice
begin

lemma folds_agree:
  assumes "\<forall>x \<in> insert a (set xs). ok x" "insert a (set xs) = insert b (set ys)"
  shows "foldl merge a xs = foldl merge b ys"
proof -
  have ok: "ok a" "ok b" "\<forall>x \<in> set xs. ok x" "\<forall>x \<in> set ys. ok x" using assms by auto
  let ?x = "foldl merge a xs" and ?y = "foldl merge b ys"
  have oks: "ok ?x" "ok ?y" using merge_all_ok ok by simp_all
  have "absorbed z ?y" if "z \<in> insert b (set ys)" for z
    using that ok foldl_start [of ys b] foldl_member [of ys b] by auto
  then have "absorbed ?x ?y" using assms(2) ok oks by (intro foldl_least) auto
  moreover have "absorbed z ?x" if "z \<in> insert a (set xs)" for z
    using that ok foldl_start [of xs a] foldl_member [of xs a] by auto
  then have "absorbed ?y ?x" using assms(2) ok oks by (intro foldl_least) auto
  ultimately show ?thesis using merge_comm [OF oks] by simp
qed

end

text \<open>
  A replicated type whose states travel as payloads: \<open>enc\<close> writes a state, \<open>pmerge\<close> merges two, and
  \<open>facts\<close> reads what a state records; a merge records what either side does.
\<close>

locale merge_codec = merge_semilattice merge ok
  for merge :: "'s \<Rightarrow> 's \<Rightarrow> 's" and ok :: "'s \<Rightarrow> bool" +
  fixes enc :: "'s \<Rightarrow> 'b"
    and dec :: "'b \<Rightarrow> 's"
    and pmerge :: "'b \<Rightarrow> 'b \<Rightarrow> 'e + 'b"
    and facts :: "'s \<Rightarrow> 'f set"
  assumes dec_enc: "ok x \<Longrightarrow> dec (enc x) = x"
    and pmerge_enc: "ok x \<Longrightarrow> ok y \<Longrightarrow> pmerge (enc x) (enc y) = Inr (enc (merge x y))"
    and facts_merge: "ok x \<Longrightarrow> ok y \<Longrightarrow> facts (merge x y) = facts x \<union> facts y"
begin

lemma merge_all_enc:
  "ok a \<Longrightarrow> \<forall>x \<in> set xs. ok x \<Longrightarrow> merge_all pmerge (enc a) (map enc xs) = Inr (enc (foldl merge a xs))"
  by (induction xs arbitrary: a) (auto simp: pmerge_enc merge_ok)

lemma facts_all:
  "ok a \<Longrightarrow> \<forall>x \<in> set xs. ok x \<Longrightarrow> facts (foldl merge a xs) = (\<Union>x \<in> insert a (set xs). facts x)"
  by (induction xs arbitrary: a) (auto simp: facts_merge merge_ok)

lemma payload_convergence:
  assumes "insert p (set ps) \<subseteq> enc ` {x. ok x}" and "insert p (set ps) = insert q (set qs)"
  shows "\<exists>r \<in> enc ` {x. ok x}. merge_all pmerge p ps = Inr r \<and> merge_all pmerge q qs = Inr r
    \<and> facts (dec r) = (\<Union>b \<in> insert p (set ps). facts (dec b))"
proof -
  have inv: "b \<in> enc ` {x. ok x} \<Longrightarrow> ok (dec b) \<and> enc (dec b) = b" for b by (auto simp: dec_enc)
  have ps: "map enc (map dec ps) = ps" "\<forall>x \<in> set (map dec ps). ok x"
    using assms(1) inv by (auto intro!: map_idI)
  have qs: "map enc (map dec qs) = qs" "\<forall>x \<in> set (map dec qs). ok x"
    using assms inv by (auto intro!: map_idI)
  have p: "ok (dec p)" "enc (dec p) = p" using inv [of p] assms(1) by auto
  have q: "ok (dec q)" "enc (dec q) = q" using inv [of q] assms by auto
  define r where "r = foldl merge (dec p) (map dec ps)"
  have "insert (dec p) (set (map dec ps)) = insert (dec q) (set (map dec qs))"
    using arg_cong [OF assms(2), of "(`) dec"] by simp
  then have "r = foldl merge (dec q) (map dec qs)"
    unfolding r_def using p(1) ps(2) by (intro folds_agree) blast+
  then have "merge_all pmerge p ps = Inr (enc r)" "merge_all pmerge q qs = Inr (enc r)"
    using merge_all_enc [OF p(1) ps(2)] merge_all_enc [OF q(1) qs(2)]
    by (simp_all only: ps(1) qs(1) p(2) q(2) r_def)
  moreover have r: "ok r" using merge_all_ok [OF ps(2) p(1)] by (simp add: r_def)
  moreover have "facts r = (\<Union>b \<in> insert p (set ps). facts (dec b))"
    using facts_all [OF p(1) ps(2)] by (simp add: r_def)
  ultimately show ?thesis using dec_enc [OF r] by (intro bexI [of _ "enc r"]) simp_all
qed

end

definition json_ok :: "json \<Rightarrow> bool" where
  "json_ok j \<longleftrightarrow>
     (\<forall>x. lww_ok x \<longrightarrow> (\<exists>b. print_lww j x = Some b \<and> parse_lww j b = Some x))
     \<and> (\<forall>x. or_ok x \<longrightarrow> (\<exists>b. print_or j x = Some b \<and> parse_or j b = Some x))
     \<and> (\<forall>x. mvr_ok x \<longrightarrow> (\<exists>b. print_mvr j x = Some b \<and> parse_mvr j b = Some x))"

text \<open>The payloads of a kind that a replica can hold: those its codec writes.\<close>

fun payloads :: "json \<Rightarrow> crdt_kind \<Rightarrow> bytes set" where
  "payloads j GCounter = (to_le :: u64 \<Rightarrow> bytes) ` UNIV"
| "payloads j PNCounter = (\<lambda>(p, n). to_le (p :: u64) @ to_le (n :: u64)) ` UNIV"
| "payloads j LwwSet = (\<lambda>x. the (print_lww j x)) ` {x. lww_ok x}"
| "payloads j OrSet = (\<lambda>x. the (print_or j x)) ` {x. or_ok x}"
| "payloads j Mvr = (\<lambda>x. the (print_mvr j x)) ` {x. mvr_ok x}"

section \<open>What a payload records\<close>

text \<open>
  The contents of a payload as a set of elementary facts: a counter has reached every number up to
  its value (\<open>True\<close> for increments, \<open>False\<close> for decrements), an element was added or removed at every
  time up to its timestamp (\<open>True\<close> for additions, \<open>False\<close> for removals), an element is listed among
  the additions or removals, with a tag, and a register holds a value.
\<close>

datatype crdt_fact =
    Reached bool u64
  | Stamped bool bytes u64
  | Listed bool bytes
  | Tagged bool bytes bytes
  | Holds bytes

definition reached :: "bool \<Rightarrow> u64 \<Rightarrow> crdt_fact set" where
  "reached side n = {Reached side m |m. m \<le> n}"

definition stamped :: "bool \<Rightarrow> (bytes, u64) btreemap \<Rightarrow> crdt_fact set" where
  "stamped side m = {Stamped side e t |e t u. map_of m e = Some u \<and> t \<le> u}"

definition tagged :: "bool \<Rightarrow> (bytes, bytes fset) btreemap \<Rightarrow> crdt_fact set" where
  "tagged side m =
     {Listed side e |e ts. map_of m e = Some ts} \<union> {Tagged side e t |e t ts. map_of m e = Some ts \<and> t |\<in>| ts}"

definition lww_facts :: "lww_set \<Rightarrow> crdt_fact set" where
  "lww_facts x = stamped True (lww_adds x) \<union> stamped False (lww_rems x)"

definition or_facts :: "or_set \<Rightarrow> crdt_fact set" where
  "or_facts x = tagged True (or_adds x) \<union> tagged False (or_rems x)"

definition mvr_facts :: "mvr \<Rightarrow> crdt_fact set" where
  "mvr_facts x = Holds ` fset (mvr_values x)"

fun crdt_facts :: "json \<Rightarrow> crdt_kind \<Rightarrow> bytes \<Rightarrow> crdt_fact set" where
  "crdt_facts j GCounter b = reached True (of_le b)"
| "crdt_facts j PNCounter b = reached True (of_le (slice 0 8 b)) \<union> reached False (of_le (slice 8 8 b))"
| "crdt_facts j LwwSet b = lww_facts (the (parse_lww j b))"
| "crdt_facts j OrSet b = or_facts (the (parse_or j b))"
| "crdt_facts j Mvr b = mvr_facts (the (parse_mvr j b))"

lemma reached_max: "reached side (max m n) = reached side m \<union> reached side n"
  by (auto simp: reached_def le_max_iff_disj)

lemma stamped_pointwise: "stamped side m = (\<Union>e. case map_of m e of None \<Rightarrow> {} | Some u \<Rightarrow> Stamped side e ` {..u})"
  by (fastforce simp: stamped_def split: option.splits)

lemma tagged_pointwise:
  "tagged side m = (\<Union>e. case map_of m e of None \<Rightarrow> {} | Some ts \<Rightarrow> insert (Listed side e) (Tagged side e ` fset ts))"
  by (fastforce simp: tagged_def split: option.splits)

lemma stamped_merge: "bt_ok b \<Longrightarrow> stamped side (merge_max_u64_maps a b) = stamped side a \<union> stamped side b"
  unfolding stamped_pointwise UN_Un_distrib [symmetric] merge_max_u64_maps_def
  by (intro SUP_cong refl) (auto simp: bt_get_merge combine_option_def le_max_iff_disj split: option.splits)

lemma tagged_merge: "bt_ok b \<Longrightarrow> tagged side (merge_set_maps a b) = tagged side a \<union> tagged side b"
  unfolding tagged_pointwise UN_Un_distrib [symmetric] merge_set_maps_def
  by (intro SUP_cong refl) (auto simp: bt_get_merge combine_option_def split: option.splits)

lemma lww_facts_merge: "lww_ok x \<Longrightarrow> lww_ok y \<Longrightarrow> lww_facts (lww_merge x y) = lww_facts x \<union> lww_facts y"
  by (cases x; cases y) (auto simp: lww_facts_def lww_ok_def stamped_merge text_keys_ok)

lemma or_facts_merge: "or_ok x \<Longrightarrow> or_ok y \<Longrightarrow> or_facts (or_merge x y) = or_facts x \<union> or_facts y"
  by (cases x; cases y) (auto simp: or_facts_def or_ok_def tagged_merge text_sets_ok)

lemma mvr_facts_merge: "mvr_facts (mvr_merge x y) = mvr_facts x \<union> mvr_facts y"
  by (cases x; cases y) (auto simp: mvr_facts_def)

section \<open>Every kind is a replicated type\<close>

interpretation gcounter: merge_codec max "\<lambda>_ :: u64. True" to_le of_le "merge_payload j GCounter" "reached True"
  by unfold_locales (simp_all add: decode_u64_def reached_max)

interpretation pncounter: merge_codec pn_merge "\<lambda>_. True"
  "\<lambda>(p, n). to_le (p :: u64) @ to_le (n :: u64)"
  "\<lambda>b. (of_le (slice 0 8 b), of_le (slice 8 8 b))" "merge_payload j PNCounter"
  "\<lambda>(p, n). reached True p \<union> reached False n"
  by unfold_locales (auto simp: decode_pn_def slice_def reached_max)

interpretation lwwset: merge_codec lww_merge "\<lambda>x. json_ok j \<and> lww_ok x"
  "\<lambda>x. the (print_lww j x)" "\<lambda>b. the (parse_lww j b)" "merge_payload j LwwSet" lww_facts
proof unfold_locales
  fix x y :: lww_set
  have rt: "json_ok j \<and> lww_ok x \<Longrightarrow> \<exists>b. print_lww j x = Some b \<and> parse_lww j b = Some x" for x
    by (simp add: json_ok_def)
  show "json_ok j \<and> lww_ok x \<Longrightarrow> the (parse_lww j (the (print_lww j x))) = x" using rt [of x] by auto
  show "json_ok j \<and> lww_ok x \<Longrightarrow> json_ok j \<and> lww_ok y \<Longrightarrow>
      merge_payload j LwwSet (the (print_lww j x)) (the (print_lww j y)) = Inr (the (print_lww j (lww_merge x y)))"
    using rt [of x] rt [of y] rt [of "lww_merge x y"] lww_sets.merge_ok [of x y]
    by (auto simp: merge_lwwset_def decode_payload_def encode_payload_def)
qed (auto simp: lww_sets.merge_ok lww_sets.merge_idem lww_sets.merge_assoc lww_facts_merge intro: lww_sets.merge_comm)

interpretation orset: merge_codec or_merge "\<lambda>x. json_ok j \<and> or_ok x"
  "\<lambda>x. the (print_or j x)" "\<lambda>b. the (parse_or j b)" "merge_payload j OrSet" or_facts
proof unfold_locales
  fix x y :: or_set
  have rt: "json_ok j \<and> or_ok x \<Longrightarrow> \<exists>b. print_or j x = Some b \<and> parse_or j b = Some x" for x
    by (simp add: json_ok_def)
  show "json_ok j \<and> or_ok x \<Longrightarrow> the (parse_or j (the (print_or j x))) = x" using rt [of x] by auto
  show "json_ok j \<and> or_ok x \<Longrightarrow> json_ok j \<and> or_ok y \<Longrightarrow>
      merge_payload j OrSet (the (print_or j x)) (the (print_or j y)) = Inr (the (print_or j (or_merge x y)))"
    using rt [of x] rt [of y] rt [of "or_merge x y"] or_sets.merge_ok [of x y]
    by (auto simp: merge_orset_def decode_payload_def encode_payload_def)
qed (auto simp: or_sets.merge_ok or_sets.merge_idem or_sets.merge_assoc or_facts_merge intro: or_sets.merge_comm)

interpretation mvr: merge_codec mvr_merge "\<lambda>x. json_ok j \<and> mvr_ok x"
  "\<lambda>x. the (print_mvr j x)" "\<lambda>b. the (parse_mvr j b)" "merge_payload j Mvr" mvr_facts
proof unfold_locales
  fix x y :: mvr
  have rt: "json_ok j \<and> mvr_ok x \<Longrightarrow> \<exists>b. print_mvr j x = Some b \<and> parse_mvr j b = Some x" for x
    by (simp add: json_ok_def)
  show "json_ok j \<and> mvr_ok x \<Longrightarrow> the (parse_mvr j (the (print_mvr j x))) = x" using rt [of x] by auto
  show "json_ok j \<and> mvr_ok x \<Longrightarrow> json_ok j \<and> mvr_ok y \<Longrightarrow>
      merge_payload j Mvr (the (print_mvr j x)) (the (print_mvr j y)) = Inr (the (print_mvr j (mvr_merge x y)))"
    using rt [of x] rt [of y] rt [of "mvr_merge x y"] mvrs.merge_ok [of x y]
    by (auto simp: merge_mvr_def decode_payload_def encode_payload_def)
qed (auto simp: mvrs.merge_ok mvrs.merge_idem mvrs.merge_assoc mvr_facts_merge intro: mvrs.merge_comm)

lemma merge_payload_convergence:
  assumes j: "json_ok j" and xs: "insert a (set xs) \<subseteq> payloads j k" and eq: "insert a (set xs) = insert b (set ys)"
  shows "\<exists>r \<in> payloads j k. merge_all (merge_payload j k) a xs = Inr r \<and> merge_all (merge_payload j k) b ys = Inr r
    \<and> crdt_facts j k r = (\<Union>p \<in> insert a (set xs). crdt_facts j k p)"
proof (cases k)
  case GCounter
  then show ?thesis using gcounter.payload_convergence [of a xs b ys j] assms by simp
next
  case PNCounter
  then show ?thesis using pncounter.payload_convergence [of a xs b ys j] assms by simp
next
  case LwwSet
  then show ?thesis using lwwset.payload_convergence [of a xs j b ys] assms by simp
next
  case OrSet
  then show ?thesis using orset.payload_convergence [of a xs j b ys] assms by simp
next
  case Mvr
  then show ?thesis using mvr.payload_convergence [of a xs j b ys] assms by simp
qed

text \<open>
  A concrete codec with the property \<open>json_ok\<close>: a payload is written as a run of zero bytes whose
  length is its number in an enumeration of all payloads.
\<close>

definition unary_json :: json where
  "unary_json =
     \<lparr>parse_lww = (\<lambda>b. Some (from_nat (length b))), print_lww = (\<lambda>x. Some (replicate (to_nat x) 0)),
      parse_or = (\<lambda>b. Some (from_nat (length b))), print_or = (\<lambda>x. Some (replicate (to_nat x) 0)),
      parse_mvr = (\<lambda>b. Some (from_nat (length b))), print_mvr = (\<lambda>x. Some (replicate (to_nat x) 0))\<rparr>"

lemma json_ok_unary: "json_ok unary_json"
  by (simp add: json_ok_def unary_json_def)

lemma merge_all_values:
  "merge_all (merge_values j) (VCrdt k a) (map (VCrdt k) xs)
     = bind_res (merge_all (merge_payload j k) a xs) (\<lambda>r. Inr (VCrdt k r))"
proof (induction xs arbitrary: a)
  case Nil
  then show ?case by simp
next
  case (Cons x xs)
  then show ?case by (cases "merge_payload j k a x") (simp_all add: merge_values_def)
qed

section \<open>Properties\<close>

text \<open>
  C13. Replicas converge and lose nothing. Take two replicas of a value that start from different
  payloads and merge what they receive, such that in the end both have seen the same payloads, in
  whatever order and however often each arrived. For every kind of replicated value no merge fails,
  both replicas end with the same bytes, and that payload records exactly what the payloads
  together record: the larger count of each direction, the latest timestamp of each addition and
  removal, every tag, every value.
\<close>

theorem crdt_convergence:
  assumes "json_ok j" and "insert a (set xs) \<subseteq> payloads j k" and "insert a (set xs) = insert b (set ys)"
  shows "\<exists>r. merge_all (merge_values j) (VCrdt k a) (map (VCrdt k) xs) = Inr (VCrdt k r)
    \<and> merge_all (merge_values j) (VCrdt k b) (map (VCrdt k) ys) = Inr (VCrdt k r)
    \<and> crdt_facts j k r = (\<Union>p \<in> insert a (set xs). crdt_facts j k p)"
  using merge_payload_convergence [OF assms] by (auto simp: merge_all_values)

text \<open>Two replicas of a set, one with a tagged element and one with its removal, exchange their states.\<close>

definition demo_or :: "or_set \<Rightarrow> bytes" where
  "demo_or x = the (print_or unary_json x)"

theorem crdt_convergence_witness:
  "\<exists>r. merge_all (merge_values unary_json)
        (VCrdt OrSet (demo_or (OrSetPayload [([7], {|[1]|})] []))) [VCrdt OrSet (demo_or (OrSetPayload [] [([7], {|[1]|})]))]
      = Inr (VCrdt OrSet r)
    \<and> merge_all (merge_values unary_json)
        (VCrdt OrSet (demo_or (OrSetPayload [] [([7], {|[1]|})]))) [VCrdt OrSet (demo_or (OrSetPayload [([7], {|[1]|})] []))]
      = Inr (VCrdt OrSet r)
    \<and> Tagged True [7] [1] \<in> crdt_facts unary_json OrSet r \<and> Tagged False [7] [1] \<in> crdt_facts unary_json OrSet r"
proof -
  define a where "a = OrSetPayload [([7], {|[1]|})] []"
  define b where "b = OrSetPayload [] [([7], {|[1]|})]"
  have in_p: "or_ok x \<Longrightarrow> demo_or x \<in> payloads unary_json OrSet" for x
    by (auto simp: demo_or_def)
  have ok: "or_ok a" "or_ok b" by (simp_all add: a_def b_def or_ok_def text_sets_def text_keys_def)
  have read_back: "crdt_facts unary_json OrSet (demo_or x) = or_facts x" for x
    by (simp add: demo_or_def unary_json_def)
  have facts: "Tagged True [7] [1] \<in> or_facts a" "Tagged False [7] [1] \<in> or_facts b"
    by (auto simp: a_def b_def or_facts_def tagged_def)
  have held: "insert (demo_or a) (set [demo_or b]) \<subseteq> payloads unary_json OrSet"
    using in_p [OF ok(1)] in_p [OF ok(2)] by (simp del: payloads.simps)
  have same: "insert (demo_or a) (set [demo_or b]) = insert (demo_or b) (set [demo_or a])" by auto
  obtain r where r:
      "merge_all (merge_values unary_json) (VCrdt OrSet (demo_or a)) (map (VCrdt OrSet) [demo_or b]) = Inr (VCrdt OrSet r)"
      "merge_all (merge_values unary_json) (VCrdt OrSet (demo_or b)) (map (VCrdt OrSet) [demo_or a]) = Inr (VCrdt OrSet r)"
      "crdt_facts unary_json OrSet r = (\<Union>p \<in> insert (demo_or a) (set [demo_or b]). crdt_facts unary_json OrSet p)"
    using crdt_convergence [OF json_ok_unary held same] by (elim exE conjE) (rule that)
  have "crdt_facts unary_json OrSet r = or_facts a \<union> or_facts b"
    unfolding r(3) by (simp only: list.set UN_insert UN_empty Un_empty_right read_back)
  then have "Tagged True [7] [1] \<in> crdt_facts unary_json OrSet r" "Tagged False [7] [1] \<in> crdt_facts unary_json OrSet r"
    using facts by simp_all
  then show ?thesis using r(1,2) unfolding a_def b_def list.map by (intro exI [of _ r] conjI)
qed

text \<open>
  Counters keep the larger total, not the sum of the increments: two replicas that start
  from the same count and increment it by \<open>m\<close> and \<open>n\<close> merge to the count plus the larger of
  the two. Concurrent increments are lost.
\<close>

theorem gcounter_merge_keeps_larger:
  fixes x m n :: u64
  assumes "unat x + unat m < 2 ^ 64" and "unat x + unat n < 2 ^ 64"
  shows "merge_payload j GCounter (to_le (x + m)) (to_le (x + n)) = Inr (to_le (x + max m n))"
proof -
  have "unat (x + m) = unat x + unat m" "unat (x + n) = unat x + unat n"
    using assms by (simp_all add: unat_add_lem [symmetric])
  then have "x + m \<le> x + n \<longleftrightarrow> m \<le> n" by (simp add: word_le_nat_alt)
  then have "max (x + m) (x + n) = x + max m n" by (simp add: max_def)
  then show ?thesis using gcounter.pmerge_enc [where x = "x + m" and y = "x + n" and j = j] by simp
qed

theorem gcounter_merge_keeps_larger_witness:
  "merge_payload unary_json GCounter (to_le (10 + 1 :: u64)) (to_le (10 + 2 :: u64)) = Inr (to_le (12 :: u64))"
  using gcounter_merge_keeps_larger [of 10 1 2 unary_json] by simp

end
