(* ===== verification/Page_Layout.thy ===== *)
theory Page_Layout
  imports Grumpy_Prelude
begin

text \<open>
  Pages: \<^verbatim>\<open>src/src/page/mod.rs\<close>. A page is a buffer of 8192 bytes whose first 32 bytes are the
  header. The CRC-32 of \<^verbatim>\<open>crc32fast\<close> is a parameter \<open>crc\<close> of the definitions that use it; its
  hasher is fed in pieces and returns the checksum of their concatenation.
\<close>

definition PAGE_SIZE :: nat where "PAGE_SIZE = 8192"
definition PAGE_HEADER_SIZE :: nat where "PAGE_HEADER_SIZE = 32"
definition PAGE_USABLE_SPACE :: nat where "PAGE_USABLE_SPACE = PAGE_SIZE - PAGE_HEADER_SIZE"
definition SLOT_SIZE :: nat where "SLOT_SIZE = 4"
definition OVERFLOW_MARKER :: byte where "OVERFLOW_MARKER = 255"

lemmas page_consts = PAGE_SIZE_def PAGE_HEADER_SIZE_def PAGE_USABLE_SPACE_def SLOT_SIZE_def

type_synonym page = bytes

definition page_ok :: "page \<Rightarrow> bool" where
  "page_ok buf \<longleftrightarrow> length buf = PAGE_SIZE"

definition zero_page :: page where
  "zero_page = replicate PAGE_SIZE 0"

datatype page_type = Free | Data | BTreeInternal | BTreeLeaf | Overflow | FreeList

definition page_type_from_u8 :: "byte \<Rightarrow> page_type option" where
  "page_type_from_u8 v =
     (if v = 0 then Some Free
      else if v = 1 then Some Data
      else if v = 2 then Some BTreeInternal
      else if v = 3 then Some BTreeLeaf
      else if v = 4 then Some Overflow
      else if v = 5 then Some FreeList
      else None)"

fun page_type_u8 :: "page_type \<Rightarrow> byte" where
  "page_type_u8 Free = 0"
| "page_type_u8 Data = 1"
| "page_type_u8 BTreeInternal = 2"
| "page_type_u8 BTreeLeaf = 3"
| "page_type_u8 Overflow = 4"
| "page_type_u8 FreeList = 5"

record page_header =
  hd_page_id :: u32
  hd_page_type :: page_type
  hd_flags :: byte
  hd_num_slots :: u16
  hd_free_space_start :: u16
  hd_free_space_end :: u16
  hd_next_page_id :: u32
  hd_prev_page_id :: u32
  hd_lsn :: u64
  hd_checksum :: u32

definition header_new :: "u32 \<Rightarrow> page_type \<Rightarrow> page_header" where
  "header_new page_id ptype =
     \<lparr>hd_page_id = page_id, hd_page_type = ptype, hd_flags = 0, hd_num_slots = 0,
      hd_free_space_start = word_of_nat PAGE_HEADER_SIZE,
      hd_free_space_end = word_of_nat PAGE_SIZE,
      hd_next_page_id = 0, hd_prev_page_id = 0, hd_lsn = 0, hd_checksum = 0\<rparr>"

definition header_bytes :: "page_header \<Rightarrow> bytes" where
  "header_bytes h =
     to_le (hd_page_id h) @ [page_type_u8 (hd_page_type h)] @ [hd_flags h]
     @ to_le (hd_num_slots h) @ to_le (hd_free_space_start h) @ to_le (hd_free_space_end h)
     @ to_le (hd_next_page_id h) @ to_le (hd_prev_page_id h) @ to_le (hd_lsn h)
     @ to_le (hd_checksum h)"

text \<open>The ten consecutive stores of \<^verbatim>\<open>write_to\<close> fill bytes 0 to 31.\<close>

definition header_write_to :: "page_header \<Rightarrow> page \<Rightarrow> page" where
  "header_write_to h buf =
     blit 28 (to_le (hd_checksum h)) (blit 20 (to_le (hd_lsn h))
     (blit 16 (to_le (hd_prev_page_id h)) (blit 12 (to_le (hd_next_page_id h))
     (blit 10 (to_le (hd_free_space_end h)) (blit 8 (to_le (hd_free_space_start h))
     (blit 6 (to_le (hd_num_slots h)) (blit 5 [hd_flags h]
     (blit 4 [page_type_u8 (hd_page_type h)] (blit 0 (to_le (hd_page_id h)) buf)))))))))"

definition header_read_from :: "page \<Rightarrow> page_header" where
  "header_read_from buf =
     \<lparr>hd_page_id = of_le (slice 0 4 buf),
      hd_page_type = (case page_type_from_u8 (buf ! 4) of None \<Rightarrow> Free | Some t \<Rightarrow> t),
      hd_flags = buf ! 5,
      hd_num_slots = of_le (slice 6 2 buf),
      hd_free_space_start = of_le (slice 8 2 buf),
      hd_free_space_end = of_le (slice 10 2 buf),
      hd_next_page_id = of_le (slice 12 4 buf),
      hd_prev_page_id = of_le (slice 16 4 buf),
      hd_lsn = of_le (slice 20 8 buf),
      hd_checksum = of_le (slice 28 4 buf)\<rparr>"

section \<open>Checksums\<close>

definition compute_checksum :: "(bytes \<Rightarrow> u32) \<Rightarrow> page \<Rightarrow> u32" where
  "compute_checksum crc buf = crc (slice 0 28 buf @ drop 32 buf)"

definition stamp_checksum :: "(bytes \<Rightarrow> u32) \<Rightarrow> page \<Rightarrow> page" where
  "stamp_checksum crc buf = blit 28 (to_le (compute_checksum crc buf)) buf"

definition verify_checksum :: "(bytes \<Rightarrow> u32) \<Rightarrow> page \<Rightarrow> u32 \<Rightarrow> unit result" where
  "verify_checksum crc buf page_id =
     (let stored = of_le (slice 28 4 buf) in
      if stored = 0 then Inr ()
      else
        (let computed = compute_checksum crc buf in
         if stored \<noteq> computed then Inl (Err (ChecksumMismatch page_id stored computed))
         else Inr ()))"

section \<open>Lemmas\<close>

lemma page_type_roundtrip [simp]: "page_type_from_u8 (page_type_u8 t) = Some t"
  by (cases t) (simp_all add: page_type_from_u8_def)

lemma page_ok_zero [simp]: "page_ok zero_page"
  by (simp add: page_ok_def zero_page_def)

lemma length_header_bytes [simp]: "length (header_bytes h) = 32"
  by (simp add: header_bytes_def)

lemma blit_blit_adjacent:
  assumes "j = i + length xs" and "j + length ys \<le> length buf"
  shows "blit j ys (blit i xs buf) = blit i (xs @ ys) buf"
  using assms by (simp add: blit_def add.commute add.left_commute)

lemma header_write_to_blit:
  assumes "page_ok buf"
  shows "header_write_to h buf = blit 0 (header_bytes h) buf"
  using assms by (simp add: header_write_to_def header_bytes_def blit_blit_adjacent page_ok_def
      page_consts)

lemma page_ok_header_write_to [simp]: "page_ok buf \<Longrightarrow> page_ok (header_write_to h buf)"
  by (simp add: header_write_to_blit) (simp add: page_ok_def page_consts)

text \<open>The body of a page, everything after the header, is what a header write keeps.\<close>

lemma slice_header_write_to [buf_simps]:
  "page_ok buf \<Longrightarrow> 32 \<le> i \<Longrightarrow> i + n \<le> PAGE_SIZE \<Longrightarrow>
     slice i n (header_write_to h buf) = slice i n buf"
  by (simp add: header_write_to_blit)
    (simp add: page_ok_def slice_blit_other page_consts)

lemma drop_header_write_to:
  "page_ok buf \<Longrightarrow> drop 32 (header_write_to h buf) = drop 32 buf"
  by (simp add: header_write_to_blit blit_def)

lemma header_read_write:
  assumes "page_ok buf"
  shows "header_read_from (header_write_to h buf) = h"
proof -
  have len: "length buf = 8192" using assms by (simp add: page_ok_def page_consts)
  show ?thesis
    unfolding header_read_from_def header_write_to_def
    by (simp add: slice_blit_same slice_blit_other nth_blit len)
qed

lemma header_read_blit_body:
  assumes "page_ok buf" and "32 \<le> i" and "i + length xs \<le> PAGE_SIZE"
  shows "header_read_from (blit i xs buf) = header_read_from buf"
  using assms unfolding header_read_from_def
  by (simp add: slice_blit_other nth_blit_other page_ok_def page_consts)

lemma page_ok_blit [simp]:
  "page_ok buf \<Longrightarrow> i + length xs \<le> PAGE_SIZE \<Longrightarrow> page_ok (blit i xs buf)"
  by (simp add: page_ok_def)

lemma page_ok_stamp [simp]: "page_ok buf \<Longrightarrow> page_ok (stamp_checksum crc buf)"
  by (simp add: stamp_checksum_def page_ok_def page_consts)

lemma compute_checksum_stamp:
  assumes "page_ok buf"
  shows "compute_checksum crc (stamp_checksum crc buf) = compute_checksum crc buf"
proof -
  have "slice 0 28 (stamp_checksum crc buf) = slice 0 28 buf"
    using assms by (simp add: stamp_checksum_def slice_blit_other page_ok_def page_consts)
  moreover have "drop 32 (stamp_checksum crc buf) = drop 32 buf"
    using assms by (simp add: stamp_checksum_def blit_def page_ok_def page_consts)
  ultimately show ?thesis by (simp add: compute_checksum_def)
qed

lemma stored_checksum_stamp:
  "page_ok buf \<Longrightarrow> of_le (slice 28 4 (stamp_checksum crc buf)) = compute_checksum crc buf"
  by (simp add: stamp_checksum_def slice_blit_same page_ok_def page_consts)

lemma verify_stamp: "page_ok buf \<Longrightarrow> verify_checksum crc (stamp_checksum crc buf) pid = Inr ()"
  by (simp add: verify_checksum_def Let_def stored_checksum_stamp compute_checksum_stamp)

lemma header_read_stamp:
  assumes "page_ok buf"
  shows "header_read_from (stamp_checksum crc buf) =
    (header_read_from buf)\<lparr>hd_checksum := compute_checksum crc buf\<rparr>"
  using assms unfolding header_read_from_def stamp_checksum_def
  by (simp add: slice_blit_other slice_blit_same nth_blit_other page_ok_def page_consts)

lemma slice_stamp_body [buf_simps]:
  "page_ok buf \<Longrightarrow> 32 \<le> i \<Longrightarrow> i + n \<le> PAGE_SIZE \<Longrightarrow>
     slice i n (stamp_checksum crc buf) = slice i n buf"
  by (simp add: stamp_checksum_def slice_blit_other page_ok_def page_consts)

lemma drop_stamp: "page_ok buf \<Longrightarrow> 32 \<le> i \<Longrightarrow> drop i (stamp_checksum crc buf) = drop i buf"
  by (simp add: stamp_checksum_def blit_def page_ok_def page_consts)

section \<open>Properties\<close>

text \<open>
  The page header survives its page: reading it back from the bytes \<^verbatim>\<open>write_to\<close> produced
  returns the same ten fields, whatever the page held before, and no byte after the header
  changes.
\<close>

theorem page_header_roundtrip:
  assumes "page_ok buf"
  shows "header_read_from (header_write_to h buf) = h
    \<and> drop PAGE_HEADER_SIZE (header_write_to h buf) = drop PAGE_HEADER_SIZE buf"
  using assms by (simp add: header_read_write drop_header_write_to PAGE_HEADER_SIZE_def)

theorem page_header_roundtrip_witness:
  "header_read_from (header_write_to (header_new 7 Overflow) zero_page) = header_new 7 Overflow"
  using page_header_roundtrip [of zero_page "header_new 7 Overflow"] by simp

text \<open>
  C3. Checksums. A stamped page always verifies. A page with a non-zero stored checksum
  verifies only if that checksum is the one of its contents, so a stamped page whose contents
  then change is rejected unless the CRC of the new contents is the same or the stored
  checksum is zero (such pages count as never stamped and are not verified at all).
\<close>

theorem checksum_detects_corruption:
  assumes "page_ok buf" and "page_ok buf'"
    and "slice 28 4 buf' = slice 28 4 (stamp_checksum crc buf)"
  shows "verify_checksum crc (stamp_checksum crc buf) pid = Inr ()
    \<and> (verify_checksum crc buf' pid = Inr () \<longleftrightarrow>
         compute_checksum crc buf = 0 \<or> compute_checksum crc buf' = compute_checksum crc buf)"
proof -
  have "of_le (slice 28 4 buf') = compute_checksum crc buf"
    using assms by (simp add: stored_checksum_stamp)
  then show ?thesis
    using verify_stamp [OF assms(1)] by (auto simp: verify_checksum_def Let_def)
qed

theorem checksum_detects_corruption_witness:
  "verify_checksum (\<lambda>bs. if last bs = 0 then 1 else 2)
     (blit 8191 [9] (stamp_checksum (\<lambda>bs. if last bs = 0 then 1 else 2) zero_page)) 3 \<noteq> Inr ()"
proof -
  let ?crc = "\<lambda>bs :: bytes. if last bs = 0 then (1 :: u32) else 2"
  let ?bad = "blit 8191 [9] (stamp_checksum ?crc zero_page)"
  have len: "length (stamp_checksum ?crc zero_page) = 8192"
    using page_ok_stamp [OF page_ok_zero] by (simp add: page_ok_def page_consts)
  have bad: "page_ok ?bad" by (simp add: page_consts)
  have s: "slice 28 4 ?bad = slice 28 4 (stamp_checksum ?crc zero_page)"
    by (simp add: slice_blit_other len)
  have "compute_checksum ?crc zero_page = 1"
    by (simp add: compute_checksum_def zero_page_def page_consts)
  moreover have "last (drop 32 ?bad) = 9"
    by (simp add: last_conv_nth len nth_blit)
  then have "compute_checksum ?crc ?bad = 2"
    using len by (simp add: compute_checksum_def)
  ultimately show ?thesis
    using checksum_detects_corruption [OF page_ok_zero bad s, of 3] by simp
qed

end
