(* ===== verification/Clocks.thy ===== *)
theory Clocks
  imports Grumpy_Prelude
begin

text \<open>
  Logical time: the hybrid logical clock of \<^verbatim>\<open>src/src/wal/hlc.rs\<close>, the vector clocks of
  \<^verbatim>\<open>src/src/wal/vclock.rs\<close> and the applied set of \<^verbatim>\<open>src/src/wal/applied_set.rs\<close>. The wall clock is an
  argument of the operations that read it. The mutex around the clock state makes each call one
  step, which is how the calls are modelled. The hyphenated text of a node id, by which the
  applied set is keyed, comes from the \<^verbatim>\<open>uuid\<close> crate and is a parameter.
\<close>

unbundle bit_operations_syntax

section \<open>Hybrid logical clock\<close>

type_synonym hlc = u64

definition PHYSICAL_BITS :: nat where "PHYSICAL_BITS = 48"
definition LOGICAL_BITS :: nat where "LOGICAL_BITS = 16"
definition LOGICAL_MASK :: u64 where "LOGICAL_MASK = push_bit LOGICAL_BITS 1 - 1"

definition hlc_pack :: "u64 \<Rightarrow> u16 \<Rightarrow> hlc" where
  "hlc_pack physical logical =
     (let phys = physical AND (push_bit PHYSICAL_BITS 1 - 1)
      in push_bit LOGICAL_BITS phys OR ucast logical)"

definition physical_ms :: "hlc \<Rightarrow> u64" where
  "physical_ms h = drop_bit LOGICAL_BITS h"

definition logical :: "hlc \<Rightarrow> u16" where
  "logical h = ucast (h AND LOGICAL_MASK)"

record hlc_clock =
  hlc_state :: hlc
  max_skew_ms :: u64

definition DEFAULT_MAX_SKEW_MS :: u64 where "DEFAULT_MAX_SKEW_MS = 60 * 60 * 1000"

definition with_max_skew :: "u64 \<Rightarrow> (hlc_error + u64) \<Rightarrow> hlc_clock" where
  "with_max_skew skew wall_now =
     \<lparr>hlc_state = hlc_pack (case wall_now of Inl _ \<Rightarrow> 0 | Inr w \<Rightarrow> w) 0, max_skew_ms = skew\<rparr>"

definition checked_add1 :: "u16 \<Rightarrow> u16 option" where
  "checked_add1 x = (if x = 0xFFFF then None else Some (x + 1))"

definition hlc_now :: "(hlc_error + u64) \<Rightarrow> hlc_clock \<Rightarrow> hlc_clock \<times> (hlc_error + hlc)" where
  "hlc_now wall_now c =
     (case wall_now of
        Inl e \<Rightarrow> (c, Inl e)
      | Inr wall \<Rightarrow>
          (let prev_phys = physical_ms (hlc_state c);
               prev_log = logical (hlc_state c)
           in if wall > prev_phys then
                (let nxt = hlc_pack wall 0 in (c\<lparr>hlc_state := nxt\<rparr>, Inr nxt))
              else
                (case checked_add1 prev_log of
                   None \<Rightarrow> (c, Inl (LogicalOverflow prev_phys))
                 | Some new_log \<Rightarrow>
                     (let nxt = hlc_pack prev_phys new_log
                      in (c\<lparr>hlc_state := nxt\<rparr>, Inr nxt)))))"

definition hlc_update ::
  "hlc \<Rightarrow> (hlc_error + u64) \<Rightarrow> hlc_clock \<Rightarrow> hlc_clock \<times> (hlc_error + hlc)" where
  "hlc_update remote wall_now c =
     (case wall_now of
        Inl e \<Rightarrow> (c, Inl e)
      | Inr wall \<Rightarrow>
          if physical_ms remote > wall + max_skew_ms c then
            (c, Inl (SkewExceeded (physical_ms remote - wall) (max_skew_ms c)))
          else
            (let prev_phys = physical_ms (hlc_state c);
                 prev_log = logical (hlc_state c);
                 rem_phys = physical_ms remote;
                 rem_log = logical remote;
                 new_phys = max (max wall prev_phys) rem_phys;
                 new_log =
                   (if new_phys = prev_phys \<and> new_phys = rem_phys then
                      checked_add1 (max prev_log rem_log)
                    else if new_phys = prev_phys then checked_add1 prev_log
                    else if new_phys = rem_phys then checked_add1 rem_log
                    else Some 0)
             in case new_log of
                  None \<Rightarrow> (c, Inl (LogicalOverflow new_phys))
                | Some l \<Rightarrow>
                    (let nxt = hlc_pack new_phys l in (c\<lparr>hlc_state := nxt\<rparr>, Inr nxt))))"

text \<open>Any sequence of calls on one clock, with the results of the calls that succeed.\<close>

datatype hlc_call = Now "hlc_error + u64" | Update hlc "hlc_error + u64"

fun run_hlc_call :: "hlc_call \<Rightarrow> hlc_clock \<Rightarrow> hlc_clock \<times> (hlc_error + hlc)" where
  "run_hlc_call (Now wall) c = hlc_now wall c"
| "run_hlc_call (Update remote wall) c = hlc_update remote wall c"


fun hlc_results :: "hlc_call list \<Rightarrow> hlc_clock \<Rightarrow> hlc list" where
  "hlc_results [] c = []"
| "hlc_results (k # ks) c =
     (case run_hlc_call k c of
        (c', Inl _) \<Rightarrow> hlc_results ks c'
      | (c', Inr h) \<Rightarrow> h # hlc_results ks c')"

text \<open>The wall clock shows a time that fits the 48 bits of the physical part.\<close>

definition wall_ok :: "hlc_error + u64 \<Rightarrow> bool" where
  "wall_ok wall \<longleftrightarrow> (case wall of Inl _ \<Rightarrow> True | Inr w \<Rightarrow> unat w < 2 ^ 48)"

fun call_ok :: "hlc_call \<Rightarrow> bool" where
  "call_ok (Now wall) = wall_ok wall"
| "call_ok (Update remote wall) = wall_ok wall"

lemma unat_hlc_pack: "unat (hlc_pack p l) = (unat p mod 2 ^ 48) * 65536 + unat l"
proof -
  have m: "push_bit PHYSICAL_BITS 1 - 1 = (mask 48 :: u64)"
    by (simp add: PHYSICAL_BITS_def mask_eq_exp_minus_1)
  define x where "x = take_bit 48 p"
  have x: "unat x = unat p mod 2 ^ 48"
    by (simp add: x_def unsigned_take_bit_eq) (simp add: take_bit_eq_mod)
  then have xl: "unat x < 2 ^ 48" by simp
  have "hlc_pack p l = push_bit 16 x OR ucast l"
    by (simp only: hlc_pack_def Let_def m take_bit_eq_mask [symmetric] x_def LOGICAL_BITS_def)
  also have "\<dots> = push_bit 16 x + ucast l"
  proof (rule disjunctive_add [symmetric])
    fix n
    show "\<not> bit (push_bit 16 x) n \<or> \<not> bit (ucast l :: u64) n"
      by (cases "n < 16") (auto simp: bit_push_bit_iff bit_ucast_iff dest: bit_imp_le_length)
  qed
  finally have pk: "hlc_pack p l = push_bit 16 x + ucast l" .
  have a: "unat (push_bit 16 x) = unat x * 65536"
    using xl by (simp only: unsigned_push_bit_eq) (simp add: push_bit_eq_mult take_bit_eq_mod)
  have l16: "unat l < 2 ^ 16" using unsigned_less [of l, where 'a = nat] by simp
  then have l: "unat (ucast l :: u64) = unat l" by (simp add: unsigned_ucast_eq take_bit_eq_mod)
  from l16 have "unat (push_bit 16 x + ucast l :: u64) = unat x * 65536 + unat l"
    using a l xl by (subst unat_add_lem [THEN iffD1]) simp_all
  then show ?thesis by (simp only: pk x)
qed

lemma unat_physical_ms: "unat (physical_ms h) = unat h div 65536"
  by (simp only: physical_ms_def LOGICAL_BITS_def unat_drop_bit_eq) (simp add: drop_bit_eq_div)

lemma unat_logical: "unat (logical h) = unat h mod 65536"
proof -
  have "LOGICAL_MASK = mask 16" by (simp add: LOGICAL_MASK_def LOGICAL_BITS_def mask_eq_exp_minus_1)
  then have "h AND LOGICAL_MASK = take_bit 16 h" by (simp only: take_bit_eq_mask)
  then show ?thesis
    by (simp only: logical_def unsigned_ucast_eq unsigned_take_bit_eq) (simp add: take_bit_eq_mod)
qed

lemma physical_ms_less: "unat (physical_ms h) < 2 ^ 48"
  using unsigned_less [of h, where 'a = nat] by (simp add: unat_physical_ms)

lemma checked_add1_Some: "checked_add1 x = Some y \<Longrightarrow> unat y = Suc (unat x)"
proof -
  assume "checked_add1 x = Some y"
  then have y: "y = x + 1" and x: "x \<noteq> 0xFFFF" by (auto simp: checked_add1_def split: if_splits)
  have "unat x \<noteq> 65535" using x by (simp add: word_unat_eq_iff)
  moreover have "unat x < 65536" using unsigned_less [of x, where 'a = nat] by simp
  ultimately show ?thesis by (simp add: y unat_word_ariths)
qed

text \<open>The order of timestamps is that of their physical part, then of the logical one.\<close>

lemma hlc_less_iff:
  "h < h' \<longleftrightarrow> unat (physical_ms h) < unat (physical_ms h')
     \<or> physical_ms h = physical_ms h' \<and> unat (logical h) < unat (logical h')"
proof -
  have d: "unat h = unat h div 65536 * 65536 + unat h mod 65536"
    "unat h' = unat h' div 65536 * 65536 + unat h' mod 65536" by simp_all
  have "unat h mod 65536 < 65536" "unat h' mod 65536 < 65536" by simp_all
  then have "unat h < unat h' \<longleftrightarrow> unat h div 65536 < unat h' div 65536
     \<or> unat h div 65536 = unat h' div 65536 \<and> unat h mod 65536 < unat h' mod 65536"
    using d by linarith
  then show ?thesis by (simp add: word_less_nat_alt word_unat_eq_iff unat_physical_ms unat_logical)
qed

lemma physical_ms_pack: "unat p < 2 ^ 48 \<Longrightarrow> physical_ms (hlc_pack p l) = p"
  using unsigned_less [of l, where 'a = nat]
  by (simp add: word_unat_eq_iff unat_physical_ms unat_hlc_pack)

lemma logical_pack: "logical (hlc_pack p l) = l"
  using unsigned_less [of l, where 'a = nat]
  by (simp add: word_unat_eq_iff unat_logical unat_hlc_pack)

lemmas hlc_pack_parts = physical_ms_pack logical_pack

lemma hlc_now_advances:
  assumes "wall_ok wall" and "hlc_now wall c = (c', Inr h)"
  shows "hlc_state c' = h \<and> hlc_state c < h \<and> max_skew_ms c' = max_skew_ms c"
proof (cases wall)
  case (Inl e)
  then show ?thesis using assms by (simp add: hlc_now_def)
next
  case (Inr w)
  then have w: "unat w < 2 ^ 48" using assms(1) by (simp add: wall_ok_def)
  show ?thesis
  proof (cases "w > physical_ms (hlc_state c)")
    case True
    then show ?thesis
      using assms(2) Inr w hlc_less_iff [of "hlc_state c" h]
      by (auto simp: hlc_now_def Let_def hlc_pack_parts word_less_nat_alt)
  next
    case False
    with assms(2) Inr obtain l where l: "checked_add1 (logical (hlc_state c)) = Some l"
      and c: "h = hlc_pack (physical_ms (hlc_state c)) l" "c' = c\<lparr>hlc_state := h\<rparr>"
      by (auto simp: hlc_now_def Let_def split: option.splits)
    then show ?thesis
      using physical_ms_less [of "hlc_state c"] hlc_less_iff [of "hlc_state c" h]
      by (simp add: hlc_pack_parts checked_add1_Some)
  qed
qed

lemma hlc_update_advances:
  assumes "wall_ok wall" and "hlc_update remote wall c = (c', Inr h)"
  shows "hlc_state c' = h \<and> hlc_state c < h \<and> remote < h \<and> max_skew_ms c' = max_skew_ms c"
proof (cases wall)
  case (Inl e)
  then show ?thesis using assms by (simp add: hlc_update_def)
next
  case (Inr w)
  define pp where "pp = physical_ms (hlc_state c)"
  define rp where "rp = physical_ms remote"
  define np where "np = max (max w pp) rp"
  have w: "unat w < 2 ^ 48" using assms(1) Inr by (simp add: wall_ok_def)
  have np: "unat np < 2 ^ 48" "pp \<le> np" "rp \<le> np"
    using w physical_ms_less [of "hlc_state c"] physical_ms_less [of remote]
    by (auto simp: np_def pp_def rp_def max_def)
  define lg where "lg = (if np = pp \<and> np = rp then checked_add1 (max (logical (hlc_state c)) (logical remote))
      else if np = pp then checked_add1 (logical (hlc_state c))
      else if np = rp then checked_add1 (logical remote) else Some 0)"
  have "hlc_update remote wall c =
      (if rp > w + max_skew_ms c then (c, Inl (SkewExceeded (rp - w) (max_skew_ms c)))
       else case lg of None \<Rightarrow> (c, Inl (LogicalOverflow np))
         | Some l \<Rightarrow> (c\<lparr>hlc_state := hlc_pack np l\<rparr>, Inr (hlc_pack np l)))"
    unfolding hlc_update_def Inr sum.case Let_def lg_def np_def pp_def rp_def by (rule refl)
  with assms(2) obtain l where lg: "lg = Some l" and h: "h = hlc_pack np l"
    and c': "c' = c\<lparr>hlc_state := h\<rparr>"
    by (auto split: if_splits option.splits)
  note l = lg [unfolded lg_def]
  have parts: "physical_ms h = np" "logical h = l" using np(1) by (simp_all add: h hlc_pack_parts)
  have "hlc_state c < h"
    using l np parts hlc_less_iff [of "hlc_state c" h]
    by (auto simp: pp_def [symmetric] word_le_nat_alt word_unat_eq_iff max_def
        dest!: checked_add1_Some split: if_splits)
  moreover have "remote < h"
    using l np parts hlc_less_iff [of "remote" h]
    by (auto simp: rp_def [symmetric] word_le_nat_alt word_unat_eq_iff max_def
        dest!: checked_add1_Some split: if_splits)
  ultimately show ?thesis by (simp add: c')
qed

lemma hlc_call_error: "run_hlc_call k c = (c', Inl e) \<Longrightarrow> c' = c"
  by (cases k) (auto simp: hlc_now_def hlc_update_def Let_def split: sum.splits if_splits option.splits)


section \<open>Vector clocks\<close>

definition MAX_VCLOCK_ENTRIES :: u16 where "MAX_VCLOCK_ENTRIES = 4096"
definition VCLOCK_ENTRY_SIZE :: nat where "VCLOCK_ENTRY_SIZE = 16 + 8"

type_synonym vclock = "(u128, u64) btreemap"

datatype vclock_ordering = Equal | LessThan | GreaterThan | Concurrent

definition vc_singleton :: "u128 \<Rightarrow> u64 \<Rightarrow> vclock" where
  "vc_singleton node counter = bt_insert node counter []"

definition vc_get :: "vclock \<Rightarrow> u128 \<Rightarrow> u64" where
  "vc_get vc node = (case bt_get vc node of None \<Rightarrow> 0 | Some c \<Rightarrow> c)"

definition vc_set :: "u128 \<Rightarrow> u64 \<Rightarrow> vclock \<Rightarrow> vclock" where
  "vc_set node counter vc = bt_insert node counter vc"

definition saturating_add1 :: "u64 \<Rightarrow> u64" where
  "saturating_add1 x = (if x = 0xFFFFFFFFFFFFFFFF then x else x + 1)"

definition vc_bump :: "u128 \<Rightarrow> vclock \<Rightarrow> vclock \<times> u64" where
  "vc_bump node vc =
     (let entry = saturating_add1 (vc_get vc node) in (bt_insert node entry vc, entry))"

definition vc_merge :: "vclock \<Rightarrow> vclock \<Rightarrow> vclock" where
  "vc_merge self other =
     foldl (\<lambda>m (node, counter).
         let cur = vc_get m node in bt_insert node (if counter > cur then counter else cur) m)
       self other"

definition vc_compare :: "vclock \<Rightarrow> vclock \<Rightarrow> vclock_ordering" where
  "vc_compare self other =
     (let all_keys = sort (remdups (map fst self @ map fst other));
          (le, ge) = foldl (\<lambda>(le, ge) k.
              let a = vc_get self k; b = vc_get other k
              in (if a > b then False else le, if a < b then False else ge)) (True, True) all_keys
      in if le then (if ge then Equal else LessThan)
         else (if ge then GreaterThan else Concurrent))"

definition vc_encoded_len :: "vclock \<Rightarrow> nat" where
  "vc_encoded_len vc = 2 + length vc * VCLOCK_ENTRY_SIZE"

definition vc_entry_bytes :: "u128 \<times> u64 \<Rightarrow> bytes" where
  "vc_entry_bytes e = to_le (fst e) @ to_le (snd e)"

definition vc_encode :: "vclock \<Rightarrow> bytes" where
  "vc_encode vc = to_le (word_of_nat (length vc) :: u16) @ concat (map vc_entry_bytes vc)"

fun vc_read_entries :: "nat \<Rightarrow> nat \<Rightarrow> bytes \<Rightarrow> vclock \<Rightarrow> vclock" where
  "vc_read_entries 0 cur buf entries = entries"
| "vc_read_entries (Suc n) cur buf entries =
     (let node = of_le (slice cur 16 buf);
          counter = of_le (slice (cur + 16) 8 buf)
      in vc_read_entries n (cur + 16 + 8) buf (bt_insert node counter entries))"

definition vc_decode :: "bytes \<Rightarrow> vclock_error + vclock \<times> nat" where
  "vc_decode buf =
     (if length buf < 2 then Inl (Truncated 2 (length buf))
      else
        (let n = of_le (slice 0 2 buf) :: u16 in
         if n > MAX_VCLOCK_ENTRIES then Inl (TooManyEntries n)
         else
           (let total = 2 + unat n * VCLOCK_ENTRY_SIZE in
            if length buf < total then Inl (Truncated total (length buf))
            else Inr (vc_read_entries (unat n) 2 buf [], total))))"

subsection \<open>Order and merge\<close>

lemma vc_merge_eq: "vc_merge = bt_merge max"
proof -
  have "(let cur = vc_get m node in bt_insert node (if counter > cur then counter else cur) m)
      = bt_insert node (case bt_get m node of None \<Rightarrow> counter | Some u \<Rightarrow> max u counter) m"
    for m :: vclock and node counter
    by (cases "bt_get m node") (auto simp: vc_get_def max_def word_gt_0 Let_def)
  then show ?thesis by (simp add: fun_eq_iff vc_merge_def bt_merge_def)
qed

lemma vc_get_merge: "bt_ok b \<Longrightarrow> vc_get (vc_merge a b) k = max (vc_get a k) (vc_get b k)"
  by (simp add: vc_merge_eq vc_get_def bt_get_merge combine_option_def split: option.split)

interpretation vclocks: merge_semilattice vc_merge bt_ok
  unfolding vc_merge_eq
  using max_map.maps.merge_semilattice_axioms by (simp add: bt_all_def [abs_def])

lemma vc_get_absent: "k \<notin> fst ` set vc \<Longrightarrow> vc_get vc k = 0"
  by (simp add: vc_get_def map_of_eq_None_iff [THEN iffD2])

lemma compare_flags:
  "foldl (\<lambda>(le, ge) k. let a = f k; b = g k
      in (if a > b then False else le, if a < b then False else ge)) (l0, g0) ks
   = (l0 \<and> (\<forall>k \<in> set ks. f k \<le> (g k :: 'a::linorder)), g0 \<and> (\<forall>k \<in> set ks. g k \<le> f k))"
  by (induction ks arbitrary: l0 g0) (auto simp: Let_def)

lemma vc_compare_eq:
  "vc_compare a b =
     (if \<forall>k. vc_get a k \<le> vc_get b k then (if \<forall>k. vc_get b k \<le> vc_get a k then Equal else LessThan)
      else (if \<forall>k. vc_get b k \<le> vc_get a k then GreaterThan else Concurrent))"
proof -
  define ks where "ks = sort (remdups (map fst a @ map fst b))"
  have "k \<notin> set ks \<Longrightarrow> vc_get a k = 0 \<and> vc_get b k = 0" for k
    by (auto simp: ks_def intro!: vc_get_absent)
  then have "(\<forall>k \<in> set ks. vc_get a k \<le> vc_get b k) \<longleftrightarrow> (\<forall>k. vc_get a k \<le> vc_get b k)"
    "(\<forall>k \<in> set ks. vc_get b k \<le> vc_get a k) \<longleftrightarrow> (\<forall>k. vc_get b k \<le> vc_get a k)"
    by (metis order_refl)+
  then show ?thesis
    unfolding vc_compare_def ks_def [symmetric] compare_flags by simp
qed

subsection \<open>Codec\<close>

lemma length_vc_entry_bytes [simp]: "length (vc_entry_bytes e) = 24"
  by (simp add: vc_entry_bytes_def)

lemma length_concat_entries [simp]: "length (concat (map vc_entry_bytes vc)) = length vc * 24"
  by (induction vc) simp_all

lemma length_vc_encode: "length (vc_encode vc) = vc_encoded_len vc"
  by (simp add: vc_encode_def vc_encoded_len_def VCLOCK_ENTRY_SIZE_def)

lemma vc_read_entries_encode:
  assumes "bt_ok (acc @ vc)"
  shows "vc_read_entries (length vc) (length pre) (pre @ concat (map vc_entry_bytes vc) @ rest) acc
    = acc @ vc"
  using assms
proof (induction vc arbitrary: pre acc)
  case Nil
  then show ?case by simp
next
  case (Cons e vc)
  obtain node counter where e: "e = (node, counter)" by (cases e)
  let ?buf = "pre @ concat (map vc_entry_bytes (e # vc)) @ rest"
  have "slice (length pre) 16 ?buf = to_le node" "slice (length pre + 16) 8 ?buf = to_le counter"
    by (simp_all add: e vc_entry_bytes_def slice_def)
  moreover have "\<forall>k' \<in> fst ` set acc. k' < node"
    using Cons.prems by (auto simp: e bt_ok_def sorted_wrt_append)
  then have "bt_insert node counter acc = acc @ [e]" by (simp add: e bt_insert_last)
  ultimately show ?case
    using Cons.IH [of "acc @ [e]" "pre @ vc_entry_bytes e"] Cons.prems by (simp add: add.assoc)
qed

lemma vc_decode_encode:
  assumes "bt_ok vc" and "length vc < 2 ^ 16"
  shows "vc_decode (vc_encode vc @ rest) =
    (if length vc \<le> 4096 then Inr (vc, vc_encoded_len vc)
     else Inl (TooManyEntries (word_of_nat (length vc))))"
proof -
  define n where "n = (word_of_nat (length vc) :: u16)"
  have n: "unat n = length vc" using assms(2) by (simp add: n_def unat_of_nat_small)
  let ?buf = "vc_encode vc @ rest"
  have "slice 0 2 ?buf = to_le n" by (simp add: vc_encode_def n_def slice_def)
  moreover have "n > MAX_VCLOCK_ENTRIES \<longleftrightarrow> length vc > 4096"
    by (simp add: MAX_VCLOCK_ENTRIES_def word_less_nat_alt n)
  moreover have "vc_read_entries (length vc) 2 ?buf [] = vc"
    using vc_read_entries_encode [of "[]" vc "to_le n" rest] assms(1)
    by (simp add: vc_encode_def n_def)
  ultimately show ?thesis
    using length_vc_encode [of vc]
    by (simp add: vc_decode_def Let_def n vc_encoded_len_def n_def [symmetric])
qed

interpretation vclock_codec: prefix_codec vc_encode
  "\<lambda>buf. map_sum id (\<lambda>(vc, used). (vc, drop used buf)) (vc_decode buf)"
  "\<lambda>vc. bt_ok vc \<and> length vc \<le> 4096"
proof unfold_locales
  fix vc :: vclock and rest assume "bt_ok vc \<and> length vc \<le> 4096"
  then show "map_sum id (\<lambda>(vc', used). (vc', drop used (vc_encode vc @ rest))) (vc_decode (vc_encode vc @ rest))
      = Inr (vc, rest)"
    using vc_decode_encode [of vc rest] length_vc_encode [of vc] by simp
qed

lemma vc_decode_ok:
  assumes "vc_decode buf = Inr (vc, used)"
  shows "bt_ok vc \<and> used \<le> length buf \<and> length vc \<le> 4096"
proof -
  have "bt_ok acc \<Longrightarrow> bt_ok (vc_read_entries n cur buf acc)
      \<and> length (vc_read_entries n cur buf acc) \<le> n + length acc" for n cur acc
  proof (induction n cur buf acc rule: vc_read_entries.induct)
    case (2 n cur buf acc)
    have "length (bt_insert k v acc) \<le> Suc (length acc)" for k v by (rule length_bt_insert)
    then show ?case using 2 by (force simp: Let_def intro: order_trans)
  qed simp
  from this [of "[]" "unat (of_le (slice 0 2 buf) :: u16)" 2] show ?thesis
    using assms by (auto simp: vc_decode_def Let_def MAX_VCLOCK_ENTRIES_def word_le_nat_alt not_less
        split: if_splits)
qed

section \<open>Applied set\<close>

datatype observe_outcome = New | AlreadyApplied

record applied_set =
  last_applied :: "(bytes, u64) btreemap"
  schema_version :: u32

definition applied_default :: applied_set where
  "applied_default = \<lparr>last_applied = [], schema_version = 1\<rparr>"

definition observe :: "(u128 \<Rightarrow> bytes) \<Rightarrow> u128 \<Rightarrow> hlc \<Rightarrow> applied_set \<Rightarrow> applied_set \<times> observe_outcome" where
  "observe hyphenated origin hlc s =
     (let key = hyphenated origin;
          entry = (case bt_get (last_applied s) key of None \<Rightarrow> 0 | Some h \<Rightarrow> h)
      in if hlc > entry
         then (s\<lparr>last_applied := bt_insert key hlc (last_applied s)\<rparr>, New)
         else (s\<lparr>last_applied := bt_insert key entry (last_applied s)\<rparr>, AlreadyApplied))"

definition high_water :: "(u128 \<Rightarrow> bytes) \<Rightarrow> u128 \<Rightarrow> applied_set \<Rightarrow> hlc" where
  "high_water hyphenated origin s =
     (case bt_get (last_applied s) (hyphenated origin) of None \<Rightarrow> 0 | Some h \<Rightarrow> h)"

text \<open>A stream of records, and the ones it makes the replica apply.\<close>

fun apply_stream :: "(u128 \<Rightarrow> bytes) \<Rightarrow> (u128 \<times> hlc) list \<Rightarrow> applied_set \<Rightarrow> applied_set \<times> (u128 \<times> hlc) list" where
  "apply_stream hyph [] s = (s, [])"
| "apply_stream hyph ((origin, h) # rs) s =
     (case observe hyph origin h s of
        (s, New) \<Rightarrow> (let (s, applied) = apply_stream hyph rs s in (s, (origin, h) # applied))
      | (s, AlreadyApplied) \<Rightarrow> apply_stream hyph rs s)"

lemma high_water_observe:
  assumes "inj hyph"
  shows "high_water hyph o' (fst (observe hyph origin h s)) =
    (if o' = origin then max (high_water hyph origin s) h else high_water hyph o' s)"
  using assms
  by (auto simp: observe_def high_water_def Let_def bt_get_insert inj_eq max_def split: option.split)

lemma observe_outcome:
  "snd (observe hyph origin h s) = (if h > high_water hyph origin s then New else AlreadyApplied)"
  by (simp add: observe_def high_water_def Let_def)

lemma apply_stream_Cons:
  "apply_stream hyph ((origin, h) # rs) s =
     (let s' = fst (observe hyph origin h s); r = apply_stream hyph rs s' in
      if h > high_water hyph origin s then (fst r, (origin, h) # snd r) else r)"
  using observe_outcome [of hyph origin h s]
  by (cases "observe hyph origin h s") (auto simp: Let_def split_beta)

lemma high_water_stream:
  assumes "inj hyph"
  shows "high_water hyph origin (fst (apply_stream hyph rs s)) =
    foldl max (high_water hyph origin s) (map snd (filter (\<lambda>r. fst r = origin) rs))"
proof (induction rs arbitrary: s)
  case Nil
  then show ?case by simp
next
  case (Cons r rs)
  obtain o' h where "r = (o', h)" by (cases r)
  with Cons show ?case
    by (auto simp: apply_stream_Cons Let_def high_water_observe [OF assms] simp del: apply_stream.simps(2))
qed


section \<open>Properties\<close>

text \<open>
  C10. Hybrid time is monotone. On one clock, for any sequence of local events and received
  timestamps, the timestamps returned by the calls that succeed are strictly increasing and
  all greater than the clock's initial state, even when the wall clock stalls or goes back.
\<close>

theorem hlc_strictly_monotone:
  assumes "\<forall>k \<in> set ks. call_ok k"
  shows "sorted_wrt (<) (hlc_state c # hlc_results ks c)"
  using assms
proof (induction ks arbitrary: c)
  case Nil
  then show ?case by simp
next
  case (Cons k ks)
  obtain c' r where r: "run_hlc_call k c = (c', r)" by (cases "run_hlc_call k c")
  show ?case
  proof (cases r)
    case (Inl e)
    then show ?thesis using Cons hlc_call_error [of k c c' e] r by simp
  next
    case (Inr h)
    have "hlc_state c' = h \<and> hlc_state c < h"
      using Cons.prems r Inr hlc_now_advances [of _ c c' h] hlc_update_advances [of _ _ c c' h]
      by (cases k) auto
    then show ?thesis using Cons r Inr by (force intro: less_trans)
  qed
qed

theorem hlc_strictly_monotone_witness:
  "sorted_wrt (<) (hlc_state (with_max_skew 1000 (Inr 5)) # hlc_results
     [Now (Inr 5), Now (Inr 3), Update (hlc_pack 9 7) (Inr 4), Now (Inr 4)]
     (with_max_skew 1000 (Inr 5)))"
  by (rule hlc_strictly_monotone) (simp add: wall_ok_def)

text \<open>
  Receiving. A timestamp accepted from another node gives a local timestamp greater than
  both the remote one and everything issued before; it is refused, without any change, if its
  physical part is ahead of the wall clock by more than the tolerance.
\<close>

theorem hlc_update_correct:
  assumes "unat wall < 2 ^ 48" and "unat wall + unat (max_skew_ms c) < 2 ^ 64"
  shows "case hlc_update remote (Inr wall) c of
      (c', Inr h) \<Rightarrow> remote < h \<and> hlc_state c < h \<and> hlc_state c' = h
        \<and> unat (physical_ms remote) \<le> unat wall + unat (max_skew_ms c)
    | (c', Inl e) \<Rightarrow> c' = c
        \<and> (unat (physical_ms remote) > unat wall + unat (max_skew_ms c) \<longrightarrow>
             e = SkewExceeded (physical_ms remote - wall) (max_skew_ms c))"
proof -
  have sum: "unat (wall + max_skew_ms c) = unat wall + unat (max_skew_ms c)"
    using assms(2) by (simp add: unat_add_lem [symmetric])
  obtain c' r where r: "hlc_update remote (Inr wall) c = (c', r)"
    by (cases "hlc_update remote (Inr wall) c")
  show ?thesis
  proof (cases r)
    case (Inl e)
    then have "c' = c" using hlc_call_error [of "Update remote (Inr wall)" c c' e] r by simp
    moreover have "e = SkewExceeded (physical_ms remote - wall) (max_skew_ms c)"
      if "unat (physical_ms remote) > unat wall + unat (max_skew_ms c)"
      using that r Inl sum by (auto simp: hlc_update_def word_less_nat_alt)
    ultimately show ?thesis using r Inl by simp
  next
    case (Inr h)
    then have "\<not> physical_ms remote > wall + max_skew_ms c"
      using r by (auto simp: hlc_update_def)
    then have "unat (physical_ms remote) \<le> unat wall + unat (max_skew_ms c)"
      using sum by (simp add: word_less_nat_alt)
    moreover have "wall_ok (Inr wall)" using assms(1) by (simp add: wall_ok_def)
    ultimately show ?thesis
      using hlc_update_advances [of "Inr wall" remote c c' h] r Inr by simp
  qed
qed

theorem hlc_update_correct_witness:
  "fst (hlc_update (hlc_pack 5000 0) (Inr 5) (with_max_skew 1000 (Inr 5)))
     = with_max_skew 1000 (Inr 5)"
proof -
  have "physical_ms (hlc_pack 5000 0) = 5000" by (rule physical_ms_pack) simp
  then show ?thesis
    using hlc_update_correct [of 5 "with_max_skew 1000 (Inr 5)" "hlc_pack 5000 0"]
    by (auto simp: with_max_skew_def split: prod.splits sum.splits)
qed

text \<open>
  C11. Vector clocks form the causal order: \<^verbatim>\<open>compare\<close> answers the pointwise comparison of the
  counters (absent entries counting as zero), and \<^verbatim>\<open>merge\<close> is the least upper bound.
\<close>

theorem vclock_order_correct:
  assumes "bt_ok a" and "bt_ok b"
  shows "(vc_compare a b = Equal \<longleftrightarrow> vc_get a = vc_get b)
    \<and> (vc_compare a b = LessThan \<longleftrightarrow> vc_get a < vc_get b)
    \<and> (vc_compare a b = GreaterThan \<longleftrightarrow> vc_get b < vc_get a)
    \<and> (vc_compare a b = Concurrent \<longleftrightarrow> \<not> vc_get a \<le> vc_get b \<and> \<not> vc_get b \<le> vc_get a)
    \<and> vc_get a \<le> vc_get (vc_merge a b) \<and> vc_get b \<le> vc_get (vc_merge a b)
    \<and> (\<forall>c. vc_get a \<le> vc_get c \<and> vc_get b \<le> vc_get c \<longrightarrow> vc_get (vc_merge a b) \<le> vc_get c)"
proof -
  have e: "vc_get a = vc_get b \<longleftrightarrow> vc_get a \<le> vc_get b \<and> vc_get b \<le> vc_get a"
    by (rule order_eq_iff)
  have c: "vc_compare a b = (if vc_get a \<le> vc_get b then (if vc_get b \<le> vc_get a then Equal else LessThan)
      else (if vc_get b \<le> vc_get a then GreaterThan else Concurrent))"
    by (simp only: vc_compare_eq le_fun_def)
  have m: "vc_get (vc_merge a b) = (\<lambda>k. max (vc_get a k) (vc_get b k))"
    using vc_get_merge [OF assms(2)] by blast
  show ?thesis unfolding c e less_le_not_le by (auto simp: m le_fun_def)
qed

theorem vclock_order_correct_witness:
  "vc_compare (vc_singleton 1 2) (vc_singleton 2 3) = Concurrent"
  using vclock_order_correct [of "vc_singleton 1 2" "vc_singleton 2 3"]
  by (auto simp: vc_singleton_def le_fun_def vc_get_def)

text \<open>
  Replicas that merged the same vector clocks, in any order and any number of times, hold
  the same clock.
\<close>

theorem vclock_convergence:
  assumes "\<forall>x \<in> set xs. bt_ok x" and "bt_ok a" and "set xs = set ys"
  shows "foldl vc_merge a xs = foldl vc_merge a ys"
  using vclocks.convergence [OF assms] .

theorem vclock_convergence_witness:
  "foldl vc_merge [] [vc_singleton 1 4, vc_singleton 2 7, vc_singleton 1 4]
     = foldl vc_merge [] [vc_singleton 2 7, vc_singleton 1 4]"
  by (rule vclock_convergence) (auto simp: vc_singleton_def)

text \<open>
  The bytes of a vector clock followed by anything decode to the clock and its length if it
  has at most 4096 entries; a larger clock is written but refused when it is read.
\<close>

theorem vclock_roundtrip:
  assumes "bt_ok vc" and "length vc < 2 ^ 16"
  shows "vc_decode (vc_encode vc @ rest) =
    (if length vc \<le> unat MAX_VCLOCK_ENTRIES then Inr (vc, vc_encoded_len vc)
     else Inl (TooManyEntries (word_of_nat (length vc))))
    \<and> length (vc_encode vc) = vc_encoded_len vc"
  using vc_decode_encode [OF assms] length_vc_encode [of vc] by (simp add: MAX_VCLOCK_ENTRIES_def)

theorem vclock_roundtrip_witness:
  "vc_decode (vc_encode [(1, 4), (9, 7)] @ [5]) = Inr ([(1, 4), (9, 7)], 50)"
  using vclock_roundtrip [of "[(1, 4), (9, 7)]" "[5]"]
  by (simp add: MAX_VCLOCK_ENTRIES_def vc_encoded_len_def VCLOCK_ENTRY_SIZE_def)

text \<open>
  C12. Replay is idempotent. In a stream of records from several origins, in any order and with
  any repetition, each record is applied at most once, records of one origin are applied in
  the order of their timestamps, all applied ones are newer than the high-water mark the
  replica started with, and the mark ends at the greatest timestamp seen.
\<close>

theorem applied_at_most_once:
  assumes "inj hyph"
  shows "case apply_stream hyph rs s of (s', applied) \<Rightarrow>
    distinct applied \<and> set applied \<subseteq> set rs
    \<and> sorted_wrt (<) (high_water hyph origin s # map snd (filter (\<lambda>r. fst r = origin) applied))
    \<and> high_water hyph origin s' =
        foldl max (high_water hyph origin s) (map snd (filter (\<lambda>r. fst r = origin) rs))"
proof -
  have sorted: "sorted_wrt (<) (high_water hyph o' s #
      map snd (filter (\<lambda>r. fst r = o') (snd (apply_stream hyph rs s))))" for o'
  proof (induction rs arbitrary: s)
    case Nil
    then show ?case by simp
  next
    case (Cons r rs)
    obtain oo h where r: "r = (oo, h)" by (cases r)
    let ?s = "fst (observe hyph oo h s)"
    have "high_water hyph o' ?s = (if o' = oo then max (high_water hyph oo s) h else high_water hyph o' s)"
      by (rule high_water_observe [OF assms])
    then show ?case
      using Cons [of ?s] unfolding r apply_stream_Cons Let_def
      by (auto simp: max_def split: if_splits)
  qed
  have sub: "set (snd (apply_stream hyph rs s)) \<subseteq> set rs" for s
  proof (induction rs arbitrary: s)
    case (Cons r rs)
    obtain oo h where r: "r = (oo, h)" by (cases r)
    show ?case
      using Cons [of "fst (observe hyph oo h s)"] unfolding r apply_stream_Cons Let_def
      by (cases "high_water hyph oo s < h") auto
  qed simp
  have dist: "distinct (snd (apply_stream hyph rs s))"
  proof (rule ccontr)
    assume "\<not> distinct (snd (apply_stream hyph rs s))"
    then obtain xs ys zs r where l: "snd (apply_stream hyph rs s) = xs @ [r] @ ys @ [r] @ zs"
      using not_distinct_decomp by blast
    show False using sorted [of "fst r"] unfolding l by (simp add: sorted_wrt_append)
  qed
  show ?thesis
    using sorted [of origin] sub [of s] dist high_water_stream [OF assms, of origin rs s]
    by (simp add: split_beta)
qed

theorem applied_at_most_once_witness:
  "high_water to_be 1 (fst (apply_stream to_be [(1, 5), (1, 5), (2, 4), (1, 3)] applied_default)) = 5"
proof -
  have "inj (to_be :: u128 \<Rightarrow> bytes)"
    by (rule inj_on_inverseI [of _ of_be]) simp
  then show ?thesis
    using applied_at_most_once [where hyph = to_be and s = applied_default and origin = 1
        and rs = "[(1, 5), (1, 5), (2, 4), (1, 3)]"]
    by (simp add: split_beta high_water_def applied_default_def)
qed

end
