(* ===== verification/Wal_Record.thy ===== *)
theory Wal_Record
  imports Page_Layout Clocks
begin

text \<open>
  Records of the write-ahead log and their two on-disk layouts: \<^verbatim>\<open>src/src/wal/record.rs\<close>. The current
  layout (version 2) carries the origin node, the hybrid timestamp and the vector clock; version 1
  is only read, to migrate old files. \<open>crc\<close> is the CRC-32 of \<^verbatim>\<open>crc32fast\<close>, fed in pieces.
\<close>

definition WAL_MAGIC :: bytes where
  "WAL_MAGIC = [0x47, 0x52, 0x55, 0x4D, 0x50, 0x57, 0x41, 0x4C]"

definition WAL_VERSION_V1 :: u16 where "WAL_VERSION_V1 = 1"
definition WAL_VERSION_V2 :: u16 where "WAL_VERSION_V2 = 2"
definition WAL_VERSION_CURRENT :: u16 where "WAL_VERSION_CURRENT = WAL_VERSION_V2"
definition WAL_HEADER_SIZE :: nat where "WAL_HEADER_SIZE = PAGE_SIZE"
definition NIL_NODE_ID :: u128 where "NIL_NODE_ID = 0"
definition WAL_RECORD_HEADER_SIZE_V1 :: nat where "WAL_RECORD_HEADER_SIZE_V1 = 33"
definition WAL_RECORD_HEADER_SIZE_V2 :: nat where "WAL_RECORD_HEADER_SIZE_V2 = 49"

lemmas wal_consts = WAL_VERSION_V1_def WAL_VERSION_V2_def WAL_VERSION_CURRENT_def
  WAL_HEADER_SIZE_def WAL_RECORD_HEADER_SIZE_V1_def WAL_RECORD_HEADER_SIZE_V2_def

datatype wal_op_type = PageWrite | Commit | Rollback | Checkpoint

definition op_from_u8 :: "byte \<Rightarrow> wal_op_type option" where
  "op_from_u8 v =
     (if v = 1 then Some PageWrite
      else if v = 2 then Some Commit
      else if v = 3 then Some Rollback
      else if v = 4 then Some Checkpoint
      else None)"

fun op_u8 :: "wal_op_type \<Rightarrow> byte" where
  "op_u8 PageWrite = 1"
| "op_u8 Commit = 2"
| "op_u8 Rollback = 3"
| "op_u8 Checkpoint = 4"

record wal_record =
  w_record_len :: u32
  w_lsn :: u64
  w_tx_id :: u64
  w_op_type :: wal_op_type
  w_origin :: u128
  w_hlc :: hlc
  w_vclock :: vclock
  w_page_id :: u32
  w_data :: bytes
  w_checksum :: u32

definition encoded_v2_len :: "wal_record \<Rightarrow> nat" where
  "encoded_v2_len r =
     (let payload = (case w_op_type r of PageWrite \<Rightarrow> 4 + 4 + length (w_data r) | _ \<Rightarrow> 0)
      in WAL_RECORD_HEADER_SIZE_V2 + vc_encoded_len (w_vclock r) + payload)"

definition payload_v2 :: "wal_record \<Rightarrow> bytes" where
  "payload_v2 r =
     (if w_op_type r = PageWrite
      then to_le (w_page_id r) @ to_le (word_of_nat (length (w_data r)) :: u32) @ w_data r
      else [])"

text \<open>The bytes between the length field and the checksum field; the checksum covers them.\<close>

definition body_v2 :: "wal_record \<Rightarrow> bytes" where
  "body_v2 r =
     to_le (w_lsn r) @ to_le (w_tx_id r) @ [op_u8 (w_op_type r)] @ to_le (w_origin r)
     @ to_le (w_hlc r) @ vc_encode (w_vclock r) @ payload_v2 r"

definition compute_checksum_v2 :: "(bytes \<Rightarrow> u32) \<Rightarrow> wal_record \<Rightarrow> u32" where
  "compute_checksum_v2 crc r = crc (body_v2 r)"

definition to_bytes :: "wal_record \<Rightarrow> bytes" where
  "to_bytes r = to_le (w_record_len r) @ body_v2 r @ to_le (w_checksum r)"

text \<open>The last two assignments of each constructor.\<close>

definition sealed :: "(bytes \<Rightarrow> u32) \<Rightarrow> wal_record \<Rightarrow> wal_record" where
  "sealed crc r =
     (let r = r\<lparr>w_record_len := word_of_nat (encoded_v2_len r)\<rparr>
      in r\<lparr>w_checksum := compute_checksum_v2 crc r\<rparr>)"

definition wal_page_write ::
  "(bytes \<Rightarrow> u32) \<Rightarrow> u64 \<Rightarrow> u64 \<Rightarrow> u128 \<Rightarrow> hlc \<Rightarrow> vclock \<Rightarrow> u32 \<Rightarrow> bytes \<Rightarrow> bytes \<Rightarrow> wal_record" where
  "wal_page_write crc lsn tx origin hlc vc page_id before after =
     sealed crc \<lparr>w_record_len = 0, w_lsn = lsn, w_tx_id = tx, w_op_type = PageWrite,
       w_origin = origin, w_hlc = hlc, w_vclock = vc, w_page_id = page_id,
       w_data = after @ before, w_checksum = 0\<rparr>"

definition wal_commit ::
  "(bytes \<Rightarrow> u32) \<Rightarrow> u64 \<Rightarrow> u64 \<Rightarrow> u128 \<Rightarrow> hlc \<Rightarrow> vclock \<Rightarrow> wal_record" where
  "wal_commit crc lsn tx origin hlc vc =
     sealed crc \<lparr>w_record_len = 0, w_lsn = lsn, w_tx_id = tx, w_op_type = Commit,
       w_origin = origin, w_hlc = hlc, w_vclock = vc, w_page_id = 0, w_data = [],
       w_checksum = 0\<rparr>"

definition wal_checkpoint ::
  "(bytes \<Rightarrow> u32) \<Rightarrow> u64 \<Rightarrow> u128 \<Rightarrow> hlc \<Rightarrow> vclock \<Rightarrow> wal_record" where
  "wal_checkpoint crc lsn origin hlc vc =
     sealed crc \<lparr>w_record_len = 0, w_lsn = lsn, w_tx_id = 0, w_op_type = Checkpoint,
       w_origin = origin, w_hlc = hlc, w_vclock = vc, w_page_id = 0, w_data = [],
       w_checksum = 0\<rparr>"

text \<open>The page id and the data of a \<^verbatim>\<open>PageWrite\<close>, and the position after them.\<close>

definition read_payload_v2 ::
  "wal_op_type \<Rightarrow> u64 \<Rightarrow> nat \<Rightarrow> nat \<Rightarrow> bytes \<Rightarrow> (u32 \<times> bytes \<times> nat) result" where
  "read_payload_v2 op lsn cursor payload_end buf =
     (if op = PageWrite then
        if cursor + 8 > payload_end then Inl (Err (WalCorrupted lsn))
        else
          (let page_id = of_le (slice cursor 4 buf);
               data_len = unat (of_le (slice (cursor + 4) 4 buf) :: u32);
               cursor = cursor + 8 in
           if cursor + data_len > payload_end then Inl (Err (WalCorrupted lsn))
           else Inr (page_id, slice cursor data_len buf, cursor + data_len))
      else Inr (0, [], cursor))"

definition from_bytes_v2 :: "(bytes \<Rightarrow> u32) \<Rightarrow> bytes \<Rightarrow> (wal_record \<times> nat) result" where
  "from_bytes_v2 crc buf =
     (if length buf < 4 then Inl (Err (WalCorrupted 0))
      else
        (let record_len = unat (of_le (slice 0 4 buf) :: u32) in
         if record_len < WAL_RECORD_HEADER_SIZE_V2 \<or> length buf < record_len
         then Inl (Err (WalCorrupted 0))
         else
           (let lsn = of_le (slice 4 8 buf);
                tx = of_le (slice 12 8 buf) in
            case op_from_u8 (buf ! 20) of
              None \<Rightarrow> Inl (Err (WalCorrupted lsn))
            | Some op \<Rightarrow>
                (let origin = of_le (slice 21 16 buf);
                     hlc = of_le (slice 37 8 buf);
                     payload_end = record_len - 4 in
                 case vc_decode (slice 45 (payload_end - 45) buf) of
                   Inl e \<Rightarrow> Inl (Err (VectorClockErr e))
                 | Inr (vc, vc_consumed) \<Rightarrow>
                     bind_res (read_payload_v2 op lsn (45 + vc_consumed) payload_end buf)
                       (\<lambda>(page_id, data, cursor).
                          if cursor \<noteq> payload_end then Inl (Err (WalCorrupted lsn))
                          else
                            (let checksum = of_le (slice cursor 4 buf);
                                 rec = \<lparr>w_record_len = word_of_nat record_len, w_lsn = lsn,
                                   w_tx_id = tx, w_op_type = op, w_origin = origin, w_hlc = hlc,
                                   w_vclock = vc, w_page_id = page_id, w_data = data,
                                   w_checksum = checksum\<rparr> in
                             if compute_checksum_v2 crc rec \<noteq> checksum
                             then Inl (Err (WalCorrupted lsn))
                             else Inr (rec, record_len)))))))"

definition is_valid :: "(bytes \<Rightarrow> u32) \<Rightarrow> wal_record \<Rightarrow> bool" where
  "is_valid crc r \<longleftrightarrow> compute_checksum_v2 crc r = w_checksum r"

definition page_images :: "wal_record \<Rightarrow> (bytes \<times> bytes) option" where
  "page_images r =
     (if w_op_type r \<noteq> PageWrite then None
      else (let half = length (w_data r) div 2 in Some (take half (w_data r), drop half (w_data r))))"

subsection \<open>Version 1\<close>

definition compute_v1_checksum ::
  "(bytes \<Rightarrow> u32) \<Rightarrow> u32 \<Rightarrow> u64 \<Rightarrow> u64 \<Rightarrow> wal_op_type \<Rightarrow> u32 \<Rightarrow> bytes \<Rightarrow> u32" where
  "compute_v1_checksum crc record_len lsn tx op page_id data =
     crc (to_le record_len @ to_le lsn @ to_le tx @ [op_u8 op] @ to_le page_id
       @ to_le (word_of_nat (length data) :: u32) @ data)"

definition encode_v1_record ::
  "(bytes \<Rightarrow> u32) \<Rightarrow> u64 \<Rightarrow> u64 \<Rightarrow> wal_op_type \<Rightarrow> u32 \<Rightarrow> bytes \<Rightarrow> bytes" where
  "encode_v1_record crc lsn tx op page_id data =
     (let record_len = word_of_nat (WAL_RECORD_HEADER_SIZE_V1 + length data) :: u32;
          checksum = compute_v1_checksum crc record_len lsn tx op page_id data
      in to_le record_len @ to_le lsn @ to_le tx @ [op_u8 op] @ to_le page_id
         @ to_le (word_of_nat (length data) :: u32) @ data @ to_le checksum)"

definition from_bytes_v1 :: "(bytes \<Rightarrow> u32) \<Rightarrow> bytes \<Rightarrow> (wal_record \<times> nat) result" where
  "from_bytes_v1 crc buf =
     (if length buf < WAL_RECORD_HEADER_SIZE_V1 then Inl (Err (WalCorrupted 0))
      else
        (let record_len = unat (of_le (slice 0 4 buf) :: u32) in
         if record_len < WAL_RECORD_HEADER_SIZE_V1 \<or> length buf < record_len
         then Inl (Err (WalCorrupted 0))
         else
           (let lsn = of_le (slice 4 8 buf);
                tx = of_le (slice 12 8 buf) in
            case op_from_u8 (buf ! 20) of
              None \<Rightarrow> Inl (Err (WalCorrupted lsn))
            | Some op \<Rightarrow>
                (let page_id = of_le (slice 21 4 buf);
                     data_len = unat (of_le (slice 25 4 buf) :: u32) in
                 if 29 + data_len + 4 > record_len then Inl (Err (WalCorrupted lsn))
                 else
                   (let data = slice 29 data_len buf;
                        checksum = of_le (slice (29 + data_len) 4 buf);
                        computed = compute_v1_checksum crc (word_of_nat record_len) lsn tx op
                          page_id data in
                    if computed \<noteq> checksum then Inl (Err (WalCorrupted lsn))
                    else
                      Inr (sealed crc \<lparr>w_record_len = 0, w_lsn = lsn, w_tx_id = tx,
                        w_op_type = op, w_origin = NIL_NODE_ID, w_hlc = lsn,
                        w_vclock = vc_singleton NIL_NODE_ID lsn, w_page_id = page_id,
                        w_data = data, w_checksum = 0\<rparr>, record_len))))))"

subsection \<open>The header page of the log file\<close>

definition build_wal_header :: "u16 \<Rightarrow> bytes" where
  "build_wal_header version = blit 8 (to_le version) (blit 0 WAL_MAGIC (replicate WAL_HEADER_SIZE 0))"

definition parse_wal_header :: "bytes \<Rightarrow> u16 result" where
  "parse_wal_header hdr =
     (if length hdr < 10 then Inl (Err (WalCorrupted 0))
      else if slice 0 8 hdr \<noteq> WAL_MAGIC then Inl (Err (WalCorrupted 0))
      else
        (let version = of_le (slice 8 2 hdr) in
         if version > WAL_VERSION_CURRENT then Inl (Err (UnsupportedWalVersion version))
         else Inr version))"


section \<open>Well-formed records\<close>

definition wal_ok :: "(bytes \<Rightarrow> u32) \<Rightarrow> wal_record \<Rightarrow> bool" where
  "wal_ok crc r \<longleftrightarrow>
     bt_ok (w_vclock r) \<and> length (w_vclock r) \<le> 4096
     \<and> unat (w_record_len r) = encoded_v2_len r \<and> is_valid crc r
     \<and> (w_op_type r \<noteq> PageWrite \<longrightarrow> w_page_id r = 0 \<and> w_data r = [])"

lemma op_roundtrip [simp]: "op_from_u8 (op_u8 op) = Some op"
  by (cases op) (simp_all add: op_from_u8_def)

lemma length_payload_v2:
  "length (payload_v2 r) = (if w_op_type r = PageWrite then 8 + length (w_data r) else 0)"
  by (simp add: payload_v2_def)

lemma encoded_v2_len_eq:
  "encoded_v2_len r = 49 + vc_encoded_len (w_vclock r) + length (payload_v2 r)"
  by (cases "w_op_type r") (simp_all add: encoded_v2_len_def length_payload_v2 wal_consts Let_def)

lemma length_to_bytes: "length (to_bytes r) = encoded_v2_len r"
  by (simp add: to_bytes_def body_v2_def length_vc_encode encoded_v2_len_eq)

lemma sealed_fields [simp]:
  "w_lsn (sealed crc r) = w_lsn r" "w_tx_id (sealed crc r) = w_tx_id r"
  "w_op_type (sealed crc r) = w_op_type r" "w_origin (sealed crc r) = w_origin r"
  "w_hlc (sealed crc r) = w_hlc r" "w_vclock (sealed crc r) = w_vclock r"
  "w_page_id (sealed crc r) = w_page_id r" "w_data (sealed crc r) = w_data r"
  "w_record_len (sealed crc r) = word_of_nat (encoded_v2_len r)"
  by (simp_all add: sealed_def Let_def)

lemma sealed_body [simp]: "body_v2 (sealed crc r) = body_v2 r"
  by (simp add: body_v2_def payload_v2_def)

lemma sealed_checksum [simp]: "w_checksum (sealed crc r) = compute_checksum_v2 crc r"
  by (simp add: sealed_def Let_def compute_checksum_v2_def body_v2_def payload_v2_def)

lemma wal_ok_sealed:
  assumes "bt_ok (w_vclock r)" and "length (w_vclock r) \<le> 4096" and "length (w_data r) < 2 ^ 31"
    and "w_op_type r \<noteq> PageWrite \<longrightarrow> w_page_id r = 0 \<and> w_data r = []"
  shows "wal_ok crc (sealed crc r)"
proof -
  have "encoded_v2_len r < 2 ^ 32"
    using assms(2,3) by (simp add: encoded_v2_len_eq length_payload_v2 vc_encoded_len_def
        VCLOCK_ENTRY_SIZE_def)
  then have "unat (word_of_nat (encoded_v2_len r) :: u32) = encoded_v2_len r"
    by (simp add: unat_of_nat_small)
  moreover have "encoded_v2_len (sealed crc r) = encoded_v2_len r"
    by (simp add: encoded_v2_len_def cong: wal_op_type.case_cong)
  moreover have "is_valid crc (sealed crc r)"
    by (simp add: is_valid_def compute_checksum_v2_def)
  ultimately show ?thesis using assms by (simp add: wal_ok_def)
qed

lemma from_bytes_v2_to_bytes:
  assumes ok: "wal_ok crc r"
  shows "from_bytes_v2 crc (to_bytes r @ rest) = Inr (r, encoded_v2_len r)"
proof -
  define pre where "pre = to_le (w_record_len r) @ to_le (w_lsn r) @ to_le (w_tx_id r)
    @ [op_u8 (w_op_type r)] @ to_le (w_origin r) @ to_le (w_hlc r)"
  define vb where "vb = vc_encode (w_vclock r)"
  define pl where "pl = payload_v2 r"
  define n where "n = encoded_v2_len r"
  define buf where "buf = to_bytes r @ rest"
  have pre: "length pre = 45" by (simp add: pre_def)
  have buf: "buf = pre @ vb @ pl @ to_le (w_checksum r) @ rest"
    by (simp add: buf_def to_bytes_def body_v2_def pre_def vb_def pl_def)
  have vb: "length vb = vc_encoded_len (w_vclock r)" by (simp add: vb_def length_vc_encode)
  have n: "n = 49 + length vb + length pl" by (simp add: n_def encoded_v2_len_eq vb pl_def)
  have len: "unat (w_record_len r) = n" using ok by (simp add: wal_ok_def n_def)
  have fields: "slice 0 4 buf = to_le (w_record_len r)" "slice 4 8 buf = to_le (w_lsn r)"
    "slice 12 8 buf = to_le (w_tx_id r)" "buf ! 20 = op_u8 (w_op_type r)"
    "slice 21 16 buf = to_le (w_origin r)" "slice 37 8 buf = to_le (w_hlc r)"
    by (simp_all add: buf pre_def slice_def nth_append)
  have pe: "n - 4 = 45 + length vb + length pl" "49 \<le> n" by (simp_all add: n)
  have vc: "vc_decode (slice 45 (length vb + length pl) buf) = Inr (w_vclock r, length vb)"
  proof -
    have "slice 45 (length vb + length pl) buf = vb @ pl" by (simp add: buf slice_def pre)
    then show ?thesis
      using vc_decode_encode [of "w_vclock r" pl] ok vb by (simp add: vb_def wal_ok_def)
  qed
  have cs: "slice (45 + length vb + length pl) 4 buf = to_le (w_checksum r)"
    by (simp add: buf slice_def pre)
  have rl: "word_of_nat n = w_record_len r" by (simp flip: len)
  have rec: "\<lparr>w_record_len = word_of_nat n, w_lsn = w_lsn r, w_tx_id = w_tx_id r,
      w_op_type = w_op_type r, w_origin = w_origin r, w_hlc = w_hlc r, w_vclock = w_vclock r,
      w_page_id = w_page_id r, w_data = w_data r, w_checksum = w_checksum r\<rparr> = r"
    by (simp add: rl)
  have valid: "compute_checksum_v2 crc r = w_checksum r" using ok by (simp add: wal_ok_def is_valid_def)
  have blen: "length buf = n + length rest" by (simp add: buf_def length_to_bytes n_def)
  have pay: "read_payload_v2 (w_op_type r) (w_lsn r) (45 + length vb) (45 + length vb + length pl) buf
      = Inr (w_page_id r, w_data r, 45 + length vb + length pl)"
  proof (cases "w_op_type r = PageWrite")
    case True
    have d: "length (w_data r) < 2 ^ 32"
      using n len unsigned_less [of "w_record_len r", where 'a = nat] True
      by (simp add: pl_def length_payload_v2)
    have "slice (45 + length vb) 4 buf = to_le (w_page_id r)"
      "slice (45 + length vb + 4) 4 buf = to_le (word_of_nat (length (w_data r)) :: u32)"
      "slice (45 + length vb + 8) (length (w_data r)) buf = w_data r"
      "length pl = 8 + length (w_data r)"
      using True by (simp_all add: buf pl_def payload_v2_def slice_def pre)
    then show ?thesis using True d by (simp add: read_payload_v2_def Let_def unat_of_nat_small)
  next
    case False
    then show ?thesis using ok by (simp add: read_payload_v2_def pl_def payload_v2_def wal_ok_def)
  qed
  have "from_bytes_v2 crc buf = Inr (r, n)"
    using pe(2) blen
    by (simp add: from_bytes_v2_def Let_def fields len vc wal_consts pe(1) pay cs rec valid)
  then show ?thesis by (simp add: buf_def n_def)
qed


interpretation wal_codec: prefix_codec to_bytes
  "\<lambda>buf. map_sum id (\<lambda>(r, used). (r, drop used buf)) (from_bytes_v2 crc buf)" "wal_ok crc"
proof unfold_locales
  fix r rest assume "wal_ok crc r"
  then show "map_sum id (\<lambda>(r', used). (r', drop used (to_bytes r @ rest)))
      (from_bytes_v2 crc (to_bytes r @ rest)) = Inr (r, rest)"
    using from_bytes_v2_to_bytes [of crc r rest] length_to_bytes [of r] by simp
qed

lemma from_bytes_v2_consumed:
  assumes "from_bytes_v2 crc buf = Inr (r, n)"
  shows "49 \<le> n \<and> n \<le> length buf"
  using assms
  by (auto simp: from_bytes_v2_def Let_def wal_consts bind_res_eq_Inr split: if_splits option.splits sum.splits)

lemma from_bytes_v1_consumed:
  assumes "from_bytes_v1 crc buf = Inr (r, n)"
  shows "33 \<le> n \<and> n \<le> length buf"
  using assms
  by (auto simp: from_bytes_v1_def Let_def wal_consts split: if_splits option.splits)

text \<open>What is left of a record whose write was cut short is never a record.\<close>

lemma from_bytes_v2_torn:
  assumes ok: "wal_ok crc r" and k: "k < encoded_v2_len r"
  shows "from_bytes_v2 crc (take k (to_bytes r)) = Inl (Err (WalCorrupted 0))"
proof (cases "k < 4")
  case True
  then have "length (take k (to_bytes r)) < 4" by simp
  then show ?thesis unfolding from_bytes_v2_def by (simp only: if_True)
next
  case False
  define buf where "buf = take k (to_bytes r)"
  have len: "length buf = k" using k by (simp add: buf_def length_to_bytes)
  have "slice 0 4 buf = slice 0 4 (to_bytes r)"
    using False by (simp add: buf_def slice_def min_def)
  also have "\<dots> = to_le (w_record_len r)" by (simp add: to_bytes_def slice_def)
  finally have "unat (of_le (slice 0 4 buf) :: u32) = encoded_v2_len r"
    using ok by (simp add: wal_ok_def)
  then show ?thesis using False k len by (simp add: from_bytes_v2_def Let_def flip: buf_def)
qed

lemma from_bytes_v1_encode:
  assumes "length data < 2 ^ 31"
  shows "from_bytes_v1 crc (encode_v1_record crc lsn tx op page_id data @ rest) =
    Inr (sealed crc \<lparr>w_record_len = 0, w_lsn = lsn, w_tx_id = tx, w_op_type = op,
      w_origin = NIL_NODE_ID, w_hlc = lsn, w_vclock = vc_singleton NIL_NODE_ID lsn,
      w_page_id = page_id, w_data = data, w_checksum = 0\<rparr>, 33 + length data)"
proof -
  define n where "n = (word_of_nat (33 + length data) :: u32)"
  define dl where "dl = (word_of_nat (length data) :: u32)"
  define ck where "ck = compute_v1_checksum crc n lsn tx op page_id data"
  define buf where "buf = to_le n @ to_le lsn @ to_le tx @ [op_u8 op] @ to_le page_id @ to_le dl
    @ data @ to_le ck @ rest"
  have u: "unat n = 33 + length data" "unat dl = length data"
    using assms unat_of_nat_small [of "33 + length data", where 'a = 32]
      unat_of_nat_small [of "length data", where 'a = 32] by (simp_all add: n_def dl_def)
  have e: "encode_v1_record crc lsn tx op page_id data @ rest = buf"
    by (simp add: encode_v1_record_def Let_def buf_def n_def dl_def ck_def wal_consts)
  have fields: "slice 0 4 buf = to_le n" "slice 4 8 buf = to_le lsn" "slice 12 8 buf = to_le tx"
    "buf ! 20 = op_u8 op" "slice 21 4 buf = to_le page_id" "slice 25 4 buf = to_le dl"
    by (simp_all add: buf_def slice_def nth_append)
  define pre where "pre = to_le n @ to_le lsn @ to_le tx @ [op_u8 op] @ to_le page_id @ to_le dl"
  have "buf = pre @ data @ to_le ck @ rest" "length pre = 29" by (simp_all add: buf_def pre_def)
  then have tail: "slice 29 (length data) buf = data" "slice (29 + length data) 4 buf = to_le ck"
    by (simp_all add: slice_def)
  have n: "word_of_nat (33 + length data) = n" by (simp add: n_def)
  have "length buf = 33 + length data + length rest" by (simp add: buf_def)
  then show ?thesis
    unfolding e from_bytes_v1_def
    by (simp add: Let_def fields tail u wal_consts n ck_def [symmetric] del: of_nat_add)
qed

lemma length_wal_header [simp]: "length (build_wal_header v) = WAL_HEADER_SIZE"
  by (simp add: build_wal_header_def WAL_MAGIC_def WAL_HEADER_SIZE_def PAGE_SIZE_def)

lemma slice_wal_header: "slice 0 8 (build_wal_header v) = WAL_MAGIC" "slice 8 2 (build_wal_header v) = to_le v"
  by (simp_all add: build_wal_header_def WAL_MAGIC_def WAL_HEADER_SIZE_def PAGE_SIZE_def
      slice_blit_other slice_blit_same)

section \<open>Properties\<close>

text \<open>
  C14. Log records survive the disk. The bytes of a record made by one of the constructors, followed
  by anything, decode to that record and its length; cut short at any point they decode to
  no record at all.
\<close>

theorem wal_record_roundtrip:
  assumes "bt_ok vc" and "length vc \<le> 4096" and "length before + length after < 2 ^ 31"
    and "r \<in> {wal_page_write crc lsn tx origin h vc page_id before after,
              wal_commit crc lsn tx origin h vc, wal_checkpoint crc lsn origin h vc}"
  shows "from_bytes_v2 crc (to_bytes r @ rest) = Inr (r, length (to_bytes r))
    \<and> (\<forall>k < length (to_bytes r). from_bytes_v2 crc (take k (to_bytes r)) = Inl (Err (WalCorrupted 0)))"
proof -
  have ok: "wal_ok crc r"
    using assms
    by (auto simp: wal_page_write_def wal_commit_def wal_checkpoint_def intro!: wal_ok_sealed)
  show ?thesis
    using from_bytes_v2_to_bytes [OF ok, of rest] from_bytes_v2_torn [OF ok]
    by (simp add: length_to_bytes)
qed

theorem wal_record_roundtrip_witness:
  "from_bytes_v2 (\<lambda>bs. word_of_nat (length bs))
     (to_bytes (wal_commit (\<lambda>bs. word_of_nat (length bs)) 7 3 1 9 (vc_singleton 1 9)) @ [5])
   = Inr (wal_commit (\<lambda>bs. word_of_nat (length bs)) 7 3 1 9 (vc_singleton 1 9), 75)"
  using wal_record_roundtrip [of "vc_singleton 1 9" "[]" "[]"
      "wal_commit (\<lambda>bs. word_of_nat (length bs)) 7 3 1 9 (vc_singleton 1 9)"
      "\<lambda>bs. word_of_nat (length bs)" 7 3 1 9 0 "[5]"]
  by (simp add: vc_singleton_def length_to_bytes encoded_v2_len_def wal_commit_def sealed_def
      Let_def wal_consts vc_encoded_len_def VCLOCK_ENTRY_SIZE_def)

end
