(* ===== verification/Wal_Log.thy ===== *)
theory Wal_Log
  imports Wal_Record
begin

text \<open>
  The log file and its writer: \<^verbatim>\<open>src/src/wal/writer.rs\<close>. The file is its bytes, with the write position
  always at the end; the wall clock is an argument of the calls that read it. \<^verbatim>\<open>fsync\<close> has no effect
  on the bytes and is not modelled; a crash leaves some prefix of what was written.
\<close>

record wal_writer =
  ww_file :: bytes
  ww_next_lsn :: u64
  ww_next_tx_id :: u64
  ww_file_version :: u16
  ww_node_id :: u128
  ww_clock :: hlc_clock

function read_v2_log :: "(bytes \<Rightarrow> u32) \<Rightarrow> bytes \<Rightarrow> wal_record list" where
  "read_v2_log crc all =
     (if all = [] then []
      else
        case from_bytes_v2 crc all of
          Inr (rec, consumed) \<Rightarrow> rec # read_v2_log crc (drop consumed all)
        | Inl _ \<Rightarrow> [])"
  by auto

termination read_v2_log
  by (relation "measure (\<lambda>(_, all). length all)") (auto dest!: from_bytes_v2_consumed)

declare read_v2_log.simps [simp del]

function read_v1_log :: "(bytes \<Rightarrow> u32) \<Rightarrow> bytes \<Rightarrow> wal_record list" where
  "read_v1_log crc all =
     (if all = [] then []
      else
        case from_bytes_v1 crc all of
          Inr (rec, consumed) \<Rightarrow> rec # read_v1_log crc (drop consumed all)
        | Inl _ \<Rightarrow> [])"
  by auto

termination read_v1_log
  by (relation "measure (\<lambda>(_, all). length all)") (auto dest!: from_bytes_v1_consumed)

declare read_v1_log.simps [simp del]

definition read_v2_records_from_file :: "(bytes \<Rightarrow> u32) \<Rightarrow> bytes \<Rightarrow> wal_record list" where
  "read_v2_records_from_file crc file =
     (if length file \<le> WAL_HEADER_SIZE then [] else read_v2_log crc (drop WAL_HEADER_SIZE file))"

definition migrate_v1_to_v2 :: "wal_record list \<Rightarrow> bytes" where
  "migrate_v1_to_v2 v1_records = build_wal_header WAL_VERSION_V2 @ concat (map to_bytes v1_records)"

abbreviation max_or_0 :: "u64 list \<Rightarrow> u64" where
  "max_or_0 xs \<equiv> foldl max 0 xs"

definition wal_writer_at ::
  "wal_record list \<Rightarrow> bytes \<Rightarrow> u128 \<Rightarrow> hlc_clock \<Rightarrow> wal_writer" where
  "wal_writer_at records file node_id clock =
     \<lparr>ww_file = file,
      ww_next_lsn = max_or_0 (map w_lsn records) + 1,
      ww_next_tx_id = max_or_0 (map w_tx_id records) + 1,
      ww_file_version = WAL_VERSION_V2, ww_node_id = node_id, ww_clock = clock\<rparr>"

definition new_with_identity ::
  "(bytes \<Rightarrow> u32) \<Rightarrow> u128 \<Rightarrow> hlc_clock \<Rightarrow> bytes \<Rightarrow> wal_writer result" where
  "new_with_identity crc node_id clock file =
     (if file = [] then
        Inr \<lparr>ww_file = build_wal_header WAL_VERSION_CURRENT, ww_next_lsn = 1, ww_next_tx_id = 1,
          ww_file_version = WAL_VERSION_CURRENT, ww_node_id = node_id, ww_clock = clock\<rparr>
      else
        bind_res
          (if 8 \<le> length file \<and> take 8 file = WAL_MAGIC then parse_wal_header (take 18 file)
           else Inr WAL_VERSION_V1)
          (\<lambda>detected_version.
             if detected_version = WAL_VERSION_V2 then
               Inr (wal_writer_at (read_v2_records_from_file crc file) file node_id clock)
             else
               (let v1_records = read_v1_log crc file in
                Inr (wal_writer_at v1_records (migrate_v1_to_v2 v1_records) node_id clock))))"

definition begin_tx :: "wal_writer \<Rightarrow> wal_writer \<times> u64" where
  "begin_tx w = (w\<lparr>ww_next_tx_id := ww_next_tx_id w + 1\<rparr>, ww_next_tx_id w)"

definition append_record :: "wal_record \<Rightarrow> wal_writer \<Rightarrow> wal_writer" where
  "append_record r w = w\<lparr>ww_file := ww_file w @ to_bytes r\<rparr>"

text \<open>The common steps of the three \<^verbatim>\<open>log_*\<close> calls: take an LSN, then a timestamp, then append.\<close>

definition log_with ::
  "(u64 \<Rightarrow> hlc \<Rightarrow> vclock \<Rightarrow> wal_record) \<Rightarrow> (hlc_error + u64) \<Rightarrow> (wal_writer, u64 \<times> hlc) op" where
  "log_with mk wall w =
     (let lsn = ww_next_lsn w;
          w = w\<lparr>ww_next_lsn := lsn + 1\<rparr> in
      case hlc_now wall (ww_clock w) of
        (c, Inl e) \<Rightarrow> (w\<lparr>ww_clock := c\<rparr>, Inl (Err (HlcErr e)))
      | (c, Inr hlc) \<Rightarrow>
          (let vc = vc_singleton (ww_node_id w) hlc in
           (append_record (mk lsn hlc vc) (w\<lparr>ww_clock := c\<rparr>), Inr (lsn, hlc))))"

definition log_page_write ::
  "(bytes \<Rightarrow> u32) \<Rightarrow> u64 \<Rightarrow> u32 \<Rightarrow> bytes \<Rightarrow> bytes \<Rightarrow> (hlc_error + u64) \<Rightarrow> (wal_writer, u64 \<times> hlc) op" where
  "log_page_write crc tx page_id before after wall w =
     log_with (\<lambda>lsn hlc vc. wal_page_write crc lsn tx (ww_node_id w) hlc vc page_id before after) wall w"

definition log_commit ::
  "(bytes \<Rightarrow> u32) \<Rightarrow> u64 \<Rightarrow> (hlc_error + u64) \<Rightarrow> (wal_writer, u64 \<times> hlc) op" where
  "log_commit crc tx wall w =
     log_with (\<lambda>lsn hlc vc. wal_commit crc lsn tx (ww_node_id w) hlc vc) wall w"

definition log_checkpoint :: "(bytes \<Rightarrow> u32) \<Rightarrow> (hlc_error + u64) \<Rightarrow> (wal_writer, u64 \<times> hlc) op" where
  "log_checkpoint crc wall w =
     log_with (\<lambda>lsn hlc vc. wal_checkpoint crc lsn (ww_node_id w) hlc vc) wall w"

definition wal_truncate :: "wal_writer \<Rightarrow> wal_writer" where
  "wal_truncate w = w\<lparr>ww_file := build_wal_header WAL_VERSION_CURRENT\<rparr>"

definition read_all_records :: "(bytes \<Rightarrow> u32) \<Rightarrow> wal_writer \<Rightarrow> wal_record list" where
  "read_all_records crc w = read_v2_records_from_file crc (ww_file w)"

section \<open>Reading a log\<close>

lemma to_bytes_nonempty: "to_bytes r \<noteq> []"
  by (simp add: to_bytes_def body_v2_def)

lemma read_v2_log_Nil [simp]: "read_v2_log crc [] = []"
  by (simp add: read_v2_log.simps)

lemma read_v2_log_Cons:
  assumes "wal_ok crc r"
  shows "read_v2_log crc (to_bytes r @ rest) = r # read_v2_log crc rest"
  using from_bytes_v2_to_bytes [OF assms, of rest] length_to_bytes [of r]
  by (subst read_v2_log.simps) (simp add: to_bytes_nonempty)

lemma read_v2_log_append:
  "\<forall>r \<in> set rs. wal_ok crc r \<Longrightarrow>
     read_v2_log crc (concat (map to_bytes rs) @ rest) = rs @ read_v2_log crc rest"
  by (induction rs) (simp_all add: read_v2_log_Cons)

lemma nth_le_bytes: "j < k \<Longrightarrow> le_bytes k n ! j = word_of_nat (n div 256 ^ j)"
proof (induction k arbitrary: n j)
  case (Suc k)
  then show ?case by (cases j) (simp_all add: div_mult2_eq)
qed simp

lemma read_v2_log_bad: "from_bytes_v2 crc bs = Inl e \<Longrightarrow> read_v2_log crc bs = []"
  by (subst read_v2_log.simps) simp

text \<open>A log cut at any byte reads as the records that were completely written.\<close>

fun whole_records :: "nat \<Rightarrow> wal_record list \<Rightarrow> wal_record list" where
  "whole_records k [] = []"
| "whole_records k (r # rs) =
     (if length (to_bytes r) \<le> k then r # whole_records (k - length (to_bytes r)) rs else [])"

lemma read_v2_log_cut:
  assumes "\<forall>r \<in> set rs. wal_ok crc r"
  shows "read_v2_log crc (take k (concat (map to_bytes rs))) = whole_records k rs"
  using assms
proof (induction rs arbitrary: k)
  case Nil
  then show ?case by simp
next
  case (Cons r rs)
  show ?case
  proof (cases "length (to_bytes r) \<le> k")
    case True
    then show ?thesis using Cons read_v2_log_Cons [of crc r] by simp
  next
    case False
    then have "take k (concat (map to_bytes (r # rs))) = take k (to_bytes r)" by simp
    then show ?thesis
      using False Cons.prems from_bytes_v2_torn [of crc r k] read_v2_log_bad
      by (simp add: length_to_bytes)
  qed
qed

lemma whole_records_prefix: "prefix (whole_records k rs) rs"
  by (induction k rs rule: whole_records.induct) simp_all

lemma whole_records_all:
  "length (concat (map to_bytes (rs @ ss))) \<ge> k \<Longrightarrow> length (concat (map to_bytes rs)) \<le> k \<Longrightarrow>
     prefix rs (whole_records k (rs @ ss))"
  by (induction rs arbitrary: k) (auto simp: le_diff_conv2)


section \<open>The writer's invariant\<close>

definition log_file :: "wal_record list \<Rightarrow> bytes" where
  "log_file rs = build_wal_header WAL_VERSION_V2 @ concat (map to_bytes rs)"

definition log_inv :: "(bytes \<Rightarrow> u32) \<Rightarrow> wal_record list \<Rightarrow> wal_writer \<Rightarrow> bool" where
  "log_inv crc rs w \<longleftrightarrow>
     ww_file w = log_file rs \<and> (\<forall>r \<in> set rs. wal_ok crc r)
     \<and> sorted_wrt (<) (map w_lsn rs) \<and> (\<forall>r \<in> set rs. w_lsn r < ww_next_lsn w)
     \<and> sorted_wrt (<) (map w_hlc rs) \<and> (\<forall>r \<in> set rs. w_hlc r \<le> hlc_state (ww_clock w))"

lemma read_file_body: "read_v2_records_from_file crc (build_wal_header v @ body) = read_v2_log crc body"
  by (cases body) (simp_all add: read_v2_records_from_file_def)

lemma read_v2_log_file:
  "\<forall>r \<in> set rs. wal_ok crc r \<Longrightarrow> read_v2_records_from_file crc (log_file rs) = rs"
  using read_v2_log_append [of rs crc "[]"] by (simp add: log_file_def read_file_body)

lemma u64_less_succ: "x \<noteq> 0xFFFFFFFFFFFFFFFF \<Longrightarrow> (x :: u64) < x + 1"
proof -
  assume "x \<noteq> 0xFFFFFFFFFFFFFFFF"
  then have "unat x \<noteq> 18446744073709551615" by (simp add: word_unat_eq_iff)
  moreover have "unat x < 18446744073709551616" using unsigned_less [of x, where 'a = nat] by simp
  ultimately show ?thesis by (simp add: word_less_nat_alt unat_word_ariths)
qed

lemma log_with_inv:
  assumes inv: "log_inv crc rs w" and wall: "wall_ok wall" and max: "ww_next_lsn w \<noteq> 0xFFFFFFFFFFFFFFFF"
    and mk: "\<And>lsn hlc. let r = mk lsn hlc (vc_singleton (ww_node_id w) hlc) in
      wal_ok crc r \<and> w_lsn r = lsn \<and> w_hlc r = hlc \<and> P r"
  shows "case log_with mk wall w of
      (w', Inl e) \<Rightarrow> log_inv crc rs w' \<and> ww_next_lsn w' = ww_next_lsn w + 1
    | (w', Inr (lsn, hlc)) \<Rightarrow> ww_next_lsn w' = ww_next_lsn w + 1 \<and>
        (\<exists>r. w_lsn r = lsn \<and> w_hlc r = hlc \<and> P r \<and> log_inv crc (rs @ [r]) w')"
proof -
  define x where "x = ww_next_lsn w"
  have x: "x < x + 1" using max by (simp add: x_def u64_less_succ)
  obtain c r where now: "hlc_now wall (ww_clock w) = (c, r)" by (cases "hlc_now wall (ww_clock w)")
  have lsns: "\<forall>r \<in> set rs. w_lsn r < x + 1"
    using inv x by (auto simp: log_inv_def x_def intro: less_trans)
  show ?thesis
  proof (cases r)
    case (Inl e)
    then have "c = ww_clock w" using hlc_call_error [of "Now wall"] now by simp
    then show ?thesis
      using inv now Inl lsns by (simp add: log_with_def Let_def log_inv_def x_def)
  next
    case (Inr h)
    have "hlc_state c = h \<and> hlc_state (ww_clock w) < h"
      using hlc_now_advances [OF wall] now Inr by simp
    moreover from this have "\<forall>r \<in> set rs. w_hlc r < h"
      using inv by (auto simp: log_inv_def intro: le_less_trans)
    moreover define r where "r = mk x h (vc_singleton (ww_node_id w) h)"
    moreover note mk [of x h, unfolded Let_def, folded r_def]
    ultimately have "log_inv crc (rs @ [r]) (append_record r (w\<lparr>ww_next_lsn := x + 1, ww_clock := c\<rparr>))"
      using inv lsns x
      by (auto simp: log_inv_def log_file_def append_record_def x_def sorted_wrt_append
          intro: less_imp_le)
    then show ?thesis
      using now Inr mk [of x h, unfolded Let_def, folded r_def]
      by (auto simp: log_with_def Let_def x_def r_def append_record_def)
  qed
qed

text \<open>Calls on a writer. A call carries what it logs and the wall time it reads.\<close>

datatype wal_call =
    CallPageWrite u64 u32 bytes bytes "hlc_error + u64"
  | CallCommit u64 "hlc_error + u64"
  | CallCheckpoint "hlc_error + u64"

fun wal_call_ok :: "wal_call \<Rightarrow> bool" where
  "wal_call_ok (CallPageWrite tx page_id before after wall) \<longleftrightarrow>
     wall_ok wall \<and> length before + length after < 2 ^ 31"
| "wal_call_ok (CallCommit tx wall) \<longleftrightarrow> wall_ok wall"
| "wal_call_ok (CallCheckpoint wall) \<longleftrightarrow> wall_ok wall"

fun run_wal_call :: "(bytes \<Rightarrow> u32) \<Rightarrow> wal_call \<Rightarrow> (wal_writer, u64 \<times> hlc) op" where
  "run_wal_call crc (CallPageWrite tx page_id before after wall) =
     log_page_write crc tx page_id before after wall"
| "run_wal_call crc (CallCommit tx wall) = log_commit crc tx wall"
| "run_wal_call crc (CallCheckpoint wall) = log_checkpoint crc wall"

fun wal_call_logs :: "wal_call \<Rightarrow> wal_record \<Rightarrow> bool" where
  "wal_call_logs (CallPageWrite tx page_id before after wall) r \<longleftrightarrow>
     w_op_type r = PageWrite \<and> w_tx_id r = tx \<and> w_page_id r = page_id \<and> w_data r = after @ before"
| "wal_call_logs (CallCommit tx wall) r \<longleftrightarrow> w_op_type r = Commit \<and> w_tx_id r = tx"
| "wal_call_logs (CallCheckpoint wall) r \<longleftrightarrow> w_op_type r = Checkpoint"

fun logged :: "wal_call \<times> u64 \<times> hlc \<Rightarrow> wal_record \<Rightarrow> bool" where
  "logged (c, lsn, hlc) r \<longleftrightarrow> wal_call_logs c r \<and> w_lsn r = lsn \<and> w_hlc r = hlc"

text \<open>A session: the calls that succeed, in order, each with the LSN and timestamp it returned.\<close>

fun run_wal_calls :: "(bytes \<Rightarrow> u32) \<Rightarrow> wal_call list \<Rightarrow> wal_writer \<Rightarrow> wal_writer \<times> (wal_call \<times> u64 \<times> hlc) list" where
  "run_wal_calls crc [] w = (w, [])"
| "run_wal_calls crc (c # cs) w =
     (case run_wal_call crc c w of
        (w, Inl _) \<Rightarrow> run_wal_calls crc cs w
      | (w, Inr r) \<Rightarrow> (let (w, rs) = run_wal_calls crc cs w in (w, (c, r) # rs)))"

lemma run_wal_call_inv:
  assumes inv: "log_inv crc rs w" and c: "wal_call_ok c" and max: "ww_next_lsn w \<noteq> 0xFFFFFFFFFFFFFFFF"
  shows "case run_wal_call crc c w of
      (w', Inl e) \<Rightarrow> log_inv crc rs w' \<and> ww_next_lsn w' = ww_next_lsn w + 1
    | (w', Inr (lsn, hlc)) \<Rightarrow> ww_next_lsn w' = ww_next_lsn w + 1 \<and>
        (\<exists>r. w_lsn r = lsn \<and> w_hlc r = hlc \<and> wal_call_logs c r \<and> log_inv crc (rs @ [r]) w')"
proof (cases c)
  case (CallPageWrite tx page_id before after wall)
  let ?mk = "\<lambda>lsn hlc vc. wal_page_write crc lsn tx (ww_node_id w) hlc vc page_id before after"
  have wl: "wall_ok wall" using c CallPageWrite by simp
  have mk: "let r = ?mk lsn h (vc_singleton (ww_node_id w) h) in
      wal_ok crc r \<and> w_lsn r = lsn \<and> w_hlc r = h \<and> wal_call_logs c r" for lsn h
    using c by (simp add: CallPageWrite wal_page_write_def wal_ok_sealed vc_singleton_def)
  have eq: "run_wal_call crc c w = log_with ?mk wall w" by (simp add: CallPageWrite log_page_write_def)
  show ?thesis unfolding eq by (rule log_with_inv [OF inv wl max]) (rule mk)
next
  case (CallCommit tx wall)
  let ?mk = "\<lambda>lsn hlc vc. wal_commit crc lsn tx (ww_node_id w) hlc vc"
  have wl: "wall_ok wall" using c CallCommit by simp
  have mk: "let r = ?mk lsn h (vc_singleton (ww_node_id w) h) in
      wal_ok crc r \<and> w_lsn r = lsn \<and> w_hlc r = h \<and> wal_call_logs c r" for lsn h
    using c by (simp add: CallCommit wal_commit_def wal_ok_sealed vc_singleton_def)
  have eq: "run_wal_call crc c w = log_with ?mk wall w" by (simp add: CallCommit log_commit_def)
  show ?thesis unfolding eq by (rule log_with_inv [OF inv wl max]) (rule mk)
next
  case (CallCheckpoint wall)
  let ?mk = "\<lambda>lsn hlc vc. wal_checkpoint crc lsn (ww_node_id w) hlc vc"
  have wl: "wall_ok wall" using c CallCheckpoint by simp
  have mk: "let r = ?mk lsn h (vc_singleton (ww_node_id w) h) in
      wal_ok crc r \<and> w_lsn r = lsn \<and> w_hlc r = h \<and> wal_call_logs c r" for lsn h
    using c by (simp add: CallCheckpoint wal_checkpoint_def wal_ok_sealed vc_singleton_def)
  have eq: "run_wal_call crc c w = log_with ?mk wall w" by (simp add: CallCheckpoint log_checkpoint_def)
  show ?thesis unfolding eq by (rule log_with_inv [OF inv wl max]) (rule mk)
qed


lemma run_wal_calls_inv:
  assumes "log_inv crc rs w" and "\<forall>c \<in> set cs. wal_call_ok c"
    and "unat (ww_next_lsn w) + length cs < 2 ^ 64"
  shows "\<exists>new. log_inv crc (rs @ new) (fst (run_wal_calls crc cs w))
    \<and> list_all2 logged
        (snd (run_wal_calls crc cs w)) new"
  using assms
proof (induction cs arbitrary: rs w)
  case Nil
  then show ?case by (intro exI [of _ "[]"]) simp
next
  case (Cons c cs)
  have nmax: "ww_next_lsn w \<noteq> 0xFFFFFFFFFFFFFFFF"
    using Cons.prems(3) by (auto simp: word_unat_eq_iff)
  have c: "wal_call_ok c" using Cons.prems(2) by simp
  obtain w' res where run: "run_wal_call crc c w = (w', res)" by (cases "run_wal_call crc c w")
  note step = run_wal_call_inv [OF Cons.prems(1) c nmax, unfolded run prod.case]
  have next_lsn: "ww_next_lsn w' = ww_next_lsn w + 1" using step by (auto split: sum.splits prod.splits)
  then have bound: "unat (ww_next_lsn w') + length cs < 2 ^ 64"
    using Cons.prems(3) nmax by (simp add: unat_word_ariths word_unat_eq_iff)
  show ?case
  proof (cases res)
    case (Inl e)
    then show ?thesis using Cons.IH [of rs w'] Cons.prems(2) step bound run by simp
  next
    case (Inr lh)
    obtain lsn h where lh: "lh = (lsn, h)" by (cases lh)
    then obtain r where r: "w_lsn r = lsn" "w_hlc r = h" "wal_call_logs c r" "log_inv crc (rs @ [r]) w'"
      using step Inr by auto
    from Cons.IH [OF r(4) _ bound] Cons.prems(2) obtain new where
      new: "log_inv crc ((rs @ [r]) @ new) (fst (run_wal_calls crc cs w'))"
      "list_all2 logged
        (snd (run_wal_calls crc cs w')) new" by auto
    then show ?thesis
      using run Inr lh r by (intro exI [of _ "r # new"]) (simp add: split_beta)
  qed
qed

lemma parse_built_header:
  "parse_wal_header (take 18 (build_wal_header WAL_VERSION_V2 @ rest)) = Inr WAL_VERSION_V2"
proof -
  let ?h = "build_wal_header WAL_VERSION_V2"
  have t: "take 18 (?h @ rest) = take 18 ?h" by (simp add: WAL_HEADER_SIZE_def PAGE_SIZE_def)
  have "slice 0 8 (take 18 ?h) = slice 0 8 ?h" "slice 8 2 (take 18 ?h) = slice 8 2 ?h"
    by (simp_all add: slice_def min_def drop_take)
  then show ?thesis
    unfolding t by (simp add: parse_wal_header_def slice_wal_header wal_consts page_consts)
qed

lemma max_or_0_ge: "x \<in> set xs \<Longrightarrow> x \<le> max_or_0 xs"
proof -
  have "y \<le> foldl max y xs \<and> (x \<in> set xs \<longrightarrow> x \<le> foldl max y xs)" for y :: u64
    by (induction xs arbitrary: y) (auto simp: le_max_iff_disj dest: spec intro: order_trans max.cobounded1 max.cobounded2)
  then show "x \<in> set xs \<Longrightarrow> x \<le> max_or_0 xs" by blast
qed

lemma max_or_0_in: "max_or_0 xs \<in> insert 0 (set xs)"
proof -
  have "foldl max y xs \<in> insert y (set xs)" for y :: u64
  proof (induction xs arbitrary: y)
    case (Cons x xs)
    from Cons [of "max y x"] show ?case by (auto simp: max_def)
  qed simp
  then show ?thesis by blast
qed

lemma new_with_identity_v2:
  assumes "prefix (build_wal_header WAL_VERSION_V2) file"
  shows "new_with_identity crc node clock file
    = Inr (wal_writer_at (read_v2_records_from_file crc file) file node clock)"
proof -
  obtain rest where f: "file = build_wal_header WAL_VERSION_V2 @ rest" using assms by (auto simp: prefix_def)
  have len: "8192 \<le> length file" by (simp add: f WAL_HEADER_SIZE_def PAGE_SIZE_def)
  have "take 8 file = WAL_MAGIC"
    using slice_wal_header(1) [of WAL_VERSION_V2]
    by (simp add: f slice_def WAL_HEADER_SIZE_def PAGE_SIZE_def)
  moreover have "file \<noteq> []" "8 \<le> length file" using len by auto
  ultimately show ?thesis
    using parse_built_header [of rest] by (simp add: new_with_identity_def f [symmetric])
qed

section \<open>Properties\<close>

text \<open>
  C15. The log is complete and ordered. After any session of page writes, commits and checkpoints,
  reading the log returns what it held before followed by exactly one record per successful
  call, in order, with the LSN and timestamp the call returned; LSNs and timestamps increase
  strictly along the whole log.
\<close>

theorem wal_log_complete:
  assumes "log_inv crc rs w" and "\<forall>c \<in> set cs. wal_call_ok c"
    and "unat (ww_next_lsn w) + length cs < 2 ^ 64"
  shows "case run_wal_calls crc cs w of (w', done) \<Rightarrow>
    \<exists>new. read_all_records crc w' = rs @ new
      \<and> list_all2 logged done new
      \<and> sorted_wrt (<) (map w_lsn (rs @ new)) \<and> sorted_wrt (<) (map w_hlc (rs @ new))"
proof -
  from run_wal_calls_inv [OF assms] obtain new where
    inv: "log_inv crc (rs @ new) (fst (run_wal_calls crc cs w))" and
    l2: "list_all2 logged
        (snd (run_wal_calls crc cs w)) new" by blast
  have "read_all_records crc (fst (run_wal_calls crc cs w)) = rs @ new"
    using inv read_v2_log_file [of "rs @ new" crc] by (simp add: log_inv_def read_all_records_def)
  then show ?thesis
    using inv l2 unfolding split_beta log_inv_def by (intro exI [of _ new]) simp
qed

lemma log_inv_new:
  "\<exists>w. new_with_identity crc node clock [] = Inr w \<and> log_inv crc [] w \<and> ww_next_lsn w = 1"
  by (simp add: new_with_identity_def log_inv_def log_file_def WAL_VERSION_CURRENT_def)

theorem wal_log_complete_witness:
  "\<exists>w. new_with_identity (\<lambda>_. 7) 1 (with_max_skew 5 (Inr 9)) [] = Inr w
     \<and> sorted_wrt (<) (map w_hlc (read_all_records (\<lambda>_. 7) (fst (run_wal_calls (\<lambda>_. 7)
          [CallPageWrite 1 2 [3] [4] (Inr 9), CallCommit 1 (Inr 9)] w))))"
proof -
  obtain w where w: "new_with_identity (\<lambda>_. 7) 1 (with_max_skew 5 (Inr 9)) [] = Inr w"
    "log_inv (\<lambda>_. 7) [] w" "ww_next_lsn w = 1" using log_inv_new by blast
  then show ?thesis
    using wal_log_complete [of "\<lambda>_. 7" "[]" w "[CallPageWrite 1 2 [3] [4] (Inr 9), CallCommit 1 (Inr 9)]"]
    by (auto simp: wall_ok_def split_beta)
qed


text \<open>
  C16. Crash and restart. If a crash leaves only the first \<open>k\<close> bytes of the records after the
  header, opening the file finds exactly the records that were completely written, in
  particular every record before a durable point \<open>k\<close> reached, and the writer continues with
  LSNs above all of them.
\<close>

theorem wal_crash_restart:
  assumes "\<forall>r \<in> set (rs @ ss). wal_ok crc r"
    and "length (concat (map to_bytes rs)) \<le> k"
    and "\<forall>r \<in> set (rs @ ss). w_lsn r \<noteq> 0xFFFFFFFFFFFFFFFF"
  shows "\<exists>w found. new_with_identity crc node clock
      (build_wal_header WAL_VERSION_V2 @ take k (concat (map to_bytes (rs @ ss)))) = Inr w
    \<and> read_all_records crc w = found \<and> prefix rs found \<and> prefix found (rs @ ss)
    \<and> (\<forall>r \<in> set found. w_lsn r < ww_next_lsn w)"
proof -
  define bs where "bs = build_wal_header WAL_VERSION_V2 @ take k (concat (map to_bytes (rs @ ss)))"
  define found where "found = whole_records k (rs @ ss)"
  have read: "read_v2_records_from_file crc bs = found"
    unfolding bs_def found_def read_file_body by (rule read_v2_log_cut [OF assms(1)])
  have pre: "prefix rs found"
    using assms(2) unfolding found_def
  proof (induction rs arbitrary: k)
    case (Cons r rs)
    then show ?case by (auto simp: le_diff_conv2)
  qed simp
  have "prefix found (rs @ ss)" unfolding found_def by (rule whole_records_prefix)
  moreover from this have "set found \<subseteq> set (rs @ ss)" by (rule set_mono_prefix)
  moreover have "w_lsn r < max_or_0 (map w_lsn found) + 1" if "r \<in> set found" for r
  proof -
    have "max_or_0 (map w_lsn found) \<in> insert 0 (w_lsn ` set found)"
      using max_or_0_in [of "map w_lsn found"] by simp
    then have "max_or_0 (map w_lsn found) \<noteq> 0xFFFFFFFFFFFFFFFF"
      using assms(3) \<open>set found \<subseteq> _\<close> by auto
    moreover have "w_lsn r \<le> max_or_0 (map w_lsn found)" using that by (intro max_or_0_ge) simp
    ultimately show ?thesis using u64_less_succ le_less_trans by blast
  qed
  moreover have "new_with_identity crc node clock bs = Inr (wal_writer_at found bs node clock)"
    using new_with_identity_v2 [of bs crc node clock] read by (simp add: bs_def)
  ultimately show ?thesis
    unfolding bs_def [symmetric] using pre read by (auto simp: read_all_records_def wal_writer_at_def)
qed


theorem wal_crash_restart_witness:
  "\<exists>w. new_with_identity (\<lambda>_. 7) 1 (with_max_skew 5 (Inr 9))
      (build_wal_header WAL_VERSION_V2 @ take 80 (concat (map to_bytes
         ([wal_commit (\<lambda>_. 7) 1 1 1 9 (vc_singleton 1 9)] @ [wal_commit (\<lambda>_. 7) 2 1 1 9 (vc_singleton 1 9)])))) = Inr w
    \<and> prefix [wal_commit (\<lambda>_. 7) 1 1 1 9 (vc_singleton 1 9)] (read_all_records (\<lambda>_. 7) w)"
proof -
  have ok: "wal_ok (\<lambda>_. 7) (wal_commit (\<lambda>_. 7) n 1 1 9 (vc_singleton 1 9))" for n
    by (auto simp: wal_commit_def vc_singleton_def intro!: wal_ok_sealed)
  show ?thesis
    using wal_crash_restart [of "[wal_commit (\<lambda>_. 7) 1 1 1 9 (vc_singleton 1 9)]"
        "[wal_commit (\<lambda>_. 7) 2 1 1 9 (vc_singleton 1 9)]" "\<lambda>_. 7" 80 1 "with_max_skew 5 (Inr 9)"]
      ok [of 1] ok [of 2]
    by (auto simp: length_to_bytes encoded_v2_len_def wal_commit_def vc_encoded_len_def
        vc_singleton_def VCLOCK_ENTRY_SIZE_def wal_consts)
qed

text \<open>
  C17. What a torn tail costs. The writer appends after whatever is in the file. If a crash left
  9 to 12 bytes of an unfinished record at the end, every record logged after the restart, a
  commit included, is invisible to all later reads of the log. The first of these records has an
  LSN below 2^32, which every log with fewer records has.
\<close>

theorem records_after_torn_tail_lost:
  assumes "\<forall>r \<in> set rs. wal_ok crc r" and "wal_ok crc torn" and "wal_ok crc r"
    and "unat (w_lsn r) < 2 ^ 32" and "9 \<le> k" and "k \<le> 12"
  shows "read_v2_log crc (concat (map to_bytes rs) @ take k (to_bytes torn) @ to_bytes r @ later) = rs"
proof -
  define bs where "bs = take k (to_bytes torn) @ to_bytes r @ later"
  have len: "length (take k (to_bytes torn)) = k"
    using assms(6) by (simp add: length_to_bytes encoded_v2_len_eq)
  have "20 - k < length (to_bytes r)"
    using assms(5) by (simp add: length_to_bytes encoded_v2_len_eq)
  then have "bs ! 20 = to_bytes r ! (20 - k)"
    using assms(5,6) len by (simp add: bs_def nth_append)
  also have "\<dots> = to_le (w_lsn r) ! (16 - k)"
  proof -
    have "k = 9 \<or> k = 10 \<or> k = 11 \<or> k = 12" using assms(5,6) by linarith
    then show ?thesis by (elim disjE) (simp_all add: to_bytes_def body_v2_def nth_append)
  qed
  also have "\<dots> = 0"
  proof -
    have "(2 :: nat) ^ 32 = 256 ^ 4" by simp
    also have "\<dots> \<le> 256 ^ (16 - k)" using assms(6) by (intro power_increasing) simp_all
    finally have "unat (w_lsn r) div 256 ^ (16 - k) = 0" using assms(4) by simp
    moreover have "16 - k < LENGTH(64) div 8" using assms(5) by simp
    ultimately show ?thesis by (simp only: to_le_def nth_le_bytes) simp
  qed
  finally have "op_from_u8 (bs ! 20) = None" by (simp add: op_from_u8_def)
  then have "\<exists>e. from_bytes_v2 crc bs = Inl e" by (simp add: from_bytes_v2_def Let_def)
  then have "read_v2_log crc bs = []" using read_v2_log_bad by blast
  then show ?thesis using read_v2_log_append [OF assms(1), of bs] by (simp add: bs_def)
qed


theorem records_after_torn_tail_lost_witness:
  "read_v2_log (\<lambda>_. 7) (concat (map to_bytes [])
     @ take 10 (to_bytes (wal_commit (\<lambda>_. 7) 1 1 1 9 (vc_singleton 1 9)))
     @ to_bytes (wal_commit (\<lambda>_. 7) 2 1 1 10 (vc_singleton 1 10)) @ []) = []"
proof (rule records_after_torn_tail_lost)
  show "wal_ok (\<lambda>_. 7) (wal_commit (\<lambda>_. 7) 1 1 1 9 (vc_singleton 1 9))"
    "wal_ok (\<lambda>_. 7) (wal_commit (\<lambda>_. 7) 2 1 1 10 (vc_singleton 1 10))"
    by (auto simp: wal_commit_def vc_singleton_def intro!: wal_ok_sealed)
qed (simp_all add: wal_commit_def)

end
