(* ===== verification/Slotted_Page.thy ===== *)
theory Slotted_Page
  imports Page_Layout
begin

text \<open>
  Slotted pages: \<^verbatim>\<open>src/src/page/slotted.rs\<close>. The slot array grows from the header, the tuples grow
  from the end of the page. A method that takes \<^verbatim>\<open>&mut self\<close> returns the page it leaves behind
  together with its result, so that what a failing call changed is part of the model.
\<close>

unbundle bit_operations_syntax

definition SLOT_LENGTH_MASK :: u16 where "SLOT_LENGTH_MASK = 0x7FFF"
definition SLOT_TOMBSTONE_BIT :: u16 where "SLOT_TOMBSTONE_BIT = 0x8000"
definition MAX_SLOT_LENGTH :: u16 where "MAX_SLOT_LENGTH = SLOT_LENGTH_MASK"

definition sp_new :: "u32 \<Rightarrow> page" where
  "sp_new page_id = header_write_to (header_new page_id Data) zero_page"

definition num_slots :: "page \<Rightarrow> u16" where
  "num_slots p = of_le (slice 6 2 p)"

definition free_space_start :: "page \<Rightarrow> u16" where
  "free_space_start p = of_le (slice 8 2 p)"

definition free_space_end :: "page \<Rightarrow> u16" where
  "free_space_end p = of_le (slice 10 2 p)"

definition set_num_slots :: "u16 \<Rightarrow> page \<Rightarrow> page" where
  "set_num_slots n p = blit 6 (to_le n) p"

definition set_free_space_start :: "u16 \<Rightarrow> page \<Rightarrow> page" where
  "set_free_space_start off p = blit 8 (to_le off) p"

definition set_free_space_end :: "u16 \<Rightarrow> page \<Rightarrow> page" where
  "set_free_space_end off p = blit 10 (to_le off) p"

text \<open>Subtraction on \<^typ>\<open>nat\<close> is the \<^verbatim>\<open>saturating_sub\<close> of the source.\<close>

definition free_space :: "page \<Rightarrow> nat" where
  "free_space p = unat (free_space_end p) - unat (free_space_start p)"

definition slot_offset :: "u16 \<Rightarrow> nat" where
  "slot_offset slot_index = PAGE_HEADER_SIZE + unat slot_index * SLOT_SIZE"

definition read_slot :: "u16 \<Rightarrow> page \<Rightarrow> (u16 \<times> u16) result" where
  "read_slot slot_index p =
     (let base = slot_offset slot_index in
      bind_res (try_slice base (base + 2) p) (\<lambda>off.
      bind_res (try_slice (base + 2) (base + 4) p) (\<lambda>raw_len.
        Inr (of_le off, of_le raw_len AND SLOT_LENGTH_MASK))))"

definition write_slot :: "u16 \<Rightarrow> u16 \<Rightarrow> u16 \<Rightarrow> page \<Rightarrow> page \<times> unit result" where
  "write_slot slot_index off len p =
     (if len > MAX_SLOT_LENGTH then (p, Inl (Err (Codec (SlotLengthTooLong len))))
      else
        (let base = slot_offset slot_index in
         case try_blit base (to_le off) p of
           Inl e \<Rightarrow> (p, Inl e)
         | Inr p \<Rightarrow>
             (case try_blit (base + 2) (to_le len) p of
                Inl e \<Rightarrow> (p, Inl e)
              | Inr p \<Rightarrow> (p, Inr ()))))"

definition is_slot_tombstone :: "u16 \<Rightarrow> page \<Rightarrow> bool result" where
  "is_slot_tombstone slot_index p =
     (if slot_index \<ge> num_slots p then Inr False
      else
        (let base = slot_offset slot_index in
         bind_res (try_slice (base + 2) (base + 4) p) (\<lambda>raw_len.
         bind_res (try_slice base (base + 2) p) (\<lambda>off.
           Inr ((of_le off :: u16) \<noteq> 0 \<and> of_le raw_len AND SLOT_TOMBSTONE_BIT \<noteq> 0)))))"

definition set_slot_tombstone_flag :: "u16 \<Rightarrow> bool \<Rightarrow> page \<Rightarrow> page \<times> unit result" where
  "set_slot_tombstone_flag slot_index flag p =
     (if slot_index \<ge> num_slots p then (p, Inr ())
      else
        (let base = slot_offset slot_index in
         case try_slice (base + 2) (base + 4) p of
           Inl e \<Rightarrow> (p, Inl e)
         | Inr bs \<Rightarrow>
             (let raw_len = (if flag then of_le bs OR SLOT_TOMBSTONE_BIT
                             else of_le bs AND SLOT_LENGTH_MASK) in
              case try_blit (base + 2) (to_le raw_len) p of
                Inl e \<Rightarrow> (p, Inl e)
              | Inr p \<Rightarrow> (p, Inr ()))))"

definition write_slot_preserving_flag :: "u16 \<Rightarrow> u16 \<Rightarrow> u16 \<Rightarrow> page \<Rightarrow> page \<times> unit result" where
  "write_slot_preserving_flag slot_index off len p =
     (case is_slot_tombstone slot_index p of
        Inl e \<Rightarrow> (p, Inl e)
      | Inr was_tombstone \<Rightarrow>
          (case write_slot slot_index off len p of
             (p, Inl e) \<Rightarrow> (p, Inl e)
           | (p, Inr _) \<Rightarrow>
               if was_tombstone then set_slot_tombstone_flag slot_index True p
               else (p, Inr ())))"

text \<open>The loop ranges \<^verbatim>\<open>0..n\<close> over \<^verbatim>\<open>u16\<close>.\<close>

definition u16_range :: "u16 \<Rightarrow> u16 list" where
  "u16_range n = map word_of_nat [0..<unat n]"

fun find_tombstone_in :: "page \<Rightarrow> u16 list \<Rightarrow> u16 option result" where
  "find_tombstone_in p [] = Inr None"
| "find_tombstone_in p (i # is) =
     bind_res (read_slot i p) (\<lambda>(off, _).
       if off = 0 then Inr (Some i) else find_tombstone_in p is)"

definition find_tombstone_slot :: "page \<Rightarrow> u16 option result" where
  "find_tombstone_slot p = find_tombstone_in p (u16_range (num_slots p))"

definition page_not_found :: "page \<Rightarrow> 'a result" where
  "page_not_found p = Inl (Err (PageNotFound (hd_page_id (header_read_from p))))"

text \<open>The slot an insertion uses: the closure of \<^verbatim>\<open>unwrap_or_else\<close> appends one if none is free.\<close>

definition claim_slot :: "u16 option \<Rightarrow> page \<Rightarrow> u16 \<times> page" where
  "claim_slot found p =
     (case found of
        Some i \<Rightarrow> (i, p)
      | None \<Rightarrow>
          (let idx = num_slots p;
               p = set_num_slots (idx + 1) p;
               p = set_free_space_start (word_of_nat (slot_offset (idx + 1))) p
           in (idx, p)))"

definition sp_insert :: "bytes \<Rightarrow> page \<Rightarrow> page \<times> u16 result" where
  "sp_insert tuple_data p =
     (let data_len = length tuple_data;
          needed = data_len + SLOT_SIZE in
      if free_space p < needed then (p, Inl (Err (PageFull (hd_page_id (header_read_from p)))))
      else
        (case find_tombstone_slot p of
           Inl e \<Rightarrow> (p, Inl e)
         | Inr found \<Rightarrow>
             (let (slot_index, p) = claim_slot found p;
                  new_end = free_space_end p - word_of_nat data_len;
                  p = set_free_space_end new_end p
              in case try_blit (unat new_end) tuple_data p of
                   Inl e \<Rightarrow> (p, Inl e)
                 | Inr p \<Rightarrow>
                     (case write_slot slot_index new_end (word_of_nat data_len) p of
                        (p, Inl e) \<Rightarrow> (p, Inl e)
                      | (p, Inr _) \<Rightarrow> (p, Inr slot_index)))))"

definition sp_get :: "u16 \<Rightarrow> page \<Rightarrow> bytes result" where
  "sp_get slot_index p =
     (if slot_index \<ge> num_slots p then page_not_found p
      else bind_res (read_slot slot_index p) (\<lambda>(off, len).
        if off = 0 then page_not_found p
        else try_slice (unat off) (unat off + unat len) p))"

definition sp_delete :: "u16 \<Rightarrow> page \<Rightarrow> page \<times> unit result" where
  "sp_delete slot_index p =
     (if slot_index \<ge> num_slots p then (p, page_not_found p)
      else
        (case read_slot slot_index p of
           Inl e \<Rightarrow> (p, Inl e)
         | Inr (off, _) \<Rightarrow>
             if off = 0 then (p, page_not_found p) else write_slot slot_index 0 0 p))"

definition sp_update :: "u16 \<Rightarrow> bytes \<Rightarrow> page \<Rightarrow> page \<times> u16 result" where
  "sp_update slot_index new_data p =
     (if slot_index \<ge> num_slots p then (p, page_not_found p)
      else
        (case read_slot slot_index p of
           Inl e \<Rightarrow> (p, Inl e)
         | Inr (off, len) \<Rightarrow>
             if off = 0 then (p, page_not_found p)
             else if length new_data \<le> unat len then
               (case try_blit (unat off) new_data p of
                  Inl e \<Rightarrow> (p, Inl e)
                | Inr p \<Rightarrow>
                    (case write_slot slot_index off (word_of_nat (length new_data)) p of
                       (p, Inl e) \<Rightarrow> (p, Inl e)
                     | (p, Inr _) \<Rightarrow> (p, Inr slot_index)))
             else
               (case sp_delete slot_index p of
                  (p, Inl e) \<Rightarrow> (p, Inl e)
                | (p, Inr _) \<Rightarrow> sp_insert new_data p)))"

text \<open>\<^verbatim>\<open>compact\<close> is two loops: collect the live tuples, then write them back from the end.\<close>

fun collect_live :: "page \<Rightarrow> u16 list \<Rightarrow> (u16 \<times> bytes) list result" where
  "collect_live p [] = Inr []"
| "collect_live p (i # is) =
     bind_res (read_slot i p) (\<lambda>(off, len).
       if off \<noteq> 0 then
         bind_res (try_slice (unat off) (unat off + unat len) p) (\<lambda>t.
         bind_res (collect_live p is) (\<lambda>live. Inr ((i, t) # live)))
       else collect_live p is)"

fun repack :: "(u16 \<times> bytes) list \<Rightarrow> u16 \<Rightarrow> page \<Rightarrow> page \<times> u16 result" where
  "repack [] write_end p = (p, Inr write_end)"
| "repack ((slot_index, t) # live) write_end p =
     (let write_end = write_end - word_of_nat (length t) in
      case try_blit (unat write_end) t p of
        Inl e \<Rightarrow> (p, Inl e)
      | Inr p \<Rightarrow>
          (case write_slot slot_index write_end (word_of_nat (length t)) p of
             (p, Inl e) \<Rightarrow> (p, Inl e)
           | (p, Inr _) \<Rightarrow> repack live write_end p))"

definition sp_compact :: "page \<Rightarrow> page \<times> unit result" where
  "sp_compact p =
     (let n = num_slots p in
      case collect_live p (u16_range n) of
        Inl e \<Rightarrow> (p, Inl e)
      | Inr live \<Rightarrow>
          (let header_and_slots_end = slot_offset n in
           if header_and_slots_end > PAGE_SIZE then (p, Inl Panic)
           else
             (let p = blit header_and_slots_end
                        (replicate (PAGE_SIZE - header_and_slots_end) 0) p in
              case repack live (word_of_nat PAGE_SIZE) p of
                (p, Inl e) \<Rightarrow> (p, Inl e)
              | (p, Inr write_end) \<Rightarrow> (set_free_space_end write_end p, Inr ()))))"

fun count_live :: "page \<Rightarrow> u16 list \<Rightarrow> nat result" where
  "count_live p [] = Inr 0"
| "count_live p (i # is) =
     bind_res (read_slot i p) (\<lambda>(off, _).
     bind_res (count_live p is) (\<lambda>count. Inr (if off \<noteq> 0 then count + 1 else count)))"

definition live_tuple_count :: "page \<Rightarrow> nat result" where
  "live_tuple_count p = count_live p (u16_range (num_slots p))"

section \<open>The slot directory and the page invariant\<close>

definition soff :: "page \<Rightarrow> nat \<Rightarrow> nat" where
  "soff p i = unat (of_le (slice (32 + 4 * i) 2 p) :: u16)"

definition slen :: "page \<Rightarrow> nat \<Rightarrow> nat" where
  "slen p i = unat ((of_le (slice (34 + 4 * i) 2 p) :: u16) AND SLOT_LENGTH_MASK)"

definition tuple_at :: "page \<Rightarrow> nat \<Rightarrow> bytes option" where
  "tuple_at p i = (if soff p i = 0 then None else Some (slice (soff p i) (slen p i) p))"

text \<open>What a slotted page stands for: its slots in order, each a tuple or free.\<close>

definition page_slots :: "page \<Rightarrow> bytes option list" where
  "page_slots p = map (tuple_at p) [0..<unat (num_slots p)]"

definition tuple_bytes :: "bytes option list \<Rightarrow> nat" where
  "tuple_bytes ts = sum_list (map (case_option 0 length) ts)"

definition disjoint_slots :: "page \<Rightarrow> nat \<Rightarrow> nat \<Rightarrow> bool" where
  "disjoint_slots p i j \<longleftrightarrow>
     soff p i + slen p i \<le> soff p j \<or> soff p j + slen p j \<le> soff p i"

definition slotted_ok :: "page \<Rightarrow> bool" where
  "slotted_ok p \<longleftrightarrow>
     page_ok p
     \<and> unat (free_space_start p) = 32 + 4 * unat (num_slots p)
     \<and> unat (free_space_start p) \<le> unat (free_space_end p)
     \<and> unat (free_space_end p) \<le> 8192
     \<and> (\<forall>i < unat (num_slots p). soff p i \<noteq> 0 \<longrightarrow>
          unat (free_space_end p) \<le> soff p i \<and> soff p i + slen p i \<le> 8192)
     \<and> (\<forall>i < unat (num_slots p). \<forall>j < unat (num_slots p).
          i \<noteq> j \<longrightarrow> soff p i \<noteq> 0 \<longrightarrow> soff p j \<noteq> 0 \<longrightarrow> disjoint_slots p i j)
     \<and> unat (free_space_end p) + tuple_bytes (page_slots p) \<le> 8192"


section \<open>Reads and writes of single fields\<close>

lemma page_len: "page_ok p \<Longrightarrow> length p = 8192"
  by (simp add: page_ok_def PAGE_SIZE_def)

lemma page_okI: "length p = 8192 \<Longrightarrow> page_ok p"
  by (simp add: page_ok_def PAGE_SIZE_def)

lemma mask15: "unat ((w :: u16) AND SLOT_LENGTH_MASK) = unat w mod 32768"
proof -
  have "SLOT_LENGTH_MASK = mask 15" by (simp add: SLOT_LENGTH_MASK_def mask_eq_exp_minus_1)
  then have "w AND SLOT_LENGTH_MASK = take_bit 15 w" by (simp only: take_bit_eq_mask)
  then show ?thesis by (simp only: unsigned_take_bit_eq) (simp add: take_bit_eq_mod)
qed

lemma slen_less: "slen p i < 32768"
  by (simp add: slen_def mask15)

definition slot_entry :: "u16 \<Rightarrow> u16 \<Rightarrow> bytes" where
  "slot_entry off len = to_le off @ to_le len"

lemma length_slot_entry [simp]: "length (slot_entry off len) = 4"
  by (simp add: slot_entry_def)

lemma slices_slot_entry [simp]:
  "slice 0 2 (slot_entry off len) = to_le off" "slice 2 2 (slot_entry off len) = to_le len"
  by (simp_all add: slot_entry_def slice_def)

lemma slot_offset_eq: "slot_offset i = 32 + 4 * unat i"
  by (simp add: slot_offset_def page_consts)

lemma read_slot_eq:
  assumes "page_ok p" and "unat i < 2040"
  shows "read_slot i p = Inr (of_le (slice (32 + 4 * unat i) 2 p),
    of_le (slice (34 + 4 * unat i) 2 p) AND SLOT_LENGTH_MASK)"
  using assms by (simp add: read_slot_def Let_def try_slice_def slot_offset_eq page_len)

lemma write_slot_eq:
  assumes "page_ok p" and "unat i < 2040" and "unat len < 32768"
  shows "write_slot i off len p = (blit (32 + 4 * unat i) (slot_entry off len) p, Inr ())"
proof -
  have "\<not> len > MAX_SLOT_LENGTH"
    using assms(3) by (simp add: MAX_SLOT_LENGTH_def SLOT_LENGTH_MASK_def word_less_nat_alt)
  then show ?thesis
    using assms
    by (simp add: write_slot_def Let_def try_blit_def slot_offset_eq page_len
        blit_blit_adjacent slot_entry_def)
qed

lemma header_fields_blit [simp]:
  assumes "page_ok p" and "32 \<le> i" and "i + length xs \<le> 8192"
  shows "num_slots (blit i xs p) = num_slots p"
    and "free_space_start (blit i xs p) = free_space_start p"
    and "free_space_end (blit i xs p) = free_space_end p"
  using assms
  by (simp_all add: num_slots_def free_space_start_def free_space_end_def slice_blit_other page_len)

lemma slot_blit_entry:
  assumes "page_ok p" and "k < 2040" and "j < 2040" and "unat len < 32768"
  shows "soff (blit (32 + 4 * k) (slot_entry off len) p) j = (if j = k then unat off else soff p j)"
    and "slen (blit (32 + 4 * k) (slot_entry off len) p) j = (if j = k then unat len else slen p j)"
proof -
  have "j = k \<or> j + 1 \<le> k \<or> k + 1 \<le> j" by linarith
  then show "soff (blit (32 + 4 * k) (slot_entry off len) p) j = (if j = k then unat off else soff p j)"
    and "slen (blit (32 + 4 * k) (slot_entry off len) p) j = (if j = k then unat len else slen p j)"
    using assms
    by (elim disjE; simp add: soff_def slen_def slice_blit_other slice_blit_inside mask15 page_len)+
qed

lemma slot_blit_body:
  assumes "page_ok p" and "36 + 4 * j \<le> i" and "i + length xs \<le> 8192"
  shows "soff (blit i xs p) j = soff p j" and "slen (blit i xs p) j = slen p j"
  using assms by (simp_all add: soff_def slen_def slice_blit_other page_len)

lemma header_fields_set [simp]:
  assumes "page_ok p"
  shows "num_slots (set_num_slots n p) = n"
    and "num_slots (set_free_space_start n p) = num_slots p"
    and "num_slots (set_free_space_end n p) = num_slots p"
    and "free_space_start (set_num_slots n p) = free_space_start p"
    and "free_space_start (set_free_space_start n p) = n"
    and "free_space_start (set_free_space_end n p) = free_space_start p"
    and "free_space_end (set_num_slots n p) = free_space_end p"
    and "free_space_end (set_free_space_start n p) = free_space_end p"
    and "free_space_end (set_free_space_end n p) = n"
  using assms
  by (simp_all add: num_slots_def free_space_start_def free_space_end_def set_num_slots_def
      set_free_space_start_def set_free_space_end_def slice_blit_other slice_blit_same page_len)

lemma page_ok_set [simp]:
  assumes "page_ok p"
  shows "page_ok (set_num_slots n p)" "page_ok (set_free_space_start n p)"
    "page_ok (set_free_space_end n p)"
  using assms
  by (simp_all add: set_num_slots_def set_free_space_start_def set_free_space_end_def page_consts)

lemma body_set [simp]:
  assumes "page_ok p" and "32 \<le> i" and "i + m \<le> 8192"
  shows "slice i m (set_num_slots n p) = slice i m p"
    and "slice i m (set_free_space_start n p) = slice i m p"
    and "slice i m (set_free_space_end n p) = slice i m p"
  using assms
  by (simp_all add: set_num_slots_def set_free_space_start_def set_free_space_end_def
      slice_blit_other page_len)

lemma slot_set [simp]:
  assumes "page_ok p" and "j < 2040"
  shows "soff (set_num_slots n p) j = soff p j" "slen (set_num_slots n p) j = slen p j"
    and "soff (set_free_space_start n p) j = soff p j"
    and "slen (set_free_space_start n p) j = slen p j"
    and "soff (set_free_space_end n p) j = soff p j"
    and "slen (set_free_space_end n p) j = slen p j"
  using assms by (simp_all add: soff_def slen_def)

section \<open>Consequences of the invariant\<close>

lemma slotted_ok_page [simp]: "slotted_ok p \<Longrightarrow> page_ok p"
  by (simp add: slotted_ok_def)

lemma slotted_ok_start: "slotted_ok p \<Longrightarrow> unat (free_space_start p) = 32 + 4 * unat (num_slots p)"
  by (simp add: slotted_ok_def)

lemma slotted_ok_slots: "slotted_ok p \<Longrightarrow> i \<le> unat (num_slots p) \<Longrightarrow> 32 + 4 * i \<le> 8192"
  unfolding slotted_ok_def by linarith

lemma slot_lt: "slotted_ok p \<Longrightarrow> i < unat (num_slots p) \<Longrightarrow> i < 2040"
  using slotted_ok_slots [of p "Suc i"] by simp

lemma live_slot_range:
  assumes "slotted_ok p" and "i < unat (num_slots p)" and "soff p i \<noteq> 0"
  shows "unat (free_space_end p) \<le> soff p i" and "soff p i + slen p i \<le> 8192"
    and "32 + 4 * unat (num_slots p) \<le> soff p i"
  using assms unfolding slotted_ok_def by auto

lemma length_page_slots [simp]: "length (page_slots p) = unat (num_slots p)"
  by (simp add: page_slots_def)

lemma nth_page_slots: "i < unat (num_slots p) \<Longrightarrow> page_slots p ! i = tuple_at p i"
  by (simp add: page_slots_def)

lemma soff_zero_iff: "(of_le (slice (32 + 4 * i) 2 p) :: u16) = 0 \<longleftrightarrow> soff p i = 0"
  by (simp add: soff_def unsigned_eq_0_iff)

lemma read_slot_ok:
  assumes "slotted_ok p" and "i < unat (num_slots p)"
  shows "\<exists>off len. read_slot (word_of_nat i) p = Inr (off, len)
    \<and> unat off = soff p i \<and> unat len = slen p i"
proof -
  have i: "i < 2040" using slot_lt [OF assms] .
  then have u: "unat (word_of_nat i :: u16) = i" by (simp add: unat_of_nat_small)
  then have "read_slot (word_of_nat i) p = Inr (of_le (slice (32 + 4 * i) 2 p),
    of_le (slice (34 + 4 * i) 2 p) AND SLOT_LENGTH_MASK)"
    using read_slot_eq [of p "word_of_nat i"] assms i by simp
  then show ?thesis by (simp add: soff_def slen_def)
qed

lemma length_tuple_at:
  assumes "slotted_ok p" and "i < unat (num_slots p)" and "tuple_at p i = Some t"
  shows "length t = slen p i"
  using assms live_slot_range [OF assms(1,2)]
  by (auto simp: tuple_at_def page_len split: if_splits)


section \<open>Insertion\<close>

text \<open>The directory after an insertion: the first free slot is reused, else one is added.\<close>

definition free_index :: "bytes option list \<Rightarrow> nat" where
  "free_index ts =
     (case List.find (\<lambda>i. ts ! i = None) [0..<length ts] of None \<Rightarrow> length ts | Some i \<Rightarrow> i)"

definition dir_insert :: "bytes \<Rightarrow> bytes option list \<Rightarrow> bytes option list" where
  "dir_insert t ts =
     (let i = free_index ts in if i < length ts then ts[i := Some t] else ts @ [Some t])"

lemma free_index_le: "free_index ts \<le> length ts"
  by (auto simp: free_index_def find_Some_iff split: option.splits)

lemma find_SomeD: "List.find P xs = Some x \<Longrightarrow> P x \<and> x \<in> set xs"
  by (induction xs) (auto split: if_splits)

lemma free_index_free: "free_index ts < length ts \<Longrightarrow> ts ! free_index ts = None"
  by (cases "List.find (\<lambda>i. ts ! i = None) [0..<length ts]")
    (auto simp: free_index_def dest: find_SomeD)

lemma u16_of_nat: "n < 65536 \<Longrightarrow> unat (word_of_nat n :: u16) = n"
  by (simp add: unat_of_nat_small)

lemma find_upt_cong:
  "(\<And>i. i \<in> set is \<Longrightarrow> P i = Q i) \<Longrightarrow> List.find P is = List.find Q is"
  by (induction "is") auto

lemma find_tombstone_in_ok:
  assumes "slotted_ok p" and "\<forall>i \<in> set is. i < unat (num_slots p)"
  shows "find_tombstone_in p (map word_of_nat is)
    = Inr (map_option word_of_nat (List.find (\<lambda>i. soff p i = 0) is))"
  using assms(2)
proof (induction "is")
  case Nil
  then show ?case by simp
next
  case (Cons i "is")
  then obtain off len where "read_slot (word_of_nat i) p = Inr (off, len)"
    and "unat off = soff p i"
    using read_slot_ok [OF assms(1), of i] by auto
  then show ?case using Cons by (simp add: unsigned_eq_0_iff flip: \<open>unat off = soff p i\<close>)
qed

lemma find_tombstone_slot_ok:
  assumes "slotted_ok p"
  shows "find_tombstone_slot p =
    Inr (if free_index (page_slots p) < unat (num_slots p)
         then Some (word_of_nat (free_index (page_slots p))) else None)"
proof -
  have "List.find (\<lambda>i. page_slots p ! i = None) [0..<unat (num_slots p)]
      = List.find (\<lambda>i. soff p i = 0) [0..<unat (num_slots p)]"
    by (rule find_upt_cong) (auto simp: nth_page_slots tuple_at_def)
  then show ?thesis
    using find_tombstone_in_ok [OF assms, of "[0..<unat (num_slots p)]"]
    by (auto simp: find_tombstone_slot_def u16_range_def free_index_def find_Some_iff
        split: option.splits)
qed

lemma unat_sub_of_nat:
  assumes "k \<le> unat (w :: u16)"
  shows "unat (w - word_of_nat k) = unat w - k"
proof -
  have "k < 2 ^ 16" using assms unsigned_less [of w, where 'a = nat] by simp
  then have k: "unat (word_of_nat k :: u16) = k" by (simp add: unat_of_nat_small)
  then have "(word_of_nat k :: u16) \<le> w" using assms by (simp add: word_le_nat_alt)
  then show ?thesis using k by (simp add: unat_sub)
qed

text \<open>Writing a tuple below the current end of the free space and its slot entry.\<close>

definition put_tuple :: "nat \<Rightarrow> nat \<Rightarrow> bytes \<Rightarrow> page \<Rightarrow> page" where
  "put_tuple k a t p = blit (32 + 4 * k) (slot_entry (word_of_nat a) (word_of_nat (length t))) (blit a t p)"

lemma put_tuple_effect:
  assumes "page_ok p" and "k < 2040" and "36 + 4 * k \<le> a" and "a + length t \<le> 8192"
  shows "page_ok (put_tuple k a t p)"
    and "num_slots (put_tuple k a t p) = num_slots p"
    and "free_space_start (put_tuple k a t p) = free_space_start p"
    and "free_space_end (put_tuple k a t p) = free_space_end p"
    and "soff (put_tuple k a t p) k = a"
    and "slen (put_tuple k a t p) k = length t"
    and "slice a (length t) (put_tuple k a t p) = t"
    and "36 + 4 * j \<le> a \<Longrightarrow> j \<noteq> k \<Longrightarrow> soff (put_tuple k a t p) j = soff p j"
    and "36 + 4 * j \<le> a \<Longrightarrow> j \<noteq> k \<Longrightarrow> slen (put_tuple k a t p) j = slen p j"
    and "36 + 4 * k \<le> b \<Longrightarrow> b + m \<le> 8192 \<Longrightarrow> b + m \<le> a \<or> a + length t \<le> b \<Longrightarrow>
      slice b m (put_tuple k a t p) = slice b m p"
proof -
  have a: "unat (word_of_nat a :: u16) = a" "unat (word_of_nat (length t) :: u16) = length t"
    using assms by (simp_all add: unat_of_nat_small)
  have q: "page_ok (blit a t p)" using assms by (simp add: page_consts)
  note [simp] = slot_blit_entry [OF q assms(2)]
  show "page_ok (put_tuple k a t p)"
    using assms q by (simp add: put_tuple_def page_consts)
  show "num_slots (put_tuple k a t p) = num_slots p"
    "free_space_start (put_tuple k a t p) = free_space_start p"
    "free_space_end (put_tuple k a t p) = free_space_end p"
    using assms q by (simp_all add: put_tuple_def)
  show "soff (put_tuple k a t p) k = a" "slen (put_tuple k a t p) k = length t"
    using assms a by (simp_all add: put_tuple_def)
  show "slice a (length t) (put_tuple k a t p) = t"
    using assms by (simp add: put_tuple_def slice_blit_other slice_blit_same page_len)
  show "36 + 4 * j \<le> a \<Longrightarrow> j \<noteq> k \<Longrightarrow> soff (put_tuple k a t p) j = soff p j"
    "36 + 4 * j \<le> a \<Longrightarrow> j \<noteq> k \<Longrightarrow> slen (put_tuple k a t p) j = slen p j"
    using assms a by (simp_all add: put_tuple_def slot_blit_body)
  show "36 + 4 * k \<le> b \<Longrightarrow> b + m \<le> 8192 \<Longrightarrow> b + m \<le> a \<or> a + length t \<le> b \<Longrightarrow>
      slice b m (put_tuple k a t p) = slice b m p"
    using assms by (simp add: put_tuple_def slice_blit_other page_len)
qed


definition claimed :: "nat \<Rightarrow> page \<Rightarrow> page" where
  "claimed i p = (if i < unat (num_slots p) then p
     else set_free_space_start (word_of_nat (36 + 4 * i)) (set_num_slots (word_of_nat (Suc i)) p))"

lemma claim_slot_eq:
  assumes "slotted_ok p" and "i \<le> unat (num_slots p)" and "i < 2040"
  shows "claim_slot (if i < unat (num_slots p) then Some (word_of_nat i) else None) p
    = (word_of_nat i, claimed i p)"
proof (cases "i < unat (num_slots p)")
  case True
  then show ?thesis by (simp add: claim_slot_def claimed_def)
next
  case False
  then have i: "i = unat (num_slots p)" using assms by simp
  then have w: "num_slots p + 1 = word_of_nat (Suc i)" by simp
  have "unat (word_of_nat (Suc i) :: u16) = Suc i" using assms by (intro u16_of_nat) simp
  then have so: "slot_offset (word_of_nat (Suc i)) = 36 + 4 * i"
    unfolding slot_offset_eq by simp
  show ?thesis
    unfolding claim_slot_def claimed_def Let_def w so
    by (simp only: False if_False option.case) (simp add: i)
qed

lemma claimed_effect:
  assumes "slotted_ok p" and "i \<le> unat (num_slots p)" and "i < 2040"
  shows "page_ok (claimed i p)"
    and "unat (num_slots (claimed i p)) = max (unat (num_slots p)) (Suc i)"
    and "unat (free_space_start (claimed i p)) = 32 + 4 * max (unat (num_slots p)) (Suc i)"
    and "free_space_end (claimed i p) = free_space_end p"
    and "j < 2040 \<Longrightarrow> soff (claimed i p) j = soff p j"
    and "j < 2040 \<Longrightarrow> slen (claimed i p) j = slen p j"
    and "32 \<le> a \<Longrightarrow> a + m \<le> 8192 \<Longrightarrow> slice a m (claimed i p) = slice a m p"
proof -
  have "Suc i < 65536" "36 + 4 * i < 65536" using assms by simp_all
  note w = this [THEN u16_of_nat]
  show "page_ok (claimed i p)" using assms by (simp add: claimed_def)
  show "unat (num_slots (claimed i p)) = max (unat (num_slots p)) (Suc i)"
    using assms w(1) by (cases "i = unat (num_slots p)") (simp_all add: claimed_def del: of_nat_Suc)
  show "unat (free_space_start (claimed i p)) = 32 + 4 * max (unat (num_slots p)) (Suc i)"
    using assms w(2) slotted_ok_start [OF assms(1)]
    by (cases "i = unat (num_slots p)") (simp_all add: claimed_def max_def del: of_nat_add)
  show "free_space_end (claimed i p) = free_space_end p" using assms by (simp add: claimed_def)
  show "j < 2040 \<Longrightarrow> soff (claimed i p) j = soff p j" "j < 2040 \<Longrightarrow> slen (claimed i p) j = slen p j"
    using assms by (simp_all add: claimed_def)
  show "32 \<le> a \<Longrightarrow> a + m \<le> 8192 \<Longrightarrow> slice a m (claimed i p) = slice a m p"
    using assms by (simp add: claimed_def)
qed

lemma sp_insert_eq:
  assumes ok: "slotted_ok p" and room: "length t + 4 \<le> free_space p"
  defines "i \<equiv> free_index (page_slots p)" and "e \<equiv> unat (free_space_end p) - length t"
  shows "sp_insert t p =
    (put_tuple i e t (set_free_space_end (word_of_nat e) (claimed i p)), Inr (word_of_nat i))"
proof -
  have len: "32 + 4 * unat (num_slots p) + length t + 4 \<le> unat (free_space_end p)"
    "unat (free_space_end p) \<le> 8192"
    using ok room by (auto simp: slotted_ok_def free_space_def)
  have i: "i \<le> unat (num_slots p)"
    using free_index_le [of "page_slots p"] by (simp add: i_def)
  have i40: "i < 2040" using i len by simp
  have "i < 65536" "e < 65536" "length t < 65536" using i40 len by (simp_all add: e_def)
  note iw = this [THEN u16_of_nat]
  note q = claimed_effect(1,4) [OF ok i i40]
  have e: "free_space_end p - word_of_nat (length t) = word_of_nat e"
    using len by (intro word_unat_eq_iff [THEN iffD2]) (simp add: unat_sub_of_nat iw, simp add: e_def)
  let ?q = "set_free_space_end (word_of_nat e) (claimed i p)"
  have blit: "try_blit e t ?q = (Inr (blit e t ?q) :: page result)"
    using q len by (simp add: try_blit_def page_len e_def)
  have ws: "write_slot (word_of_nat i) (word_of_nat e) (word_of_nat (length t)) (blit e t ?q)
      = (put_tuple i e t ?q, Inr ())"
    using q len i40 iw by (subst write_slot_eq) (simp_all add: put_tuple_def page_consts e_def)
  have "\<not> free_space p < length t + SLOT_SIZE" using room by (simp add: SLOT_SIZE_def)
  then show ?thesis
    by (simp add: sp_insert_def Let_def find_tombstone_slot_ok [OF ok, folded i_def]
        claim_slot_eq [OF ok i i40] q e iw blit ws)
qed

lemma tuple_bytes_update:
  "i < length ts \<Longrightarrow> ts ! i = None \<Longrightarrow> tuple_bytes (ts[i := Some t]) = tuple_bytes ts + length t"
  by (induction ts arbitrary: i) (auto simp: tuple_bytes_def split: nat.splits)

lemma tuple_bytes_append: "tuple_bytes (ts @ [Some t]) = tuple_bytes ts + length t"
  by (simp add: tuple_bytes_def)

lemma tuple_bytes_dir_insert: "tuple_bytes (dir_insert t ts) = tuple_bytes ts + length t"
  by (simp add: dir_insert_def Let_def tuple_bytes_append tuple_bytes_update free_index_free)

lemma length_dir_insert: "length (dir_insert t ts) = max (length ts) (Suc (free_index ts))"
  using free_index_le [of ts] by (auto simp: dir_insert_def Let_def)

lemma nth_dir_insert:
  "j < length (dir_insert t ts) \<Longrightarrow>
     dir_insert t ts ! j = (if j = free_index ts then Some t else ts ! j)"
  using free_index_le [of ts] by (auto simp: dir_insert_def Let_def nth_append)

text \<open>
  A page is what its fields say: if the slots of \<open>q\<close> are those of the directory \<open>ts\<close>, laid out
  without overlap above the free space, the invariant holds and \<open>q\<close> stands for \<open>ts\<close>.
\<close>

lemma slotted_okI:
  assumes "page_ok q" and "unat (num_slots q) = length ts"
    and "unat (free_space_start q) = 32 + 4 * length ts"
    and "32 + 4 * length ts \<le> unat (free_space_end q)" and "unat (free_space_end q) \<le> 8192"
    and "\<And>i. i < length ts \<Longrightarrow> tuple_at q i = ts ! i"
    and "\<And>i. i < length ts \<Longrightarrow> soff q i \<noteq> 0 \<Longrightarrow>
      unat (free_space_end q) \<le> soff q i \<and> soff q i + slen q i \<le> 8192"
    and "\<And>i j. i < length ts \<Longrightarrow> j < length ts \<Longrightarrow> i \<noteq> j \<Longrightarrow> soff q i \<noteq> 0 \<Longrightarrow>
      soff q j \<noteq> 0 \<Longrightarrow> disjoint_slots q i j"
    and "unat (free_space_end q) + tuple_bytes ts \<le> 8192"
  shows "slotted_ok q \<and> page_slots q = ts"
proof -
  have "page_slots q = ts"
    using assms(2,6) by (intro nth_equalityI) (auto simp: nth_page_slots)
  then show ?thesis using assms by (simp add: slotted_ok_def)
qed


lemma sp_insert_ok:
  assumes ok: "slotted_ok p" and room: "length t + 4 \<le> free_space p"
  shows "\<exists>q. sp_insert t p = (q, Inr (word_of_nat (free_index (page_slots p))))
    \<and> slotted_ok q \<and> page_slots q = dir_insert t (page_slots p)"
proof -
  define i where "i = free_index (page_slots p)"
  define n where "n = unat (num_slots p)"
  define e where "e = unat (free_space_end p) - length t"
  define r where "r = set_free_space_end (word_of_nat e) (claimed i p)"
  define q where "q = put_tuple i e t r"
  have eq: "sp_insert t p = (q, Inr (word_of_nat i))"
    using sp_insert_eq [OF ok room] by (simp add: i_def e_def r_def q_def)
  have len: "32 + 4 * n + length t + 4 \<le> unat (free_space_end p)" "unat (free_space_end p) \<le> 8192"
    using ok room by (auto simp: slotted_ok_def free_space_def n_def)
  have i: "i \<le> n" using free_index_le [of "page_slots p"] by (simp add: i_def n_def)
  have k: "i < 2040" "36 + 4 * i \<le> e" "e + length t \<le> 8192" using i len by (simp_all add: e_def)
  have "e < 65536" using k by simp
  note ew = this [THEN u16_of_nat]
  note cl = claimed_effect [OF ok i [unfolded n_def] k(1), folded n_def]
  have r: "page_ok r" using cl(1) by (simp add: r_def)
  have rf: "unat (num_slots r) = max n (Suc i)" "unat (free_space_start r) = 32 + 4 * max n (Suc i)"
    "unat (free_space_end r) = e"
    using cl(1-4) ew by (simp_all add: r_def)
  have rs: "soff r j = soff p j" "slen r j = slen p j" if "j < 2040" for j
    using cl that by (simp_all add: r_def)
  have rb: "slice a m r = slice a m p" if "32 \<le> a" "a + m \<le> 8192" for a m
    using cl that by (simp add: r_def)
  note put = put_tuple_effect [OF r k, folded q_def]
  have old: "soff q j = soff p j \<and> slen q j = slen p j" if "j < max n (Suc i)" "j \<noteq> i" for j
    using that put(8,9) [of j] rs [of j] i len by (simp add: e_def)
  have live: "unat (free_space_end p) \<le> soff p j \<and> soff p j + slen p j \<le> 8192"
    if "j < n" "soff p j \<noteq> 0" for j
    using live_slot_range [OF ok] that by (simp add: n_def)
  have len_ts: "length (dir_insert t (page_slots p)) = max n (Suc i)"
    by (simp add: length_dir_insert n_def i_def)
  have tup: "tuple_at q j = dir_insert t (page_slots p) ! j" if j: "j < max n (Suc i)" for j
  proof (cases "j = i")
    case True
    then show ?thesis
      using j len_ts put(5-7) k by (simp add: nth_dir_insert i_def [symmetric] tuple_at_def)
  next
    case False
    then have "j < n" using i j by simp
    moreover have "slice (soff p j) (slen p j) q = slice (soff p j) (slen p j) p" if "soff p j \<noteq> 0"
    proof -
      have "36 + 4 * i \<le> soff p j" "32 \<le> soff p j" "soff p j + slen p j \<le> 8192"
        "e + length t \<le> soff p j"
        using live [OF \<open>j < n\<close> that] len i by (simp_all add: e_def)
      then show ?thesis
        using put(10) [of "soff p j" "slen p j"] rb [of "soff p j" "slen p j"] by simp
    qed
    ultimately show ?thesis
      using False j len_ts old [OF j False]
      by (simp add: nth_dir_insert i_def [symmetric] nth_page_slots n_def [symmetric] tuple_at_def)
  qed
  have "slotted_ok q \<and> page_slots q = dir_insert t (page_slots p)"
  proof (rule slotted_okI; (unfold len_ts put(2-4) rf)?)
    fix j assume j: "j < max n (Suc i)" and nz: "soff q j \<noteq> 0"
    show "e \<le> soff q j \<and> soff q j + slen q j \<le> 8192"
    proof (cases "j = i")
      case True
      then show ?thesis using put(5,6) k by simp
    next
      case False
      then have "j < n" using i j by simp
      then show ?thesis using old [OF j False] live [of j] nz by (auto simp: e_def)
    qed
  next
    fix j l assume j: "j < max n (Suc i)" "l < max n (Suc i)" "j \<noteq> l" "soff q j \<noteq> 0" "soff q l \<noteq> 0"
    consider "j = i" | "l = i" | "j \<noteq> i" "l \<noteq> i" by blast
    then show "disjoint_slots q j l"
    proof cases
      case 1
      then show ?thesis
        using j old [of l] live [of l] put(5,6) i len by (simp add: disjoint_slots_def e_def)
    next
      case 2
      then show ?thesis
        using j old [of j] live [of j] put(5,6) i len by (simp add: disjoint_slots_def e_def)
    next
      case 3
      then have "j < n" "l < n" using i j by simp_all
      then show ?thesis
        using 3 j old [of j] old [of l] ok
        by (simp add: disjoint_slots_def slotted_ok_def n_def [symmetric])
    qed
  next
    show "e + tuple_bytes (dir_insert t (page_slots p)) \<le> 8192"
      using ok len by (simp add: slotted_ok_def tuple_bytes_dir_insert e_def)
  next
    show "page_ok q" by (rule put(1))
  next
    show "32 + 4 * max n (Suc i) \<le> e" using i len by (auto simp: e_def max_def)
  qed (use tup k in simp_all)
  with eq show ?thesis by (simp add: i_def)
qed


lemma sp_insert_full:
  "free_space p < length t + 4 \<Longrightarrow>
     sp_insert t p = (p, Inl (Err (PageFull (hd_page_id (header_read_from p)))))"
  by (simp add: sp_insert_def SLOT_SIZE_def)

section \<open>Lookup, deletion and update\<close>

lemma sp_get_eq:
  assumes "slotted_ok p"
  shows "sp_get i p =
    (if unat i < unat (num_slots p) then
       (case page_slots p ! unat i of None \<Rightarrow> page_not_found p | Some t \<Rightarrow> Inr t)
     else page_not_found p)"
proof (cases "unat i < unat (num_slots p)")
  case True
  from read_slot_ok [OF assms True] obtain off len where r: "read_slot i p = Inr (off, len)"
    "unat off = soff p (unat i)" "unat len = slen p (unat i)" by auto
  then have "off = 0 \<longleftrightarrow> soff p (unat i) = 0" by (metis unsigned_eq_0_iff)
  then show ?thesis
    using True r live_slot_range(2) [OF assms True] assms
    by (simp add: sp_get_def word_le_nat_alt nth_page_slots tuple_at_def try_slice_def page_len)
next
  case False
  then show ?thesis by (simp add: sp_get_def word_le_nat_alt)
qed

text \<open>Replacing the entry of one slot by a free one, or by a tuple inside the old one.\<close>

lemma tuple_bytes_le:
  assumes "i < length ts" and "case_option 0 length x \<le> case_option 0 length (ts ! i)"
  shows "tuple_bytes (ts[i := x]) \<le> tuple_bytes ts"
  using assms by (induction ts arbitrary: i) (auto simp: tuple_bytes_def split: nat.splits)

lemma slot_replace_ok:
  assumes ok: "slotted_ok p" and k: "k < unat (num_slots p)"
    and q: "page_ok q" "num_slots q = num_slots p" "free_space_start q = free_space_start p"
      "free_space_end q = free_space_end p"
    and old: "\<And>j. j < unat (num_slots p) \<Longrightarrow> j \<noteq> k \<Longrightarrow> soff q j = soff p j \<and> slen q j = slen p j
      \<and> (soff p j \<noteq> 0 \<longrightarrow> slice (soff p j) (slen p j) q = slice (soff p j) (slen p j) p)"
    and new: "soff q k = 0 \<or> soff q k = soff p k \<and> slen q k \<le> slen p k"
  shows "slotted_ok q \<and> page_slots q = (page_slots p)[k := tuple_at q k]"
proof (rule slotted_okI)
  fix i assume "i < length ((page_slots p)[k := tuple_at q k])"
  then have i: "i < unat (num_slots p)" by simp
  then show "tuple_at q i = (page_slots p)[k := tuple_at q k] ! i"
    using old [OF i] by (cases "i = k") (auto simp: nth_page_slots tuple_at_def)
  show "unat (free_space_end q) \<le> soff q i \<and> soff q i + slen q i \<le> 8192" if "soff q i \<noteq> 0"
    using that i new old [OF i] live_slot_range [OF ok i] q by (cases "i = k") auto
  fix j assume "j < length ((page_slots p)[k := tuple_at q k])" "i \<noteq> j" "soff q i \<noteq> 0" "soff q j \<noteq> 0"
  moreover have "disjoint_slots p i j" if "soff p i \<noteq> 0" "soff p j \<noteq> 0" "i \<noteq> j" "j < unat (num_slots p)"
    using ok that i by (simp add: slotted_ok_def)
  ultimately show "disjoint_slots q i j"
    using i new old [OF i] old [of j]
    by (cases "i = k"; cases "j = k") (auto simp: disjoint_slots_def)
next
  have "case_option 0 length (tuple_at q k) \<le> case_option 0 length (page_slots p ! k)"
    using new length_tuple_at [OF ok k] live_slot_range(2) [OF ok k] q(1)
    by (auto simp: nth_page_slots [OF k] tuple_at_def page_len)
  then have "tuple_bytes ((page_slots p)[k := tuple_at q k]) \<le> tuple_bytes (page_slots p)"
    using k by (intro tuple_bytes_le) simp_all
  then show "unat (free_space_end q) + tuple_bytes ((page_slots p)[k := tuple_at q k]) \<le> 8192"
    using ok q by (simp add: slotted_ok_def)
qed (use ok q in \<open>auto simp: slotted_ok_def\<close>)

lemma sp_delete_ok:
  assumes ok: "slotted_ok p" and k: "unat i < unat (num_slots p)"
    and live: "page_slots p ! unat i \<noteq> None"
  shows "\<exists>q. sp_delete i p = (q, Inr ())
    \<and> slotted_ok q \<and> page_slots q = (page_slots p)[unat i := None]
    \<and> free_space q = free_space p \<and> header_read_from q = header_read_from p"
proof -
  define q where "q = blit (32 + 4 * unat i) (slot_entry 0 0) p"
  have i40: "unat i < 2040" using slot_lt [OF ok k] .
  from read_slot_ok [OF ok k] obtain off len where "read_slot i p = Inr (off, len)"
    and "unat off = soff p (unat i)" by auto
  moreover from live have nz: "soff p (unat i) \<noteq> 0"
    by (auto simp: nth_page_slots [OF k] tuple_at_def split: if_splits)
  ultimately have eq: "sp_delete i p = (q, Inr ())"
    using ok i40 k by (auto simp: sp_delete_def write_slot_eq q_def word_le_nat_alt)
  have q: "page_ok q" "num_slots q = num_slots p" "free_space_start q = free_space_start p"
      "free_space_end q = free_space_end p" and qh: "header_read_from q = header_read_from p"
    using ok i40 by (simp_all add: q_def header_read_blit_body page_consts)
  have e: "soff q j = (if j = unat i then 0 else soff p j)"
    "slen q j = (if j = unat i then 0 else slen p j)" if "j < 2040" for j
    using ok i40 that by (simp_all add: q_def slot_blit_entry)
  have "slotted_ok q \<and> page_slots q = (page_slots p)[unat i := tuple_at q (unat i)]"
  proof (rule slot_replace_ok [OF ok k q])
    fix j assume j: "j < unat (num_slots p)" "j \<noteq> unat i"
    then show "soff q j = soff p j \<and> slen q j = slen p j
      \<and> (soff p j \<noteq> 0 \<longrightarrow> slice (soff p j) (slen p j) q = slice (soff p j) (slen p j) p)"
      using e slot_lt [OF ok j(1)] live_slot_range [OF ok j(1)] k ok
      by (auto simp: q_def slice_blit_other page_len)
  qed (use e i40 in simp)
  then show ?thesis
    using eq q qh e [OF i40] by (simp add: tuple_at_def free_space_def)
qed

lemma sp_delete_missing:
  assumes ok: "slotted_ok p"
    and "\<not> unat i < unat (num_slots p) \<or> page_slots p ! unat i = None"
  shows "sp_delete i p = (p, page_not_found p)"
proof (cases "unat i < unat (num_slots p)")
  case True
  from read_slot_ok [OF ok True] obtain off len where "read_slot i p = Inr (off, len)"
    and "unat off = soff p (unat i)" by auto
  moreover have "soff p (unat i) = 0"
    using assms True by (auto simp: nth_page_slots tuple_at_def split: if_splits)
  ultimately show ?thesis by (simp add: sp_delete_def unsigned_eq_0_iff)
next
  case False
  then show ?thesis by (simp add: sp_delete_def word_le_nat_alt)
qed


lemma sp_update_missing:
  assumes ok: "slotted_ok p"
    and "\<not> unat i < unat (num_slots p) \<or> page_slots p ! unat i = None"
  shows "sp_update i t p = (p, page_not_found p)"
proof (cases "unat i < unat (num_slots p)")
  case True
  from read_slot_ok [OF ok True] obtain off len where "read_slot i p = Inr (off, len)"
    and "unat off = soff p (unat i)" by auto
  moreover have "soff p (unat i) = 0"
    using assms True by (auto simp: nth_page_slots tuple_at_def split: if_splits)
  ultimately show ?thesis by (simp add: sp_update_def unsigned_eq_0_iff)
next
  case False
  then show ?thesis by (simp add: sp_update_def word_le_nat_alt)
qed

lemma sp_update_in_place:
  assumes ok: "slotted_ok p" and k: "unat i < unat (num_slots p)"
    and live: "page_slots p ! unat i = Some s" and fits: "length t \<le> length s"
  shows "\<exists>q. sp_update i t p = (q, Inr i)
    \<and> slotted_ok q \<and> page_slots q = (page_slots p)[unat i := Some t]"
proof -
  define a where "a = soff p (unat i)"
  define q where "q = put_tuple (unat i) a t p"
  have i40: "unat i < 2040" using slot_lt [OF ok k] .
  from live have nz: "a \<noteq> 0" by (auto simp: a_def nth_page_slots [OF k] tuple_at_def split: if_splits)
  have len: "length t \<le> slen p (unat i)"
    using fits length_tuple_at [OF ok k] live by (simp add: nth_page_slots [OF k])
  note rng = live_slot_range [OF ok k nz [unfolded a_def], folded a_def]
  have rng': "36 + 4 * unat i \<le> a" "a + length t \<le> 8192" using rng k len by simp_all
  have l: "unat (word_of_nat (length t) :: u16) = length t"
    using rng' by (intro u16_of_nat) simp
  from read_slot_ok [OF ok k] obtain off len where r: "read_slot i p = Inr (off, len)"
    and off: "unat off = a" and "unat len = slen p (unat i)" by (auto simp: a_def)
  have w: "word_of_nat a = off" using off by auto
  have eq: "sp_update i t p = (q, Inr i)"
    using ok k r off nz len \<open>unat len = _\<close> rng' l i40
    by (auto simp: sp_update_def try_blit_def page_len write_slot_eq q_def put_tuple_def w
        word_le_nat_alt page_consts)
  note put = put_tuple_effect [OF slotted_ok_page [OF ok] i40 rng', folded q_def]
  have "slotted_ok q \<and> page_slots q = (page_slots p)[unat i := tuple_at q (unat i)]"
  proof (rule slot_replace_ok [OF ok k put(1-4)])
    fix j assume j: "j < unat (num_slots p)" "j \<noteq> unat i"
    have "soff p j \<noteq> 0 \<Longrightarrow> disjoint_slots p (unat i) j"
      using ok j k nz by (simp add: slotted_ok_def a_def)
    then show "soff q j = soff p j \<and> slen q j = slen p j
      \<and> (soff p j \<noteq> 0 \<longrightarrow> slice (soff p j) (slen p j) q = slice (soff p j) (slen p j) p)"
      using j rng k len put(8,9) [of j] put(10) [of "soff p j" "slen p j"] live_slot_range [OF ok j(1)]
      by (auto simp: disjoint_slots_def a_def [symmetric])
  qed (use put(5,6) len in \<open>simp add: a_def\<close>)
  moreover have "tuple_at q (unat i) = Some t" using put(5-7) nz by (simp add: tuple_at_def)
  ultimately show ?thesis using eq by simp
qed

lemma sp_update_moved:
  assumes ok: "slotted_ok p" and k: "unat i < unat (num_slots p)"
    and live: "page_slots p ! unat i = Some s" and grows: "length s < length t"
  shows "sp_update i t p = sp_insert t (fst (sp_delete i p))"
proof -
  from read_slot_ok [OF ok k] obtain off len where r: "read_slot i p = Inr (off, len)"
    and off: "unat off = soff p (unat i)" and len: "unat len = slen p (unat i)" by auto
  have "soff p (unat i) \<noteq> 0" using live by (auto simp: nth_page_slots [OF k] tuple_at_def split: if_splits)
  then have "off \<noteq> 0" using off by auto
  moreover have "\<not> length t \<le> unat len"
    using grows length_tuple_at [OF ok k] live len by (simp add: nth_page_slots [OF k])
  moreover obtain q where "sp_delete i p = (q, Inr ())"
    using sp_delete_ok [OF ok k] live by auto
  ultimately show ?thesis using k r by (simp add: sp_update_def word_le_nat_alt)
qed

section \<open>Compaction\<close>

definition live_list :: "page \<Rightarrow> nat list \<Rightarrow> (nat \<times> bytes) list" where
  "live_list p is = concat (map (\<lambda>i. case tuple_at p i of None \<Rightarrow> [] | Some t \<Rightarrow> [(i, t)]) is)"

lemma collect_live_ok:
  assumes ok: "slotted_ok p" and "\<forall>i \<in> set is. i < unat (num_slots p)"
  shows "collect_live p (map word_of_nat is)
    = Inr (map (\<lambda>(i, t). (word_of_nat i, t)) (live_list p is))"
  using assms(2)
proof (induction "is")
  case Nil
  then show ?case by (simp add: live_list_def)
next
  case (Cons i "is")
  then have i: "i < unat (num_slots p)" by simp
  from read_slot_ok [OF ok i] obtain off len where "read_slot (word_of_nat i) p = Inr (off, len)"
    "unat off = soff p i" "unat len = slen p i" by auto
  moreover from this have "off = 0 \<longleftrightarrow> soff p i = 0" by (metis unsigned_eq_0_iff)
  ultimately show ?case
    using Cons live_slot_range(2) [OF ok i] ok
    by (auto simp: live_list_def tuple_at_def try_slice_def page_len)
qed

lemma live_list_fst: "set (live_list p is) = {(i, t). i \<in> set is \<and> tuple_at p i = Some t}"
  by (auto simp: live_list_def split: option.splits)

lemma live_list_distinct: "distinct is \<Longrightarrow> distinct (map fst (live_list p is))"
proof (induction "is")
  case Nil
  then show ?case by (simp add: live_list_def)
next
  case (Cons i "is")
  have "live_list p (i # is) = (case tuple_at p i of None \<Rightarrow> [] | Some t \<Rightarrow> [(i, t)]) @ live_list p is"
    by (simp add: live_list_def)
  then show ?case using Cons live_list_fst [of p "is"] by (auto split: option.splits)
qed

definition live_bytes :: "(nat \<times> bytes) list \<Rightarrow> nat" where
  "live_bytes live = sum_list (map (\<lambda>e. length (snd e)) live)"

lemma live_bytes_simps [simp]:
  "live_bytes [] = 0" "live_bytes ((i, t) # live) = length t + live_bytes live"
  by (simp_all add: live_bytes_def)

lemma live_list_bytes: "live_bytes (live_list p is) = tuple_bytes (map (tuple_at p) is)"
  by (induction "is") (auto simp: live_list_def live_bytes_def tuple_bytes_def split: option.splits)


text \<open>
  What the second loop of \<^verbatim>\<open>compact\<close> leaves: the tuples of \<open>live\<close> packed below \<open>w\<close>, down to
  \<open>w'\<close>, and nothing else of the slot array or above \<open>w\<close> changed.
\<close>

definition packed :: "(nat \<times> bytes) list \<Rightarrow> nat \<Rightarrow> page \<Rightarrow> nat \<Rightarrow> page \<Rightarrow> bool" where
  "packed live w p w' q \<longleftrightarrow>
     page_ok q \<and> num_slots q = num_slots p \<and> free_space_start q = free_space_start p
     \<and> w' + live_bytes live = w
     \<and> (\<forall>j < unat (num_slots p). j \<notin> fst ` set live \<longrightarrow> soff q j = soff p j \<and> slen q j = slen p j)
     \<and> (\<forall>j t. (j, t) \<in> set live \<longrightarrow> w' \<le> soff q j \<and> soff q j + slen q j \<le> w \<and> slen q j = length t
          \<and> slice (soff q j) (slen q j) q = t)
     \<and> (\<forall>i \<in> fst ` set live. \<forall>j \<in> fst ` set live. i \<noteq> j \<longrightarrow> disjoint_slots q i j)
     \<and> (\<forall>a m. w \<le> a \<longrightarrow> a + m \<le> 8192 \<longrightarrow> slice a m q = slice a m p)"

lemma packedD:
  assumes "packed live w p w' q"
  shows "page_ok q" and "num_slots q = num_slots p" and "free_space_start q = free_space_start p"
    and "w' + live_bytes live = w"
    and "j < unat (num_slots p) \<Longrightarrow> j \<notin> fst ` set live \<Longrightarrow> soff q j = soff p j \<and> slen q j = slen p j"
    and "(j, t) \<in> set live \<Longrightarrow> w' \<le> soff q j \<and> soff q j + slen q j \<le> w \<and> slen q j = length t
          \<and> slice (soff q j) (slen q j) q = t"
    and "i \<in> fst ` set live \<Longrightarrow> j \<in> fst ` set live \<Longrightarrow> i \<noteq> j \<Longrightarrow> disjoint_slots q i j"
    and "w \<le> a \<Longrightarrow> a + m \<le> 8192 \<Longrightarrow> slice a m q = slice a m p"
  using assms unfolding packed_def by blast+

lemma packedI:
  assumes "page_ok q" and "num_slots q = num_slots p" and "free_space_start q = free_space_start p"
    and "w' + live_bytes live = w"
    and "\<And>j. j < unat (num_slots p) \<Longrightarrow> j \<notin> fst ` set live \<Longrightarrow>
      soff q j = soff p j \<and> slen q j = slen p j"
    and "\<And>j t. (j, t) \<in> set live \<Longrightarrow> w' \<le> soff q j \<and> soff q j + slen q j \<le> w
      \<and> slen q j = length t \<and> slice (soff q j) (slen q j) q = t"
    and "\<And>i j. i \<in> fst ` set live \<Longrightarrow> j \<in> fst ` set live \<Longrightarrow> i \<noteq> j \<Longrightarrow> disjoint_slots q i j"
    and "\<And>a m. w \<le> a \<Longrightarrow> a + m \<le> 8192 \<Longrightarrow> slice a m q = slice a m p"
  shows "packed live w p w' q"
  unfolding packed_def using assms by blast

lemma packed_step:
  assumes pk: "packed live w1 (put_tuple i w1 t p) w' q"
    and p: "page_ok p" and i: "i < unat (num_slots p)" "i \<notin> fst ` set live"
    and live: "\<forall>i \<in> fst ` set live. i < unat (num_slots p)"
    and w: "32 + 4 * unat (num_slots p) \<le> w1" "w1 + length t = w" "w \<le> 8192"
  shows "packed ((i, t) # live) w p w' q"
proof -
  have k: "i < 2040" "36 + 4 * i \<le> w1" "w1 + length t \<le> 8192" using i(1) w by linarith+
  note put = put_tuple_effect [OF p k]
  note pk = packedD [OF pk, unfolded put(2)]
  have qi: "soff q i = w1" "slen q i = length t" using pk(5) i put(5,6) by simp_all
  have body: "slice w1 (length t) q = t" using pk(8) put(7) k(3) by simp
  have unchanged: "soff q j = soff p j \<and> slen q j = slen p j"
    if "j < unat (num_slots p)" "j \<notin> fst ` set ((i, t) # live)" for j
    using pk(5) [of j] put(8,9) [of j] that w by simp
  have above: "slice a m q = slice a m p" if "w \<le> a" "a + m \<le> 8192" for a m
    using pk(8) [of a m] put(10) [of a m] that w k by simp
  have entry: "w' \<le> soff q j \<and> soff q j + slen q j \<le> w \<and> slen q j = length s
      \<and> slice (soff q j) (slen q j) q = s" if "(j, s) \<in> set ((i, t) # live)" for j s
  proof (cases "(j, s) \<in> set live")
    case True
    then show ?thesis using pk(6) [of j s] w by auto
  next
    case False
    then have "j = i" "s = t" using that by simp_all
    then show ?thesis using qi body pk(4) w by simp
  qed
  have below: "soff q j + slen q j \<le> soff q i" if "j \<in> fst ` set live" for j
    using pk(6) that qi by force
  have apart: "disjoint_slots q j l" if jl: "j \<in> fst ` set ((i, t) # live)"
    "l \<in> fst ` set ((i, t) # live)" "j \<noteq> l" for j l
  proof -
    consider "j = i" "l \<in> fst ` set live" | "l = i" "j \<in> fst ` set live"
      | "j \<in> fst ` set live" "l \<in> fst ` set live" using jl by auto
    then show ?thesis
      by cases (use below pk(7) jl(3) in \<open>auto simp: disjoint_slots_def\<close>)
  qed
  have sum: "w' + live_bytes ((i, t) # live) = w" using pk(4) w by simp
  show ?thesis
    by (rule packedI [OF pk(1,2) _ sum unchanged entry apart above]) (use pk(3) put(3) in simp)
qed

lemma repack_ok:
  assumes "page_ok p" and "distinct (map fst live)"
    and "\<forall>i \<in> fst ` set live. i < unat (num_slots p)"
    and "unat w \<le> 8192"
    and "32 + 4 * unat (num_slots p) + live_bytes live \<le> unat w"
  shows "\<exists>q w'. repack (map (\<lambda>(i, t). (word_of_nat i, t)) live) w p = (q, Inr w')
    \<and> packed live (unat w) p (unat w') q"
  using assms
proof (induction live arbitrary: p w)
  case Nil
  then show ?case by (simp add: packed_def)
next
  case (Cons e live)
  obtain i t where e: "e = (i, t)" by (cases e)
  define w1 where "w1 = w - word_of_nat (length t)"
  have len: "32 + 4 * unat (num_slots p) + length t + live_bytes live \<le> unat w"
    using Cons.prems(5) e by simp
  have w1: "unat w1 = unat w - length t" using len by (simp add: w1_def unat_sub_of_nat)
  define p1 where "p1 = put_tuple i (unat w1) t p"
  have i: "i < unat (num_slots p)" "i \<notin> fst ` set live" using Cons.prems e by auto
  have k: "i < 2040" "36 + 4 * i \<le> unat w1" "unat w1 + length t \<le> 8192"
    using i(1) len w1 Cons.prems(4) by linarith+
  note put = put_tuple_effect [OF Cons.prems(1) k, folded p1_def]
  have "i < 65536" "length t < 65536" using k by simp_all
  note iw = this [THEN u16_of_nat]
  have "write_slot (word_of_nat i) w1 (word_of_nat (length t)) (blit (unat w1) t p) = (p1, Inr ())"
    using Cons.prems(1) k iw
    by (subst write_slot_eq) (simp_all add: p1_def put_tuple_def page_consts)
  then have step: "repack (map (\<lambda>(i, t). (word_of_nat i, t)) (e # live)) w p
      = repack (map (\<lambda>(i, t). (word_of_nat i, t)) live) w1 p1"
    using k Cons.prems(1) by (simp add: e Let_def w1_def [symmetric] try_blit_def page_len)
  obtain q w' where rec: "repack (map (\<lambda>(i, t). (word_of_nat i, t)) live) w1 p1 = (q, Inr w')"
    and pk: "packed live (unat w1) p1 (unat w') q"
  proof -
    have "page_ok p1 \<and> distinct (map fst live) \<and> (\<forall>i \<in> fst ` set live. i < unat (num_slots p1))
        \<and> unat w1 \<le> 8192 \<and> 32 + 4 * unat (num_slots p1) + live_bytes live \<le> unat w1"
      using Cons.prems(2-4) e put(1,2) w1 len by auto
    then show ?thesis using Cons.IH [of p1 w1] that by blast
  qed
  have "packed (e # live) (unat w) p (unat w') q"
    unfolding e using pk Cons.prems e i w1 len
    by (intro packed_step [of live "unat w1"]) (auto simp: p1_def)
  with step rec show ?case by auto
qed


lemma sp_compact_ok:
  assumes ok: "slotted_ok p"
  shows "\<exists>q. sp_compact p = (q, Inr ()) \<and> slotted_ok q \<and> page_slots q = page_slots p
    \<and> unat (free_space_end q) + tuple_bytes (page_slots p) = 8192"
proof -
  define n where "n = unat (num_slots p)"
  define live where "live = live_list p [0..<n]"
  define p0 where "p0 = blit (32 + 4 * n) (replicate (8192 - (32 + 4 * n)) 0) p"
  have n: "32 + 4 * n \<le> 8192" using slotted_ok_slots [OF ok] by (simp add: n_def)
  have p0: "page_ok p0" "num_slots p0 = num_slots p" "free_space_start p0 = free_space_start p"
    using ok n by (simp_all add: p0_def page_consts)
  have s0: "soff p0 j = soff p j" "slen p0 j = slen p j" if "j < n" for j
    using ok n that by (simp_all add: p0_def slot_blit_body)
  have bytes: "live_bytes live = tuple_bytes (page_slots p)"
    by (simp add: live_def live_list_bytes page_slots_def n_def)
  have mem: "(j, t) \<in> set live \<longleftrightarrow> j < n \<and> tuple_at p j = Some t" for j t
    by (simp add: live_def live_list_fst)
  have fst_live: "j \<in> fst ` set live \<longleftrightarrow> j < n \<and> soff p j \<noteq> 0" for j
  proof -
    have "j \<in> fst ` set live \<longleftrightarrow> (\<exists>t. (j, t) \<in> set live)" by force
    then show ?thesis by (simp add: mem tuple_at_def)
  qed
  obtain q w where rp: "repack (map (\<lambda>(i, t). (word_of_nat i, t)) live) (word_of_nat PAGE_SIZE) p0
      = (q, Inr w)" and pk: "packed live 8192 p0 (unat w) q"
  proof -
    have "\<exists>q w'. repack (map (\<lambda>(i, t). (word_of_nat i, t)) live) (word_of_nat PAGE_SIZE) p0
        = (q, Inr w') \<and> packed live (unat (word_of_nat PAGE_SIZE :: u16)) p0 (unat w') q"
    proof (rule repack_ok [OF p0(1)])
      show "distinct (map fst live)" by (simp add: live_def live_list_distinct)
      show "\<forall>i \<in> fst ` set live. i < unat (num_slots p0)" using fst_live p0 by (simp add: n_def)
      show "32 + 4 * unat (num_slots p0) + live_bytes live \<le> unat (word_of_nat PAGE_SIZE :: u16)"
        using ok bytes p0 by (simp add: slotted_ok_def PAGE_SIZE_def)
    qed (simp add: PAGE_SIZE_def)
    then show ?thesis using that by (auto simp: PAGE_SIZE_def)
  qed
  define r where "r = set_free_space_end w q"
  have "collect_live p (u16_range (num_slots p))
      = Inr (map (\<lambda>(i, t). (word_of_nat i, t)) live)"
    using collect_live_ok [OF ok] by (simp add: u16_range_def live_def n_def)
  then have eq: "sp_compact p = (r, Inr ())"
    using n rp by (simp add: sp_compact_def Let_def slot_offset_eq n_def [symmetric] p0_def
        r_def page_consts)
  note pk = packedD [OF pk, unfolded p0(2), folded n_def]
  note q = pk(1)
  have sr: "soff r j = soff q j" "slen r j = slen q j" if "j < n" for j
    using q n that by (simp_all add: r_def)
  have dead: "soff r j = 0" if "j < n" "soff p j = 0" for j
    using pk(5) [of j] that sr [of j] s0 [of j] fst_live [of j] by simp
  have alive: "unat w \<le> soff r j \<and> soff r j + slen r j \<le> 8192 \<and> tuple_at r j = tuple_at p j"
    if "j < n" "soff p j \<noteq> 0" for j
  proof -
    define t where "t = slice (soff p j) (slen p j) p"
    have t: "tuple_at p j = Some t" using that by (simp add: tuple_at_def t_def)
    then have e: "unat w \<le> soff q j \<and> soff q j + slen q j \<le> 8192 \<and> slen q j = length t
        \<and> slice (soff q j) (slen q j) q = t" using pk(6) mem that by blast
    moreover have "32 \<le> unat w" using pk(4) bytes ok by (simp add: slotted_ok_def)
    moreover from this e have "slice (soff q j) (slen q j) r = t" using q by (auto simp: r_def)
    ultimately show ?thesis using t sr that by (simp add: tuple_at_def)
  qed
  have fe: "free_space_end r = w" using q by (simp add: r_def)
  have "slotted_ok r \<and> page_slots r = page_slots p"
  proof (rule slotted_okI; (unfold fe length_page_slots n_def [symmetric])?)
    fix j assume j: "j < n"
    show "tuple_at r j = page_slots p ! j"
      using j alive [OF j] dead [OF j] by (cases "soff p j = 0") (simp_all add: nth_page_slots n_def tuple_at_def)
    show "unat w \<le> soff r j \<and> soff r j + slen r j \<le> 8192" if "soff r j \<noteq> 0"
      using that alive [OF j] dead [OF j] by auto
    fix l assume "l < n" "j \<noteq> l" "soff r j \<noteq> 0" "soff r l \<noteq> 0"
    moreover from this have "soff p j \<noteq> 0" "soff p l \<noteq> 0"
      using j dead [of j] dead [of l] by auto
    ultimately have "disjoint_slots q j l" using j fst_live by (intro pk(7)) auto
    with \<open>l < n\<close> show "disjoint_slots r j l" using j sr by (simp add: disjoint_slots_def)
  qed (use ok q pk(2-4) p0(3) bytes in \<open>simp_all add: r_def n_def slotted_ok_def\<close>)
  moreover have "unat (free_space_end r) + tuple_bytes (page_slots p) = 8192"
    using pk(4) fe bytes by simp
  ultimately show ?thesis using eq by simp
qed


section \<open>Page life cycle\<close>

lemma slotted_ok_new: "slotted_ok (sp_new page_id) \<and> page_slots (sp_new page_id) = []"
proof -
  have ok: "page_ok (sp_new page_id)" by (simp add: sp_new_def)
  have "header_read_from (sp_new page_id) = header_new page_id Data"
    by (simp add: sp_new_def header_read_write)
  then have "num_slots (sp_new page_id) = 0" "free_space_start (sp_new page_id) = 32"
    "free_space_end (sp_new page_id) = 8192"
    by (simp_all add: num_slots_def free_space_start_def free_space_end_def header_read_from_def
        header_new_def page_consts)
  with ok show ?thesis by (simp add: slotted_ok_def page_slots_def tuple_bytes_def)
qed

lemma free_space_new: "free_space (sp_new page_id) = 8160"
  using slotted_ok_new [of page_id]
proof -
  have "header_read_from (sp_new page_id) = header_new page_id Data"
    by (simp add: sp_new_def header_read_write)
  then show ?thesis
    by (simp add: free_space_def free_space_start_def free_space_end_def header_read_from_def
        header_new_def page_consts)
qed

text \<open>The contract of a page of tuples, as its users rely on it.\<close>

locale tuple_store =
  fixes ok :: "'s \<Rightarrow> bool"
    and view :: "'s \<Rightarrow> bytes option list"
    and ins :: "bytes \<Rightarrow> 's \<Rightarrow> 's \<times> u16 result"
    and get :: "u16 \<Rightarrow> 's \<Rightarrow> bytes result"
    and del :: "u16 \<Rightarrow> 's \<Rightarrow> 's \<times> unit result"
  assumes ins_view: "ok s \<Longrightarrow> ins t s = (s', Inr i) \<Longrightarrow>
      ok s' \<and> view s' = dir_insert t (view s) \<and> unat i = free_index (view s)"
    and ins_fail: "ok s \<Longrightarrow> ins t s = (s', Inl e) \<Longrightarrow> s' = s"
    and get_view: "ok s \<Longrightarrow> get i s = Inr t \<longleftrightarrow> unat i < length (view s) \<and> view s ! unat i = Some t"
    and del_view: "ok s \<Longrightarrow> del i s = (s', Inr u) \<Longrightarrow> ok s' \<and> view s' = (view s)[unat i := None]"
    and del_fail: "ok s \<Longrightarrow> del i s = (s', Inl e) \<Longrightarrow> s' = s"
begin

lemma get_inserted:
  assumes "ok s" and "ins t s = (s', Inr i)"
  shows "get i s' = Inr t"
  using ins_view [OF assms] get_view [of s' i t] free_index_le [of "view s"]
  by (simp add: nth_dir_insert length_dir_insert)

lemma insert_fresh:
  assumes "ok s" and "ins t s = (s', Inr i)"
  shows "get i s \<noteq> Inr u"
  using ins_view [OF assms] get_view [OF assms(1), of i u] free_index_free [of "view s"] by auto

lemma insert_frame:
  assumes "ok s" and "ins t s = (s', Inr i)" and "get j s = Inr u"
  shows "get j s' = Inr u"
proof -
  have j: "unat j < length (view s)" "view s ! unat j = Some u" using get_view assms(1,3) by auto
  then have "unat j \<noteq> free_index (view s)" using free_index_free [of "view s"] by auto
  then show ?thesis
    using j ins_view [OF assms(1,2)] get_view [of s' j u] by (simp add: nth_dir_insert length_dir_insert)
qed

lemma deleted_gone:
  assumes "ok s" and "del i s = (s', Inr u)"
  shows "get i s' \<noteq> Inr t"
  using del_view [OF assms] get_view [of s' i t] by auto

lemma delete_frame:
  assumes "ok s" and "del i s = (s', Inr v)" and "j \<noteq> i"
  shows "get j s' = Inr u \<longleftrightarrow> get j s = Inr u"
proof -
  have "unat j \<noteq> unat i" using assms(3) by (simp add: word_unat_eq_iff)
  then show ?thesis
    using del_view [OF assms(1,2)] get_view [of s' j u] get_view [OF assms(1), of j u] by auto
qed

end

interpretation slotted: tuple_store slotted_ok page_slots sp_insert sp_get sp_delete
proof unfold_locales
  fix p q :: page and t :: bytes and i :: u16 and e and u :: unit
  assume ok: "slotted_ok p"
  show "slotted_ok q \<and> page_slots q = dir_insert t (page_slots p) \<and> unat i = free_index (page_slots p)"
    if "sp_insert t p = (q, Inr i)"
  proof -
    have room: "length t + 4 \<le> free_space p" using that sp_insert_full [of p t] by force
    have "free_index (page_slots p) < 65536"
      using free_index_le [of "page_slots p"] unsigned_less [of "num_slots p", where 'a = nat] by simp
    then show ?thesis using sp_insert_ok [OF ok room] that by (force simp: u16_of_nat)
  qed
  show "q = p" if "sp_insert t p = (q, Inl e)"
    using that sp_insert_full [of p t] sp_insert_ok [OF ok, of t] by (cases "free_space p < length t + 4") auto
  show "sp_get i p = Inr t \<longleftrightarrow> unat i < length (page_slots p) \<and> page_slots p ! unat i = Some t"
    by (simp add: sp_get_eq [OF ok] page_not_found_def split: option.splits)
  show "slotted_ok q \<and> page_slots q = (page_slots p)[unat i := None]" if "sp_delete i p = (q, Inr u)"
    using that sp_delete_ok [OF ok, of i] sp_delete_missing [OF ok, of i]
    by (cases "unat i < unat (num_slots p) \<and> page_slots p ! unat i \<noteq> None")
      (auto simp: page_not_found_def)
  show "q = p" if "sp_delete i p = (q, Inl e)"
    using that sp_delete_ok [OF ok, of i] sp_delete_missing [OF ok, of i]
    by (cases "unat i < unat (num_slots p) \<and> page_slots p ! unat i \<noteq> None") auto
qed


text \<open>Any sequence of calls on one page.\<close>

datatype page_call =
    CallInsert bytes | CallDelete u16 | CallUpdate u16 bytes | CallCompact

fun run_page_call :: "page_call \<Rightarrow> page \<Rightarrow> page \<times> unit result" where
  "run_page_call (CallInsert t) p = map_prod id (map_sum id (\<lambda>_. ())) (sp_insert t p)"
| "run_page_call (CallDelete i) p = sp_delete i p"
| "run_page_call (CallUpdate i t) p = map_prod id (map_sum id (\<lambda>_. ())) (sp_update i t p)"
| "run_page_call CallCompact p = sp_compact p"

fun run_page_calls :: "page_call list \<Rightarrow> page \<Rightarrow> page \<times> unit result list" where
  "run_page_calls [] p = (p, [])"
| "run_page_calls (c # cs) p =
     (let (p, r) = run_page_call c p; (p, rs) = run_page_calls cs p in (p, r # rs))"

lemma sp_update_cases:
  assumes ok: "slotted_ok p"
  shows "\<exists>q r. sp_update i t p = (q, r) \<and> slotted_ok q \<and> r \<noteq> Inl Panic \<and>
    (if unat i < unat (num_slots p) \<and> page_slots p ! unat i \<noteq> None then
       (let s = the (page_slots p ! unat i) in
        if length t \<le> length s then
          r = Inr i \<and> page_slots q = (page_slots p)[unat i := Some t]
        else
          (let ts = (page_slots p)[unat i := None] in
           if free_space p < length t + 4
           then r = Inl (Err (PageFull (hd_page_id (header_read_from p)))) \<and> page_slots q = ts
           else r = Inr (word_of_nat (free_index ts)) \<and> page_slots q = dir_insert t ts))
     else q = p \<and> r = page_not_found p)"
proof (cases "unat i < unat (num_slots p) \<and> page_slots p ! unat i \<noteq> None")
  case True
  then obtain s where k: "unat i < unat (num_slots p)" and s: "page_slots p ! unat i = Some s" by auto
  show ?thesis
  proof (cases "length t \<le> length s")
    case fits: True
    then show ?thesis using sp_update_in_place [OF ok k s fits] k s by auto
  next
    case moves: False
    obtain d where d: "sp_delete i p = (d, Inr ())"
      "slotted_ok d \<and> page_slots d = (page_slots p)[unat i := None]"
      "free_space d = free_space p" "header_read_from d = header_read_from p"
      using sp_delete_ok [OF ok k] s by blast
    have u: "sp_update i t p = sp_insert t d"
      using sp_update_moved [OF ok k s] moves d(1) by simp
    show ?thesis
    proof (cases "free_space p < length t + 4")
      case full: True
      then show ?thesis using u d sp_insert_full [of d t] k s moves by simp
    next
      case False
      then have "length t + 4 \<le> free_space d" using d by simp
      from sp_insert_ok [OF _ this] d obtain q where
        "sp_insert t d = (q, Inr (word_of_nat (free_index (page_slots d))))"
        "slotted_ok q \<and> page_slots q = dir_insert t (page_slots d)" by blast
      then show ?thesis using u d k s moves False by simp
    qed
  qed
next
  case False
  then show ?thesis using sp_update_missing [OF ok, of i t] ok by (auto simp: page_not_found_def)
qed

lemma page_call_ok:
  assumes "slotted_ok p"
  shows "slotted_ok (fst (run_page_call c p)) \<and> snd (run_page_call c p) \<noteq> Inl Panic"
proof (cases c)
  case (CallInsert t)
  then show ?thesis
    using assms sp_insert_full [of p t] sp_insert_ok [OF assms, of t]
    by (cases "free_space p < length t + 4") auto
next
  case (CallDelete i)
  then show ?thesis
    using assms sp_delete_missing [OF assms, of i] sp_delete_ok [OF assms, of i]
    by (cases "unat i < unat (num_slots p) \<and> page_slots p ! unat i \<noteq> None")
      (auto simp: page_not_found_def)
next
  case (CallUpdate i t)
  then show ?thesis using sp_update_cases [OF assms, of i t] by (cases "snd (sp_update i t p)") auto
next
  case CallCompact
  then show ?thesis using sp_compact_ok [OF assms] by auto
qed

section \<open>Properties\<close>

text \<open>
  C4. Pages are safe under any use. Starting from a new page, no sequence of insertions,
  deletions, updates and compactions, with any arguments and any failing calls in between,
  panics or breaks the page invariant: the slot array ends where the free space starts, every
  live tuple lies between the free space and the end of the page, and no two overlap.
\<close>

theorem page_calls_safe:
  "slotted_ok (fst (run_page_calls cs (sp_new page_id)))
     \<and> Inl Panic \<notin> set (snd (run_page_calls cs (sp_new page_id)))"
proof -
  have "slotted_ok p \<Longrightarrow> slotted_ok (fst (run_page_calls cs p)) \<and> Inl Panic \<notin> set (snd (run_page_calls cs p))"
    for p
  proof (induction cs arbitrary: p)
    case Nil
    then show ?case by simp
  next
    case (Cons c cs)
    then show ?case
      using page_call_ok [of p c] by (cases "run_page_call c p") (auto simp: split_beta Let_def)
  qed
  then show ?thesis using slotted_ok_new by blast
qed

text \<open>
  C5. Insertion. It fails, with \<^verbatim>\<open>PageFull\<close> and an unchanged page, exactly when the free space is
  less than the tuple and a slot entry; otherwise it returns the first free slot, or a new one,
  in which no tuple was stored, stores the tuple there, and keeps every other tuple.
\<close>

theorem insert_correct:
  assumes "slotted_ok p"
  shows "case sp_insert t p of
      (q, Inl e) \<Rightarrow> q = p \<and> free_space p < length t + SLOT_SIZE
        \<and> e = Err (PageFull (hd_page_id (header_read_from p)))
    | (q, Inr i) \<Rightarrow> length t + SLOT_SIZE \<le> free_space p \<and> slotted_ok q
        \<and> sp_get i q = Inr t
        \<and> (\<forall>u. sp_get i p \<noteq> Inr u)
        \<and> (\<forall>j u. sp_get j p = Inr u \<longrightarrow> sp_get j q = Inr u)
        \<and> page_slots q = dir_insert t (page_slots p)"
proof (cases "free_space p < length t + 4")
  case True
  then show ?thesis by (simp add: sp_insert_full SLOT_SIZE_def)
next
  case False
  then obtain q i where q: "sp_insert t p = (q, Inr i)"
    using sp_insert_ok [OF assms, of t] by auto
  show ?thesis
    using False slotted.ins_view [OF assms q] slotted.get_inserted [OF assms q]
      slotted.insert_fresh [OF assms q] slotted.insert_frame [OF assms q]
    by (simp add: q SLOT_SIZE_def)
qed

theorem insert_correct_witness:
  "sp_insert [1, 2] (sp_new 9) \<noteq> (sp_new 9, Inl (Err (PageFull 9)))"
  using insert_correct [of "sp_new 9" "[1, 2]"] slotted_ok_new [of 9] free_space_new [of 9]
  by (auto simp: SLOT_SIZE_def)

text \<open>
  C6. Update. A tuple that does not grow is replaced in its slot. One that grows is moved: its
  slot is freed and the new tuple is inserted. If it does not fit the result is \<^verbatim>\<open>PageFull\<close>, and
  the old tuple is gone from the page. An update of a missing slot changes nothing.
\<close>

theorem update_correct:
  assumes "slotted_ok p"
  shows "case sp_update i t p of (q, r) \<Rightarrow> slotted_ok q \<and>
    (if unat i < unat (num_slots p) \<and> page_slots p ! unat i \<noteq> None then
       (let s = the (page_slots p ! unat i);
            ts = (page_slots p)[unat i := None] in
        if length t \<le> length s then
          r = Inr i \<and> page_slots q = (page_slots p)[unat i := Some t]
        else if free_space p < length t + SLOT_SIZE then
          r = Inl (Err (PageFull (hd_page_id (header_read_from p)))) \<and> page_slots q = ts
        else r = Inr (word_of_nat (free_index ts)) \<and> page_slots q = dir_insert t ts)
     else q = p \<and> r = page_not_found p)"
  using sp_update_cases [OF assms, of i t] by (auto simp: Let_def SLOT_SIZE_def)

text \<open>On a page with the tuple \<open>[1]\<close>, growing it beyond the free space loses it.\<close>

theorem update_correct_witness:
  "\<exists>p. page_slots p = [Some [1]] \<and> (\<exists>q e. sp_update 0 (replicate 8192 7) p = (q, Inl e)
     \<and> page_slots q = [None])"
proof -
  from sp_insert_ok [of "sp_new 1" "[1]"] slotted_ok_new [of 1] free_space_new [of 1]
  obtain p where "slotted_ok p" and s: "page_slots p = dir_insert [1] []" by auto
  moreover have "dir_insert [1] [] = [Some [1]]" by (simp add: dir_insert_def free_index_def)
  moreover from this s have "unat (num_slots p) = 1" using length_page_slots [of p] by simp
  moreover have "free_space p < 8192 + 4"
    using \<open>slotted_ok p\<close> by (auto simp: free_space_def slotted_ok_def)
  ultimately show ?thesis
    using update_correct [of p 0 "replicate 8192 7"]
    by (intro exI [of _ p]) (auto simp: SLOT_SIZE_def)
qed

text \<open>
  Compaction succeeds, keeps every slot with its tuple, and leaves exactly the live bytes at
  the end of the page: all other space is free again.
\<close>

theorem compact_correct:
  assumes "slotted_ok p"
  shows "case sp_compact p of (q, r) \<Rightarrow> r = Inr () \<and> slotted_ok q
    \<and> page_slots q = page_slots p
    \<and> (\<forall>i. sp_get i q = Inr t \<longleftrightarrow> sp_get i p = Inr t)
    \<and> free_space q + tuple_bytes (page_slots p) + slot_offset (num_slots p) = PAGE_SIZE"
proof -
  obtain q where q: "sp_compact p = (q, Inr ())" and r: "slotted_ok q \<and> page_slots q = page_slots p"
    and e: "unat (free_space_end q) + tuple_bytes (page_slots p) = 8192"
    using sp_compact_ok [OF assms] by blast
  have n: "unat (num_slots q) = unat (num_slots p)" using r length_page_slots by metis
  have "free_space q + tuple_bytes (page_slots p) + (32 + 4 * unat (num_slots p)) = 8192"
    using e r slotted_ok_start [of q] n unfolding free_space_def slotted_ok_def by linarith
  then show ?thesis
    using r slotted.get_view [OF assms] slotted.get_view [of q] by (simp add: q slot_offset_eq PAGE_SIZE_def)
qed

theorem compact_correct_witness: "snd (sp_compact (sp_new 3)) = Inr ()"
  using compact_correct [of "sp_new 3" "[]"] slotted_ok_new [of 3] by (simp add: split_beta)

end
