(* ===== verification/Page_Store.thy ===== *)
theory Page_Store
  imports Slotted_Page
begin

text \<open>
  The page manager of \<^verbatim>\<open>src/src/page/manager.rs\<close> and the overflow chains of
  \<^verbatim>\<open>src/src/page/overflow.rs\<close>. The file is its bytes; reading past its end is the \<^verbatim>\<open>Io\<close> error of
  \<^verbatim>\<open>read_exact\<close>, and no other failure of the operating system is modelled. \<open>crc\<close> is the CRC-32 of
  \<^verbatim>\<open>crc32fast\<close>.
\<close>

text \<open>Two loops over operations: a call repeated \<open>n\<close> times, and one write per page of a list.\<close>

fun repeat_op :: "nat \<Rightarrow> ('s, 'a) op \<Rightarrow> ('s, 'a list) op" where
  "repeat_op 0 m = ret_op []"
| "repeat_op (Suc n) m = bind_op m (\<lambda>x. bind_op (repeat_op n m) (\<lambda>xs. ret_op (x # xs)))"

fun write_each :: "(u32 \<Rightarrow> page \<Rightarrow> ('s, unit) op) \<Rightarrow> (u32 \<times> page) list \<Rightarrow> ('s, unit) op" where
  "write_each wr [] = ret_op ()"
| "write_each wr ((pid, d) # ws) = bind_op (wr pid d) (\<lambda>_. write_each wr ws)"

record page_manager =
  pm_file :: bytes
  pm_num_pages :: u32

abbreviation page_pos :: "u32 \<Rightarrow> nat" where
  "page_pos pid \<equiv> unat pid * PAGE_SIZE"

text \<open>\<^verbatim>\<open>seek\<close> to an offset and \<^verbatim>\<open>write_all\<close>: a gap beyond the end reads as zeros.\<close>

definition write_at :: "nat \<Rightarrow> bytes \<Rightarrow> bytes \<Rightarrow> bytes" where
  "write_at off xs f = blit off xs (f @ replicate (off - length f) 0)"

definition empty_page :: "u32 \<Rightarrow> page_type \<Rightarrow> page" where
  "empty_page pid ptype = header_write_to (header_new pid ptype) zero_page"

definition pm_open :: "bytes \<Rightarrow> page_manager" where
  "pm_open f =
     (if f = [] then
        \<lparr>pm_file = blit PAGE_HEADER_SIZE (to_le (0 :: u32)) (empty_page 0 FreeList),
         pm_num_pages = 1\<rparr>
      else \<lparr>pm_file = f, pm_num_pages = word_of_nat (length f div PAGE_SIZE)\<rparr>)"

definition read_page :: "(bytes \<Rightarrow> u32) \<Rightarrow> u32 \<Rightarrow> page_manager \<Rightarrow> page result" where
  "read_page crc page_id pm =
     (if page_id \<ge> pm_num_pages pm then Inl (Err (PageNotFound page_id))
      else if page_pos page_id + PAGE_SIZE > length (pm_file pm) then Inl (Err Io)
      else
        (let buf = slice (page_pos page_id) PAGE_SIZE (pm_file pm) in
         bind_res (verify_checksum crc buf page_id) (\<lambda>_. Inr buf)))"

definition write_page :: "(bytes \<Rightarrow> u32) \<Rightarrow> u32 \<Rightarrow> page \<Rightarrow> (page_manager, unit) op" where
  "write_page crc page_id data pm =
     (if page_id \<ge> pm_num_pages pm then (pm, Inl (Err (PageNotFound page_id)))
      else
        (let buf = stamp_checksum crc data in
         (pm\<lparr>pm_file := write_at (page_pos page_id) buf (pm_file pm)\<rparr>, Inr ())))"

subsection \<open>The free list\<close>

function read_free_entries :: "page \<Rightarrow> nat \<Rightarrow> nat \<Rightarrow> u32 list" where
  "read_free_entries buf i num_free =
     (if i \<ge> num_free then []
      else
        (let off = PAGE_HEADER_SIZE + 4 + i * 4 in
         if off + 4 > PAGE_SIZE then []
         else of_le (slice off 4 buf) # read_free_entries buf (Suc i) num_free))"
  by auto

termination read_free_entries
  by (relation "measure (\<lambda>(_, i, n). n - i)") auto

declare read_free_entries.simps [simp del]

definition read_free_list :: "(bytes \<Rightarrow> u32) \<Rightarrow> page_manager \<Rightarrow> u32 list result" where
  "read_free_list crc pm =
     bind_res (read_page crc 0 pm) (\<lambda>buf.
       let num_free = of_le (slice PAGE_HEADER_SIZE 4 buf) :: u32 in
       Inr (read_free_entries buf 0 (unat num_free)))"

fun write_free_entries :: "nat \<Rightarrow> u32 list \<Rightarrow> page \<Rightarrow> page" where
  "write_free_entries i [] buf = buf"
| "write_free_entries i (pid # pids) buf =
     (let off = PAGE_HEADER_SIZE + 4 + i * 4 in
      if off + 4 > PAGE_SIZE then buf
      else write_free_entries (Suc i) pids (blit off (to_le pid) buf))"

definition write_free_list :: "(bytes \<Rightarrow> u32) \<Rightarrow> u32 list \<Rightarrow> (page_manager, unit) op" where
  "write_free_list crc free_pages =
     (let buf = empty_page 0 FreeList;
          num_free = word_of_nat (length free_pages) :: u32;
          buf = blit PAGE_HEADER_SIZE (to_le num_free) buf;
          buf = write_free_entries 0 free_pages buf
      in write_page crc 0 buf)"

text \<open>\<^verbatim>\<open>Vec::pop\<close> takes the last element.\<close>

definition pop_free_list :: "(bytes \<Rightarrow> u32) \<Rightarrow> (page_manager, u32 option) op" where
  "pop_free_list crc pm =
     (case read_free_list crc pm of
        Inl e \<Rightarrow> (pm, Inl e)
      | Inr free_pages \<Rightarrow>
          if free_pages = [] then (pm, Inr None)
          else
            bind_op (write_free_list crc (butlast free_pages))
              (\<lambda>_. ret_op (Some (last free_pages))) pm)"

definition push_free_list :: "(bytes \<Rightarrow> u32) \<Rightarrow> u32 \<Rightarrow> (page_manager, unit) op" where
  "push_free_list crc page_id pm =
     (case read_free_list crc pm of
        Inl e \<Rightarrow> (pm, Inl e)
      | Inr free_pages \<Rightarrow> write_free_list crc (free_pages @ [page_id]) pm)"

definition free_list_capacity :: nat where
  "free_list_capacity = (PAGE_SIZE - PAGE_HEADER_SIZE - 4) div 4"

definition allocate_page :: "(bytes \<Rightarrow> u32) \<Rightarrow> (page_manager, u32) op" where
  "allocate_page crc =
     bind_op (pop_free_list crc) (\<lambda>popped pm.
       case popped of
         Some page_id \<Rightarrow> (pm, Inr page_id)
       | None \<Rightarrow>
           (let page_id = pm_num_pages pm;
                buf = empty_page page_id Free in
            (pm\<lparr>pm_file := write_at (page_pos page_id) buf (pm_file pm),
                pm_num_pages := pm_num_pages pm + 1\<rparr>, Inr page_id)))"

definition free_page :: "(bytes \<Rightarrow> u32) \<Rightarrow> u32 \<Rightarrow> (page_manager, unit) op" where
  "free_page crc page_id pm =
     (if page_id = 0 then (pm, Inl (Err (PageNotFound 0)))
      else if page_id \<ge> pm_num_pages pm then (pm, Inl (Err (PageNotFound page_id)))
      else
        bind_op (write_page crc page_id (empty_page page_id Free))
          (\<lambda>_. push_free_list crc page_id) pm)"

section \<open>Overflow chains\<close>

definition OVERFLOW_REF_SIZE :: nat where "OVERFLOW_REF_SIZE = 9"

definition encode_overflow_ref :: "u32 \<Rightarrow> u32 \<Rightarrow> bytes" where
  "encode_overflow_ref first_page_id total_len =
     [OVERFLOW_MARKER] @ to_le first_page_id @ to_le total_len"

definition decode_overflow_ref :: "bytes \<Rightarrow> (u32 \<times> u32) option" where
  "decode_overflow_ref data =
     (if length data < OVERFLOW_REF_SIZE \<or> data ! 0 \<noteq> OVERFLOW_MARKER then None
      else Some (of_le (slice 1 4 data), of_le (slice 5 4 data)))"

definition is_overflow :: "bytes \<Rightarrow> bool" where
  "is_overflow data \<longleftrightarrow>
     data \<noteq> [] \<and> data ! 0 = OVERFLOW_MARKER \<and> length data = OVERFLOW_REF_SIZE"

text \<open>\<^verbatim>\<open>slice::chunks\<close>.\<close>

function chunks :: "nat \<Rightarrow> 'a list \<Rightarrow> 'a list list" where
  "chunks n xs = (if n = 0 \<or> xs = [] then [] else take n xs # chunks n (drop n xs))"
  by auto

termination chunks
  by (relation "measure (\<lambda>(_, xs). length xs)") auto

declare chunks.simps [simp del]

definition overflow_page :: "u32 \<Rightarrow> u32 \<Rightarrow> bytes \<Rightarrow> page" where
  "overflow_page pid next_id chunk =
     blit PAGE_HEADER_SIZE chunk
       (header_write_to ((header_new pid Overflow)
           \<lparr>hd_next_page_id := next_id, hd_num_slots := word_of_nat (length chunk)\<rparr>) zero_page)"

fun overflow_chain :: "u32 list \<Rightarrow> bytes list \<Rightarrow> (u32 \<times> page) list" where
  "overflow_chain (pid # pids) (chunk # cs) =
     (pid, overflow_page pid (case pids of [] \<Rightarrow> 0 | q # _ \<Rightarrow> q) chunk) # overflow_chain pids cs"
| "overflow_chain _ _ = []"

definition write_overflow :: "(bytes \<Rightarrow> u32) \<Rightarrow> bytes \<Rightarrow> (page_manager, u32) op" where
  "write_overflow crc data =
     (let cs = chunks PAGE_USABLE_SPACE data in
      bind_op (repeat_op (length cs) (allocate_page crc)) (\<lambda>page_ids.
      bind_op (write_each (write_page crc) (overflow_chain page_ids cs)) (\<lambda>_.
        case page_ids of [] \<Rightarrow> panic_op | pid # _ \<Rightarrow> ret_op pid)))"

text \<open>
  The two loops over a chain end when a page links to page 0. A chain with a cycle never ends, so
  they are partial: \<^term>\<open>None\<close> is the call that does not return.
\<close>

partial_function (option) read_overflow_from ::
  "(bytes \<Rightarrow> u32) \<Rightarrow> page_manager \<Rightarrow> bytes \<Rightarrow> u32 \<Rightarrow> bytes result option" where
  "read_overflow_from crc pm res current_id =
     (if current_id = 0 then Some (Inr res)
      else
        case read_page crc current_id pm of
          Inl e \<Rightarrow> Some (Inl e)
        | Inr buf \<Rightarrow>
            (let header = header_read_from buf;
                 chunk_len = unat (hd_num_slots header) in
             case try_slice PAGE_HEADER_SIZE (PAGE_HEADER_SIZE + chunk_len) buf of
               Inl e \<Rightarrow> Some (Inl e)
             | Inr chunk \<Rightarrow>
                 read_overflow_from crc pm (res @ chunk) (hd_next_page_id header)))"

definition read_overflow :: "(bytes \<Rightarrow> u32) \<Rightarrow> u32 \<Rightarrow> page_manager \<Rightarrow> bytes result option" where
  "read_overflow crc first_page_id pm = read_overflow_from crc pm [] first_page_id"

partial_function (option) free_overflow ::
  "(bytes \<Rightarrow> u32) \<Rightarrow> u32 \<Rightarrow> page_manager \<Rightarrow> (page_manager \<times> unit result) option" where
  "free_overflow crc current_id pm =
     (if current_id = 0 then Some (pm, Inr ())
      else
        case read_page crc current_id pm of
          Inl e \<Rightarrow> Some (pm, Inl e)
        | Inr buf \<Rightarrow>
            (case free_page crc current_id pm of
               (pm, Inl e) \<Rightarrow> Some (pm, Inl e)
             | (pm, Inr _) \<Rightarrow> free_overflow crc (hd_next_page_id (header_read_from buf)) pm))"


section \<open>Page contents\<close>

definition pm_page :: "page_manager \<Rightarrow> u32 \<Rightarrow> page" where
  "pm_page pm pid = slice (page_pos pid) PAGE_SIZE (pm_file pm)"

definition pm_valid :: "(bytes \<Rightarrow> u32) \<Rightarrow> page_manager \<Rightarrow> bool" where
  "pm_valid crc pm \<longleftrightarrow>
     length (pm_file pm) = unat (pm_num_pages pm) * PAGE_SIZE \<and> 0 < pm_num_pages pm
     \<and> (\<forall>pid < pm_num_pages pm. verify_checksum crc (pm_page pm pid) pid = Inr ())"

definition pm_free :: "page_manager \<Rightarrow> u32 list" where
  "pm_free pm =
     read_free_entries (pm_page pm 0) 0 (unat (of_le (slice 32 4 (pm_page pm 0)) :: u32))"

text \<open>
  The invariant of a page file and the pages its users own: those that are neither page 0 nor
  on the free list. \<open>pm_room\<close> is the number of allocations that are certain to succeed.
\<close>

definition pm_ok :: "(bytes \<Rightarrow> u32) \<Rightarrow> page_manager \<Rightarrow> bool" where
  "pm_ok crc pm \<longleftrightarrow> pm_valid crc pm \<and> distinct (pm_free pm)
     \<and> (\<forall>pid \<in> set (pm_free pm). 0 < pid \<and> pid < pm_num_pages pm)"

definition pm_used :: "page_manager \<Rightarrow> u32 set" where
  "pm_used pm = {pid. 0 < pid \<and> pid < pm_num_pages pm} - set (pm_free pm)"

definition pm_room :: "page_manager \<Rightarrow> nat" where
  "pm_room pm = (2 ^ 32 - 1 - unat (pm_num_pages pm)) + length (pm_free pm)"

lemma page_pos_inside:
  assumes "pid < (n :: u32)" and "length f = unat n * PAGE_SIZE"
  shows "page_pos pid + PAGE_SIZE \<le> length f"
proof -
  have "unat pid + 1 \<le> unat n" using assms(1) by (simp add: word_less_nat_alt)
  then have "(unat pid + 1) * PAGE_SIZE \<le> unat n * PAGE_SIZE" by (rule mult_le_mono1)
  then show ?thesis using assms(2) by simp
qed

lemma page_pos_apart: "pid \<noteq> q \<Longrightarrow>
  page_pos pid + PAGE_SIZE \<le> page_pos q \<or> page_pos q + PAGE_SIZE \<le> page_pos pid"
proof -
  assume "pid \<noteq> q"
  then have "unat pid + 1 \<le> unat q \<or> unat q + 1 \<le> unat pid" by (simp add: word_unat_eq_iff) linarith
  then have "(unat pid + 1) * PAGE_SIZE \<le> unat q * PAGE_SIZE
      \<or> (unat q + 1) * PAGE_SIZE \<le> unat pid * PAGE_SIZE"
    by (metis mult_le_mono1)
  then show ?thesis by (simp add: algebra_simps)
qed

lemma page_ok_pm_page: "pm_valid crc pm \<Longrightarrow> pid < pm_num_pages pm \<Longrightarrow> page_ok (pm_page pm pid)"
  using page_pos_inside [of pid "pm_num_pages pm" "pm_file pm"]
  by (simp add: pm_valid_def pm_page_def page_ok_def)

lemma read_page_eq:
  "pm_valid crc pm \<Longrightarrow> pid < pm_num_pages pm \<Longrightarrow> read_page crc pid pm = Inr (pm_page pm pid)"
  using page_pos_inside [of pid "pm_num_pages pm" "pm_file pm"]
  by (auto simp: read_page_def pm_valid_def pm_page_def Let_def not_le)

lemma write_page_eq:
  assumes "pm_valid crc pm" and "pid < pm_num_pages pm" and "page_ok d"
  shows "\<exists>pm'. write_page crc pid d pm = (pm', Inr ()) \<and> pm_valid crc pm'
    \<and> pm_num_pages pm' = pm_num_pages pm
    \<and> (\<forall>q < pm_num_pages pm. pm_page pm' q = (if q = pid then stamp_checksum crc d else pm_page pm q))"
proof -
  define pm' where
    "pm' = pm\<lparr>pm_file := blit (page_pos pid) (stamp_checksum crc d) (pm_file pm)\<rparr>"
  have len: "length (stamp_checksum crc d) = PAGE_SIZE"
    using page_ok_stamp [OF assms(3)] by (simp add: page_ok_def)
  have flen: "length (pm_file pm) = unat (pm_num_pages pm) * PAGE_SIZE"
    using assms(1) by (simp add: pm_valid_def)
  note ins = page_pos_inside [OF _ flen]
  have w: "write_page crc pid d pm = (pm', Inr ())"
    using assms(2) ins [OF assms(2)] by (simp add: write_page_def Let_def pm'_def write_at_def)
  have pages: "pm_page pm' q = (if q = pid then stamp_checksum crc d else pm_page pm q)"
    if "q < pm_num_pages pm" for q
    using ins [OF that] ins [OF assms(2)] len page_pos_apart [of q pid]
    by (auto simp: pm_page_def pm'_def slice_blit_same slice_blit_other)
  have "pm_valid crc pm'"
    using assms(1) pages len ins [OF assms(2)] verify_stamp [OF assms(3)]
    by (auto simp: pm_valid_def pm'_def)
  with w pages show ?thesis by (simp add: pm'_def)
qed

section \<open>The free list on page 0\<close>

lemma read_free_entries_eq:
  "read_free_entries buf i n = map (\<lambda>j. of_le (slice (36 + 4 * j) 4 buf)) [i..<min n 2039]"
proof (induction buf i n rule: read_free_entries.induct)
  case (1 buf i n)
  show ?case
  proof (cases "i < min n 2039")
    case True
    then have "[i..<min n 2039] = i # [Suc i..<min n 2039]" by (rule upt_conv_Cons)
    then show ?thesis
      using 1 True by (subst read_free_entries.simps) (simp add: page_consts Let_def mult.commute)
  next
    case False
    then show ?thesis
      by (subst read_free_entries.simps) (auto simp: page_consts Let_def min_def split: if_splits)
  qed
qed

lemma write_free_entries_ok:
  "page_ok buf \<Longrightarrow> page_ok (write_free_entries i ps buf)"
  by (induction i ps buf rule: write_free_entries.induct) (simp_all add: Let_def page_consts)

lemma slice_write_free_entries_head:
  "page_ok buf \<Longrightarrow> a + n \<le> 36 \<Longrightarrow> slice a n (write_free_entries i ps buf) = slice a n buf"
  by (induction i ps buf rule: write_free_entries.induct)
    (simp_all add: Let_def page_consts slice_blit_other page_len)

lemma slice_write_free_entries:
  "page_ok buf \<Longrightarrow> j < 2039 \<Longrightarrow> slice (36 + 4 * j) 4 (write_free_entries i ps buf) =
     (if i \<le> j \<and> j < i + length ps then to_le (ps ! (j - i)) else slice (36 + 4 * j) 4 buf)"
proof (induction i ps buf rule: write_free_entries.induct)
  case (1 i buf)
  then show ?case by auto
next
  case (2 i pid pids buf)
  show ?case
  proof (cases "i < 2039")
    case True
    have "j < i \<or> j = i \<or> i < j" by linarith
    then have "slice (36 + 4 * j) 4 (blit (36 + i * 4) (to_le pid) buf)
        = (if j = i then to_le pid else slice (36 + 4 * j) 4 buf)"
      using True 2(2,3) by (elim disjE) (simp_all add: slice_blit_same slice_blit_other page_len mult.commute)
    then show ?thesis
      using 2 True by (auto simp: Let_def page_consts nth_Cons' Suc_diff_le)
  next
    case False
    then show ?thesis using 2 by (auto simp: Let_def page_consts)
  qed
qed

lemma write_free_list_eq:
  assumes "pm_valid crc pm" and "length l < 2 ^ 32"
  shows "\<exists>pm'. write_free_list crc l pm = (pm', Inr ()) \<and> pm_valid crc pm'
    \<and> pm_num_pages pm' = pm_num_pages pm \<and> pm_free pm' = take 2039 l
    \<and> (\<forall>q < pm_num_pages pm. q \<noteq> 0 \<longrightarrow> pm_page pm' q = pm_page pm q)"
proof -
  define buf where "buf = write_free_entries 0 l
    (blit 32 (to_le (word_of_nat (length l) :: u32)) (empty_page 0 FreeList))"
  have e: "page_ok (empty_page 0 FreeList)" by (simp add: empty_page_def)
  then have b0: "page_ok (blit 32 (to_le (word_of_nat (length l) :: u32)) (empty_page 0 FreeList))"
    by (simp add: page_consts)
  then have b: "page_ok buf" by (simp add: buf_def write_free_entries_ok)
  have "0 < pm_num_pages pm" using assms(1) by (simp add: pm_valid_def)
  from write_page_eq [OF assms(1) this b] obtain pm' where w: "write_page crc 0 buf pm = (pm', Inr ())"
    and v: "pm_valid crc pm'" "pm_num_pages pm' = pm_num_pages pm"
    and pages: "\<forall>q < pm_num_pages pm. pm_page pm' q = (if q = 0 then stamp_checksum crc buf else pm_page pm q)"
    by auto
  have p0: "pm_page pm' 0 = stamp_checksum crc buf" using pages \<open>0 < pm_num_pages pm\<close> by simp
  have len: "slice 32 4 buf = to_le (word_of_nat (length l) :: u32)"
    using b0 e by (simp add: buf_def slice_write_free_entries_head slice_blit_same page_len)
  have n: "unat (of_le (slice 32 4 buf) :: u32) = length l"
    using assms(2) by (simp add: len unat_of_nat_small)
  have "pm_free pm' = map (\<lambda>j. of_le (slice (36 + 4 * j) 4 buf)) [0..<min (length l) 2039]"
    using b n by (simp add: pm_free_def p0 read_free_entries_eq slice_stamp_body PAGE_SIZE_def)
  also have "\<dots> = take 2039 l"
    using b0 by (intro nth_equalityI) (auto simp: buf_def slice_write_free_entries)
  finally have "pm_free pm' = take 2039 l" .
  moreover have "write_free_list crc l pm = (pm', Inr ())"
    using w by (simp add: write_free_list_def Let_def buf_def PAGE_HEADER_SIZE_def)
  ultimately show ?thesis using v pages by auto
qed

lemma read_free_list_eq: "pm_valid crc pm \<Longrightarrow> read_free_list crc pm = Inr (pm_free pm)"
  by (simp add: read_free_list_def read_page_eq pm_valid_def pm_free_def PAGE_HEADER_SIZE_def)

lemma length_pm_free: "length (pm_free pm) \<le> 2039"
  by (simp add: pm_free_def read_free_entries_eq)


section \<open>Allocation\<close>

lemma pm_okD:
  assumes "pm_ok crc pm"
  shows "pm_valid crc pm" and "0 < pm_num_pages pm" and "distinct (pm_free pm)"
    and "pid \<in> set (pm_free pm) \<Longrightarrow> 0 < pid \<and> pid < pm_num_pages pm"
    and "pid \<in> pm_used pm \<Longrightarrow> pid \<noteq> 0 \<and> pid < pm_num_pages pm"
  using assms by (auto simp: pm_ok_def pm_valid_def pm_used_def)

lemma pop_free_list_empty:
  "pm_valid crc pm \<Longrightarrow> pm_free pm = [] \<Longrightarrow> pop_free_list crc pm = (pm, Inr None)"
  by (simp add: pop_free_list_def read_free_list_eq)

lemma allocate_reuse:
  assumes ok: "pm_ok crc pm" and ne: "pm_free pm \<noteq> []"
  shows "\<exists>pm'. allocate_page crc pm = (pm', Inr (last (pm_free pm))) \<and> pm_valid crc pm'
    \<and> pm_num_pages pm' = pm_num_pages pm \<and> pm_free pm' = butlast (pm_free pm)
    \<and> (\<forall>q < pm_num_pages pm. q \<noteq> 0 \<longrightarrow> pm_page pm' q = pm_page pm q)"
proof -
  have "length (butlast (pm_free pm)) < 2 ^ 32" using length_pm_free [of pm] by simp
  from write_free_list_eq [OF pm_okD(1) [OF ok] this] obtain pm' where
    w: "write_free_list crc (butlast (pm_free pm)) pm = (pm', Inr ())" and
    pm': "pm_valid crc pm'" "pm_num_pages pm' = pm_num_pages pm"
    "pm_free pm' = take 2039 (butlast (pm_free pm))"
    "\<forall>q < pm_num_pages pm. q \<noteq> 0 \<longrightarrow> pm_page pm' q = pm_page pm q" by blast
  have "pop_free_list crc pm = (pm', Inr (Some (last (pm_free pm))))"
    using ne w by (simp add: pop_free_list_def read_free_list_eq [OF pm_okD(1) [OF ok]] bind_op_Inr)
  moreover have "take 2039 (butlast (pm_free pm)) = butlast (pm_free pm)"
    using length_pm_free [of pm] by simp
  ultimately show ?thesis using pm' by (simp add: allocate_page_def bind_op_Inr)
qed

lemma verify_empty_page: "verify_checksum crc (empty_page pid ptype) pid' = Inr ()"
proof -
  have "hd_checksum (header_read_from (empty_page pid ptype)) = 0"
    by (simp add: empty_page_def header_read_write header_new_def)
  then show ?thesis by (simp add: verify_checksum_def header_read_from_def)
qed

lemma allocate_extend:
  assumes ok: "pm_ok crc pm" and e: "pm_free pm = []" and max: "unat (pm_num_pages pm) < 2 ^ 32 - 1"
  shows "\<exists>pm'. allocate_page crc pm = (pm', Inr (pm_num_pages pm)) \<and> pm_valid crc pm'
    \<and> unat (pm_num_pages pm') = Suc (unat (pm_num_pages pm)) \<and> pm_free pm' = []
    \<and> (\<forall>q < pm_num_pages pm. pm_page pm' q = pm_page pm q)"
proof -
  define n where "n = pm_num_pages pm"
  define pm' where "pm' = pm\<lparr>pm_file := pm_file pm @ empty_page n Free, pm_num_pages := n + 1\<rparr>"
  note v = pm_okD(1) [OF ok]
  have flen: "length (pm_file pm) = unat n * PAGE_SIZE" using v by (simp add: pm_valid_def n_def)
  have plen: "length (empty_page n Free) = PAGE_SIZE"
    using page_ok_header_write_to [OF page_ok_zero] by (simp add: empty_page_def page_ok_def)
  have n1: "unat (n + 1) = Suc (unat n)" using max by (simp add: n_def unat_word_ariths)
  have eq: "allocate_page crc pm = (pm', Inr n)"
    using flen by (simp add: allocate_page_def bind_op_Inr pop_free_list_empty [OF v e] Let_def
        n_def pm'_def write_at_def blit_def)
  have old: "pm_page pm' q = pm_page pm q" if "q < n" for q
    using page_pos_inside [OF that flen] by (simp add: pm_page_def pm'_def slice_append_left)
  have new: "pm_page pm' n = empty_page n Free"
    using flen plen by (simp add: pm_page_def pm'_def slice_append_right slice_def)
  have "verify_checksum crc (pm_page pm' q) q = Inr ()" if "q < n + 1" for q
  proof -
    have "q < n \<or> q = n"
      using that n1 by (simp add: word_less_nat_alt word_unat_eq_iff less_Suc_eq)
    then show ?thesis using old new v verify_empty_page by (auto simp: pm_valid_def n_def)
  qed
  then have "pm_valid crc pm'"
    using flen plen n1 by (simp add: pm_valid_def pm'_def word_less_nat_alt)
  moreover have "pm_free pm' = []"
    using e old [of 0] pm_okD(2) [OF ok] by (simp add: pm_free_def n_def)
  ultimately show ?thesis using eq old n1 by (simp add: n_def pm'_def)
qed

text \<open>One allocation, from either source.\<close>

lemma allocate_page_eq:
  assumes ok: "pm_ok crc pm" and room: "0 < pm_room pm"
  shows "\<exists>pm' pid. allocate_page crc pm = (pm', Inr pid) \<and> pm_ok crc pm'
    \<and> pid \<notin> pm_used pm \<and> pm_used pm' = insert pid (pm_used pm)
    \<and> (\<forall>q \<in> pm_used pm. pm_page pm' q = pm_page pm q) \<and> pm_room pm' = pm_room pm - 1"
proof (cases "pm_free pm = []")
  case True
  then have "unat (pm_num_pages pm) < 2 ^ 32 - 1" using room by (simp add: pm_room_def)
  from allocate_extend [OF ok True this] obtain pm' where
    pm': "allocate_page crc pm = (pm', Inr (pm_num_pages pm))" "pm_valid crc pm'"
    "unat (pm_num_pages pm') = Suc (unat (pm_num_pages pm))" "pm_free pm' = []"
    "\<forall>q < pm_num_pages pm. pm_page pm' q = pm_page pm q" by blast
  have "pm_used pm' = insert (pm_num_pages pm) (pm_used pm)"
    using pm'(3,4) pm_okD(2) [OF ok] True
    by (auto simp: pm_used_def word_less_nat_alt word_unat_eq_iff)
  moreover have "pm_ok crc pm'" using pm'(2,4) by (simp add: pm_ok_def)
  moreover have "pm_room pm' = pm_room pm - 1" using pm'(3,4) True by (simp add: pm_room_def)
  moreover have "pm_num_pages pm \<notin> pm_used pm" by (simp add: pm_used_def)
  moreover have "\<forall>q \<in> pm_used pm. pm_page pm' q = pm_page pm q" using pm'(5) pm_okD(5) [OF ok] by auto
  ultimately show ?thesis using pm'(1) by simp
next
  case False
  from allocate_reuse [OF ok this] obtain pm' where
    pm': "allocate_page crc pm = (pm', Inr (last (pm_free pm)))" "pm_valid crc pm'"
    "pm_num_pages pm' = pm_num_pages pm" "pm_free pm' = butlast (pm_free pm)"
    "\<forall>q < pm_num_pages pm. q \<noteq> 0 \<longrightarrow> pm_page pm' q = pm_page pm q" by blast
  have fl: "pm_free pm = butlast (pm_free pm) @ [last (pm_free pm)]" using False by simp
  then have "distinct (butlast (pm_free pm) @ [last (pm_free pm)])" using pm_okD(3) [OF ok] by simp
  then have "last (pm_free pm) \<notin> set (butlast (pm_free pm))" "distinct (butlast (pm_free pm))"
    by simp_all
  moreover have "set (pm_free pm) = insert (last (pm_free pm)) (set (butlast (pm_free pm)))"
    by (subst fl) simp
  moreover note pm_okD(4) [OF ok]
  ultimately have "pm_used pm' = insert (last (pm_free pm)) (pm_used pm)" "pm_ok crc pm'"
    "last (pm_free pm) \<notin> pm_used pm"
    using pm'(2-4) by (auto simp: pm_used_def pm_ok_def)
  moreover have "pm_room pm' = pm_room pm - 1" using pm'(3,4) False by (cases "pm_free pm") (simp_all add: pm_room_def)
  moreover have "\<forall>q \<in> pm_used pm. pm_page pm' q = pm_page pm q" using pm'(5) pm_okD(5) [OF ok] by auto
  ultimately show ?thesis using pm'(1) by simp
qed

lemma free_page_eq:
  assumes ok: "pm_ok crc pm" and pid: "pid \<in> pm_used pm"
  shows "\<exists>pm'. free_page crc pid pm = (pm', Inr ()) \<and> pm_ok crc pm'
    \<and> pm_free pm' = take 2039 (pm_free pm @ [pid]) \<and> pm_num_pages pm' = pm_num_pages pm
    \<and> (\<forall>q \<in> pm_used pm - {pid}. pm_page pm' q = pm_page pm q)"
proof -
  have p: "pid \<noteq> 0" "pid < pm_num_pages pm" "pid \<notin> set (pm_free pm)"
    using pm_okD(5) [OF ok pid] pid by (simp_all add: pm_used_def)
  have "page_ok (empty_page pid Free)" by (simp add: empty_page_def)
  from write_page_eq [OF pm_okD(1) [OF ok] p(2) this] obtain pm1 where
    w: "write_page crc pid (empty_page pid Free) pm = (pm1, Inr ())" "pm_valid crc pm1"
    "pm_num_pages pm1 = pm_num_pages pm"
    "\<forall>q < pm_num_pages pm. pm_page pm1 q = (if q = pid then stamp_checksum crc (empty_page pid Free)
       else pm_page pm q)" by blast
  have f1: "pm_free pm1 = pm_free pm" using w(4) p pm_okD(2) [OF ok] by (simp add: pm_free_def)
  have "length (pm_free pm1 @ [pid]) < 2 ^ 32" using length_pm_free [of pm1] by simp
  from write_free_list_eq [OF w(2) this] obtain pm' where
    pm': "write_free_list crc (pm_free pm1 @ [pid]) pm1 = (pm', Inr ())" "pm_valid crc pm'"
    "pm_num_pages pm' = pm_num_pages pm1" "pm_free pm' = take 2039 (pm_free pm1 @ [pid])"
    "\<forall>q < pm_num_pages pm1. q \<noteq> 0 \<longrightarrow> pm_page pm' q = pm_page pm1 q" by blast
  have "free_page crc pid pm = (pm', Inr ())"
    using p w(1,2) pm'(1) f1
    by (simp add: free_page_def bind_op_Inr push_free_list_def read_free_list_eq not_le)
  moreover have "pm_ok crc pm'"
    using pm'(2-4) w(3) f1 p pm_okD(3,4) [OF ok]
    by (auto simp: pm_ok_def word_gt_0 dest!: in_set_takeD)
  moreover have "pm_page pm' q = pm_page pm q" if "q \<in> pm_used pm - {pid}" for q
    using pm'(5) w(3,4) that pm_okD(5) [OF ok, of q] by simp
  ultimately show ?thesis using pm'(3,4) w(3) f1 by simp
qed


section \<open>The page device contract\<close>

text \<open>
  What the users of a page file (overflow chains, B+trees, collections) rely on: the pages they own
  are read back as written, up to the stamped checksum, and an allocation returns a page nobody
  owns and touches no owned page.
\<close>

locale page_device =
  fixes inv :: "'s \<Rightarrow> bool"
    and used :: "'s \<Rightarrow> u32 set"
    and content :: "'s \<Rightarrow> u32 \<Rightarrow> page"
    and room :: "'s \<Rightarrow> nat"
    and stamp :: "page \<Rightarrow> page"
    and rd :: "u32 \<Rightarrow> 's \<Rightarrow> page result"
    and wr :: "u32 \<Rightarrow> page \<Rightarrow> ('s, unit) op"
    and alloc :: "('s, u32) op"
  assumes rd_used: "inv s \<Longrightarrow> pid \<in> used s \<Longrightarrow> rd pid s = Inr (content s pid)"
    and wr_used: "inv s \<Longrightarrow> pid \<in> used s \<Longrightarrow> page_ok d \<Longrightarrow>
      \<exists>s'. wr pid d s = (s', Inr ()) \<and> inv s' \<and> used s' = used s \<and> room s' = room s
        \<and> (\<forall>q \<in> used s. content s' q = (if q = pid then stamp d else content s q))"
    and alloc_new: "inv s \<Longrightarrow> 0 < room s \<Longrightarrow>
      \<exists>s' pid. alloc s = (s', Inr pid) \<and> inv s' \<and> pid \<notin> used s \<and> used s' = insert pid (used s)
        \<and> (\<forall>q \<in> used s. content s' q = content s q) \<and> room s' = room s - 1"
    and used_nonzero: "inv s \<Longrightarrow> 0 \<notin> used s"
begin

lemma alloc_many:
  assumes "inv s" and "n \<le> room s"
  shows "\<exists>s' pids. repeat_op n alloc s = (s', Inr pids) \<and> inv s' \<and> length pids = n
    \<and> distinct pids \<and> set pids \<inter> used s = {} \<and> used s' = used s \<union> set pids
    \<and> (\<forall>q \<in> used s. content s' q = content s q) \<and> room s' = room s - n"
  using assms
proof (induction n arbitrary: s)
  case 0
  then show ?case by simp
next
  case (Suc n)
  from alloc_new [of s] Suc.prems obtain s1 pid where s1: "alloc s = (s1, Inr pid)" "inv s1"
    "pid \<notin> used s" "used s1 = insert pid (used s)"
    "\<forall>q \<in> used s. content s1 q = content s q" "room s1 = room s - 1" by auto
  have "n \<le> room s1" using s1(6) Suc.prems(2) by simp
  from Suc.IH [OF s1(2) this] obtain s' pids where s': "repeat_op n alloc s1 = (s', Inr pids)"
    "inv s'" "length pids = n" "distinct pids" "set pids \<inter> used s1 = {}"
    "used s' = used s1 \<union> set pids" "\<forall>q \<in> used s1. content s' q = content s1 q"
    "room s' = room s1 - n" by blast
  have "repeat_op (Suc n) alloc s = (s', Inr (pid # pids))"
    using s1(1) s'(1) by (simp add: bind_op_Inr)
  moreover have "length (pid # pids) = Suc n \<and> distinct (pid # pids)
      \<and> set (pid # pids) \<inter> used s = {} \<and> used s' = used s \<union> set (pid # pids)"
    using s' s1 by auto
  moreover have "\<forall>q \<in> used s. content s' q = content s q" using s' s1 by simp
  moreover have "room s' = room s - Suc n" using s'(8) s1(6) by simp
  ultimately show ?case using s'(2) by blast
qed

lemma write_many:
  assumes "inv s" and "\<forall>(pid, d) \<in> set ws. pid \<in> used s \<and> page_ok d" and "distinct (map fst ws)"
  shows "\<exists>s'. write_each wr ws s = (s', Inr ()) \<and> inv s' \<and> used s' = used s \<and> room s' = room s
    \<and> (\<forall>(pid, d) \<in> set ws. content s' pid = stamp d)
    \<and> (\<forall>q \<in> used s - fst ` set ws. content s' q = content s q)"
  using assms
proof (induction ws arbitrary: s)
  case Nil
  then show ?case by simp
next
  case (Cons w ws)
  obtain pid d where w: "w = (pid, d)" by (cases w)
  then have "pid \<in> used s" "page_ok d" using Cons.prems(2) by simp_all
  from wr_used [OF Cons.prems(1) this] obtain s1 where s1: "wr pid d s = (s1, Inr ())" "inv s1"
    "used s1 = used s" "room s1 = room s"
    "\<forall>q \<in> used s. content s1 q = (if q = pid then stamp d else content s q)" by blast
  from Cons.IH [of s1] Cons.prems s1 obtain s' where s': "write_each wr ws s1 = (s', Inr ())"
    "inv s'" "used s' = used s" "room s' = room s" "\<forall>(pid, d) \<in> set ws. content s' pid = stamp d"
    "\<forall>q \<in> used s - fst ` set ws. content s' q = content s1 q" by auto
  have "write_each wr (w # ws) s = (s', Inr ())" using s1(1) s'(1) by (simp add: w bind_op_Inr)
  moreover have "content s' pid = stamp d"
    using s'(6) s1(5) \<open>pid \<in> used s\<close> Cons.prems(3) w by simp
  moreover have "\<forall>q \<in> used s - fst ` set (w # ws). content s' q = content s q"
    using s'(6) s1(5) w by simp
  ultimately show ?case using s' w by auto
qed

end

interpretation pm_device: page_device "pm_ok crc" pm_used pm_page pm_room "stamp_checksum crc"
  "\<lambda>pid pm. read_page crc pid pm" "write_page crc" "allocate_page crc"
proof unfold_locales
  fix pm :: page_manager and pid :: u32 and d :: page
  assume ok: "pm_ok crc pm"
  note v = pm_okD(1) [OF ok]
  show "0 \<notin> pm_used pm" by (simp add: pm_used_def)
  show "0 < pm_room pm \<Longrightarrow>
      \<exists>s' pid. allocate_page crc pm = (s', Inr pid) \<and> pm_ok crc s' \<and> pid \<notin> pm_used pm
        \<and> pm_used s' = insert pid (pm_used pm)
        \<and> (\<forall>q \<in> pm_used pm. pm_page s' q = pm_page pm q) \<and> pm_room s' = pm_room pm - 1"
    using allocate_page_eq [OF ok] .
  assume u: "pid \<in> pm_used pm"
  note p = pm_okD(5) [OF ok u]
  show "read_page crc pid pm = Inr (pm_page pm pid)" using read_page_eq [OF v] p by simp
  assume "page_ok d"
  from write_page_eq [OF v conjunct2 [OF p] this] obtain pm' where
    pm': "write_page crc pid d pm = (pm', Inr ())" "pm_valid crc pm'"
    "pm_num_pages pm' = pm_num_pages pm"
    "\<forall>q < pm_num_pages pm. pm_page pm' q = (if q = pid then stamp_checksum crc d else pm_page pm q)"
    by blast
  have "pm_free pm' = pm_free pm" using pm'(4) p pm_okD(2) [OF ok] by (simp add: pm_free_def)
  moreover have "\<forall>q \<in> pm_used pm. pm_page pm' q = (if q = pid then stamp_checksum crc d else pm_page pm q)"
    using pm'(4) by (simp add: pm_used_def)
  ultimately show "\<exists>s'. write_page crc pid d pm = (s', Inr ()) \<and> pm_ok crc s' \<and> pm_used s' = pm_used pm
      \<and> pm_room s' = pm_room pm
      \<and> (\<forall>q \<in> pm_used pm. pm_page s' q = (if q = pid then stamp_checksum crc d else pm_page pm q))"
    using pm'(1-3) ok by (intro exI [of _ pm']) (simp add: pm_ok_def pm_used_def pm_room_def)
qed


section \<open>Chains\<close>

lemma concat_chunks: "0 < n \<Longrightarrow> concat (chunks n xs) = xs"
proof (induction n xs rule: chunks.induct)
  case (1 n xs)
  then show ?case by (subst chunks.simps) simp
qed

lemma length_chunks: "c \<in> set (chunks n xs) \<Longrightarrow> length c \<le> n"
proof (induction n xs rule: chunks.induct)
  case (1 n xs)
  then show ?case by (subst (asm) (2) chunks.simps) (auto split: if_splits)
qed

lemma chunks_Nil_iff: "0 < n \<Longrightarrow> chunks n xs = [] \<longleftrightarrow> xs = []"
  by (subst chunks.simps) simp

lemma page_ok_overflow_page: "length c \<le> 8160 \<Longrightarrow> page_ok (overflow_page pid nxt c)"
  by (simp add: overflow_page_def page_consts)

lemma overflow_page_fields:
  fixes crc :: "bytes \<Rightarrow> u32" and pid nxt :: u32 and c :: bytes
  assumes c: "length c \<le> 8160"
  defines "buf \<equiv> stamp_checksum crc (overflow_page pid nxt c)"
  shows "unat (hd_num_slots (header_read_from buf)) = length c"
    and "hd_next_page_id (header_read_from buf) = nxt"
    and "slice 32 (length c) buf = c" and "page_ok buf"
proof -
  let ?h = "(header_new pid Overflow)\<lparr>hd_next_page_id := nxt, hd_num_slots := word_of_nat (length c)\<rparr>"
  have w: "page_ok (header_write_to ?h zero_page)" by simp
  have o: "page_ok (overflow_page pid nxt c)" using c by (rule page_ok_overflow_page)
  have "header_read_from (overflow_page pid nxt c) = ?h"
    using c by (simp add: overflow_page_def header_read_blit_body header_read_write page_consts)
  then have h: "header_read_from buf = ?h\<lparr>hd_checksum := compute_checksum crc (overflow_page pid nxt c)\<rparr>"
    using header_read_stamp [OF o] by (simp add: buf_def)
  have "unat (word_of_nat (length c) :: u16) = length c" using c by (intro u16_of_nat) simp
  then show "unat (hd_num_slots (header_read_from buf)) = length c"
    and "hd_next_page_id (header_read_from buf) = nxt" by (simp_all add: h)
  have "slice 32 (length c) (overflow_page pid nxt c) = c"
    using c w by (simp add: overflow_page_def slice_blit_same page_len page_consts)
  then show "slice 32 (length c) buf = c"
    using c o by (simp add: buf_def slice_stamp_body page_consts)
  show "page_ok buf" using o by (simp add: buf_def)
qed

abbreviation first_id :: "u32 list \<Rightarrow> u32" where
  "first_id pids \<equiv> (case pids of [] \<Rightarrow> 0 | q # _ \<Rightarrow> q)"

text \<open>The pages \<open>pids\<close> of a file form a chain that holds the chunks \<open>cs\<close>.\<close>

fun chain_at :: "(bytes \<Rightarrow> u32) \<Rightarrow> page_manager \<Rightarrow> u32 list \<Rightarrow> bytes list \<Rightarrow> bool" where
  "chain_at crc pm [] [] \<longleftrightarrow> True"
| "chain_at crc pm (pid # pids) (c # cs) \<longleftrightarrow>
     pid \<in> pm_used pm \<and> length c \<le> 8160
     \<and> pm_page pm pid = stamp_checksum crc (overflow_page pid (first_id pids) c)
     \<and> chain_at crc pm pids cs"
| "chain_at crc pm _ _ \<longleftrightarrow> False"

lemma read_chain:
  assumes "pm_ok crc pm" and "chain_at crc pm pids cs"
  shows "read_overflow_from crc pm res (first_id pids) = Some (Inr (res @ concat cs))"
  using assms(2)
proof (induction pids arbitrary: res cs)
  case Nil
  then have "cs = []" by (cases cs) simp_all
  then show ?case by (subst read_overflow_from.simps) simp
next
  case (Cons pid pids)
  then obtain c ds where cs: "cs = c # ds" by (cases cs) simp_all
  note c = Cons.prems [unfolded cs chain_at.simps]
  have nz: "pid \<noteq> 0" using c pm_okD(5) [OF assms(1)] by blast
  have r: "read_page crc pid pm = Inr (stamp_checksum crc (overflow_page pid (first_id pids) c))"
    using pm_device.rd_used [OF assms(1)] c by simp
  have len: "length c \<le> 8160" using c by simp
  note f = overflow_page_fields [OF len, of crc pid "first_id pids"]
  have "try_slice PAGE_HEADER_SIZE (PAGE_HEADER_SIZE + length c)
      (stamp_checksum crc (overflow_page pid (first_id pids) c)) = (Inr c :: bytes result)"
    using f(3) page_len [OF f(4)] len by (simp add: try_slice_def PAGE_HEADER_SIZE_def)
  then show ?case
    using Cons.IH [of ds "res @ c"] c nz r f(1,2)
    by (subst read_overflow_from.simps) (simp add: cs Let_def)
qed

lemma chain_of_pages:
  assumes "length pids = length cs" and "\<forall>c \<in> set cs. length c \<le> 8160" and "set pids \<subseteq> pm_used pm"
    and "\<forall>(pid, d) \<in> set (overflow_chain pids cs). pm_page pm pid = stamp_checksum crc d"
  shows "chain_at crc pm pids cs"
  using assms by (induction pids cs rule: overflow_chain.induct) auto

lemma fst_overflow_chain: "length pids = length cs \<Longrightarrow> map fst (overflow_chain pids cs) = pids"
  by (induction pids cs rule: overflow_chain.induct) auto

lemma overflow_chain_ok:
  "\<forall>c \<in> set cs. length c \<le> 8160 \<Longrightarrow> (pid, d) \<in> set (overflow_chain pids cs) \<Longrightarrow>
     pid \<in> set pids \<and> page_ok d"
  by (induction pids cs rule: overflow_chain.induct) (auto simp: page_ok_overflow_page)

lemma write_overflow_ok:
  assumes ok: "pm_ok crc pm" and ne: "data \<noteq> []"
    and room: "length (chunks PAGE_USABLE_SPACE data) \<le> pm_room pm"
  shows "\<exists>pm' pids. write_overflow crc data pm = (pm', Inr (first_id pids)) \<and> pm_ok crc pm'
    \<and> distinct pids \<and> pids \<noteq> [] \<and> set pids \<inter> pm_used pm = {} \<and> pm_used pm' = pm_used pm \<union> set pids
    \<and> chain_at crc pm' pids (chunks PAGE_USABLE_SPACE data)
    \<and> (\<forall>q \<in> pm_used pm. pm_page pm' q = pm_page pm q)"
proof -
  define cs where "cs = chunks PAGE_USABLE_SPACE data"
  have cs: "\<forall>c \<in> set cs. length c \<le> 8160" "cs \<noteq> []"
    using length_chunks [of _ PAGE_USABLE_SPACE data] ne
    by (auto simp: cs_def chunks_Nil_iff page_consts)
  from pm_device.alloc_many [OF ok room, folded cs_def] obtain pm1 pids where
    a: "repeat_op (length cs) (allocate_page crc) pm = (pm1, Inr pids)" "pm_ok crc pm1"
    "length pids = length cs" "distinct pids" "set pids \<inter> pm_used pm = {}"
    "pm_used pm1 = pm_used pm \<union> set pids" "\<forall>q \<in> pm_used pm. pm_page pm1 q = pm_page pm q" by blast
  have pre: "\<forall>(pid, d) \<in> set (overflow_chain pids cs). pid \<in> pm_used pm1 \<and> page_ok d"
    using overflow_chain_ok [OF cs(1)] a(6) by fastforce
  have fst: "map fst (overflow_chain pids cs) = pids" using a(3) by (rule fst_overflow_chain)
  have dist: "distinct (map fst (overflow_chain pids cs))" using a(4) by (simp add: fst)
  have ids: "fst ` set (overflow_chain pids cs) = set pids" by (simp flip: set_map add: fst)
  obtain pm' where w: "write_each (write_page crc) (overflow_chain pids cs) pm1 = (pm', Inr ())"
    "pm_ok crc pm'" "pm_used pm' = pm_used pm1"
    "\<forall>(pid, d) \<in> set (overflow_chain pids cs). pm_page pm' pid = stamp_checksum crc d"
    "\<forall>q \<in> pm_used pm1 - set pids. pm_page pm' q = pm_page pm1 q"
    using pm_device.write_many [OF a(2) pre dist] unfolding ids by blast
  have ne: "pids \<noteq> []" using a(3) cs(2) by auto
  have "write_overflow crc data pm = (pm', Inr (first_id pids))"
    using a(1) w(1) ne by (simp add: write_overflow_def Let_def cs_def [symmetric] bind_op_Inr split: list.split)
  moreover have "chain_at crc pm' pids cs"
    using chain_of_pages [OF a(3) cs(1) _ w(4)] w(3) a(6) by simp
  moreover have "\<forall>q \<in> pm_used pm. pm_page pm' q = pm_page pm q"
  proof
    fix q assume "q \<in> pm_used pm"
    moreover from this have "q \<in> pm_used pm1 - set pids" using a(5,6) by blast
    ultimately show "pm_page pm' q = pm_page pm q" using w(5) a(7) by simp
  qed
  ultimately show ?thesis using w(2,3) a(4-6) ne unfolding cs_def by blast
qed


lemma take_take_append: "take n (take n xs @ ys) = take n (xs @ ys)"
  by (cases "length xs \<le> n") simp_all

lemma chain_at_frame:
  assumes "chain_at crc pm pids cs"
    and "\<forall>q \<in> set pids. q \<in> pm_used pm' \<and> pm_page pm' q = pm_page pm q"
  shows "chain_at crc pm' pids cs"
  using assms by (induction crc pm pids cs rule: chain_at.induct) auto

lemma chain_at_used: "chain_at crc pm pids cs \<Longrightarrow> set pids \<subseteq> pm_used pm \<and> length pids = length cs"
  by (induction crc pm pids cs rule: chain_at.induct) auto

lemma free_keeps_used:
  assumes "pm_free pm' = take n (pm_free pm @ [pid])" and "pm_num_pages pm' = pm_num_pages pm"
  shows "pm_used pm - {pid} \<subseteq> pm_used pm'"
  using assms set_take_subset [of n "pm_free pm @ [pid]"] by (auto simp: pm_used_def)

lemma free_chain:
  assumes "pm_ok crc pm" and "chain_at crc pm pids cs" and "distinct pids"
  shows "\<exists>pm'. free_overflow crc (first_id pids) pm = Some (pm', Inr ()) \<and> pm_ok crc pm'
    \<and> pm_free pm' = take 2039 (pm_free pm @ pids)
    \<and> (\<forall>q \<in> pm_used pm - set pids. q \<in> pm_used pm' \<and> pm_page pm' q = pm_page pm q)"
  using assms
proof (induction pids arbitrary: pm cs)
  case Nil
  then show ?case
    using length_pm_free [of pm] by (subst free_overflow.simps) simp
next
  case (Cons pid pids)
  then obtain c ds where cs: "cs = c # ds" by (cases cs) simp_all
  note c = Cons.prems(2) [unfolded cs chain_at.simps]
  have u: "pid \<in> pm_used pm" and nz: "pid \<noteq> 0" using c pm_okD(5) [OF Cons.prems(1)] by auto
  have r: "read_page crc pid pm = Inr (stamp_checksum crc (overflow_page pid (first_id pids) c))"
    using pm_device.rd_used [OF Cons.prems(1) u] c by simp
  have nxt: "hd_next_page_id (header_read_from (stamp_checksum crc (overflow_page pid (first_id pids) c)))
      = first_id pids"
    using overflow_page_fields(2) c by simp
  from free_page_eq [OF Cons.prems(1) u] obtain pm1 where pm1: "free_page crc pid pm = (pm1, Inr ())"
    "pm_ok crc pm1" "pm_free pm1 = take 2039 (pm_free pm @ [pid])" "pm_num_pages pm1 = pm_num_pages pm"
    "\<forall>q \<in> pm_used pm - {pid}. pm_page pm1 q = pm_page pm q" by blast
  note keep = free_keeps_used [OF pm1(3,4)]
  have "set pids \<subseteq> pm_used pm - {pid}"
    using Cons.prems(3) chain_at_used [of crc pm pids ds] c by auto
  then have "\<forall>q \<in> set pids. q \<in> pm_used pm1 \<and> pm_page pm1 q = pm_page pm q"
    using keep pm1(5) by blast
  with c have "chain_at crc pm1 pids ds" using chain_at_frame [of crc pm pids ds pm1] by simp
  with Cons.IH [OF pm1(2), of ds] Cons.prems(3) obtain pm' where
    pm': "free_overflow crc (first_id pids) pm1 = Some (pm', Inr ())" "pm_ok crc pm'"
    "pm_free pm' = take 2039 (pm_free pm1 @ pids)"
    "\<forall>q \<in> pm_used pm1 - set pids. q \<in> pm_used pm' \<and> pm_page pm' q = pm_page pm1 q"
    unfolding distinct.simps by blast
  have "free_overflow crc (first_id (pid # pids)) pm = Some (pm', Inr ())"
    using nz r nxt pm1(1) pm'(1) by (subst free_overflow.simps) simp
  moreover have "pm_free pm' = take 2039 (pm_free pm @ pid # pids)"
    using pm'(3) pm1(3) take_take_append [of 2039 "pm_free pm @ [pid]" pids] by simp
  moreover have "q \<in> pm_used pm' \<and> pm_page pm' q = pm_page pm q"
    if "q \<in> pm_used pm - set (pid # pids)" for q
  proof -
    have "q \<in> pm_used pm - {pid}" "q \<notin> set pids" using that by simp_all
    moreover from this have "q \<in> pm_used pm1 - set pids" using keep by blast
    ultimately show ?thesis using pm'(4) pm1(5) by simp
  qed
  ultimately show ?case using pm'(2) by blast
qed

lemma pm_ok_new: "pm_ok crc (pm_open []) \<and> pm_used (pm_open []) = {} \<and> pm_free (pm_open []) = []
  \<and> pm_room (pm_open []) = 2 ^ 32 - 2"
proof -
  let ?p = "blit 32 (to_le (0 :: u32)) (empty_page 0 FreeList)"
  have e: "page_ok (empty_page 0 FreeList)" by (simp add: empty_page_def)
  then have p: "page_ok ?p" by (simp add: page_consts)
  have o: "pm_open [] = \<lparr>pm_file = ?p, pm_num_pages = 1\<rparr>"
    by (simp add: pm_open_def PAGE_HEADER_SIZE_def)
  have p0: "pm_page (pm_open []) 0 = ?p"
    using p by (simp add: o pm_page_def page_ok_def) (metis slice_0_length)
  have "slice 32 4 ?p = to_le (0 :: u32)" using e by (simp add: slice_blit_same page_len)
  then have f: "pm_free (pm_open []) = []"
    by (simp add: pm_free_def p0 read_free_entries_eq)
  have "hd_checksum (header_read_from ?p) = hd_checksum (header_read_from (empty_page 0 FreeList))"
    using e by (simp add: header_read_blit_body page_consts)
  then have "of_le (slice 28 4 ?p) = (0 :: u32)"
    by (simp add: empty_page_def header_read_write header_new_def) (simp add: header_read_from_def)
  then have "verify_checksum crc ?p 0 = Inr ()" by (simp add: verify_checksum_def)
  then have "pm_valid crc (pm_open [])"
    using p p0 by (auto simp: pm_valid_def o page_ok_def word_less_1)
  with f show ?thesis by (auto simp: pm_ok_def pm_used_def pm_room_def o word_less_1)
qed

section \<open>Properties\<close>

text \<open>
  C7. Page files. A page a user owns reads back as it was last written, with its checksum
  stamped; the write changes no other owned page, no allocation state and keeps the file
  well-formed.
\<close>

theorem page_read_after_write:
  assumes "pm_ok crc pm" and "pid \<in> pm_used pm" and "page_ok d"
  shows "case write_page crc pid d pm of (pm', r) \<Rightarrow>
    r = Inr () \<and> pm_ok crc pm' \<and> pm_used pm' = pm_used pm
    \<and> read_page crc pid pm' = Inr (stamp_checksum crc d)
    \<and> (\<forall>q \<in> pm_used pm. q \<noteq> pid \<longrightarrow> read_page crc q pm' = read_page crc q pm)"
  using pm_device.wr_used [OF assms] pm_device.rd_used [OF assms(1)] assms(2)
    pm_device.rd_used [of crc "fst (write_page crc pid d pm)"]
  by auto

theorem page_read_after_write_witness:
  "\<exists>pm. \<exists>pid \<in> pm_used pm. \<exists>pm'. write_page (\<lambda>_. 5) pid zero_page pm = (pm', Inr ())
     \<and> read_page (\<lambda>_. 5) pid pm' = Inr (stamp_checksum (\<lambda>_. 5) zero_page)"
proof -
  note n = pm_ok_new [of "\<lambda>_. 5"]
  obtain pm pid where "pm_ok (\<lambda>_. 5) pm" "pid \<in> pm_used pm"
    using allocate_page_eq [OF conjunct1 [OF n]] n by auto
  then show ?thesis
    using page_read_after_write [of "\<lambda>_. 5" pm pid zero_page] by (auto split: prod.splits)
qed

text \<open>
  C8. Allocation and freeing. An allocation returns a page, never page 0, that nobody owned,
  and changes no owned page. Freeing an owned page appends it to the free list if the list
  page has room for it; the 2040th entry does not fit and that page is lost to reuse. Either
  way all other owned pages stay owned and keep their contents.
\<close>

theorem allocation_correct:
  assumes "pm_ok crc pm"
  shows "(0 < pm_room pm \<longrightarrow>
      (\<exists>pm' pid. allocate_page crc pm = (pm', Inr pid) \<and> pm_ok crc pm' \<and> pid \<noteq> 0
        \<and> pid \<notin> pm_used pm \<and> pm_used pm' = insert pid (pm_used pm)
        \<and> (\<forall>q \<in> pm_used pm. read_page crc q pm' = read_page crc q pm)))
    \<and> (\<forall>pid \<in> pm_used pm.
      \<exists>pm'. free_page crc pid pm = (pm', Inr ()) \<and> pm_ok crc pm'
        \<and> pm_free pm' = take free_list_capacity (pm_free pm @ [pid])
        \<and> (\<forall>q \<in> pm_used pm - {pid}. q \<in> pm_used pm' \<and> read_page crc q pm' = read_page crc q pm))"
proof (intro conjI impI ballI)
  assume "0 < pm_room pm"
  from pm_device.alloc_new [OF assms this] obtain pm' pid where
    "allocate_page crc pm = (pm', Inr pid)" "pm_ok crc pm'" "pid \<notin> pm_used pm"
    "pm_used pm' = insert pid (pm_used pm)" "\<forall>q \<in> pm_used pm. pm_page pm' q = pm_page pm q" by blast
  moreover from this have "pid \<noteq> 0" using pm_device.used_nonzero [of crc pm'] by auto
  ultimately show "\<exists>pm' pid. allocate_page crc pm = (pm', Inr pid) \<and> pm_ok crc pm' \<and> pid \<noteq> 0
        \<and> pid \<notin> pm_used pm \<and> pm_used pm' = insert pid (pm_used pm)
        \<and> (\<forall>q \<in> pm_used pm. read_page crc q pm' = read_page crc q pm)"
    using pm_device.rd_used [OF assms] pm_device.rd_used [of crc pm'] by auto
next
  fix pid assume "pid \<in> pm_used pm"
  from free_page_eq [OF assms this] obtain pm' where
    pm': "free_page crc pid pm = (pm', Inr ())" "pm_ok crc pm'"
    "pm_free pm' = take 2039 (pm_free pm @ [pid])" "pm_num_pages pm' = pm_num_pages pm"
    "\<forall>q \<in> pm_used pm - {pid}. pm_page pm' q = pm_page pm q" by blast
  have "q \<in> pm_used pm' \<and> read_page crc q pm' = read_page crc q pm" if "q \<in> pm_used pm - {pid}" for q
    using free_keeps_used [OF pm'(3,4)] that pm'(5) pm_device.rd_used [OF assms, of q]
      pm_device.rd_used [OF pm'(2), of q] by auto
  with pm' show "\<exists>pm'. free_page crc pid pm = (pm', Inr ()) \<and> pm_ok crc pm'
        \<and> pm_free pm' = take free_list_capacity (pm_free pm @ [pid])
        \<and> (\<forall>q \<in> pm_used pm - {pid}. q \<in> pm_used pm' \<and> read_page crc q pm' = read_page crc q pm)"
    by (auto simp: free_list_capacity_def page_consts)
qed

theorem allocation_correct_witness:
  "\<exists>pm' pid. allocate_page (\<lambda>_. 5) (pm_open []) = (pm', Inr pid) \<and> pid \<noteq> 0"
  using allocation_correct [of "\<lambda>_. 5" "pm_open []"] pm_ok_new [of "\<lambda>_. 5"] by auto

text \<open>
  C9. Overflow chains. Writing a non-empty tuple of any size allocates a chain of fresh pages
  and touches no page owned before; reading the chain from the returned page ends and gives
  back the tuple, and freeing it ends and returns exactly its pages to the free list (as far
  as the list page holds them), with every other owned page intact.
\<close>

theorem overflow_chain_correct:
  assumes "pm_ok crc pm" and "data \<noteq> []"
    and "length (chunks PAGE_USABLE_SPACE data) \<le> pm_room pm"
  shows "\<exists>pm' pids. write_overflow crc data pm = (pm', Inr (hd pids)) \<and> pm_ok crc pm'
    \<and> distinct pids \<and> length pids = length (chunks PAGE_USABLE_SPACE data)
    \<and> set pids \<inter> pm_used pm = {} \<and> pm_used pm' = pm_used pm \<union> set pids
    \<and> (\<forall>q \<in> pm_used pm. read_page crc q pm' = read_page crc q pm)
    \<and> read_overflow crc (hd pids) pm' = Some (Inr data)
    \<and> (\<exists>pm''. free_overflow crc (hd pids) pm' = Some (pm'', Inr ()) \<and> pm_ok crc pm''
        \<and> pm_free pm'' = take free_list_capacity (pm_free pm' @ pids)
        \<and> (\<forall>q \<in> pm_used pm. q \<in> pm_used pm'' \<and> read_page crc q pm'' = read_page crc q pm))"
proof -
  from write_overflow_ok [OF assms] obtain pm' pids where
    w: "write_overflow crc data pm = (pm', Inr (first_id pids))" "pm_ok crc pm'"
    "distinct pids" "pids \<noteq> []" "set pids \<inter> pm_used pm = {}" "pm_used pm' = pm_used pm \<union> set pids"
    "chain_at crc pm' pids (chunks PAGE_USABLE_SPACE data)"
    "\<forall>q \<in> pm_used pm. pm_page pm' q = pm_page pm q" by blast
  have hd: "first_id pids = hd pids" using w(4) by (cases pids) simp_all
  have len: "length pids = length (chunks PAGE_USABLE_SPACE data)"
    using chain_at_used [OF w(7)] by simp
  have rd: "read_overflow crc (hd pids) pm' = Some (Inr data)"
    using read_chain [OF w(2,7), of "[]"] hd concat_chunks [of PAGE_USABLE_SPACE data]
    by (simp add: read_overflow_def page_consts)
  have fr: "read_page crc q pm' = read_page crc q pm" if "q \<in> pm_used pm" for q
    using that w(6,8) pm_device.rd_used [OF w(2), of q] pm_device.rd_used [OF assms(1), of q] by simp
  from free_chain [OF w(2,7,3)] obtain pm'' where
    f: "free_overflow crc (first_id pids) pm' = Some (pm'', Inr ())" "pm_ok crc pm''"
    "pm_free pm'' = take 2039 (pm_free pm' @ pids)"
    "\<forall>q \<in> pm_used pm' - set pids. q \<in> pm_used pm'' \<and> pm_page pm'' q = pm_page pm' q" by blast
  have "q \<in> pm_used pm'' \<and> read_page crc q pm'' = read_page crc q pm" if "q \<in> pm_used pm" for q
  proof -
    have "q \<in> pm_used pm' - set pids" using that w(5,6) by blast
    then show ?thesis
      using f(4) fr [OF that] pm_device.rd_used [OF f(2), of q] pm_device.rd_used [OF w(2), of q] by auto
  qed
  then show ?thesis
    using w f hd len rd fr by (intro exI [of _ pm'] exI [of _ pids])
      (auto simp: free_list_capacity_def page_consts)
qed

theorem overflow_chain_correct_witness:
  "\<exists>pm' pid. write_overflow (\<lambda>_. 5) (replicate 8161 7) (pm_open []) = (pm', Inr pid)
     \<and> read_overflow (\<lambda>_. 5) pid pm' = Some (Inr (replicate 8161 7))"
proof -
  have "length (chunks PAGE_USABLE_SPACE (replicate 8161 (7 :: byte))) \<le> 2"
    by (simp add: page_consts chunks.simps)
  then show ?thesis
    using overflow_chain_correct [of "\<lambda>_. 5" "pm_open []" "replicate 8161 7"] pm_ok_new [of "\<lambda>_. 5"]
    by auto
qed

end
