(* ===== verification/Wal_Recovery.thy ===== *)
theory Wal_Recovery
  imports Wal_Log Page_Store
begin

text \<open>
  Crash recovery, \<^verbatim>\<open>src/src/wal/recovery.rs\<close>: the pages written by committed transactions after the
  last checkpoint are redone in log order, those of the other transactions are undone in reverse
  order. The two page files are a pair of page managers; bit 31 of a page id selects the index
  file. \<open>hyph\<close> prints a node id (\<^verbatim>\<open>Uuid\<close>), as in the applied set.
\<close>

definition INDEX_PAGE_FLAG :: u32 where
  "INDEX_PAGE_FLAG = 0x80000000"

record recovery_files =
  rf_data :: page_manager
  rf_index :: page_manager

text \<open>The \<^verbatim>\<open>&mut PageManager\<close> returned by \<^verbatim>\<open>select_pm\<close>, as the way an operation on it acts on the pair.\<close>

definition select_pm :: "u32 \<Rightarrow> (page_manager, 'a) op \<Rightarrow> (recovery_files, 'a) op" where
  "select_pm page_id f s =
     (if page_id AND 0x80000000 \<noteq> 0
      then (let (pm, r) = f (rf_index s) in (s\<lparr>rf_index := pm\<rparr>, r))
      else (let (pm, r) = f (rf_data s) in (s\<lparr>rf_data := pm\<rparr>, r)))"

definition write_if_present :: "(bytes \<Rightarrow> u32) \<Rightarrow> u32 \<Rightarrow> page \<Rightarrow> (page_manager, unit) op" where
  "write_if_present crc real_id page_buf pm =
     (if real_id < pm_num_pages pm then write_page crc real_id page_buf pm else (pm, Inr ()))"

definition apply_after_image :: "(bytes \<Rightarrow> u32) \<Rightarrow> wal_record \<Rightarrow> (recovery_files, unit) op" where
  "apply_after_image crc r s =
     (if length (w_data r) < PAGE_SIZE * 2 then (s, Inr ())
      else
        (let after = take PAGE_SIZE (w_data r);
             real_id = w_page_id r AND 0x7FFFFFFF
         in select_pm (w_page_id r) (write_if_present crc real_id after) s))"

definition apply_before_image :: "(bytes \<Rightarrow> u32) \<Rightarrow> wal_record \<Rightarrow> (recovery_files, unit) op" where
  "apply_before_image crc r s =
     (if length (w_data r) < PAGE_SIZE * 2 then (s, Inr ())
      else
        (let before = slice PAGE_SIZE PAGE_SIZE (w_data r);
             real_id = w_page_id r AND 0x7FFFFFFF
         in select_pm (w_page_id r) (write_if_present crc real_id before) s))"

record recovery_result =
  rr_redo_count :: nat
  rr_undo_count :: nat
  rr_committed_txs :: nat
  rr_records_processed :: nat
  rr_skipped_duplicate :: nat

text \<open>
  The redo loop carries the files, the applied set, if there is one, and its two counters; the
  undo loop the files and its counter.
\<close>

type_synonym redo_state = "recovery_files \<times> applied_set option \<times> nat \<times> nat"

fun redo_loop ::
  "(bytes \<Rightarrow> u32) \<Rightarrow> (u128 \<Rightarrow> bytes) \<Rightarrow> u64 list \<Rightarrow> wal_record list \<Rightarrow> (redo_state, unit) op" where
  "redo_loop crc hyph committed [] st = (st, Inr ())"
| "redo_loop crc hyph committed (r # rs) (s, applied, redone, skipped) =
     (if w_op_type r = PageWrite \<and> w_tx_id r \<in> set committed then
        (let (applied', dup) =
           (case applied of
              None \<Rightarrow> (None, False)
            | Some aset \<Rightarrow>
                (let (aset', outcome) = observe hyph (w_origin r) (w_hlc r) aset
                 in (Some aset', outcome = AlreadyApplied)))
         in if dup then redo_loop crc hyph committed rs (s, applied', redone, Suc skipped)
            else
              (case apply_after_image crc r s of
                 (s', Inl e) \<Rightarrow> ((s', applied', redone, skipped), Inl e)
               | (s', Inr _) \<Rightarrow> redo_loop crc hyph committed rs (s', applied', Suc redone, skipped)))
      else redo_loop crc hyph committed rs (s, applied, redone, skipped))"

fun undo_loop ::
  "(bytes \<Rightarrow> u32) \<Rightarrow> u64 list \<Rightarrow> wal_record list \<Rightarrow> (recovery_files \<times> nat, unit) op" where
  "undo_loop crc committed [] st = (st, Inr ())"
| "undo_loop crc committed (r # rs) (s, undone) =
     (if w_op_type r = PageWrite \<and> w_tx_id r \<notin> set committed then
        (case apply_before_image crc r s of
           (s', Inl e) \<Rightarrow> ((s', undone), Inl e)
         | (s', Inr _) \<Rightarrow> undo_loop crc committed rs (s', Suc undone))
      else undo_loop crc committed rs (s, undone))"

definition checkpoint_lsn :: "wal_record list \<Rightarrow> u64" where
  "checkpoint_lsn records = foldl max 0 (map w_lsn (filter (\<lambda>r. w_op_type r = Checkpoint) records))"

definition active_records :: "wal_record list \<Rightarrow> wal_record list" where
  "active_records records = filter (\<lambda>r. w_lsn r > checkpoint_lsn records) records"

definition committed_txs :: "wal_record list \<Rightarrow> u64 list" where
  "committed_txs active = remdups (map w_tx_id (filter (\<lambda>r. w_op_type r = Commit) active))"

definition recover_with_applied_set ::
  "(bytes \<Rightarrow> u32) \<Rightarrow> (u128 \<Rightarrow> bytes) \<Rightarrow> wal_record list
     \<Rightarrow> (recovery_files \<times> applied_set option, recovery_result) op" where
  "recover_with_applied_set crc hyph records st =
     (let (s, applied) = st in
      if records = [] then (st, Inr \<lparr>rr_redo_count = 0, rr_undo_count = 0, rr_committed_txs = 0,
          rr_records_processed = 0, rr_skipped_duplicate = 0\<rparr>)
      else
        (let active = active_records records;
             committed = committed_txs active
         in case redo_loop crc hyph committed active (s, applied, 0, 0) of
              ((s, applied, _, _), Inl e) \<Rightarrow> ((s, applied), Inl e)
            | ((s, applied, redone, skipped), Inr _) \<Rightarrow>
                (case undo_loop crc committed (rev active) (s, 0) of
                   ((s, _), Inl e) \<Rightarrow> ((s, applied), Inl e)
                 | ((s, undone), Inr _) \<Rightarrow>
                     ((s, applied), Inr \<lparr>rr_redo_count = redone, rr_undo_count = undone,
                        rr_committed_txs = length committed,
                        rr_records_processed = length active,
                        rr_skipped_duplicate = skipped\<rparr>))))"

definition recover ::
  "(bytes \<Rightarrow> u32) \<Rightarrow> (u128 \<Rightarrow> bytes) \<Rightarrow> wal_record list \<Rightarrow> (recovery_files, recovery_result) op" where
  "recover crc hyph records s =
     (let ((s, _), r) = recover_with_applied_set crc hyph records (s, None) in (s, r))"

section \<open>What recovery does to each page\<close>

text \<open>
  The pages of the two files under the ids the log uses, and the ids that name a page. Every id
  names one page of one file.
\<close>

definition rec_page :: "recovery_files \<Rightarrow> u32 \<Rightarrow> page" where
  "rec_page s pid =
     pm_page (if pid AND 0x80000000 \<noteq> 0 then rf_index s else rf_data s) (pid AND 0x7FFFFFFF)"

definition rec_present :: "recovery_files \<Rightarrow> u32 \<Rightarrow> bool" where
  "rec_present s pid \<longleftrightarrow>
     pid AND 0x7FFFFFFF < pm_num_pages (if pid AND 0x80000000 \<noteq> 0 then rf_index s else rf_data s)"

definition rec_valid :: "(bytes \<Rightarrow> u32) \<Rightarrow> recovery_files \<Rightarrow> bool" where
  "rec_valid crc s \<longleftrightarrow> pm_valid crc (rf_data s) \<and> pm_valid crc (rf_index s)"

definition same_files :: "recovery_files \<Rightarrow> recovery_files \<Rightarrow> bool" where
  "same_files s s' \<longleftrightarrow> pm_num_pages (rf_data s') = pm_num_pages (rf_data s)
     \<and> pm_num_pages (rf_index s') = pm_num_pages (rf_index s)"

lemma same_files_present: "same_files s s' \<Longrightarrow> rec_present s' pid = rec_present s pid"
  by (simp add: same_files_def rec_present_def)

lemma page_id_parts:
  assumes "(p :: u32) AND 0x7FFFFFFF = q AND 0x7FFFFFFF"
    and "(p AND 0x80000000 \<noteq> 0) = (q AND 0x80000000 \<noteq> 0)"
  shows "p = q"
proof (rule bit_word_eqI)
  fix n assume n: "n < LENGTH(32)"
  have flag: "(x AND 0x80000000 \<noteq> 0) = bit x 31" for x :: u32
    using and_exp_eq_0_iff_not_bit [of x 31] by simp
  have mask: "(0x7FFFFFFF :: u32) = mask 31" by (simp add: mask_eq_exp_minus_1)
  show "bit p n = bit q n"
  proof (cases "n = 31")
    case True
    then show ?thesis using assms(2) by (simp only: flag)
  next
    case False
    have "bit (p AND mask 31) n = bit (q AND mask 31) n" using assms(1) by (simp only: mask)
    then show ?thesis using False n by (simp add: bit_and_iff bit_mask_iff)
  qed
qed

text \<open>Writing an image changes the page of its id, if the file has it, and nothing else.\<close>

lemma write_image:
  assumes "rec_valid crc s" and "page_ok d"
  shows "\<exists>s'. select_pm pid (write_if_present crc (pid AND 0x7FFFFFFF) d) s = (s', Inr ())
    \<and> rec_valid crc s' \<and> same_files s s'
    \<and> (\<forall>q. rec_present s q \<longrightarrow> rec_page s' q = (if q = pid then stamp_checksum crc d else rec_page s q))"
proof -
  define pm where "pm = (if pid AND 0x80000000 \<noteq> 0 then rf_index s else rf_data s)"
  have v: "pm_valid crc pm" using assms(1) by (simp add: pm_def rec_valid_def)
  obtain pm' where w: "write_if_present crc (pid AND 0x7FFFFFFF) d pm = (pm', Inr ())"
    and v': "pm_valid crc pm'" "pm_num_pages pm' = pm_num_pages pm"
    and pages: "\<forall>q < pm_num_pages pm. pm_page pm' q =
       (if q = pid AND 0x7FFFFFFF then stamp_checksum crc d else pm_page pm q)"
  proof (cases "pid AND 0x7FFFFFFF < pm_num_pages pm")
    case True
    then show thesis using write_page_eq [OF v True assms(2)] that by (auto simp: write_if_present_def)
  next
    case False
    then show thesis using v that [of pm] by (auto simp: write_if_present_def)
  qed
  define s' where
    "s' = (if pid AND 0x80000000 \<noteq> 0 then s\<lparr>rf_index := pm'\<rparr> else s\<lparr>rf_data := pm'\<rparr>)"
  have "select_pm pid (write_if_present crc (pid AND 0x7FFFFFFF) d) s = (s', Inr ())"
    using w by (auto simp: select_pm_def pm_def s'_def split: if_splits)
  moreover have "rec_valid crc s'" using assms(1) v' by (simp add: rec_valid_def s'_def)
  moreover have "same_files s s'" using v'(2) by (simp add: same_files_def s'_def pm_def)
  moreover have "rec_page s' q = (if q = pid then stamp_checksum crc d else rec_page s q)"
    if "rec_present s q" for q
    using that pages page_id_parts [of q pid]
    by (cases "(q AND 0x80000000 \<noteq> 0) = (pid AND 0x80000000 \<noteq> 0)")
      (auto simp: rec_page_def rec_present_def s'_def pm_def)
  ultimately show ?thesis by blast
qed


definition after_of :: "wal_record \<Rightarrow> page" where
  "after_of r = take PAGE_SIZE (w_data r)"

definition before_of :: "wal_record \<Rightarrow> page" where
  "before_of r = slice PAGE_SIZE PAGE_SIZE (w_data r)"

text \<open>The records that carry two page images for the page \<open>pid\<close>.\<close>

definition writes_page :: "u32 \<Rightarrow> wal_record \<Rightarrow> bool" where
  "writes_page pid r \<longleftrightarrow>
     w_op_type r = PageWrite \<and> w_page_id r = pid \<and> PAGE_SIZE * 2 \<le> length (w_data r)"

lemma apply_after_image_page:
  assumes "rec_valid crc s" and "w_op_type r = PageWrite"
  shows "\<exists>s'. apply_after_image crc r s = (s', Inr ()) \<and> rec_valid crc s' \<and> same_files s s'
    \<and> (\<forall>q. rec_present s q \<longrightarrow>
          rec_page s' q = (if writes_page q r then stamp_checksum crc (after_of r) else rec_page s q))"
proof (cases "length (w_data r) < PAGE_SIZE * 2")
  case True
  then show ?thesis
    using assms by (simp add: apply_after_image_def writes_page_def same_files_def)
next
  case False
  then have "page_ok (after_of r)" by (simp add: after_of_def page_ok_def)
  from write_image [OF assms(1) this, of "w_page_id r"] False assms(2) show ?thesis
    by (auto simp: apply_after_image_def writes_page_def after_of_def Let_def)
qed

lemma apply_before_image_page:
  assumes "rec_valid crc s" and "w_op_type r = PageWrite"
  shows "\<exists>s'. apply_before_image crc r s = (s', Inr ()) \<and> rec_valid crc s' \<and> same_files s s'
    \<and> (\<forall>q. rec_present s q \<longrightarrow>
          rec_page s' q = (if writes_page q r then stamp_checksum crc (before_of r) else rec_page s q))"
proof (cases "length (w_data r) < PAGE_SIZE * 2")
  case True
  then show ?thesis
    using assms by (simp add: apply_before_image_def writes_page_def same_files_def)
next
  case False
  then have "page_ok (before_of r)" by (simp add: before_of_def page_ok_def slice_def)
  from write_image [OF assms(1) this, of "w_page_id r"] False assms(2) show ?thesis
    by (auto simp: apply_before_image_def writes_page_def before_of_def Let_def)
qed

text \<open>The page a list of images leaves: the last of them, or what was there.\<close>

definition last_image :: "(bytes \<Rightarrow> u32) \<Rightarrow> page list \<Rightarrow> page \<Rightarrow> page" where
  "last_image crc imgs p = (if imgs = [] then p else stamp_checksum crc (last imgs))"

lemma last_image_Cons: "last_image crc (d # imgs) p = last_image crc imgs (stamp_checksum crc d)"
  by (simp add: last_image_def)

lemma same_files_trans: "same_files a b \<Longrightarrow> same_files b c \<Longrightarrow> same_files a c"
  by (simp add: same_files_def)

lemma redo_loop_pages:
  assumes "rec_valid crc s"
  shows "\<exists>s'. redo_loop crc hyph committed rs (s, None, n, k) = ((s', None,
        n + length (filter (\<lambda>r. w_op_type r = PageWrite \<and> w_tx_id r \<in> set committed) rs), k), Inr ())
    \<and> rec_valid crc s' \<and> same_files s s'
    \<and> (\<forall>q. rec_present s q \<longrightarrow> rec_page s' q =
         last_image crc (map after_of (filter (\<lambda>r. writes_page q r \<and> w_tx_id r \<in> set committed) rs))
           (rec_page s q))"
  using assms
proof (induction rs arbitrary: s n)
  case Nil
  then show ?case by (simp add: same_files_def last_image_def)
next
  case (Cons r rs)
  show ?case
  proof (cases "w_op_type r = PageWrite \<and> w_tx_id r \<in> set committed")
    case True
    from apply_after_image_page [OF Cons.prems] True obtain s1 where
      s1: "apply_after_image crc r s = (s1, Inr ())" "rec_valid crc s1" "same_files s s1"
      and pages: "\<And>q. rec_present s q \<Longrightarrow>
        rec_page s1 q = (if writes_page q r then stamp_checksum crc (after_of r) else rec_page s q)"
      by blast
    from Cons.IH [OF s1(2), of "Suc n"] True s1 pages show ?thesis
      by (auto simp: last_image_Cons same_files_present dest: same_files_trans)
  next
    case False
    then have "\<not> (writes_page q r \<and> w_tx_id r \<in> set committed)" for q by (auto simp: writes_page_def)
    with Cons.IH [OF Cons.prems, of n] False show ?thesis by auto
  qed
qed

lemma undo_loop_pages:
  assumes "rec_valid crc s"
  shows "\<exists>s'. undo_loop crc committed rs (s, n) = ((s',
        n + length (filter (\<lambda>r. w_op_type r = PageWrite \<and> w_tx_id r \<notin> set committed) rs)), Inr ())
    \<and> rec_valid crc s' \<and> same_files s s'
    \<and> (\<forall>q. rec_present s q \<longrightarrow> rec_page s' q =
         last_image crc (map before_of (filter (\<lambda>r. writes_page q r \<and> w_tx_id r \<notin> set committed) rs))
           (rec_page s q))"
  using assms
proof (induction rs arbitrary: s n)
  case Nil
  then show ?case by (simp add: same_files_def last_image_def)
next
  case (Cons r rs)
  show ?case
  proof (cases "w_op_type r = PageWrite \<and> w_tx_id r \<notin> set committed")
    case True
    from apply_before_image_page [OF Cons.prems] True obtain s1 where
      s1: "apply_before_image crc r s = (s1, Inr ())" "rec_valid crc s1" "same_files s s1"
      and pages: "\<And>q. rec_present s q \<Longrightarrow>
        rec_page s1 q = (if writes_page q r then stamp_checksum crc (before_of r) else rec_page s q)"
      by blast
    from Cons.IH [OF s1(2), of "Suc n"] True s1 pages show ?thesis
      by (auto simp: last_image_Cons same_files_present dest: same_files_trans)
  next
    case False
    then have "\<not> (writes_page q r \<and> w_tx_id r \<notin> set committed)" for q by (auto simp: writes_page_def)
    with Cons.IH [OF Cons.prems, of n] False show ?thesis by auto
  qed
qed

section \<open>Histories of page writes\<close>

text \<open>
  A log that follows the pages: each page write carries the content the page had as its before
  image. \<open>committed_pages\<close> is the state the committed transactions alone produce, and
  \<open>strict_log\<close> says that no committed write follows an unfinished one on the same page, which
  holds when a transaction ends before another one writes.
\<close>

fun follows_pages :: "(u32 \<Rightarrow> page) \<Rightarrow> wal_record list \<Rightarrow> bool" where
  "follows_pages M [] = True"
| "follows_pages M (r # rs) =
     (if w_op_type r = PageWrite
      then PAGE_SIZE * 2 \<le> length (w_data r) \<and> before_of r = M (w_page_id r)
        \<and> follows_pages (M(w_page_id r := after_of r)) rs
      else follows_pages M rs)"

fun committed_pages :: "u64 list \<Rightarrow> (u32 \<Rightarrow> page) \<Rightarrow> wal_record list \<Rightarrow> (u32 \<Rightarrow> page)" where
  "committed_pages committed M [] = M"
| "committed_pages committed M (r # rs) =
     (if w_op_type r = PageWrite \<and> w_tx_id r \<in> set committed
      then committed_pages committed (M(w_page_id r := after_of r)) rs
      else committed_pages committed M rs)"

definition strict_log :: "u64 list \<Rightarrow> wal_record list \<Rightarrow> bool" where
  "strict_log committed = sorted_wrt (\<lambda>r r'. w_op_type r = PageWrite \<and> w_op_type r' = PageWrite
     \<and> w_page_id r = w_page_id r' \<and> w_tx_id r' \<in> set committed \<longrightarrow> w_tx_id r \<in> set committed)"

abbreviation unfinished_writes :: "u64 list \<Rightarrow> u32 \<Rightarrow> wal_record list \<Rightarrow> wal_record list" where
  "unfinished_writes committed q \<equiv> filter (\<lambda>r. writes_page q r \<and> w_tx_id r \<notin> set committed)"

abbreviation finished_writes :: "u64 list \<Rightarrow> u32 \<Rightarrow> wal_record list \<Rightarrow> wal_record list" where
  "finished_writes committed q \<equiv> filter (\<lambda>r. writes_page q r \<and> w_tx_id r \<in> set committed)"

lemma committed_pages_untouched:
  "\<forall>r \<in> set rs. w_op_type r = PageWrite \<longrightarrow> w_tx_id r \<in> set committed \<longrightarrow> w_page_id r \<noteq> q
     \<Longrightarrow> committed_pages committed M rs q = M q"
  by (induction rs arbitrary: M) auto

lemma committed_pages_eq:
  assumes "follows_pages M rs" and "strict_log committed rs" and "N q = M q"
  shows "committed_pages committed N rs q =
    (if unfinished_writes committed q rs \<noteq> [] then before_of (hd (unfinished_writes committed q rs))
     else if finished_writes committed q rs \<noteq> [] then after_of (last (finished_writes committed q rs))
     else M q)"
  using assms
proof (induction rs arbitrary: M N)
  case (Cons r rs)
  have st: "strict_log committed rs" using Cons.prems(2) by (simp add: strict_log_def)
  consider (other) "w_op_type r \<noteq> PageWrite"
    | (fin) "w_op_type r = PageWrite" "w_tx_id r \<in> set committed"
    | (unf) "w_op_type r = PageWrite" "w_tx_id r \<notin> set committed" "w_page_id r \<noteq> q"
    | (first) "w_op_type r = PageWrite" "w_tx_id r \<notin> set committed" "w_page_id r = q" by blast
  then show ?case
  proof cases
    case other
    then show ?thesis using Cons.IH [OF _ st, of M N] Cons.prems by (simp add: writes_page_def)
  next
    case fin
    define M' N' where "M' = M(w_page_id r := after_of r)" and "N' = N(w_page_id r := after_of r)"
    have f: "follows_pages M' rs" "PAGE_SIZE * 2 \<le> length (w_data r)"
      using Cons.prems(1) fin by (auto simp: M'_def)
    have e: "N' q = M' q" "M' q = (if w_page_id r = q then after_of r else M q)"
      using Cons.prems(3) by (auto simp: M'_def N'_def)
    have "committed_pages committed N (r # rs) q = committed_pages committed N' rs q"
      using fin by (simp add: N'_def)
    then show ?thesis using Cons.IH [OF f(1) st, of N', OF e(1)] fin f(2) e(2) by (simp add: writes_page_def)
  next
    case unf
    then have f: "follows_pages (M(w_page_id r := after_of r)) rs" using Cons.prems(1) by simp
    have e: "N q = (M(w_page_id r := after_of r)) q" using Cons.prems(3) unf(3) by simp
    show ?thesis using Cons.IH [OF f st, of N, OF e] unf by (simp add: writes_page_def)
  next
    case first
    then have "committed_pages committed N rs q = N q"
      using Cons.prems(2) by (intro committed_pages_untouched) (auto simp: strict_log_def)
    then show ?thesis using first Cons.prems by (simp add: writes_page_def)
  qed
qed simp

lemma last_images:
  "last_image crc (map before_of (rev us)) (last_image crc (map after_of fs) p) =
    (if us \<noteq> [] then stamp_checksum crc (before_of (hd us))
     else if fs \<noteq> [] then stamp_checksum crc (after_of (last fs)) else p)"
  by (simp add: last_image_def last_map last_rev)

lemma recover_pages:
  assumes "rec_valid crc s"
  shows "\<exists>s' res. recover crc hyph records s = (s', Inr res) \<and> rec_valid crc s' \<and> same_files s s'
    \<and> (\<forall>q. rec_present s q \<longrightarrow> rec_page s' q =
        last_image crc (map before_of (rev (unfinished_writes (committed_txs (active_records records)) q
            (active_records records))))
          (last_image crc (map after_of (finished_writes (committed_txs (active_records records)) q
            (active_records records))) (rec_page s q)))"
proof (cases "records = []")
  case True
  then show ?thesis
    using assms by (simp add: recover_def recover_with_applied_set_def active_records_def
        same_files_def last_image_def)
next
  case False
  define act com where "act = active_records records" and "com = committed_txs act"
  from redo_loop_pages [OF assms, of hyph com act 0 0] obtain s1 n1 where
    s1: "redo_loop crc hyph com act (s, None, 0, 0) = ((s1, None, n1, 0), Inr ())"
      "rec_valid crc s1" "same_files s s1"
    and p1: "\<And>q. rec_present s q \<Longrightarrow> rec_page s1 q =
      last_image crc (map after_of (finished_writes com q act)) (rec_page s q)" by blast
  from undo_loop_pages [OF s1(2), of com "rev act" 0] obtain s2 n2 where
    s2: "undo_loop crc com (rev act) (s1, 0) = ((s2, n2), Inr ())" "rec_valid crc s2" "same_files s1 s2"
    and p2: "\<And>q. rec_present s1 q \<Longrightarrow> rec_page s2 q =
      last_image crc (map before_of (unfinished_writes com q (rev act))) (rec_page s1 q)" by blast
  have "\<exists>res. recover crc hyph records s = (s2, Inr res)"
    using False s1(1) s2(1)
    by (simp add: recover_def recover_with_applied_set_def Let_def act_def [symmetric] com_def [symmetric])
  then show ?thesis
    using s2(2,3) s1(3) p1 p2
    by (fastforce simp: act_def com_def rev_filter same_files_present intro: same_files_trans)
qed

section \<open>Properties\<close>

text \<open>
  C18. What recovery does to every page, for any log. It always succeeds and keeps both files
  valid and of the same size. A page that an unfinished transaction wrote after the last
  checkpoint gets the before image of the first such write, even if a later transaction that
  wrote it has committed; any other page that was written gets the after image of its last
  committed write; no other page changes.
\<close>

theorem recovery_page_contents:
  assumes "rec_valid crc s" and "act = active_records records" and "com = committed_txs act"
  shows "\<exists>s' res. recover crc hyph records s = (s', Inr res) \<and> rec_valid crc s' \<and> same_files s s'
    \<and> (\<forall>q. rec_present s q \<longrightarrow> rec_page s' q =
        (if unfinished_writes com q act \<noteq> []
         then stamp_checksum crc (before_of (hd (unfinished_writes com q act)))
         else if finished_writes com q act \<noteq> []
         then stamp_checksum crc (after_of (last (finished_writes com q act)))
         else rec_page s q))"
  using recover_pages [OF assms(1), of hyph records] by (simp only: assms(2,3) last_images)


text \<open>Two new files, a committed transaction on a page of each, and an unfinished one.\<close>

abbreviation new_files :: recovery_files where
  "new_files \<equiv> \<lparr>rf_data = pm_open [], rf_index = pm_open []\<rparr>"

definition sample_log :: "wal_record list" where
  "sample_log =
     (let w = (\<lambda>lsn tx pid before after. wal_page_write (\<lambda>_. 7) lsn tx 1 lsn [] pid
                (replicate PAGE_SIZE before) (replicate PAGE_SIZE after))
      in [w 1 1 0 0 5, w 2 1 INDEX_PAGE_FLAG 0 6, wal_commit (\<lambda>_. 7) 3 1 1 3 [], w 4 2 0 5 8])"

lemma new_files_valid: "rec_valid crc new_files"
  using pm_ok_new [of crc] by (simp add: rec_valid_def pm_ok_def)

lemma new_files_present: "rec_present new_files q \<longleftrightarrow> q = 0 \<or> q = INDEX_PAGE_FLAG"
proof -
  have "q AND 0x7FFFFFFF = 0 \<Longrightarrow> q = 0 \<or> q = INDEX_PAGE_FLAG"
    using page_id_parts [of q 0] page_id_parts [of q INDEX_PAGE_FLAG] by (auto simp: INDEX_PAGE_FLAG_def)
  moreover have "x < 1 \<longleftrightarrow> x = 0" for x :: u32 by (simp add: word_less_nat_alt unat_eq_0)
  ultimately show ?thesis
    by (auto simp: rec_present_def pm_open_def INDEX_PAGE_FLAG_def)
qed

lemma sample_log_images:
  "before_of (wal_page_write crc lsn tx org h vc pid (replicate PAGE_SIZE b) (replicate PAGE_SIZE a))
     = replicate PAGE_SIZE b"
  "after_of (wal_page_write crc lsn tx org h vc pid (replicate PAGE_SIZE b) (replicate PAGE_SIZE a))
     = replicate PAGE_SIZE a"
  by (simp_all add: before_of_def after_of_def wal_page_write_def sealed_def slice_def Let_def)

lemma sample_log_fields:
  "w_op_type (wal_page_write crc lsn tx org h vc pid b a) = PageWrite"
  "w_lsn (wal_page_write crc lsn tx org h vc pid b a) = lsn"
  "w_tx_id (wal_page_write crc lsn tx org h vc pid b a) = tx"
  "w_page_id (wal_page_write crc lsn tx org h vc pid b a) = pid"
  "length (w_data (wal_page_write crc lsn tx org h vc pid b a)) = length b + length a"
  "w_op_type (wal_commit crc lsn tx org h vc) = Commit"
  "w_lsn (wal_commit crc lsn tx org h vc) = lsn"
  "w_tx_id (wal_commit crc lsn tx org h vc) = tx"
  by (simp_all add: wal_page_write_def wal_commit_def sealed_def Let_def)

lemma sample_log_active: "active_records sample_log = sample_log" "committed_txs sample_log = [1]"
  by (simp_all add: sample_log_def active_records_def checkpoint_lsn_def committed_txs_def
      sample_log_fields Let_def)

lemmas sample_log_simps = sample_log_active sample_log_fields sample_log_images writes_page_def

theorem recovery_page_contents_witness:
  "\<exists>s' res. recover (\<lambda>_. 7) (\<lambda>_. []) sample_log new_files = (s', Inr res)
     \<and> rec_page s' 0 = stamp_checksum (\<lambda>_. 7) (replicate PAGE_SIZE 5)"
  using recovery_page_contents [OF new_files_valid refl refl, of "\<lambda>_. 7" "\<lambda>_. []" sample_log]
  unfolding sample_log_simps(1,2) new_files_present
  by (auto simp: sample_log_def sample_log_simps Let_def INDEX_PAGE_FLAG_def dest!: spec [of _ 0])

text \<open>
  C19. Atomicity and durability. Take a log that follows the pages from the state \<open>M\<close> at the last
  checkpoint, in which no committed write follows an unfinished one on the same page. Whatever
  a crash left on disk of the pages written since (they may be old, new or anything between),
  recovery leaves every page with the content the committed transactions produced: all of
  their writes and none of the unfinished ones. A second crash during recovery changes nothing
  in this.
\<close>

theorem recovery_atomic:
  assumes "rec_valid crc s" and "act = active_records records" and "com = committed_txs act"
    and "follows_pages M act" and "strict_log com act"
    and "\<forall>q. rec_present s q \<longrightarrow> (\<forall>r \<in> set act. \<not> writes_page q r) \<longrightarrow> rec_page s q = stamp_checksum crc (M q)"
  shows "\<exists>s' res. recover crc hyph records s = (s', Inr res) \<and> rec_valid crc s' \<and> same_files s s'
    \<and> (\<forall>q. rec_present s q \<longrightarrow> rec_page s' q = stamp_checksum crc (committed_pages com M act q))"
proof -
  obtain s' res where s': "recover crc hyph records s = (s', Inr res)" "rec_valid crc s'" "same_files s s'"
    and pages: "\<And>q. rec_present s q \<Longrightarrow> rec_page s' q =
      last_image crc (map before_of (rev (unfinished_writes com q act)))
        (last_image crc (map after_of (finished_writes com q act)) (rec_page s q))"
    using recover_pages [OF assms(1), of hyph records] by (auto simp: assms(2,3))
  have "rec_page s' q = stamp_checksum crc (committed_pages com M act q)" if q: "rec_present s q" for q
  proof (cases "\<forall>r \<in> set act. \<not> writes_page q r")
    case True
    then have "unfinished_writes com q act = []" "finished_writes com q act = []" by auto
    then show ?thesis
      using pages [OF q] assms(6) q True committed_pages_eq [OF assms(4,5), of M q, OF refl]
      by (simp add: last_image_def)
  next
    case False
    then have "unfinished_writes com q act \<noteq> [] \<or> finished_writes com q act \<noteq> []"
      by (auto simp: filter_empty_conv)
    then show ?thesis
      using pages [OF q] committed_pages_eq [OF assms(4,5), of M q, OF refl] by (auto simp: last_images)
  qed
  with s' show ?thesis by blast
qed

text \<open>
  Old logs are replayed backwards. The records of a version 1 log hold the before image
  first. Migration keeps these bytes, and redoing a committed write of such a record writes
  its before image: the committed change is undone.
\<close>

theorem v1_redo_writes_before_image:
  assumes "rec_valid crc s" and "length before = PAGE_SIZE" and "length after = PAGE_SIZE"
    and "rec_present s pid"
    and "from_bytes_v1 crc (encode_v1_record crc lsn tx PageWrite pid (before @ after)) = Inr (r, n)"
  shows "\<exists>s'. apply_after_image crc r s = (s', Inr ()) \<and> rec_page s' pid = stamp_checksum crc before"
proof -
  have "length (before @ after) < 2 ^ 31" using assms(2,3) by (simp add: PAGE_SIZE_def)
  from from_bytes_v1_encode [OF this, of crc lsn tx PageWrite pid "[]"] assms(5)
  have r: "w_op_type r = PageWrite" "w_page_id r = pid" "w_data r = before @ after"
    by (auto simp: sealed_def Let_def)
  then have "writes_page pid r" "after_of r = before"
    using assms(2,3) by (simp_all add: writes_page_def after_of_def)
  with apply_after_image_page [OF assms(1) r(1)] assms(4) show ?thesis by auto
qed


theorem recovery_atomic_witness:
  "\<exists>s' res. recover (\<lambda>_. 7) (\<lambda>_. []) sample_log new_files = (s', Inr res)
     \<and> rec_page s' 0 = stamp_checksum (\<lambda>_. 7) (replicate PAGE_SIZE 5)
     \<and> rec_page s' INDEX_PAGE_FLAG = stamp_checksum (\<lambda>_. 7) (replicate PAGE_SIZE 6)"
proof -
  have "follows_pages (\<lambda>_. replicate PAGE_SIZE 0) sample_log"
    by (simp add: sample_log_def sample_log_simps INDEX_PAGE_FLAG_def Let_def)
  moreover have "strict_log [1] sample_log"
    by (simp add: strict_log_def sample_log_def sample_log_simps INDEX_PAGE_FLAG_def Let_def)
  moreover have "\<forall>q. rec_present new_files q \<longrightarrow> (\<forall>r \<in> set sample_log. \<not> writes_page q r) \<longrightarrow>
      rec_page new_files q = stamp_checksum (\<lambda>_. 7) (replicate PAGE_SIZE 0)"
    by (auto simp: new_files_present sample_log_def sample_log_simps Let_def)
  moreover have "committed_pages [1] (\<lambda>_. replicate PAGE_SIZE 0) sample_log q = replicate PAGE_SIZE
      (if q = 0 then 5 else if q = INDEX_PAGE_FLAG then 6 else 0)" for q
    by (simp add: sample_log_def sample_log_simps INDEX_PAGE_FLAG_def Let_def)
  ultimately obtain s' res where "recover (\<lambda>_. 7) (\<lambda>_. []) sample_log new_files = (s', Inr res)"
    and "\<forall>q. rec_present new_files q \<longrightarrow> rec_page s' q = stamp_checksum (\<lambda>_. 7)
      (replicate PAGE_SIZE (if q = 0 then 5 else if q = INDEX_PAGE_FLAG then 6 else 0))"
    using recovery_atomic [OF new_files_valid refl refl, where records = sample_log
        and M = "\<lambda>_. replicate PAGE_SIZE 0" and crc = "\<lambda>_. 7" and hyph = "\<lambda>_. []"]
    unfolding sample_log_active by auto
  then show ?thesis by (auto simp: new_files_present INDEX_PAGE_FLAG_def)
qed

theorem v1_redo_writes_before_image_witness:
  "\<exists>r n s'. from_bytes_v1 (\<lambda>_. 7) (encode_v1_record (\<lambda>_. 7) 1 1 PageWrite 0
        (replicate PAGE_SIZE 3 @ replicate PAGE_SIZE 4)) = Inr (r, n)
     \<and> apply_after_image (\<lambda>_. 7) r new_files = (s', Inr ())
     \<and> rec_page s' 0 = stamp_checksum (\<lambda>_. 7) (replicate PAGE_SIZE 3)"
proof -
  have "length (replicate PAGE_SIZE (3 :: byte) @ replicate PAGE_SIZE 4) < 2 ^ 31"
    by (simp add: PAGE_SIZE_def)
  from from_bytes_v1_encode [OF this, of "\<lambda>_. 7" 1 1 PageWrite 0 "[]"] obtain r n where
    r: "from_bytes_v1 (\<lambda>_. 7) (encode_v1_record (\<lambda>_. 7) 1 1 PageWrite 0
        (replicate PAGE_SIZE 3 @ replicate PAGE_SIZE 4)) = Inr (r, n)" by simp
  then show ?thesis
    using v1_redo_writes_before_image [OF new_files_valid _ _ _ r] by (simp add: new_files_present)
qed

end
