(* ===== verification/Sortable_Key.thy ===== *)
theory Sortable_Key
  imports Document_Codec
begin

text \<open>
  The sortable encoding of field values of \<^verbatim>\<open>src/src/index/encoding.rs\<close>: byte strings whose
  lexicographic order is the order of the values, with the document id appended to make the keys of
  an index unique.
\<close>

unbundle bit_operations_syntax

definition TAG_NULL :: byte where "TAG_NULL = 0"
definition TAG_BOOL :: byte where "TAG_BOOL = 1"
definition TAG_INTEGER :: byte where "TAG_INTEGER = 2"
definition TAG_FLOAT :: byte where "TAG_FLOAT = 3"
definition TAG_STRING :: byte where "TAG_STRING = 4"
definition TAG_BYTES :: byte where "TAG_BYTES = 5"
definition TAG_REF :: byte where "TAG_REF = 6"

definition MAX_INDEXED_LEN :: nat where "MAX_INDEXED_LEN = 128"

lemmas sort_consts = TAG_NULL_def TAG_BOOL_def TAG_INTEGER_def TAG_FLOAT_def TAG_STRING_def
  TAG_BYTES_def TAG_REF_def MAX_INDEXED_LEN_def

definition sortable_integer :: "u64 \<Rightarrow> u64" where
  "sortable_integer i = i XOR 0x8000000000000000"

definition sortable_float :: "u64 \<Rightarrow> u64" where
  "sortable_float bits =
     (if bits AND 0x8000000000000000 \<noteq> 0 then NOT bits else bits XOR 0x8000000000000000)"

fun encode_sortable_value :: "grumpy_value \<Rightarrow> bytes result" where
  "encode_sortable_value VNull = Inr [TAG_NULL]"
| "encode_sortable_value (VBool b) = Inr [TAG_BOOL, if b then 1 else 0]"
| "encode_sortable_value (VInteger i) = Inr (TAG_INTEGER # to_be (sortable_integer i))"
| "encode_sortable_value (VFloat f) = Inr (TAG_FLOAT # to_be (sortable_float f))"
| "encode_sortable_value (VString s) = Inr (TAG_STRING # take MAX_INDEXED_LEN s)"
| "encode_sortable_value (VBytes b) = Inr (TAG_BYTES # take MAX_INDEXED_LEN b)"
| "encode_sortable_value (VRef collection u) =
     Inr (TAG_REF # take MAX_INDEXED_LEN collection @ to_be u)"
| "encode_sortable_value (VArray _) = Inl (Err NotIndexable)"
| "encode_sortable_value (VObject _) = Inl (Err NotIndexable)"
| "encode_sortable_value (VTombstone _ _) = Inl (Err NotIndexable)"
| "encode_sortable_value (VCrdt _ _) = Inl (Err NotIndexable)"

definition encode_composite_key :: "grumpy_value \<Rightarrow> uuid \<Rightarrow> bytes result" where
  "encode_composite_key v u = bind_res (encode_sortable_value v) (\<lambda>key. Inr (key @ to_be u))"

text \<open>\<^verbatim>\<open>str::split\<close> at a one-byte separator: one more part than there are separators.\<close>

fun split_at :: "byte \<Rightarrow> bytes \<Rightarrow> bytes list" where
  "split_at d [] = [[]]"
| "split_at d (b # bs) =
     (if b = d then [] # split_at d bs
      else (case split_at d bs of p # ps \<Rightarrow> (b # p) # ps | [] \<Rightarrow> [[b]]))"

fun extract_parts :: "grumpy_value \<Rightarrow> bytes list \<Rightarrow> grumpy_value option" where
  "extract_parts current [] = Some current"
| "extract_parts (VObject obj) (part # parts) =
     (case bt_get obj part of None \<Rightarrow> None | Some v \<Rightarrow> extract_parts v parts)"
| "extract_parts _ (part # parts) = None"

definition extract_field :: "grumpy_value \<Rightarrow> bytes \<Rightarrow> grumpy_value option" where
  "extract_field v field_path = extract_parts v (split_at 0x2E field_path)"

section \<open>The order of field values\<close>

text \<open>
  The order an index promises. Numbers are compared by value; floating-point numbers by sign and
  magnitude, so that -0 comes before +0 and the NaNs, by sign, before or after all other numbers.
\<close>

definition float_rank :: "u64 \<Rightarrow> int" where
  "float_rank f =
     (let magnitude = uint (f AND 0x7FFFFFFFFFFFFFFF)
      in if bit f 63 then - 1 - magnitude else magnitude)"

fun value_class :: "grumpy_value \<Rightarrow> nat" where
  "value_class VNull = 0"
| "value_class (VBool _) = 1"
| "value_class (VInteger _) = 2"
| "value_class (VFloat _) = 3"
| "value_class (VString _) = 4"
| "value_class (VBytes _) = 5"
| "value_class (VRef _ _) = 6"
| "value_class _ = 7"

fun value_less :: "grumpy_value \<Rightarrow> grumpy_value \<Rightarrow> bool" where
  "value_less (VBool a) (VBool b) \<longleftrightarrow> \<not> a \<and> b"
| "value_less (VInteger i) (VInteger j) \<longleftrightarrow> sint i < sint j"
| "value_less (VFloat f) (VFloat g) \<longleftrightarrow> float_rank f < float_rank g"
| "value_less (VString s) (VString t) \<longleftrightarrow> s < t"
| "value_less (VBytes s) (VBytes t) \<longleftrightarrow> s < t"
| "value_less v w \<longleftrightarrow> value_class v < value_class w"

text \<open>The values whose encoding loses nothing, and those whose encoding has a fixed length.\<close>

fun faithfully_indexed :: "grumpy_value \<Rightarrow> bool" where
  "faithfully_indexed (VString s) \<longleftrightarrow> length s \<le> MAX_INDEXED_LEN"
| "faithfully_indexed (VBytes b) \<longleftrightarrow> length b \<le> MAX_INDEXED_LEN"
| "faithfully_indexed v \<longleftrightarrow> value_class v < 4"

definition fixed_width :: "grumpy_value \<Rightarrow> bool" where
  "fixed_width v \<longleftrightarrow> value_class v < 4"

section \<open>Numbers\<close>

definition sign_bit :: u64 where "sign_bit = 2 ^ 63"

lemma sign_bit_u64: "(0x8000000000000000 :: u64) = sign_bit" "(0x7FFFFFFFFFFFFFFF :: u64) = mask 63"
  by (simp_all add: mask_eq_exp_minus_1 sign_bit_def)

lemma sign_bit_facts:
  "\<And>n. bit sign_bit n \<longleftrightarrow> n = 63" "take_bit 63 sign_bit = 0" "f AND sign_bit \<noteq> 0 \<longleftrightarrow> bit f 63"
proof -
  show b: "bit sign_bit n \<longleftrightarrow> n = 63" for n unfolding sign_bit_def by (simp only: bit_exp_iff) auto
  show "take_bit 63 sign_bit = 0" by (rule bit_eqI) (simp add: bit_take_bit_iff b)
  show "f AND sign_bit \<noteq> 0 \<longleftrightarrow> bit f 63" unfolding sign_bit_def by (simp only: and_exp_eq_0_iff_not_bit) simp
qed

lemma uint_sign_magnitude: "uint (w :: u64) = 2 ^ 63 * of_bool (bit w 63) + uint (take_bit 63 w)"
proof -
  have "uint w < 2 ^ Suc 63" using uint_lt2p [of w] by simp
  then have "uint w = take_bit (Suc 63) (uint w)"
    by (intro take_bit_int_eq_self [symmetric]) simp_all
  also have "\<dots> = 2 ^ 63 * of_bool (bit (uint w) 63) + take_bit 63 (uint w)"
    by (rule take_bit_Suc_from_most)
  finally show ?thesis by (simp add: bit_uint_iff unsigned_take_bit_eq)
qed

lemma sint_sign_magnitude: "sint (w :: u64) = uint (take_bit 63 w) - 2 ^ 63 * of_bool (bit w 63)"
proof -
  have "sint w = signed_take_bit 63 (uint w)" by (simp add: sint_uint)
  also have "\<dots> = take_bit 63 (uint w) - 2 ^ 63 * of_bool (bit (uint w) 63)"
    unfolding signed_take_bit_eq_take_bit_minus take_bit_Suc_from_most by simp
  finally show ?thesis by (simp add: bit_uint_iff unsigned_take_bit_eq)
qed

lemma uint_flip_sign: "uint (w XOR sign_bit) = sint w + 2 ^ 63"
proof -
  have "bit (w XOR sign_bit) 63 \<longleftrightarrow> \<not> bit w 63" by (simp add: bit_xor_iff sign_bit_facts)
  moreover have "take_bit 63 (w XOR sign_bit) = take_bit 63 w" by (simp add: take_bit_xor sign_bit_facts)
  ultimately show ?thesis
    by (simp add: uint_sign_magnitude [of "w XOR sign_bit"] sint_sign_magnitude)
qed

lemma sortable_integer_less: "sortable_integer i < sortable_integer j \<longleftrightarrow> sint i < sint j"
  by (simp add: sortable_integer_def sign_bit_u64(1) word_less_def uint_flip_sign)

lemma uint_sortable_float: "uint (sortable_float f) = float_rank f + 2 ^ 63"
proof -
  have "uint (NOT f) = uint (- 1 - f)" by (simp only: not_eq_complement minus_diff_commute)
  also have "\<dots> = uint (- 1 :: u64) - uint f" using uint_minus_simple_alt [of f "- 1"] by simp
  also have "\<dots> = 2 ^ 64 - 1 - uint f" by (simp add: unsigned_minus_1_eq_mask mask_eq_exp_minus_1)
  finally have "uint (NOT f) = 2 ^ 64 - 1 - uint f" .
  then show ?thesis
    using uint_sign_magnitude [of f] sint_sign_magnitude [of f] uint_flip_sign [of f]
    by (simp add: sortable_float_def sign_bit_u64 float_rank_def sign_bit_facts Let_def take_bit_eq_mask)
qed

lemma sortable_float_less: "sortable_float f < sortable_float g \<longleftrightarrow> float_rank f < float_rank g"
  by (simp add: word_less_def uint_sortable_float)

section \<open>Shape of encodings\<close>

definition sortable :: "bytes \<Rightarrow> bool" where
  "sortable b \<longleftrightarrow> (\<exists>v. encode_sortable_value v = Inr b)"

fun tag_width :: "byte \<Rightarrow> nat option" where
  "tag_width t = (if t = TAG_NULL then Some 1 else if t = TAG_BOOL then Some 2
     else if t = TAG_INTEGER \<or> t = TAG_FLOAT then Some 9 else None)"

lemma sortable_shape:
  assumes "sortable b"
  shows "b \<noteq> []" and "hd b \<le> TAG_REF" and "tag_width (hd b) = Some n \<Longrightarrow> length b = n"
proof -
  from assms obtain v where "encode_sortable_value v = Inr b" by (auto simp: sortable_def)
  then show "b \<noteq> []" and "hd b \<le> TAG_REF" and "tag_width (hd b) = Some n \<Longrightarrow> length b = n"
    by (cases v; auto simp: sort_consts split: if_splits)+
qed

text \<open>The encodings of fixed length: no other encoding extends them or is a prefix of them.\<close>

definition narrow :: "bytes \<Rightarrow> bool" where
  "narrow p \<longleftrightarrow> sortable p \<and> hd p < TAG_STRING"

lemma fixed_narrow: "fixed_width v \<Longrightarrow> \<exists>p. encode_sortable_value v = Inr p \<and> narrow p"
  unfolding narrow_def sortable_def
  by (cases v) (auto simp: fixed_width_def sort_consts intro: exI [of _ v])

lemma narrow_width: "narrow p \<Longrightarrow> \<exists>n. tag_width (hd p) = Some n \<and> length p = n \<and> n \<le> 9"
  unfolding narrow_def sortable_def by (auto simp: sort_consts elim!: encode_sortable_value.elims)

lemma narrow_prefix:
  assumes "narrow p" and "sortable b"
  shows "prefix p (b @ xs) \<longleftrightarrow> b = p" and "prefix b p \<longleftrightarrow> b = p"
proof -
  from narrow_width [OF assms(1)] obtain n where p: "tag_width (hd p) = Some n" "length p = n" by blast
  have ne: "p \<noteq> []" using assms(1) sortable_shape(1) by (auto simp: narrow_def)
  note b = sortable_shape [OF assms(2)]
  have len: "length b = length p" if "hd b = hd p" using b(3) [of n] p that by simp
  show "prefix p (b @ xs) \<longleftrightarrow> b = p"
  proof
    assume pre: "prefix p (b @ xs)"
    then have "hd b = hd p" using b(1) ne by (cases b; cases p) auto
    moreover from pre obtain zs where "b @ xs = p @ zs" by (auto simp: prefix_def)
    ultimately show "b = p" using len by simp
  qed auto
  show "prefix b p \<longleftrightarrow> b = p"
  proof
    assume pre: "prefix b p"
    then have "hd b = hd p" using b(1) ne by (cases b; cases p) auto
    with pre show "b = p" using len by (auto simp: prefix_def)
  qed auto
qed

lemma narrow_less_append:
  assumes "narrow p" and "sortable b"
  shows "p @ us < b @ vs \<longleftrightarrow> p < b \<or> p = b \<and> us < vs" and "b @ vs < p @ us \<longleftrightarrow> b < p \<or> b = p \<and> vs < us"
  using narrow_prefix(1) [OF assms, of "[]"] narrow_prefix(2) [OF assms]
    lex_incomparable [of p b us vs] lex_incomparable [of b p vs us]
  by (cases "b = p"; auto)+

lemma composite_key_length:
  assumes "wf_value v" and "encode_composite_key v u = Inr k"
  shows "17 \<le> length k \<and> length k \<le> 145"
  using assms by (cases v) (auto simp: encode_composite_key_def sort_consts)

section \<open>Order\<close>

lemma to_be_inject: "8 dvd LENGTH('a) \<Longrightarrow> to_be (v :: 'a::len word) = to_be w \<longleftrightarrow> v = w"
  by (metis of_be_to_be)

lemma sortable_integer_eq: "sortable_integer i = sortable_integer j \<longleftrightarrow> i = j"
  by (metis sortable_integer_def xor.assoc xor.right_neutral xor_self_eq)

lemma sortable_float_eq: "sortable_float f = sortable_float g \<longleftrightarrow> f = g"
proof
  define m where "m x = uint (take_bit 63 x)" for x :: u64
  have m: "0 \<le> m x" "float_rank x = (if bit x 63 then - 1 - m x else m x)" for x
    by (simp_all add: m_def float_rank_def sign_bit_u64 Let_def take_bit_eq_mask)
  assume "sortable_float f = sortable_float g"
  then have "float_rank f = float_rank g" using uint_sortable_float [of f] uint_sortable_float [of g] by simp
  then have "bit f 63 = bit g 63" and "m f = m g"
    using m [of f] m [of g] by (auto split: if_splits)
  then show "f = g" using uint_sign_magnitude [of f] uint_sign_magnitude [of g] by (simp add: m_def word_uint_eq_iff)
qed simp

lemmas sortable_eqs = to_be_less to_be_inject sortable_integer_less sortable_float_less
  sortable_integer_eq sortable_float_eq

text \<open>
  C23. The sortable encoding preserves the order of field values. Two values that are encoded without
  loss (null, booleans, integers, floating-point numbers, and strings and byte strings of at most 128
  bytes) compare as byte strings exactly as they compare as values, over all pairs of types: null
  before booleans before integers by their signed value, before floating-point numbers by sign and
  magnitude, before strings, before byte strings. Equal encodings come from equal values.
\<close>

theorem sortable_encoding_order:
  assumes "faithfully_indexed v" and "faithfully_indexed w"
  shows "\<exists>a b. encode_sortable_value v = Inr a \<and> encode_sortable_value w = Inr b
    \<and> (a < b \<longleftrightarrow> value_less v w) \<and> (a = b \<longleftrightarrow> v = w)"
  using assms by (cases v; cases w) (simp_all add: sort_consts sortable_eqs)

theorem sortable_encoding_order_witness:
  "\<exists>a b. encode_sortable_value (VInteger (- 3)) = Inr a \<and> encode_sortable_value (VInteger 2) = Inr b \<and> a < b"
  using sortable_encoding_order [of "VInteger (- 3)" "VInteger 2"] by auto

end
