(* ===== verification/Btree_Node.thy ===== *)
theory Btree_Node
  imports Page_Store
begin

text \<open>
  Keys and nodes of the B+tree: \<^verbatim>\<open>src/src/btree/key.rs\<close> and \<^verbatim>\<open>src/src/btree/node.rs\<close>. The trait
  \<^verbatim>\<open>Key\<close> is a record of functions that every operation takes as its argument; its two
  implementations are \<open>uuid_key\<close> and \<open>var_key\<close>. A node is a record that is read from and written
  to the bytes of a page. \<open>key_codec\<close> is the contract of a key implementation with a
  configuration: keys and configurations survive the page, and enough of them fit on a page.
\<close>

section \<open>Keys\<close>

definition VAR_LEN_PREFIX :: nat where "VAR_LEN_PREFIX = 2"

record ('k, 'c) key_ops =
  TREE_META_BYTES :: nat
  NODE_META_BYTES :: nat
  read_tree_config :: "page \<Rightarrow> 'c"
  write_tree_config :: "'c \<Rightarrow> page \<Rightarrow> page"
  read_node_config :: "page \<Rightarrow> nat \<Rightarrow> 'c"
  write_node_config :: "'c \<Rightarrow> page \<Rightarrow> nat \<Rightarrow> page"
  slot_key_size :: "'c \<Rightarrow> nat"
  read_key :: "bytes \<Rightarrow> 'c \<Rightarrow> 'k result"
  write_key :: "'k \<Rightarrow> 'c \<Rightarrow> bytes \<Rightarrow> bytes result"
  duplicate_key_error :: "'k \<Rightarrow> grumpy_error"
  key_not_found_error :: "'k \<Rightarrow> grumpy_error"

definition UUID_KEY_SIZE :: nat where "UUID_KEY_SIZE = 16"

definition uuid_key :: "(uuid, unit) key_ops" where
  "uuid_key =
     \<lparr>TREE_META_BYTES = 0, NODE_META_BYTES = 0,
      read_tree_config = (\<lambda>_. ()), write_tree_config = (\<lambda>_ buf. buf),
      read_node_config = (\<lambda>_ _. ()), write_node_config = (\<lambda>_ buf _. buf),
      slot_key_size = (\<lambda>_. UUID_KEY_SIZE),
      read_key = (\<lambda>buf _. bind_res (try_slice 0 UUID_KEY_SIZE buf) (\<lambda>bs. Inr (of_be bs))),
      write_key = (\<lambda>k _ buf. try_blit 0 (to_be k) buf),
      duplicate_key_error = DuplicateKey, key_not_found_error = KeyNotFound\<rparr>"

definition var_key :: "(bytes, u16) key_ops" where
  "var_key =
     \<lparr>TREE_META_BYTES = 2, NODE_META_BYTES = 2,
      read_tree_config = (\<lambda>buf. of_le (slice 48 2 buf)),
      write_tree_config = (\<lambda>cfg buf. blit 48 (to_le cfg) buf),
      read_node_config = (\<lambda>buf off. of_le (slice off 2 buf)),
      write_node_config = (\<lambda>cfg buf off. blit off (to_le cfg) buf),
      slot_key_size = (\<lambda>cfg. VAR_LEN_PREFIX + unat cfg),
      read_key = (\<lambda>buf _.
        bind_res (try_slice 0 2 buf) (\<lambda>bs.
          let key_len = unat (of_le bs :: u16)
          in try_slice VAR_LEN_PREFIX (VAR_LEN_PREFIX + key_len) buf)),
      write_key = (\<lambda>k _ buf.
        bind_res (try_blit 0 (to_le (word_of_nat (length k) :: u16)) buf) (\<lambda>buf.
          try_blit VAR_LEN_PREFIX k buf)),
      duplicate_key_error = (\<lambda>k. Codec (DuplicateVarKey (length k))),
      key_not_found_error = (\<lambda>k. Codec (VarKeyNotFound (length k)))\<rparr>"

section \<open>Capacities\<close>

definition INTERNAL_FIXED_HEADER :: nat where "INTERNAL_FIXED_HEADER = 6"
definition LEAF_FIXED_HEADER :: nat where "LEAF_FIXED_HEADER = 10"
definition CHILD_PTR_SIZE :: nat where "CHILD_PTR_SIZE = 4"
definition DATA_PTR_SIZE :: nat where "DATA_PTR_SIZE = 6"
definition USABLE_SPACE :: nat where "USABLE_SPACE = PAGE_SIZE - PAGE_HEADER_SIZE"
definition MIN_OCCUPANCY_PERCENT :: nat where "MIN_OCCUPANCY_PERCENT = 40"

lemmas node_consts = INTERNAL_FIXED_HEADER_def LEAF_FIXED_HEADER_def CHILD_PTR_SIZE_def
  DATA_PTR_SIZE_def USABLE_SPACE_def MIN_OCCUPANCY_PERCENT_def page_consts

definition internal_entries_start :: "('k, 'c) key_ops \<Rightarrow> nat" where
  "internal_entries_start K = PAGE_HEADER_SIZE + INTERNAL_FIXED_HEADER + NODE_META_BYTES K"

definition leaf_entries_start :: "('k, 'c) key_ops \<Rightarrow> nat" where
  "leaf_entries_start K = PAGE_HEADER_SIZE + LEAF_FIXED_HEADER + NODE_META_BYTES K"

definition internal_max_keys :: "('k, 'c) key_ops \<Rightarrow> 'c \<Rightarrow> nat" where
  "internal_max_keys K cfg =
     (let entry_size = slot_key_size K cfg + CHILD_PTR_SIZE;
          header_overhead = INTERNAL_FIXED_HEADER + NODE_META_BYTES K
      in (USABLE_SPACE - header_overhead) div entry_size)"

definition leaf_max_entries :: "('k, 'c) key_ops \<Rightarrow> 'c \<Rightarrow> nat" where
  "leaf_max_entries K cfg =
     (let entry_size = slot_key_size K cfg + DATA_PTR_SIZE;
          header_overhead = LEAF_FIXED_HEADER + NODE_META_BYTES K
      in (USABLE_SPACE - header_overhead) div entry_size)"

definition internal_min_keys :: "('k, 'c) key_ops \<Rightarrow> 'c \<Rightarrow> nat" where
  "internal_min_keys K cfg = internal_max_keys K cfg * MIN_OCCUPANCY_PERCENT div 100"

definition leaf_min_entries :: "('k, 'c) key_ops \<Rightarrow> 'c \<Rightarrow> nat" where
  "leaf_min_entries K cfg = leaf_max_entries K cfg * MIN_OCCUPANCY_PERCENT div 100"

section \<open>Internal nodes\<close>

type_synonym 'k internal_entry = "'k \<times> u32"
type_synonym 'k leaf_entry = "'k \<times> u32 \<times> u16"

record ('k, 'c) internal_node =
  in_page_id :: u32
  in_num_keys :: u16
  in_right_child :: u32
  in_config :: 'c
  in_entries :: "'k internal_entry list"

definition internal_new :: "u32 \<Rightarrow> 'c \<Rightarrow> ('k, 'c) internal_node" where
  "internal_new page_id cfg =
     \<lparr>in_page_id = page_id, in_num_keys = 0, in_right_child = 0, in_config = cfg, in_entries = []\<rparr>"

fun read_internal_entries ::
  "('k, 'c) key_ops \<Rightarrow> 'c \<Rightarrow> page \<Rightarrow> nat \<Rightarrow> nat \<Rightarrow> 'k internal_entry list result" where
  "read_internal_entries K cfg buf i 0 = Inr []"
| "read_internal_entries K cfg buf i (Suc n) =
     (let slot_key = slot_key_size K cfg;
          slot_size = slot_key + CHILD_PTR_SIZE;
          base = internal_entries_start K + i * slot_size
      in bind_res (try_slice base (base + slot_key) buf) (\<lambda>slot.
         bind_res (read_key K slot cfg) (\<lambda>key.
         let p = base + slot_key in
         bind_res (try_slice p (p + 4) buf) (\<lambda>child.
         bind_res (read_internal_entries K cfg buf (Suc i) n) (\<lambda>es.
           Inr ((key, of_le child) # es))))))"

definition internal_from_bytes :: "('k, 'c) key_ops \<Rightarrow> page \<Rightarrow> ('k, 'c) internal_node result" where
  "internal_from_bytes K buf =
     (let header = header_read_from buf;
          num_keys = of_le (slice 32 2 buf) :: u16;
          right_child = of_le (slice 34 4 buf);
          cfg = read_node_config K buf (PAGE_HEADER_SIZE + INTERNAL_FIXED_HEADER)
      in bind_res (read_internal_entries K cfg buf 0 (unat num_keys)) (\<lambda>entries.
           Inr \<lparr>in_page_id = hd_page_id header, in_num_keys = num_keys,
             in_right_child = right_child, in_config = cfg, in_entries = entries\<rparr>))"

fun write_internal_entries ::
  "('k, 'c) key_ops \<Rightarrow> 'c \<Rightarrow> nat \<Rightarrow> 'k internal_entry list \<Rightarrow> page \<Rightarrow> page result" where
  "write_internal_entries K cfg i [] buf = Inr buf"
| "write_internal_entries K cfg i ((key, child) # es) buf =
     (let slot_key = slot_key_size K cfg;
          slot_size = slot_key + CHILD_PTR_SIZE;
          base = internal_entries_start K + i * slot_size
      in bind_res (try_slice base (base + slot_key) buf) (\<lambda>slot.
         bind_res (write_key K key cfg slot) (\<lambda>slot'.
         let p = base + slot_key in
         bind_res (try_blit p (to_le child) (blit base slot' buf)) (\<lambda>buf.
           write_internal_entries K cfg (Suc i) es buf))))"

definition internal_to_bytes :: "('k, 'c) key_ops \<Rightarrow> ('k, 'c) internal_node \<Rightarrow> page result" where
  "internal_to_bytes K n =
     (let buf = header_write_to (header_new (in_page_id n) BTreeInternal) zero_page;
          buf = blit 32 (to_le (in_num_keys n)) buf;
          buf = blit 34 (to_le (in_right_child n)) buf;
          buf = write_node_config K (in_config n) buf (PAGE_HEADER_SIZE + INTERNAL_FIXED_HEADER)
      in write_internal_entries K (in_config n) 0 (in_entries n) buf)"

definition find_child :: "('k::linorder, 'c) internal_node \<Rightarrow> 'k \<Rightarrow> u32" where
  "find_child n key =
     (let pos = partition_point (\<lambda>e. fst e \<le> key) (in_entries n)
      in if pos < length (in_entries n) then snd (in_entries n ! pos) else in_right_child n)"

definition internal_insert_entry ::
  "'k::linorder \<Rightarrow> u32 \<Rightarrow> ('k, 'c) internal_node \<Rightarrow> ('k, 'c) internal_node" where
  "internal_insert_entry key right_child_page_id n =
     (let es = in_entries n;
          pos = unwrap_or_else_id (binary_search fst key es);
          n = (if pos < length es then
                 (let old_child = snd (es ! pos);
                      es = vec_insert pos (key, old_child) es;
                      es = es[pos + 1 := (fst (es ! (pos + 1)), right_child_page_id)]
                  in n\<lparr>in_entries := es\<rparr>)
               else n\<lparr>in_entries := es @ [(key, in_right_child n)],
                      in_right_child := right_child_page_id\<rparr>)
      in n\<lparr>in_num_keys := in_num_keys n + 1\<rparr>)"

definition internal_is_overfull :: "('k, 'c) key_ops \<Rightarrow> ('k, 'c) internal_node \<Rightarrow> bool" where
  "internal_is_overfull K n \<longleftrightarrow> unat (in_num_keys n) > internal_max_keys K (in_config n)"

definition internal_is_underfull :: "('k, 'c) key_ops \<Rightarrow> ('k, 'c) internal_node \<Rightarrow> bool" where
  "internal_is_underfull K n \<longleftrightarrow> unat (in_num_keys n) < internal_min_keys K (in_config n)"

section \<open>Leaves\<close>

record ('k, 'c) leaf_node =
  ln_page_id :: u32
  ln_num_entries :: u16
  ln_next_leaf :: u32
  ln_prev_leaf :: u32
  ln_config :: 'c
  ln_entries :: "'k leaf_entry list"

definition leaf_new :: "u32 \<Rightarrow> 'c \<Rightarrow> ('k, 'c) leaf_node" where
  "leaf_new page_id cfg =
     \<lparr>ln_page_id = page_id, ln_num_entries = 0, ln_next_leaf = 0, ln_prev_leaf = 0,
      ln_config = cfg, ln_entries = []\<rparr>"

fun read_leaf_entries ::
  "('k, 'c) key_ops \<Rightarrow> 'c \<Rightarrow> page \<Rightarrow> nat \<Rightarrow> nat \<Rightarrow> 'k leaf_entry list result" where
  "read_leaf_entries K cfg buf i 0 = Inr []"
| "read_leaf_entries K cfg buf i (Suc n) =
     (let slot_key = slot_key_size K cfg;
          slot_size = slot_key + DATA_PTR_SIZE;
          base = leaf_entries_start K + i * slot_size
      in bind_res (try_slice base (base + slot_key) buf) (\<lambda>slot.
         bind_res (read_key K slot cfg) (\<lambda>key.
         let p = base + slot_key in
         bind_res (try_slice p (p + 4) buf) (\<lambda>page_id.
         bind_res (try_slice (p + 4) (p + 6) buf) (\<lambda>slot_id.
         bind_res (read_leaf_entries K cfg buf (Suc i) n) (\<lambda>es.
           Inr ((key, of_le page_id, of_le slot_id) # es)))))))"

definition leaf_from_bytes :: "('k, 'c) key_ops \<Rightarrow> page \<Rightarrow> ('k, 'c) leaf_node result" where
  "leaf_from_bytes K buf =
     (let header = header_read_from buf;
          num_entries = of_le (slice 32 2 buf) :: u16;
          next_leaf = of_le (slice 34 4 buf);
          prev_leaf = of_le (slice 38 4 buf);
          cfg = read_node_config K buf (PAGE_HEADER_SIZE + LEAF_FIXED_HEADER)
      in bind_res (read_leaf_entries K cfg buf 0 (unat num_entries)) (\<lambda>entries.
           Inr \<lparr>ln_page_id = hd_page_id header, ln_num_entries = num_entries,
             ln_next_leaf = next_leaf, ln_prev_leaf = prev_leaf, ln_config = cfg,
             ln_entries = entries\<rparr>))"

fun write_leaf_entries ::
  "('k, 'c) key_ops \<Rightarrow> 'c \<Rightarrow> nat \<Rightarrow> 'k leaf_entry list \<Rightarrow> page \<Rightarrow> page result" where
  "write_leaf_entries K cfg i [] buf = Inr buf"
| "write_leaf_entries K cfg i ((key, page_id, slot_id) # es) buf =
     (let slot_key = slot_key_size K cfg;
          slot_size = slot_key + DATA_PTR_SIZE;
          base = leaf_entries_start K + i * slot_size
      in bind_res (try_slice base (base + slot_key) buf) (\<lambda>slot.
         bind_res (write_key K key cfg slot) (\<lambda>slot'.
         let p = base + slot_key in
         bind_res (try_blit p (to_le page_id) (blit base slot' buf)) (\<lambda>buf.
         bind_res (try_blit (p + 4) (to_le slot_id) buf) (\<lambda>buf.
           write_leaf_entries K cfg (Suc i) es buf)))))"

definition leaf_to_bytes :: "('k, 'c) key_ops \<Rightarrow> ('k, 'c) leaf_node \<Rightarrow> page result" where
  "leaf_to_bytes K n =
     (let buf = header_write_to (header_new (ln_page_id n) BTreeLeaf) zero_page;
          buf = blit 32 (to_le (ln_num_entries n)) buf;
          buf = blit 34 (to_le (ln_next_leaf n)) buf;
          buf = blit 38 (to_le (ln_prev_leaf n)) buf;
          buf = write_node_config K (ln_config n) buf (PAGE_HEADER_SIZE + LEAF_FIXED_HEADER)
      in write_leaf_entries K (ln_config n) 0 (ln_entries n) buf)"

definition leaf_search :: "('k::linorder, 'c) leaf_node \<Rightarrow> 'k \<Rightarrow> nat option" where
  "leaf_search n key =
     (case binary_search fst key (ln_entries n) of Inl _ \<Rightarrow> None | Inr i \<Rightarrow> Some i)"

definition leaf_insert_entry ::
  "'k::linorder leaf_entry \<Rightarrow> ('k, 'c) leaf_node \<Rightarrow> ('k, 'c) leaf_node" where
  "leaf_insert_entry entry n =
     (let pos = unwrap_or_else_id (binary_search fst (fst entry) (ln_entries n))
      in n\<lparr>ln_entries := vec_insert pos entry (ln_entries n),
           ln_num_entries := ln_num_entries n + 1\<rparr>)"

definition leaf_remove_entry ::
  "'k::linorder \<Rightarrow> ('k, 'c) leaf_node \<Rightarrow> ('k, 'c) leaf_node \<times> 'k leaf_entry option" where
  "leaf_remove_entry key n =
     (case binary_search fst key (ln_entries n) of
        Inr idx \<Rightarrow> (n\<lparr>ln_num_entries := ln_num_entries n - 1,
                      ln_entries := vec_remove idx (ln_entries n)\<rparr>, Some (ln_entries n ! idx))
      | Inl _ \<Rightarrow> (n, None))"

definition leaf_is_overfull :: "('k, 'c) key_ops \<Rightarrow> ('k, 'c) leaf_node \<Rightarrow> bool" where
  "leaf_is_overfull K n \<longleftrightarrow> unat (ln_num_entries n) > leaf_max_entries K (ln_config n)"

definition leaf_is_underfull :: "('k, 'c) key_ops \<Rightarrow> ('k, 'c) leaf_node \<Rightarrow> bool" where
  "leaf_is_underfull K n \<longleftrightarrow> unat (ln_num_entries n) < leaf_min_entries K (ln_config n)"


lemma header_read_slice:
  assumes "slice 0 32 a = slice 0 32 b" and "page_ok a" and "page_ok b"
  shows "header_read_from a = header_read_from b"
proof -
  have "slice j n a = slice j n b" if "j + n \<le> 32" for j n
    using slice_slice [OF that, of 0 a] slice_slice [OF that, of 0 b] assms(1) by simp
  moreover have "a ! j = b ! j" if "j < 32" for j
    using nth_slice [of j 32 0 a] nth_slice [of j 32 0 b] that assms by (simp add: page_ok_def page_consts)
  ultimately show ?thesis by (simp add: header_read_from_def)
qed

section \<open>The contract of a key implementation\<close>

locale key_codec =
  fixes K :: "('k::linorder, 'c) key_ops"
    and cfg :: 'c
    and key_ok :: "'k \<Rightarrow> bool"
    and cfg_bytes :: bytes
  assumes meta_bytes: "NODE_META_BYTES K = length cfg_bytes" "TREE_META_BYTES K = length cfg_bytes"
      "length cfg_bytes \<le> 2"
    and write_node_cfg: "off + length cfg_bytes \<le> length buf \<Longrightarrow>
      write_node_config K cfg buf off = blit off cfg_bytes buf"
    and read_node_cfg: "off + length cfg_bytes \<le> length buf \<Longrightarrow>
      slice off (length cfg_bytes) buf = cfg_bytes \<Longrightarrow> read_node_config K buf off = cfg"
    and write_tree_cfg: "50 \<le> length buf \<Longrightarrow> write_tree_config K cfg buf = blit 48 cfg_bytes buf"
    and read_tree_cfg: "50 \<le> length buf \<Longrightarrow>
      slice 48 (length cfg_bytes) buf = cfg_bytes \<Longrightarrow> read_tree_config K buf = cfg"
    and slot_size: "slot_key_size K cfg \<le> 260"
    and key_roundtrip: "key_ok k \<Longrightarrow> length slot = slot_key_size K cfg \<Longrightarrow>
      \<exists>s. write_key K k cfg slot = Inr s \<and> length s = slot_key_size K cfg \<and> read_key K s cfg = Inr k"
begin

text \<open>The two loops over the entries: a written range of slots reads back, all other bytes stay.\<close>

lemma internal_entries_roundtrip:
  assumes "page_ok buf" and "\<forall>e \<in> set es. key_ok (fst e)"
    and "ss = slot_key_size K cfg + 4" and "internal_entries_start K + (i + length es) * ss \<le> PAGE_SIZE"
  shows "\<exists>buf'. write_internal_entries K cfg i es buf = Inr buf' \<and> page_ok buf'
    \<and> (\<forall>j n. j + n \<le> PAGE_SIZE \<longrightarrow> j + n \<le> internal_entries_start K + i * ss \<longrightarrow> slice j n buf' = slice j n buf)
    \<and> (\<forall>b. page_ok b \<longrightarrow> (\<forall>j n. internal_entries_start K + i * ss \<le> j \<longrightarrow> j + n \<le> PAGE_SIZE
         \<longrightarrow> slice j n b = slice j n buf') \<longrightarrow> read_internal_entries K cfg b i (length es) = Inr es)"
  using assms
proof (induction es arbitrary: i buf)
  case Nil
  then show ?case by simp
next
  case (Cons e es)
  obtain k c where e: "e = (k, c)" by (cases e)
  define sk where "sk = slot_key_size K cfg"
  define base where "base = internal_entries_start K + i * ss"
  have ss: "ss = sk + 4" using Cons.prems(3) by (simp add: sk_def)
  have next_base: "internal_entries_start K + Suc i * ss = base + ss" by (simp add: base_def)
  have "internal_entries_start K + (Suc i + length es) * ss \<le> PAGE_SIZE" using Cons.prems(4) by simp
  moreover have "base + ss \<le> internal_entries_start K + (Suc i + length es) * ss"
    by (simp add: base_def add_mult_distrib)
  ultimately have fits: "base + ss \<le> PAGE_SIZE"
    and fits': "internal_entries_start K + (Suc i + length es) * ss \<le> PAGE_SIZE" by simp_all
  have len: "length buf = PAGE_SIZE" using Cons.prems(1) by (simp add: page_ok_def)
  have slot: "try_slice base (base + sk) buf = (Inr (slice base sk buf) :: bytes result)"
    using fits len ss by (simp add: try_slice_def)
  have "key_ok k" "length (slice base sk buf) = slot_key_size K cfg"
    using Cons.prems(2) e fits len ss by (simp_all add: sk_def)
  from key_roundtrip [OF this] obtain s where
    s: "write_key K k cfg (slice base sk buf) = Inr s" "length s = sk" "read_key K s cfg = Inr k"
    by (auto simp: sk_def)
  define buf1 where "buf1 = blit (base + sk) (to_le c) (blit base s buf)"
  have p1: "page_ok buf1"
    using fits len ss s(2) by (simp add: buf1_def page_ok_def)
  have b1: "try_blit (base + sk) (to_le c) (blit base s buf) = (Inr buf1 :: page result)"
    using fits len ss s(2) by (simp add: try_blit_def buf1_def)
  have low: "slice j n buf1 = slice j n buf" if "j + n \<le> base" for j n
    using that fits len ss s(2) by (simp add: buf1_def slice_blit_other)
  have key: "slice base sk buf1 = s" "slice (base + sk) 4 buf1 = to_le c"
    using fits len ss s(2) by (simp_all add: buf1_def slice_blit_other slice_blit_same)
  from Cons.IH [OF p1 _ Cons.prems(3) fits'] Cons.prems(2) obtain buf' where
    w: "write_internal_entries K cfg (Suc i) es buf1 = Inr buf'" "page_ok buf'"
    and lo: "\<And>j n. j + n \<le> PAGE_SIZE \<Longrightarrow> j + n \<le> base + ss \<Longrightarrow> slice j n buf' = slice j n buf1"
    and rd: "\<And>b. page_ok b \<Longrightarrow> (\<forall>j n. base + ss \<le> j \<longrightarrow> j + n \<le> PAGE_SIZE \<longrightarrow> slice j n b = slice j n buf')
         \<Longrightarrow> read_internal_entries K cfg b (Suc i) (length es) = Inr es"
    unfolding next_base by auto
  have "write_internal_entries K cfg i (e # es) buf = Inr buf'"
    using slot s(1) b1 w(1) by (simp add: e Let_def base_def sk_def CHILD_PTR_SIZE_def Cons.prems(3))
  moreover have "read_internal_entries K cfg b i (length (e # es)) = Inr (e # es)"
    if b: "page_ok b" "\<forall>j n. base \<le> j \<longrightarrow> j + n \<le> PAGE_SIZE \<longrightarrow> slice j n b = slice j n buf'" for b
  proof -
    have "read_internal_entries K cfg b (Suc i) (length es) = Inr es" using b by (intro rd) auto
    moreover have "slice base sk b = s" "slice (base + sk) 4 b = to_le c"
      using b(2) lo key fits ss by simp_all
    moreover have "base + ss \<le> length b" using fits b(1) by (simp add: page_ok_def)
    ultimately show ?thesis
      using s(3) ss unfolding base_def sk_def by (simp add: e Let_def try_slice_def CHILD_PTR_SIZE_def)
  qed
  moreover have "slice j n buf' = slice j n buf" if "j + n \<le> base" for j n
    using low [OF that] lo [of j n] that fits by simp
  ultimately show ?case using w(2) unfolding base_def by (intro exI [of _ buf']) blast
qed

lemma leaf_entries_roundtrip:
  assumes "page_ok buf" and "\<forall>e \<in> set es. key_ok (fst e)"
    and "ss = slot_key_size K cfg + 6" and "leaf_entries_start K + (i + length es) * ss \<le> PAGE_SIZE"
  shows "\<exists>buf'. write_leaf_entries K cfg i es buf = Inr buf' \<and> page_ok buf'
    \<and> (\<forall>j n. j + n \<le> PAGE_SIZE \<longrightarrow> j + n \<le> leaf_entries_start K + i * ss \<longrightarrow> slice j n buf' = slice j n buf)
    \<and> (\<forall>b. page_ok b \<longrightarrow> (\<forall>j n. leaf_entries_start K + i * ss \<le> j \<longrightarrow> j + n \<le> PAGE_SIZE
         \<longrightarrow> slice j n b = slice j n buf') \<longrightarrow> read_leaf_entries K cfg b i (length es) = Inr es)"
  using assms
proof (induction es arbitrary: i buf)
  case Nil
  then show ?case by simp
next
  case (Cons e es)
  obtain k c d where e: "e = (k, c, d)" by (cases e)
  define sk where "sk = slot_key_size K cfg"
  define base where "base = leaf_entries_start K + i * ss"
  have ss: "ss = sk + 6" using Cons.prems(3) by (simp add: sk_def)
  have next_base: "leaf_entries_start K + Suc i * ss = base + ss" by (simp add: base_def)
  have "leaf_entries_start K + (Suc i + length es) * ss \<le> PAGE_SIZE" using Cons.prems(4) by simp
  moreover have "base + ss \<le> leaf_entries_start K + (Suc i + length es) * ss"
    by (simp add: base_def add_mult_distrib)
  ultimately have fits: "base + ss \<le> PAGE_SIZE"
    and fits': "leaf_entries_start K + (Suc i + length es) * ss \<le> PAGE_SIZE" by simp_all
  have len: "length buf = PAGE_SIZE" using Cons.prems(1) by (simp add: page_ok_def)
  have slot: "try_slice base (base + sk) buf = (Inr (slice base sk buf) :: bytes result)"
    using fits len ss by (simp add: try_slice_def)
  have "key_ok k" "length (slice base sk buf) = slot_key_size K cfg"
    using Cons.prems(2) e fits len ss by (simp_all add: sk_def)
  from key_roundtrip [OF this] obtain s where
    s: "write_key K k cfg (slice base sk buf) = Inr s" "length s = sk" "read_key K s cfg = Inr k"
    by (auto simp: sk_def)
  define buf1 where "buf1 = blit (base + sk + 4) (to_le d) (blit (base + sk) (to_le c) (blit base s buf))"
  have p1: "page_ok buf1"
    using fits len ss s(2) by (simp add: buf1_def page_ok_def)
  have b1: "bind_res (try_blit (base + sk) (to_le c) (blit base s buf))
      (\<lambda>buf. bind_res (try_blit (base + sk + 4) (to_le d) buf) f) = f buf1" for f :: "page \<Rightarrow> page result"
    using fits len ss s(2) by (simp add: try_blit_def buf1_def)
  have low: "slice j n buf1 = slice j n buf" if "j + n \<le> base" for j n
    using that fits len ss s(2) by (simp add: buf1_def slice_blit_other)
  have key: "slice base sk buf1 = s" "slice (base + sk) 4 buf1 = to_le c" "slice (base + sk + 4) 2 buf1 = to_le d"
    using fits len ss s(2) by (simp_all add: buf1_def slice_blit_other slice_blit_same)
  from Cons.IH [OF p1 _ Cons.prems(3) fits'] Cons.prems(2) obtain buf' where
    w: "write_leaf_entries K cfg (Suc i) es buf1 = Inr buf'" "page_ok buf'"
    and lo: "\<And>j n. j + n \<le> PAGE_SIZE \<Longrightarrow> j + n \<le> base + ss \<Longrightarrow> slice j n buf' = slice j n buf1"
    and rd: "\<And>b. page_ok b \<Longrightarrow> (\<forall>j n. base + ss \<le> j \<longrightarrow> j + n \<le> PAGE_SIZE \<longrightarrow> slice j n b = slice j n buf')
         \<Longrightarrow> read_leaf_entries K cfg b (Suc i) (length es) = Inr es"
    unfolding next_base by auto
  have "write_leaf_entries K cfg i (e # es) buf = Inr buf'"
    using slot s(1) b1 w(1) by (simp add: e Let_def base_def sk_def DATA_PTR_SIZE_def Cons.prems(3))
  moreover have "read_leaf_entries K cfg b i (length (e # es)) = Inr (e # es)"
    if b: "page_ok b" "\<forall>j n. base \<le> j \<longrightarrow> j + n \<le> PAGE_SIZE \<longrightarrow> slice j n b = slice j n buf'" for b
  proof -
    have "read_leaf_entries K cfg b (Suc i) (length es) = Inr es" using b by (intro rd) auto
    moreover have "slice base sk b = s" "slice (base + sk) 4 b = to_le c" "slice (base + sk + 4) 2 b = to_le d"
      using b(2) lo key fits ss by simp_all
    moreover have "base + ss \<le> length b" using fits b(1) by (simp add: page_ok_def)
    ultimately show ?thesis
      using s(3) ss unfolding base_def sk_def by (simp add: e Let_def try_slice_def DATA_PTR_SIZE_def)
  qed
  moreover have "slice j n buf' = slice j n buf" if "j + n \<le> base" for j n
    using low [OF that] lo [of j n] that fits by simp
  ultimately show ?case using w(2) unfolding base_def by (intro exI [of _ buf']) blast
qed


lemma internal_fits: "n \<le> internal_max_keys K cfg \<Longrightarrow>
  internal_entries_start K + n * (slot_key_size K cfg + 4) \<le> PAGE_SIZE"
proof -
  assume "n \<le> internal_max_keys K cfg"
  then have "n * (slot_key_size K cfg + 4) \<le> internal_max_keys K cfg * (slot_key_size K cfg + 4)" by (rule mult_le_mono1)
  also have "\<dots> \<le> 8154 - length cfg_bytes"
    using div_times_less_eq_dividend [of "8154 - length cfg_bytes" "slot_key_size K cfg + 4"]
    by (simp add: internal_max_keys_def meta_bytes node_consts Let_def)
  finally show ?thesis using meta_bytes by (simp add: internal_entries_start_def node_consts)
qed

lemma leaf_fits: "n \<le> leaf_max_entries K cfg \<Longrightarrow>
  leaf_entries_start K + n * (slot_key_size K cfg + 6) \<le> PAGE_SIZE"
proof -
  assume "n \<le> leaf_max_entries K cfg"
  then have "n * (slot_key_size K cfg + 6) \<le> leaf_max_entries K cfg * (slot_key_size K cfg + 6)" by (rule mult_le_mono1)
  also have "\<dots> \<le> 8150 - length cfg_bytes"
    using div_times_less_eq_dividend [of "8150 - length cfg_bytes" "slot_key_size K cfg + 6"]
    by (simp add: leaf_max_entries_def meta_bytes node_consts Let_def)
  finally show ?thesis using meta_bytes by (simp add: leaf_entries_start_def node_consts)
qed

lemma capacities:
  "10 \<le> internal_max_keys K cfg" "internal_max_keys K cfg < 10000"
  "10 \<le> leaf_max_entries K cfg" "leaf_max_entries K cfg < 10000"
proof -
  have "8152 div (260 + 4) \<le> (8154 - length cfg_bytes) div (slot_key_size K cfg + 4)"
    using div_le_mono [of 8152 "8154 - length cfg_bytes" 264]
      div_le_mono2 [of "slot_key_size K cfg + 4" 264 "8154 - length cfg_bytes"] slot_size meta_bytes(3) by simp
  then show "10 \<le> internal_max_keys K cfg"
    by (simp add: internal_max_keys_def meta_bytes node_consts Let_def)
  have "8148 div (260 + 6) \<le> (8150 - length cfg_bytes) div (slot_key_size K cfg + 6)"
    using div_le_mono [of 8148 "8150 - length cfg_bytes" 266]
      div_le_mono2 [of "slot_key_size K cfg + 6" 266 "8150 - length cfg_bytes"] slot_size meta_bytes(3) by simp
  then show "10 \<le> leaf_max_entries K cfg"
    by (simp add: leaf_max_entries_def meta_bytes node_consts Let_def)
  have "(8154 - length cfg_bytes) div (slot_key_size K cfg + 4) \<le> 8154"
    by (rule le_trans [OF div_le_dividend]) simp
  then show "internal_max_keys K cfg < 10000"
    by (simp add: internal_max_keys_def meta_bytes node_consts Let_def)
  have "(8150 - length cfg_bytes) div (slot_key_size K cfg + 6) \<le> 8150"
    by (rule le_trans [OF div_le_dividend]) simp
  then show "leaf_max_entries K cfg < 10000"
    by (simp add: leaf_max_entries_def meta_bytes node_consts Let_def)
qed

lemma internal_roundtrip:
  assumes "in_config n = cfg" and "in_num_keys n = word_of_nat (length (in_entries n))"
    and "length (in_entries n) \<le> internal_max_keys K cfg" and "\<forall>e \<in> set (in_entries n). key_ok (fst e)"
  shows "\<exists>buf. internal_to_bytes K n = Inr buf \<and> page_ok buf
    \<and> hd_page_type (header_read_from buf) = BTreeInternal
    \<and> internal_from_bytes K (stamp_checksum crc buf) = Inr n"
proof -
  define buf0 where "buf0 = header_write_to (header_new (in_page_id n) BTreeInternal) zero_page"
  define buf1 where
    "buf1 = blit 38 cfg_bytes (blit 34 (to_le (in_right_child n)) (blit 32 (to_le (in_num_keys n)) buf0))"
  have p0: "page_ok buf0" by (simp add: buf0_def)
  then have len: "length buf0 = 8192" by (simp add: page_ok_def PAGE_SIZE_def)
  then have p1: "page_ok buf1" using meta_bytes(3) by (simp add: buf1_def page_ok_def PAGE_SIZE_def)
  have start: "internal_entries_start K = 38 + length cfg_bytes"
    by (simp add: internal_entries_start_def node_consts meta_bytes)
  from internal_entries_roundtrip [OF p1 assms(4) refl, of 0] internal_fits [OF assms(3)] obtain buf where
    w: "write_internal_entries K cfg 0 (in_entries n) buf1 = Inr buf" "page_ok buf"
    and lo: "\<And>j m. j + m \<le> 38 + length cfg_bytes \<Longrightarrow> slice j m buf = slice j m buf1"
    and rd: "\<And>b. page_ok b \<Longrightarrow> (\<forall>j m. 38 + length cfg_bytes \<le> j \<longrightarrow> j + m \<le> PAGE_SIZE \<longrightarrow> slice j m b = slice j m buf)
         \<Longrightarrow> read_internal_entries K cfg b 0 (length (in_entries n)) = Inr (in_entries n)"
    using meta_bytes(3) by (auto simp: start PAGE_SIZE_def)
  have to: "internal_to_bytes K n = Inr buf"
    using w(1) len meta_bytes(3) write_node_cfg [of 38 "blit 34 (to_le (in_right_child n)) (blit 32 (to_le (in_num_keys n)) buf0)"]
    by (simp add: internal_to_bytes_def Let_def buf0_def [symmetric] buf1_def assms(1) node_consts)
  have hdr: "header_read_from buf = header_new (in_page_id n) BTreeInternal"
  proof -
    have "slice 0 32 buf = slice 0 32 buf0"
      using lo [of 0 32] len meta_bytes(3) by (simp add: buf1_def slice_blit_other)
    then show ?thesis
      using header_read_slice [of buf buf0] w(2) p0 header_read_write [OF page_ok_zero]
      by (simp add: buf0_def)
  qed
  define st where "st = stamp_checksum crc buf"
  have st: "page_ok st" "\<And>j m. 32 \<le> j \<Longrightarrow> j + m \<le> PAGE_SIZE \<Longrightarrow> slice j m st = slice j m buf"
    using w(2) by (simp_all add: st_def slice_stamp_body)
  have fields: "slice 32 2 st = to_le (in_num_keys n)" "slice 34 4 st = to_le (in_right_child n)"
    "slice 38 (length cfg_bytes) st = cfg_bytes"
    using lo [of 32 2] lo [of 34 4] lo [of 38 "length cfg_bytes"] st(2) len meta_bytes(3)
    by (simp_all add: buf1_def slice_blit_other slice_blit_same PAGE_SIZE_def)
  have cfg: "read_node_config K st 38 = cfg"
    using read_node_cfg [of 38 st] fields(3) st(1) meta_bytes(3) by (simp add: page_ok_def PAGE_SIZE_def)
  have num: "unat (in_num_keys n) = length (in_entries n)"
    using assms(2,3) capacities(2) by (simp add: unat_of_nat_small)
  have "read_internal_entries K cfg st 0 (length (in_entries n)) = Inr (in_entries n)"
    using st meta_bytes(3) by (intro rd) auto
  moreover have "hd_page_id (header_read_from st) = in_page_id n"
    using header_read_stamp [OF w(2)] hdr by (simp add: st_def header_new_def)
  ultimately have "internal_from_bytes K st = Inr n"
    using fields cfg num assms(1) by (simp add: internal_from_bytes_def Let_def node_consts)
  then show ?thesis using to w(2) hdr by (simp add: st_def header_new_def)
qed

lemma leaf_roundtrip:
  assumes "ln_config n = cfg" and "ln_num_entries n = word_of_nat (length (ln_entries n))"
    and "length (ln_entries n) \<le> leaf_max_entries K cfg" and "\<forall>e \<in> set (ln_entries n). key_ok (fst e)"
  shows "\<exists>buf. leaf_to_bytes K n = Inr buf \<and> page_ok buf
    \<and> hd_page_type (header_read_from buf) = BTreeLeaf
    \<and> leaf_from_bytes K (stamp_checksum crc buf) = Inr n"
proof -
  define buf0 where "buf0 = header_write_to (header_new (ln_page_id n) BTreeLeaf) zero_page"
  define buf1 where
    "buf1 = blit 42 cfg_bytes (blit 38 (to_le (ln_prev_leaf n)) (blit 34 (to_le (ln_next_leaf n))
       (blit 32 (to_le (ln_num_entries n)) buf0)))"
  have p0: "page_ok buf0" by (simp add: buf0_def)
  then have len: "length buf0 = 8192" by (simp add: page_ok_def PAGE_SIZE_def)
  then have p1: "page_ok buf1" using meta_bytes(3) by (simp add: buf1_def page_ok_def PAGE_SIZE_def)
  have start: "leaf_entries_start K = 42 + length cfg_bytes"
    by (simp add: leaf_entries_start_def node_consts meta_bytes)
  from leaf_entries_roundtrip [OF p1 assms(4) refl, of 0] leaf_fits [OF assms(3)] obtain buf where
    w: "write_leaf_entries K cfg 0 (ln_entries n) buf1 = Inr buf" "page_ok buf"
    and lo: "\<And>j m. j + m \<le> 42 + length cfg_bytes \<Longrightarrow> slice j m buf = slice j m buf1"
    and rd: "\<And>b. page_ok b \<Longrightarrow> (\<forall>j m. 42 + length cfg_bytes \<le> j \<longrightarrow> j + m \<le> PAGE_SIZE \<longrightarrow> slice j m b = slice j m buf)
         \<Longrightarrow> read_leaf_entries K cfg b 0 (length (ln_entries n)) = Inr (ln_entries n)"
    using meta_bytes(3) by (auto simp: start PAGE_SIZE_def)
  have to: "leaf_to_bytes K n = Inr buf"
    using w(1) len meta_bytes(3) write_node_cfg [of 42 "blit 38 (to_le (ln_prev_leaf n)) (blit 34 (to_le (ln_next_leaf n))
        (blit 32 (to_le (ln_num_entries n)) buf0))"]
    by (simp add: leaf_to_bytes_def Let_def buf0_def [symmetric] buf1_def assms(1) node_consts)
  have hdr: "header_read_from buf = header_new (ln_page_id n) BTreeLeaf"
  proof -
    have "slice 0 32 buf = slice 0 32 buf0"
      using lo [of 0 32] len meta_bytes(3) by (simp add: buf1_def slice_blit_other)
    then show ?thesis
      using header_read_slice [of buf buf0] w(2) p0 header_read_write [OF page_ok_zero]
      by (simp add: buf0_def)
  qed
  define st where "st = stamp_checksum crc buf"
  have st: "page_ok st" "\<And>j m. 32 \<le> j \<Longrightarrow> j + m \<le> PAGE_SIZE \<Longrightarrow> slice j m st = slice j m buf"
    using w(2) by (simp_all add: st_def slice_stamp_body)
  have fields: "slice 32 2 st = to_le (ln_num_entries n)" "slice 34 4 st = to_le (ln_next_leaf n)"
    "slice 38 4 st = to_le (ln_prev_leaf n)" "slice 42 (length cfg_bytes) st = cfg_bytes"
    using lo [of 32 2] lo [of 34 4] lo [of 38 4] lo [of 42 "length cfg_bytes"] st(2) len meta_bytes(3)
    by (simp_all add: buf1_def slice_blit_other slice_blit_same PAGE_SIZE_def)
  have cfg: "read_node_config K st 42 = cfg"
    using read_node_cfg [of 42 st] fields(4) st(1) meta_bytes(3) by (simp add: page_ok_def PAGE_SIZE_def)
  have num: "unat (ln_num_entries n) = length (ln_entries n)"
    using assms(2,3) capacities(4) by (simp add: unat_of_nat_small)
  have "read_leaf_entries K cfg st 0 (length (ln_entries n)) = Inr (ln_entries n)"
    using st meta_bytes(3) by (intro rd) auto
  moreover have "hd_page_id (header_read_from st) = ln_page_id n"
    using header_read_stamp [OF w(2)] hdr by (simp add: st_def header_new_def)
  ultimately have "leaf_from_bytes K st = Inr n"
    using fields cfg num assms(1) by (simp add: leaf_from_bytes_def Let_def node_consts)
  then show ?thesis using to w(2) hdr by (simp add: st_def header_new_def)
qed

end


interpretation uuid_keys: key_codec uuid_key "()" "\<lambda>_. True" "[]"
  by unfold_locales
    (auto simp: uuid_key_def UUID_KEY_SIZE_def try_blit_def try_slice_def blit_def slice_blit_same
      slice_def)

text \<open>Variable keys: any maximal length up to \<^verbatim>\<open>VAR_KEY_MAX_SIZE\<close>; the secondary indexes use 160.\<close>

definition VAR_KEY_MAX_SIZE :: nat where "VAR_KEY_MAX_SIZE = 256"

locale var_config =
  fixes cfg :: u16
  assumes cfg_max: "unat cfg \<le> VAR_KEY_MAX_SIZE"

sublocale var_config \<subseteq> key_codec var_key cfg "\<lambda>k. length k \<le> unat cfg" "to_le cfg"
proof unfold_locales
  fix k :: bytes and slot :: bytes
  assume k: "length k \<le> unat cfg" and slot: "length slot = slot_key_size var_key cfg"
  have len: "length slot = 2 + unat cfg" using slot by (simp add: var_key_def VAR_LEN_PREFIX_def)
  have u: "unat (word_of_nat (length k) :: u16) = length k"
    using k cfg_max by (simp add: unat_of_nat_small VAR_KEY_MAX_SIZE_def)
  define l where "l = to_le (word_of_nat (length k) :: u16)"
  have ll: "length l = 2" by (simp add: l_def)
  define s where "s = blit 2 k (blit 0 l slot)"
  have "write_key var_key k cfg slot = Inr s"
    using len k ll by (simp add: var_key_def try_blit_def s_def VAR_LEN_PREFIX_def l_def [symmetric])
  moreover have "length s = slot_key_size var_key cfg" using len k ll slot by (simp add: s_def)
  moreover have "read_key var_key s cfg = Inr k"
  proof -
    have "slice 0 2 s = l" using len k ll by (simp add: s_def slice_blit_other slice_blit_same)
    moreover have "slice 2 (length k) s = k" using len k ll by (simp add: s_def slice_blit_same)
    moreover have "2 + length k \<le> length s" using len k ll by (simp add: s_def)
    ultimately show ?thesis using u by (simp add: var_key_def try_slice_def VAR_LEN_PREFIX_def l_def)
  qed
  ultimately show "\<exists>s. write_key var_key k cfg slot = Inr s \<and> length s = slot_key_size var_key cfg
      \<and> read_key var_key s cfg = Inr k" by blast
next
  show "slot_key_size var_key cfg \<le> 260"
    using cfg_max by (simp add: var_key_def VAR_LEN_PREFIX_def VAR_KEY_MAX_SIZE_def)
qed (simp_all add: var_key_def)

definition INDEX_MAX_KEY_SIZE :: u16 where "INDEX_MAX_KEY_SIZE = 160"

interpretation index_keys: var_config INDEX_MAX_KEY_SIZE
  by unfold_locales (simp add: INDEX_MAX_KEY_SIZE_def VAR_KEY_MAX_SIZE_def)

section \<open>Entries in key order\<close>

text \<open>The entries of a node are a sorted association list; the node operations are those of the map.\<close>

lemma bt_insert_vec:
  assumes "bt_ok es" and "k \<notin> fst ` set es"
  shows "vec_insert (partition_point (\<lambda>e. fst e < k) es) (k, v) es = bt_insert k v es"
  using assms
proof (induction es)
  case Nil
  then show ?case by (simp add: vec_insert_def partition_point_def)
next
  case (Cons e es)
  then show ?case by (cases e) (auto simp: vec_insert_def partition_point_def)
qed

lemma partition_point_split:
  assumes "\<forall>e \<in> set ls. p e" and "rs = [] \<or> \<not> p (hd rs)"
  shows "partition_point p (ls @ rs) = length ls"
proof (cases rs)
  case Nil
  have "takeWhile p ls = ls" using assms(1) by simp
  then show ?thesis by (simp only: partition_point_def Nil append_Nil2)
next
  case (Cons e es)
  then show ?thesis using assms by (simp add: partition_point_def takeWhile_append2)
qed

lemma binary_search_found:
  assumes "bt_ok es" and "(k, v) \<in> set es"
  shows "\<exists>ls rs. es = ls @ (k, v) # rs \<and> binary_search fst k es = Inr (length ls)"
proof -
  obtain ls rs where es: "es = ls @ (k, v) # rs" using assms(2) by (meson split_list)
  then have "\<forall>e \<in> set ls. fst e < k" using assms(1) by (auto simp: bt_ok_def sorted_wrt_append)
  then have "partition_point (\<lambda>e. fst e < k) es = length ls"
    unfolding es by (intro partition_point_split) simp_all
  then show ?thesis using es by (auto simp: binary_search_def Let_def)
qed

lemma binary_search_missing:
  assumes "k \<notin> fst ` set es"
  shows "\<exists>i. binary_search fst k es = Inl i"
proof -
  have "fst (es ! i) \<noteq> k" if "i < length es" for i using assms nth_mem [OF that] by auto
  then show ?thesis by (auto simp: binary_search_def Let_def)
qed

lemma bt_remove_split:
  assumes "bt_ok (ls @ (k, v) # rs)"
  shows "bt_remove k (ls @ (k, v) # rs) = ls @ rs"
proof -
  have "k \<notin> fst ` set ls" "k \<notin> fst ` set rs" using bt_ok_distinct [OF assms] by auto
  then have "filter (\<lambda>e. fst e \<noteq> k) ls = ls" "filter (\<lambda>e. fst e \<noteq> k) rs = rs"
    by (metis (mono_tags, lifting) filter_True image_eqI)+
  then show ?thesis by (simp add: bt_remove_def)
qed

end
