(* ===== verification/Btree_Ops.thy ===== *)
theory Btree_Ops
  imports Btree_Node
begin

text \<open>
  The B+tree in its own page file: \<^verbatim>\<open>src/src/btree/mod.rs\<close>, \<^verbatim>\<open>src/src/btree/ops.rs\<close> and
  \<^verbatim>\<open>src/src/btree/cursor.rs\<close>. Every operation takes the key implementation \<open>K\<close> and the CRC-32 of
  \<^verbatim>\<open>crc32fast\<close>. A \<^verbatim>\<open>DescentPath\<close> is a stack whose top is the head of the list. The loops that
  follow page references are partial functions: a file with a cycle of references gives \<open>None\<close>.
\<close>

section \<open>The tree and its metadata\<close>

record 'c btree_meta =
  bm_root_page_id :: u32
  bm_height :: u32
  bm_num_entries :: u64
  bm_config :: 'c

record 'c btree =
  tr_meta_page_id :: u32
  tr_pm :: page_manager
  tr_meta :: "'c btree_meta"

definition META_PAGE_ID :: u32 where "META_PAGE_ID = 1"

definition write_meta_to_buf :: "('k, 'c) key_ops \<Rightarrow> 'c btree_meta \<Rightarrow> page \<Rightarrow> page" where
  "write_meta_to_buf K meta buf =
     write_tree_config K (bm_config meta)
       (blit 40 (to_le (bm_num_entries meta))
         (blit 36 (to_le (bm_height meta)) (blit 32 (to_le (bm_root_page_id meta)) buf)))"

definition read_meta_from_buf :: "('k, 'c) key_ops \<Rightarrow> page \<Rightarrow> 'c btree_meta" where
  "read_meta_from_buf K buf =
     \<lparr>bm_root_page_id = of_le (slice 32 4 buf), bm_height = of_le (slice 36 4 buf),
      bm_num_entries = of_le (slice 40 8 buf), bm_config = read_tree_config K buf\<rparr>"

text \<open>Operations of the page manager on \<^verbatim>\<open>self.pm\<close>, results that need no state, and field updates.\<close>

definition on_pm :: "(page_manager, 'a) op \<Rightarrow> ('c btree, 'a) op" where
  "on_pm f bt = (let (pm, r) = f (tr_pm bt) in (bt\<lparr>tr_pm := pm\<rparr>, r))"

definition pure_op :: "('s \<Rightarrow> 'a result) \<Rightarrow> ('s, 'a) op" where
  "pure_op f s = (s, f s)"

definition modify_meta :: "('c btree_meta \<Rightarrow> 'c btree_meta) \<Rightarrow> ('c btree, unit) op" where
  "modify_meta f bt = (bt\<lparr>tr_meta := f (tr_meta bt)\<rparr>, Inr ())"

definition flush_meta :: "('k, 'c) key_ops \<Rightarrow> (bytes \<Rightarrow> u32) \<Rightarrow> ('c btree, unit) op" where
  "flush_meta K crc bt =
     (let buf = header_write_to (header_new (tr_meta_page_id bt) BTreeInternal) zero_page;
          buf = write_meta_to_buf K (tr_meta bt) buf
      in on_pm (write_page crc (tr_meta_page_id bt) buf) bt)"

definition save_internal ::
  "('k, 'c) key_ops \<Rightarrow> (bytes \<Rightarrow> u32) \<Rightarrow> ('k, 'c) internal_node \<Rightarrow> ('c btree, unit) op" where
  "save_internal K crc n =
     bind_op (pure_op (\<lambda>_. internal_to_bytes K n)) (\<lambda>buf. on_pm (write_page crc (in_page_id n) buf))"

definition save_leaf ::
  "('k, 'c) key_ops \<Rightarrow> (bytes \<Rightarrow> u32) \<Rightarrow> ('k, 'c) leaf_node \<Rightarrow> ('c btree, unit) op" where
  "save_leaf K crc n =
     bind_op (pure_op (\<lambda>_. leaf_to_bytes K n)) (\<lambda>buf. on_pm (write_page crc (ln_page_id n) buf))"

definition tree_create_with ::
  "('k, 'c) key_ops \<Rightarrow> (bytes \<Rightarrow> u32) \<Rightarrow> 'c \<Rightarrow> bytes \<Rightarrow> page_manager \<times> 'c btree result" where
  "tree_create_with K crc cfg f =
     bind_op (allocate_page crc) (\<lambda>meta_page_id.
     bind_op (allocate_page crc) (\<lambda>root_page_id.
     bind_op (pure_op (\<lambda>_. leaf_to_bytes K (leaf_new root_page_id cfg))) (\<lambda>root_buf.
     bind_op (write_page crc root_page_id root_buf) (\<lambda>_.
       let meta = \<lparr>bm_root_page_id = root_page_id, bm_height = 1, bm_num_entries = 0, bm_config = cfg\<rparr>;
           meta_buf = header_write_to (header_new meta_page_id BTreeInternal) zero_page;
           meta_buf = write_meta_to_buf K meta meta_buf
       in bind_op (write_page crc meta_page_id meta_buf) (\<lambda>_ pm.
            (pm, Inr \<lparr>tr_meta_page_id = meta_page_id, tr_pm = pm, tr_meta = meta\<rparr>))))))
     (pm_open f)"

definition tree_open :: "('k, 'c) key_ops \<Rightarrow> (bytes \<Rightarrow> u32) \<Rightarrow> bytes \<Rightarrow> 'c btree result" where
  "tree_open K crc f =
     (let pm = pm_open f in
      bind_res (read_page crc META_PAGE_ID pm) (\<lambda>meta_buf.
        Inr \<lparr>tr_meta_page_id = META_PAGE_ID, tr_pm = pm, tr_meta = read_meta_from_buf K meta_buf\<rparr>))"

section \<open>Search\<close>

datatype ('k, 'c) node_ref = Internal "('k, 'c) internal_node" | Leaf "('k, 'c) leaf_node"

definition read_internal ::
  "('k, 'c) key_ops \<Rightarrow> (bytes \<Rightarrow> u32) \<Rightarrow> u32 \<Rightarrow> 'c btree \<Rightarrow> ('k, 'c) internal_node result" where
  "read_internal K crc page_id bt =
     bind_res (read_page crc page_id (tr_pm bt)) (\<lambda>buf. internal_from_bytes K buf)"

definition read_leaf ::
  "('k, 'c) key_ops \<Rightarrow> (bytes \<Rightarrow> u32) \<Rightarrow> u32 \<Rightarrow> 'c btree \<Rightarrow> ('k, 'c) leaf_node result" where
  "read_leaf K crc page_id bt =
     bind_res (read_page crc page_id (tr_pm bt)) (\<lambda>buf. leaf_from_bytes K buf)"

definition load_node ::
  "('k, 'c) key_ops \<Rightarrow> (bytes \<Rightarrow> u32) \<Rightarrow> u32 \<Rightarrow> 'c btree \<Rightarrow> ('k, 'c) node_ref result" where
  "load_node K crc page_id bt =
     bind_res (read_page crc page_id (tr_pm bt)) (\<lambda>buf.
       case hd_page_type (header_read_from buf) of
         BTreeInternal \<Rightarrow> bind_res (internal_from_bytes K buf) (\<lambda>n. Inr (Internal n))
       | BTreeLeaf \<Rightarrow> bind_res (leaf_from_bytes K buf) (\<lambda>n. Inr (Leaf n))
       | _ \<Rightarrow> Inl (Err (PageNotFound page_id)))"

definition find_child_index :: "('k::linorder, 'c) internal_node \<Rightarrow> 'k \<Rightarrow> nat" where
  "find_child_index n key = partition_point (\<lambda>e. fst e \<le> key) (in_entries n)"

definition get_child_at :: "('k, 'c) internal_node \<Rightarrow> nat \<Rightarrow> u32" where
  "get_child_at n child_idx =
     (if child_idx < length (in_entries n) then snd (in_entries n ! child_idx) else in_right_child n)"

partial_function (option) find_leaf_from ::
  "('k::linorder, 'c) key_ops \<Rightarrow> (bytes \<Rightarrow> u32) \<Rightarrow> 'k \<Rightarrow> 'c btree \<Rightarrow> u32 \<Rightarrow> ('k, 'c) leaf_node result option"
where
  "find_leaf_from K crc key bt current =
     (case load_node K crc current bt of
        Inl e \<Rightarrow> Some (Inl e)
      | Inr (Leaf leaf) \<Rightarrow> Some (Inr leaf)
      | Inr (Internal n) \<Rightarrow> find_leaf_from K crc key bt (find_child n key))"

definition find_leaf ::
  "('k::linorder, 'c) key_ops \<Rightarrow> (bytes \<Rightarrow> u32) \<Rightarrow> 'k \<Rightarrow> 'c btree \<Rightarrow> ('k, 'c) leaf_node result option" where
  "find_leaf K crc key bt = find_leaf_from K crc key bt (bm_root_page_id (tr_meta bt))"

type_synonym descent_path = "(u32 \<times> nat) list"

partial_function (option) find_path_from ::
  "('k::linorder, 'c) key_ops \<Rightarrow> (bytes \<Rightarrow> u32) \<Rightarrow> 'k \<Rightarrow> 'c btree \<Rightarrow> descent_path \<Rightarrow> u32
     \<Rightarrow> (('k, 'c) leaf_node \<times> descent_path) result option"
where
  "find_path_from K crc key bt path current =
     (case load_node K crc current bt of
        Inl e \<Rightarrow> Some (Inl e)
      | Inr (Leaf leaf) \<Rightarrow> Some (Inr (leaf, path))
      | Inr (Internal n) \<Rightarrow>
          (let child_idx = find_child_index n key;
               child_page = get_child_at n child_idx
           in find_path_from K crc key bt ((current, child_idx) # path) child_page))"

definition find_leaf_with_path ::
  "('k::linorder, 'c) key_ops \<Rightarrow> (bytes \<Rightarrow> u32) \<Rightarrow> 'k \<Rightarrow> 'c btree
     \<Rightarrow> (('k, 'c) leaf_node \<times> descent_path) result option" where
  "find_leaf_with_path K crc key bt = find_path_from K crc key bt [] (bm_root_page_id (tr_meta bt))"

definition tree_search ::
  "('k::linorder, 'c) key_ops \<Rightarrow> (bytes \<Rightarrow> u32) \<Rightarrow> 'k \<Rightarrow> 'c btree \<Rightarrow> (u32 \<times> u16) option result option" where
  "tree_search K crc key bt =
     (case find_leaf K crc key bt of
        None \<Rightarrow> None
      | Some (Inl e) \<Rightarrow> Some (Inl e)
      | Some (Inr leaf) \<Rightarrow>
          (case leaf_search leaf key of
             Some idx \<Rightarrow> Some (Inr (Some (snd (ln_entries leaf ! idx))))
           | None \<Rightarrow> Some (Inr None)))"

section \<open>Insertion\<close>

definition split_leaf ::
  "(bytes \<Rightarrow> u32) \<Rightarrow> ('k, 'c) leaf_node \<Rightarrow> ('c btree, ('k, 'c) leaf_node \<times> ('k, 'c) leaf_node \<times> 'k) op" where
  "split_leaf crc full_leaf =
     (let mid = length (ln_entries full_leaf) div 2;
          right_entries = drop mid (ln_entries full_leaf);
          full_leaf = full_leaf\<lparr>ln_entries := take mid (ln_entries full_leaf)\<rparr>;
          full_leaf = full_leaf\<lparr>ln_num_entries := word_of_nat (length (ln_entries full_leaf))\<rparr>
      in bind_op (on_pm (allocate_page crc)) (\<lambda>right_page_id.
           let right = leaf_new right_page_id (ln_config full_leaf);
               right = right\<lparr>ln_entries := right_entries\<rparr>;
               right = right\<lparr>ln_num_entries := word_of_nat (length (ln_entries right))\<rparr>;
               right = right\<lparr>ln_next_leaf := ln_next_leaf full_leaf\<rparr>;
               full_leaf = full_leaf\<lparr>ln_next_leaf := right_page_id\<rparr>;
               right = right\<lparr>ln_prev_leaf := ln_page_id full_leaf\<rparr>
           in case ln_entries right of
                [] \<Rightarrow> panic_op
              | e # _ \<Rightarrow> ret_op (full_leaf, right, fst e)))"

definition split_internal ::
  "(bytes \<Rightarrow> u32) \<Rightarrow> ('k, 'c) internal_node
     \<Rightarrow> ('c btree, ('k, 'c) internal_node \<times> ('k, 'c) internal_node \<times> 'k) op" where
  "split_internal crc full_node =
     (let mid = length (in_entries full_node) div 2 in
      if mid < length (in_entries full_node) then
        (let promoted_key = fst (in_entries full_node ! mid);
             right_entries = drop (mid + 1) (in_entries full_node);
             mid_entry = in_entries full_node ! mid;
             full_node = full_node\<lparr>in_entries := take mid (in_entries full_node)\<rparr>;
             full_node = full_node\<lparr>in_num_keys := word_of_nat (length (in_entries full_node))\<rparr>
         in bind_op (on_pm (allocate_page crc)) (\<lambda>right_page_id.
              let right = internal_new right_page_id (in_config full_node);
                  right = right\<lparr>in_entries := right_entries\<rparr>;
                  right = right\<lparr>in_num_keys := word_of_nat (length (in_entries right))\<rparr>;
                  right = right\<lparr>in_right_child := in_right_child full_node\<rparr>;
                  full_node = full_node\<lparr>in_right_child := snd mid_entry\<rparr>
              in ret_op (full_node, right, promoted_key)))
      else panic_op)"

fun propagate_split ::
  "('k::linorder, 'c) key_ops \<Rightarrow> (bytes \<Rightarrow> u32) \<Rightarrow> descent_path \<Rightarrow> 'k \<Rightarrow> u32 \<Rightarrow> ('c btree, unit) op" where
  "propagate_split K crc ((parent_page_id, _) # path) promoted_key right_page_id =
     bind_op (pure_op (read_internal K crc parent_page_id)) (\<lambda>parent.
       let parent = internal_insert_entry promoted_key right_page_id parent in
       if \<not> internal_is_overfull K parent then save_internal K crc parent
       else
         bind_op (split_internal crc parent) (\<lambda>(left_int, right_int, new_promoted).
         bind_op (save_internal K crc left_int) (\<lambda>_.
         bind_op (save_internal K crc right_int) (\<lambda>_.
           propagate_split K crc path new_promoted (in_page_id right_int)))))"
| "propagate_split K crc [] promoted_key right_page_id =
     bind_op (on_pm (allocate_page crc)) (\<lambda>new_root_page_id bt.
       let new_root = internal_new new_root_page_id (bm_config (tr_meta bt));
           new_root = new_root\<lparr>in_entries := [(promoted_key, bm_root_page_id (tr_meta bt))],
                               in_num_keys := 1, in_right_child := right_page_id\<rparr>
       in bind_op (save_internal K crc new_root) (\<lambda>_.
            modify_meta (\<lambda>m. m\<lparr>bm_root_page_id := new_root_page_id, bm_height := bm_height m + 1\<rparr>)) bt)"

definition relink_next ::
  "('k, 'c) key_ops \<Rightarrow> (bytes \<Rightarrow> u32) \<Rightarrow> u32 \<Rightarrow> u32 \<Rightarrow> ('c btree, unit) op" where
  "relink_next K crc next_leaf prev =
     (if next_leaf \<noteq> 0 then
        bind_op (pure_op (read_leaf K crc next_leaf)) (\<lambda>next.
          save_leaf K crc (next\<lparr>ln_prev_leaf := prev\<rparr>))
      else ret_op ())"

definition insert_into_leaf ::
  "('k::linorder, 'c) key_ops \<Rightarrow> (bytes \<Rightarrow> u32) \<Rightarrow> 'k \<Rightarrow> u32 \<Rightarrow> u16 \<Rightarrow> ('k, 'c) leaf_node \<Rightarrow> descent_path
     \<Rightarrow> ('c btree, unit) op" where
  "insert_into_leaf K crc key page_id slot_id leaf path =
     (if leaf_search leaf key \<noteq> None then fail_op (duplicate_key_error K key)
      else
        (let leaf = leaf_insert_entry (key, page_id, slot_id) leaf in
         if \<not> leaf_is_overfull K leaf then
           bind_op (save_leaf K crc leaf) (\<lambda>_.
           bind_op (modify_meta (\<lambda>m. m\<lparr>bm_num_entries := bm_num_entries m + 1\<rparr>)) (\<lambda>_.
             flush_meta K crc))
         else
           bind_op (split_leaf crc leaf) (\<lambda>(left, right, promoted_key).
           bind_op (save_leaf K crc left) (\<lambda>_.
           bind_op (save_leaf K crc right) (\<lambda>_.
           bind_op (relink_next K crc (ln_next_leaf right) (ln_page_id right)) (\<lambda>_.
           bind_op (propagate_split K crc path promoted_key (ln_page_id right)) (\<lambda>_.
           bind_op (modify_meta (\<lambda>m. m\<lparr>bm_num_entries := bm_num_entries m + 1\<rparr>)) (\<lambda>_.
             flush_meta K crc))))))))"

definition tree_insert ::
  "('k::linorder, 'c) key_ops \<Rightarrow> (bytes \<Rightarrow> u32) \<Rightarrow> 'k \<Rightarrow> u32 \<Rightarrow> u16 \<Rightarrow> 'c btree
     \<Rightarrow> ('c btree \<times> unit result) option" where
  "tree_insert K crc key page_id slot_id bt =
     (case find_leaf_with_path K crc key bt of
        None \<Rightarrow> None
      | Some (Inl e) \<Rightarrow> Some (bt, Inl e)
      | Some (Inr (leaf, path)) \<Rightarrow> Some (insert_into_leaf K crc key page_id slot_id leaf path bt))"


section \<open>Deletion\<close>

definition set_entry_key :: "nat \<Rightarrow> 'k \<Rightarrow> ('k, 'c) internal_node \<Rightarrow> ('k, 'c) internal_node" where
  "set_entry_key i k n = n\<lparr>in_entries := (in_entries n)[i := (k, snd (in_entries n ! i))]\<rparr>"

definition redistribute_leaf_from_left ::
  "('k::linorder, 'c) key_ops \<Rightarrow> (bytes \<Rightarrow> u32) \<Rightarrow> ('k, 'c) leaf_node \<Rightarrow> ('k, 'c) leaf_node
     \<Rightarrow> ('k, 'c) internal_node \<Rightarrow> nat \<Rightarrow> ('c btree, unit) op" where
  "redistribute_leaf_from_left K crc left leaf parent child_idx =
     (if ln_entries left = [] then fail_op (Corruption EmptyLeftLeaf)
      else
        (let moved = last (ln_entries left);
             left = left\<lparr>ln_entries := butlast (ln_entries left), ln_num_entries := ln_num_entries left - 1\<rparr>;
             leaf = leaf_insert_entry moved leaf;
             sep_idx = child_idx - 1
         in if sep_idx < length (in_entries parent) then
              (let parent = set_entry_key sep_idx (fst (hd (ln_entries leaf))) parent
               in bind_op (save_leaf K crc left) (\<lambda>_.
                  bind_op (save_leaf K crc leaf) (\<lambda>_.
                    save_internal K crc parent)))
            else panic_op))"

definition redistribute_leaf_from_right ::
  "('k::linorder, 'c) key_ops \<Rightarrow> (bytes \<Rightarrow> u32) \<Rightarrow> ('k, 'c) leaf_node \<Rightarrow> ('k, 'c) leaf_node
     \<Rightarrow> ('k, 'c) internal_node \<Rightarrow> nat \<Rightarrow> ('c btree, unit) op" where
  "redistribute_leaf_from_right K crc leaf right parent child_idx =
     (case ln_entries right of
        [] \<Rightarrow> panic_op
      | moved # rest \<Rightarrow>
          (let right = right\<lparr>ln_entries := rest, ln_num_entries := ln_num_entries right - 1\<rparr>;
               leaf = leaf_insert_entry moved leaf
           in if child_idx < length (in_entries parent) \<and> rest = [] then panic_op
              else
                (let parent = (if child_idx < length (in_entries parent)
                               then set_entry_key child_idx (fst (hd rest)) parent else parent)
                 in bind_op (save_leaf K crc leaf) (\<lambda>_.
                    bind_op (save_leaf K crc right) (\<lambda>_.
                      save_internal K crc parent)))))"

definition redistribute_internal_from_left ::
  "('k, 'c) key_ops \<Rightarrow> (bytes \<Rightarrow> u32) \<Rightarrow> ('k, 'c) internal_node \<Rightarrow> ('k, 'c) internal_node
     \<Rightarrow> ('k, 'c) internal_node \<Rightarrow> nat \<Rightarrow> ('c btree, unit) op" where
  "redistribute_internal_from_left K crc left node gp child_idx =
     (let sep_idx = child_idx - 1 in
      if sep_idx < length (in_entries gp) then
        (let separator_key = fst (in_entries gp ! sep_idx);
             node = node\<lparr>in_entries := (separator_key, in_right_child left) # in_entries node,
                         in_num_keys := in_num_keys node + 1\<rparr>
         in if in_entries left = [] then fail_op (Corruption EmptyLeftInternal)
            else
              (let moved_up = last (in_entries left);
                   left = left\<lparr>in_entries := butlast (in_entries left),
                               in_num_keys := in_num_keys left - 1, in_right_child := snd moved_up\<rparr>;
                   gp = set_entry_key sep_idx (fst moved_up) gp
               in bind_op (save_internal K crc left) (\<lambda>_.
                  bind_op (save_internal K crc node) (\<lambda>_.
                    save_internal K crc gp))))
      else panic_op)"

definition redistribute_internal_from_right ::
  "('k, 'c) key_ops \<Rightarrow> (bytes \<Rightarrow> u32) \<Rightarrow> ('k, 'c) internal_node \<Rightarrow> ('k, 'c) internal_node
     \<Rightarrow> ('k, 'c) internal_node \<Rightarrow> nat \<Rightarrow> ('c btree, unit) op" where
  "redistribute_internal_from_right K crc node right gp child_idx =
     (let sep_idx = child_idx in
      if sep_idx \<ge> length (in_entries gp) then ret_op ()
      else
        (let separator_key = fst (in_entries gp ! sep_idx);
             node = node\<lparr>in_entries := in_entries node @ [(separator_key, in_right_child node)],
                         in_num_keys := in_num_keys node + 1\<rparr>
         in case in_entries right of
              [] \<Rightarrow> panic_op
            | moved_up # rest \<Rightarrow>
                (let right = right\<lparr>in_entries := rest, in_num_keys := in_num_keys right - 1\<rparr>;
                     node = node\<lparr>in_right_child := snd moved_up\<rparr>;
                     gp = set_entry_key sep_idx (fst moved_up) gp
                 in bind_op (save_internal K crc node) (\<lambda>_.
                    bind_op (save_internal K crc right) (\<lambda>_.
                      save_internal K crc gp)))))"

text \<open>
  The child \<open>merged_child_idx\<close> and the separator on its left leave a node: the flat arrays of
  children and keys of \<^verbatim>\<open>remove_from_internal\<close>.
\<close>

definition drop_child :: "nat \<Rightarrow> ('k, 'c) internal_node \<Rightarrow> ('k, 'c) internal_node result" where
  "drop_child merged_child_idx parent =
     (let children = map snd (in_entries parent) @ [in_right_child parent];
          keys = map fst (in_entries parent);
          sep_idx = (if merged_child_idx > 0 then merged_child_idx - 1 else 0)
      in if merged_child_idx < length children \<and> (keys = [] \<or> sep_idx < length keys) then
           (let children = vec_remove merged_child_idx children;
                keys = (if keys \<noteq> [] then vec_remove sep_idx keys else keys);
                entries = zip keys children
            in Inr (parent\<lparr>in_entries := entries,
                 in_right_child := (if children = [] then 0 else last children),
                 in_num_keys := word_of_nat (length entries)\<rparr>))
         else Inl Panic)"

function (sequential)
  remove_from_internal ::
    "('k::linorder, 'c) key_ops \<Rightarrow> (bytes \<Rightarrow> u32) \<Rightarrow> ('k, 'c) internal_node \<Rightarrow> nat \<Rightarrow> descent_path
       \<Rightarrow> ('c btree, unit) op"
  and rebalance_internal ::
    "('k::linorder, 'c) key_ops \<Rightarrow> (bytes \<Rightarrow> u32) \<Rightarrow> ('k, 'c) internal_node \<Rightarrow> descent_path
       \<Rightarrow> ('c btree, unit) op"
  and merge_internal ::
    "('k::linorder, 'c) key_ops \<Rightarrow> (bytes \<Rightarrow> u32) \<Rightarrow> ('k, 'c) internal_node \<Rightarrow> ('k, 'c) internal_node
       \<Rightarrow> ('k, 'c) internal_node \<Rightarrow> nat \<Rightarrow> descent_path \<Rightarrow> ('c btree, unit) op"
where
  "remove_from_internal K crc parent merged_child_idx path =
     bind_op (pure_op (\<lambda>_. drop_child merged_child_idx parent)) (\<lambda>parent.
       if path = [] \<and> in_num_keys parent = 0 then
         (let new_root_id = (if in_entries parent \<noteq> [] then snd (hd (in_entries parent))
                             else in_right_child parent)
          in bind_op (on_pm (free_page crc (in_page_id parent))) (\<lambda>_.
               modify_meta (\<lambda>m. m\<lparr>bm_root_page_id := new_root_id,
                 bm_height := (if bm_height m > 1 then bm_height m - 1 else bm_height m)\<rparr>)))
       else
         bind_op (save_internal K crc parent) (\<lambda>_.
           if path \<noteq> [] \<and> internal_is_underfull K parent then rebalance_internal K crc parent path
           else ret_op ()))"
| "rebalance_internal K crc node [] = fail_op (Corruption RebalanceInternalEmptyPath)"
| "rebalance_internal K crc node ((gp_page_id, child_idx) # path) =
     bind_op (pure_op (read_internal K crc gp_page_id)) (\<lambda>gp.
       let num_children = unat (in_num_keys gp) + 1 in
       if child_idx > 0 then
         bind_op (pure_op (read_internal K crc (get_child_at gp (child_idx - 1)))) (\<lambda>left bt.
           if length (in_entries left) > internal_min_keys K (bm_config (tr_meta bt))
           then redistribute_internal_from_left K crc left node gp child_idx bt
           else merge_internal K crc left node gp child_idx path bt)
       else if child_idx + 1 < num_children then
         bind_op (pure_op (read_internal K crc (get_child_at gp (child_idx + 1)))) (\<lambda>right bt.
           if length (in_entries right) > internal_min_keys K (bm_config (tr_meta bt))
           then redistribute_internal_from_right K crc node right gp child_idx bt
           else merge_internal K crc node right gp (child_idx + 1) path bt)
       else ret_op ())"
| "merge_internal K crc left right gp right_child_idx path =
     (let sep_idx = (if right_child_idx > 0 then right_child_idx - 1 else 0) in
      if sep_idx < length (in_entries gp) then
        (let separator_key = fst (in_entries gp ! sep_idx);
             left = left\<lparr>in_entries := in_entries left @ [(separator_key, in_right_child left)] @ in_entries right,
                         in_num_keys := in_num_keys left + 1 + word_of_nat (length (in_entries right)),
                         in_right_child := in_right_child right\<rparr>
         in bind_op (on_pm (free_page crc (in_page_id right))) (\<lambda>_.
            bind_op (save_internal K crc left) (\<lambda>_.
              remove_from_internal K crc gp right_child_idx path)))
      else panic_op)"
  by pat_completeness auto

termination
  by (relation "measure (\<lambda>x. case x of
        Inl (_, _, _, _, path) \<Rightarrow> 3 * length path + 1
      | Inr (Inl (_, _, _, path)) \<Rightarrow> 3 * length path
      | Inr (Inr (_, _, _, _, _, _, path)) \<Rightarrow> 3 * length path + 2)") auto

declare remove_from_internal.simps [simp del] merge_internal.simps [simp del]

definition merge_leaves ::
  "('k::linorder, 'c) key_ops \<Rightarrow> (bytes \<Rightarrow> u32) \<Rightarrow> ('k, 'c) leaf_node \<Rightarrow> ('k, 'c) leaf_node
     \<Rightarrow> ('k, 'c) internal_node \<Rightarrow> nat \<Rightarrow> descent_path \<Rightarrow> ('c btree, unit) op" where
  "merge_leaves K crc left right parent right_child_idx path =
     (let left = foldl (\<lambda>l e. leaf_insert_entry e l) left (ln_entries right);
          left = left\<lparr>ln_next_leaf := ln_next_leaf right\<rparr>
      in bind_op (relink_next K crc (ln_next_leaf right) (ln_page_id left)) (\<lambda>_.
         bind_op (on_pm (free_page crc (ln_page_id right))) (\<lambda>_.
         bind_op (save_leaf K crc left) (\<lambda>_.
           remove_from_internal K crc parent right_child_idx path))))"

fun rebalance_leaf ::
  "('k::linorder, 'c) key_ops \<Rightarrow> (bytes \<Rightarrow> u32) \<Rightarrow> ('k, 'c) leaf_node \<Rightarrow> descent_path \<Rightarrow> ('c btree, unit) op"
where
  "rebalance_leaf K crc leaf [] = fail_op (Corruption RebalanceLeafEmptyPath)"
| "rebalance_leaf K crc leaf ((parent_page_id, child_idx) # path) =
     bind_op (pure_op (read_internal K crc parent_page_id)) (\<lambda>parent.
       let num_children = unat (in_num_keys parent) + 1 in
       if child_idx > 0 then
         bind_op (pure_op (read_leaf K crc (get_child_at parent (child_idx - 1)))) (\<lambda>left_sib bt.
           if length (ln_entries left_sib) > leaf_min_entries K (bm_config (tr_meta bt))
           then redistribute_leaf_from_left K crc left_sib leaf parent child_idx bt
           else merge_leaves K crc left_sib leaf parent child_idx path bt)
       else if child_idx + 1 < num_children then
         bind_op (pure_op (read_leaf K crc (get_child_at parent (child_idx + 1)))) (\<lambda>right_sib bt.
           if length (ln_entries right_sib) > leaf_min_entries K (bm_config (tr_meta bt))
           then redistribute_leaf_from_right K crc leaf right_sib parent child_idx bt
           else merge_leaves K crc leaf right_sib parent (child_idx + 1) path bt)
       else ret_op ())"

definition delete_from_leaf ::
  "('k::linorder, 'c) key_ops \<Rightarrow> (bytes \<Rightarrow> u32) \<Rightarrow> 'k \<Rightarrow> ('k, 'c) leaf_node \<Rightarrow> descent_path
     \<Rightarrow> ('c btree, unit) op" where
  "delete_from_leaf K crc key leaf path =
     (case leaf_remove_entry key leaf of
        (_, None) \<Rightarrow> fail_op (key_not_found_error K key)
      | (leaf, Some _) \<Rightarrow>
          bind_op (save_leaf K crc leaf) (\<lambda>_.
          bind_op (modify_meta (\<lambda>m. m\<lparr>bm_num_entries := bm_num_entries m - 1\<rparr>)) (\<lambda>_.
            if path = [] \<or> \<not> leaf_is_underfull K leaf then flush_meta K crc
            else bind_op (rebalance_leaf K crc leaf path) (\<lambda>_. flush_meta K crc))))"

definition tree_delete ::
  "('k::linorder, 'c) key_ops \<Rightarrow> (bytes \<Rightarrow> u32) \<Rightarrow> 'k \<Rightarrow> 'c btree \<Rightarrow> ('c btree \<times> unit result) option" where
  "tree_delete K crc key bt =
     (case find_leaf_with_path K crc key bt of
        None \<Rightarrow> None
      | Some (Inl e) \<Rightarrow> Some (bt, Inl e)
      | Some (Inr (leaf, path)) \<Rightarrow> Some (delete_from_leaf K crc key leaf path bt))"

section \<open>Cursors\<close>

record 'k btree_cursor =
  cu_entries :: "'k leaf_entry list"
  cu_pos :: nat
  cu_next_leaf_id :: u32

partial_function (option) find_first_leaf_from ::
  "('k, 'c) key_ops \<Rightarrow> (bytes \<Rightarrow> u32) \<Rightarrow> 'c btree \<Rightarrow> u32 \<Rightarrow> ('k, 'c) leaf_node result option"
where
  "find_first_leaf_from K crc bt current =
     (case load_node K crc current bt of
        Inl e \<Rightarrow> Some (Inl e)
      | Inr (Leaf leaf) \<Rightarrow> Some (Inr leaf)
      | Inr (Internal n) \<Rightarrow>
          find_first_leaf_from K crc bt
            (if in_entries n = [] then in_right_child n else snd (hd (in_entries n))))"

definition tree_cursor ::
  "('k, 'c) key_ops \<Rightarrow> (bytes \<Rightarrow> u32) \<Rightarrow> 'c btree \<Rightarrow> 'k btree_cursor result option" where
  "tree_cursor K crc bt =
     (case find_first_leaf_from K crc bt (bm_root_page_id (tr_meta bt)) of
        None \<Rightarrow> None
      | Some (Inl e) \<Rightarrow> Some (Inl e)
      | Some (Inr leaf) \<Rightarrow>
          Some (Inr \<lparr>cu_entries = ln_entries leaf, cu_pos = 0, cu_next_leaf_id = ln_next_leaf leaf\<rparr>))"

definition tree_cursor_from ::
  "('k::linorder, 'c) key_ops \<Rightarrow> (bytes \<Rightarrow> u32) \<Rightarrow> 'k \<Rightarrow> 'c btree \<Rightarrow> 'k btree_cursor result option" where
  "tree_cursor_from K crc start_key bt =
     (case find_leaf K crc start_key bt of
        None \<Rightarrow> None
      | Some (Inl e) \<Rightarrow> Some (Inl e)
      | Some (Inr leaf) \<Rightarrow>
          (let pos = unwrap_or_else_id (binary_search fst start_key (ln_entries leaf))
           in Some (Inr \<lparr>cu_entries = ln_entries leaf, cu_pos = pos,
                         cu_next_leaf_id = ln_next_leaf leaf\<rparr>)))"

partial_function (option) next_entry ::
  "('k, 'c) key_ops \<Rightarrow> (bytes \<Rightarrow> u32) \<Rightarrow> 'c btree \<Rightarrow> 'k btree_cursor
     \<Rightarrow> ('k btree_cursor \<times> 'k leaf_entry option) result option"
where
  "next_entry K crc bt cur =
     (if cu_pos cur < length (cu_entries cur) then
        Some (Inr (cur\<lparr>cu_pos := cu_pos cur + 1\<rparr>, Some (cu_entries cur ! cu_pos cur)))
      else if cu_next_leaf_id cur = 0 then Some (Inr (cur, None))
      else
        (case read_leaf K crc (cu_next_leaf_id cur) bt of
           Inl e \<Rightarrow> Some (Inl e)
         | Inr leaf \<Rightarrow>
             next_entry K crc bt (cur\<lparr>cu_entries := ln_entries leaf, cu_pos := 0,
                                      cu_next_leaf_id := ln_next_leaf leaf\<rparr>)))"

partial_function (option) range_loop ::
  "('k::linorder, 'c) key_ops \<Rightarrow> (bytes \<Rightarrow> u32) \<Rightarrow> 'c btree \<Rightarrow> 'k option \<Rightarrow> 'k leaf_entry list
     \<Rightarrow> 'k btree_cursor \<Rightarrow> 'k leaf_entry list result option"
where
  "range_loop K crc bt stop results cur =
     Option.bind (next_entry K crc bt cur) (\<lambda>r.
       case r of
         Inl e \<Rightarrow> Some (Inl e)
       | Inr (cur, None) \<Rightarrow> Some (Inr results)
       | Inr (cur, Some item) \<Rightarrow>
           if (case stop of None \<Rightarrow> False | Some end_key \<Rightarrow> fst item \<ge> end_key) then Some (Inr results)
           else range_loop K crc bt stop (results @ [item]) cur)"

definition tree_range ::
  "('k::linorder, 'c) key_ops \<Rightarrow> (bytes \<Rightarrow> u32) \<Rightarrow> 'k option \<Rightarrow> 'k option \<Rightarrow> 'c btree
     \<Rightarrow> 'k leaf_entry list result option" where
  "tree_range K crc start stop bt =
     Option.bind (case start of Some s \<Rightarrow> tree_cursor_from K crc s bt | None \<Rightarrow> tree_cursor K crc bt) (\<lambda>r.
       case r of
         Inl e \<Rightarrow> Some (Inl e)
       | Inr cur \<Rightarrow> range_loop K crc bt stop [] cur)"

definition scan_all ::
  "('k::linorder, 'c) key_ops \<Rightarrow> (bytes \<Rightarrow> u32) \<Rightarrow> 'c btree \<Rightarrow> 'k leaf_entry list result option" where
  "scan_all K crc bt = tree_range K crc None None bt"

end
