(* ===== verification/Btree_Shape.thy ===== *)
theory Btree_Shape
  imports Btree_Ops
begin

text \<open>
  The shape of a stored B+tree. A tree of page ids, separators and entries describes what the
  pages of a well-formed file hold: \<open>represents\<close> relates it to a map from page ids to nodes. Its
  entries in order are the abstract content. A context is the stack of frames that a descent
  leaves, innermost first, the ghost of \<^verbatim>\<open>DescentPath\<close>; every predicate on trees splits over
  \<open>plug ctx t\<close> into a part on the context and a part on the subtree.
\<close>

section \<open>Trees\<close>

datatype 'k btr = Lf u32 "'k leaf_entry list" | Nd u32 "('k btr \<times> 'k) list" "'k btr"

fun root_id :: "'k btr \<Rightarrow> u32" where
  "root_id (Lf p es) = p"
| "root_id (Nd p ts t) = p"

fun contents :: "'k btr \<Rightarrow> 'k leaf_entry list" where
  "contents (Lf p es) = es"
| "contents (Nd p ts t) = concat (map contents (map fst ts)) @ contents t"

fun page_ids :: "'k btr \<Rightarrow> u32 list" where
  "page_ids (Lf p es) = [p]"
| "page_ids (Nd p ts t) = p # concat (map page_ids (map fst ts)) @ page_ids t"

fun leaf_ids :: "'k btr \<Rightarrow> u32 list" where
  "leaf_ids (Lf p es) = [p]"
| "leaf_ids (Nd p ts t) = concat (map leaf_ids (map fst ts)) @ leaf_ids t"

text \<open>All leaves at the same depth.\<close>

fun height_is :: "nat \<Rightarrow> 'k btr \<Rightarrow> bool" where
  "height_is h (Lf p es) \<longleftrightarrow> h = 1"
| "height_is h (Nd p ts t) \<longleftrightarrow>
     (case h of 0 \<Rightarrow> False | Suc h' \<Rightarrow> (\<forall>s \<in> set (map fst ts). height_is h' s) \<and> height_is h' t)"

text \<open>Search trees: the keys of a subtree lie in \<open>[lo, hi)\<close>, the separators strictly inside.\<close>

definition above_lo :: "'k::linorder option \<Rightarrow> 'k \<Rightarrow> bool" where
  "above_lo lo k \<longleftrightarrow> (case lo of None \<Rightarrow> True | Some l \<Rightarrow> l < k)"

definition from_lo :: "'k::linorder option \<Rightarrow> 'k \<Rightarrow> bool" where
  "from_lo lo k \<longleftrightarrow> (case lo of None \<Rightarrow> True | Some l \<Rightarrow> l \<le> k)"

definition below_hi :: "'k::linorder option \<Rightarrow> 'k \<Rightarrow> bool" where
  "below_hi hi k \<longleftrightarrow> (case hi of None \<Rightarrow> True | Some h \<Rightarrow> k < h)"

function (sequential) ordered :: "'k::linorder option \<Rightarrow> 'k option \<Rightarrow> 'k btr \<Rightarrow> bool"
and ordered_list :: "'k::linorder option \<Rightarrow> 'k option \<Rightarrow> ('k btr \<times> 'k) list \<Rightarrow> 'k btr \<Rightarrow> bool" where
  "ordered lo hi (Lf p es) \<longleftrightarrow> bt_ok es \<and> (\<forall>e \<in> set es. from_lo lo (fst e) \<and> below_hi hi (fst e))"
| "ordered lo hi (Nd p ts t) \<longleftrightarrow> ordered_list lo hi ts t"
| "ordered_list lo hi [] t \<longleftrightarrow> ordered lo hi t"
| "ordered_list lo hi ((s, k) # ts) t \<longleftrightarrow>
     above_lo lo k \<and> below_hi hi k \<and> ordered lo (Some k) s \<and> ordered_list (Some k) hi ts t"
  by pat_completeness auto

termination
  by (relation "measure (\<lambda>x. case x of
        Inl (_, _, t) \<Rightarrow> 2 * size t
      | Inr (_, _, ts, t) \<Rightarrow> 2 * (size_list (size_prod size (\<lambda>_. 0)) ts + size t) + 1)") auto

fun ordered_pre :: "'k::linorder option \<Rightarrow> 'k option \<Rightarrow> ('k btr \<times> 'k) list \<Rightarrow> bool" where
  "ordered_pre lo hi [] \<longleftrightarrow> True"
| "ordered_pre lo hi ((s, k) # ts) \<longleftrightarrow>
     above_lo lo k \<and> below_hi hi k \<and> ordered lo (Some k) s \<and> ordered_pre (Some k) hi ts"

definition last_sep :: "'k option \<Rightarrow> ('k btr \<times> 'k) list \<Rightarrow> 'k option" where
  "last_sep lo ts = (if ts = [] then lo else Some (snd (last ts)))"

lemma last_sep_simps [simp]:
  "last_sep lo [] = lo" "last_sep lo (ts @ [(s, k)]) = Some k"
  "last_sep lo ((s, k) # ts) = last_sep (Some k) ts"
  by (simp_all add: last_sep_def)

lemma ordered_list_append:
  "ordered_list lo hi (ls @ rs) t \<longleftrightarrow> ordered_pre lo hi ls \<and> ordered_list (last_sep lo ls) hi rs t"
proof (induction ls arbitrary: lo)
  case (Cons l ls)
  then show ?case by (cases l) auto
qed simp

lemma ordered_pre_append:
  "ordered_pre lo hi (ls @ rs) \<longleftrightarrow> ordered_pre lo hi ls \<and> ordered_pre (last_sep lo ls) hi rs"
proof (induction ls arbitrary: lo)
  case (Cons l ls)
  then show ?case by (cases l) auto
qed simp

lemma above_trans: "above_lo lo k \<Longrightarrow> k < k' \<Longrightarrow> above_lo lo k'"
  by (auto simp: above_lo_def split: option.splits)

lemma below_trans: "below_hi hi k \<Longrightarrow> k' < k \<Longrightarrow> below_hi hi k'"
  by (auto simp: below_hi_def split: option.splits)

lemma above_from_lo: "above_lo lo k \<Longrightarrow> from_lo lo k"
  by (auto simp: above_lo_def from_lo_def split: option.splits)

lemma from_lo_above: "from_lo lo k \<Longrightarrow> k < k' \<Longrightarrow> above_lo lo k'"
  by (auto simp: above_lo_def from_lo_def split: option.splits)

lemma from_lo_trans: "above_lo lo k \<Longrightarrow> from_lo (Some k) k' \<Longrightarrow> from_lo lo k'"
  by (auto simp: above_lo_def from_lo_def split: option.splits)

lemma bound_simps [simp]:
  "above_lo None k" "from_lo None k" "below_hi None k"
  "above_lo (Some l) k \<longleftrightarrow> l < k" "from_lo (Some l) k \<longleftrightarrow> l \<le> k" "below_hi (Some h) k \<longleftrightarrow> k < h"
  by (simp_all add: above_lo_def from_lo_def below_hi_def)

text \<open>The separators of a node are sorted and lie inside its bounds.\<close>

lemma ordered_pre_keys:
  "ordered_pre lo hi ts \<Longrightarrow> sorted_wrt (<) (map snd ts) \<and> (\<forall>k \<in> snd ` set ts. above_lo lo k \<and> below_hi hi k)"
proof (induction ts arbitrary: lo)
  case (Cons x ts)
  obtain s k where x: "x = (s, k)" by (cases x)
  with Cons.IH [of "Some k"] Cons.prems show ?case by (auto intro: above_trans)
qed simp

lemma ordered_list_pre: "ordered_list lo hi ts t \<longleftrightarrow> ordered_pre lo hi ts \<and> ordered (last_sep lo ts) hi t"
  using ordered_list_append [of lo hi ts "[]" t] by simp

lemma ordered_pre_member:
  assumes "ordered_pre lo hi ts" and "x \<in> set ts"
  shows "\<exists>lo'. ordered lo' (Some (snd x)) (fst x)"
  using assms
proof (induction ts arbitrary: lo)
  case (Cons y ts)
  then show ?case by (cases y) auto
qed simp

lemma bt_ok_append:
  "bt_ok (a @ b) \<longleftrightarrow> bt_ok a \<and> bt_ok b \<and> (\<forall>x \<in> set a. \<forall>y \<in> set b. fst x < fst y)"
  by (simp add: bt_ok_def sorted_wrt_append)

text \<open>An ordered tree has its entries in key order, inside its bounds.\<close>

lemma ordered_contents:
  "ordered lo hi t \<Longrightarrow> bt_ok (contents t) \<and> (\<forall>e \<in> set (contents t). from_lo lo (fst e) \<and> below_hi hi (fst e))"
  "ordered_list lo hi ts t \<Longrightarrow> bt_ok (contents (Nd p ts t))
     \<and> (\<forall>e \<in> set (contents (Nd p ts t)). from_lo lo (fst e) \<and> below_hi hi (fst e))"
proof (induction lo hi t and lo hi ts t rule: ordered_ordered_list.induct)
  case (4 lo hi s k ts t)
  then have s: "bt_ok (contents s)" "\<forall>e \<in> set (contents s). from_lo lo (fst e) \<and> fst e < k"
    and r: "bt_ok (contents (Nd p ts t))"
      "\<forall>e \<in> set (contents (Nd p ts t)). k \<le> fst e \<and> below_hi hi (fst e)" by auto
  have "bt_ok (contents s @ contents (Nd p ts t))"
    unfolding bt_ok_append using s r less_le_trans by blast
  moreover have "from_lo lo (fst e) \<and> below_hi hi (fst e)"
    if "e \<in> set (contents s @ contents (Nd p ts t))" for e
    using that s(2) r(2) 4(3) below_trans [of hi k] from_lo_trans [of lo k] by auto
  ultimately show ?case by simp
qed auto


section \<open>Trees on pages\<close>

type_synonym ('k, 'c) nodes = "u32 \<rightharpoonup> ('k, 'c) node_ref"

abbreviation seps :: "('k btr \<times> 'k) list \<Rightarrow> 'k internal_entry list" where
  "seps ts \<equiv> map (\<lambda>(s, k). (k, root_id s)) ts"

definition mk_internal :: "'c \<Rightarrow> u32 \<Rightarrow> 'k internal_entry list \<Rightarrow> u32 \<Rightarrow> ('k, 'c) internal_node" where
  "mk_internal cfg p es r =
     \<lparr>in_page_id = p, in_num_keys = word_of_nat (length es), in_right_child = r, in_config = cfg,
      in_entries = es\<rparr>"

definition mk_leaf :: "'c \<Rightarrow> u32 \<Rightarrow> 'k leaf_entry list \<Rightarrow> u32 \<Rightarrow> u32 \<Rightarrow> ('k, 'c) leaf_node" where
  "mk_leaf cfg p es pv nx =
     \<lparr>ln_page_id = p, ln_num_entries = word_of_nat (length es), ln_next_leaf = nx, ln_prev_leaf = pv,
      ln_config = cfg, ln_entries = es\<rparr>"

fun represents :: "'c \<Rightarrow> ('k, 'c) nodes \<Rightarrow> 'k btr \<Rightarrow> bool" where
  "represents cfg H (Lf p es) \<longleftrightarrow> (\<exists>pv nx. H p = Some (Leaf (mk_leaf cfg p es pv nx)))"
| "represents cfg H (Nd p ts t) \<longleftrightarrow>
     H p = Some (Internal (mk_internal cfg p (seps ts) (root_id t)))
     \<and> (\<forall>s \<in> set (map fst ts). represents cfg H s) \<and> represents cfg H t"

lemma root_in_page_ids [simp]: "root_id t \<in> set (page_ids t)"
  by (cases t) simp_all

lemma represents_frame:
  assumes "represents cfg H t" and "\<forall>p \<in> set (page_ids t). H' p = H p"
  shows "represents cfg H' t"
  using assms by (induction t rule: page_ids.induct) auto

lemma leaf_ids_subset: "set (leaf_ids t) \<subseteq> set (page_ids t)"
  by (induction t rule: page_ids.induct) auto

lemma leaf_ids_not_Nil [simp]: "leaf_ids t \<noteq> []"
  by (induction t rule: page_ids.induct) auto

lemma represents_leaf: "represents cfg H t \<Longrightarrow> p \<in> set (leaf_ids t) \<Longrightarrow> \<exists>l. H p = Some (Leaf l)"
  by (induction t rule: page_ids.induct) auto

text \<open>A segment of the doubly linked list of leaves.\<close>

definition first_or :: "u32 \<Rightarrow> u32 list \<Rightarrow> u32" where
  "first_or nx ps = (if ps = [] then nx else hd ps)"

definition last_or :: "u32 \<Rightarrow> u32 list \<Rightarrow> u32" where
  "last_or pv ps = (if ps = [] then pv else last ps)"

lemma first_last_or [simp]:
  "first_or nx [] = nx" "first_or nx (p # ps) = p" "last_or pv [] = pv" "last_or pv (ps @ [p]) = p"
  "last_or pv (p # ps) = last_or p ps" "first_or nx (ps @ qs) = first_or (first_or nx qs) ps"
  by (simp_all add: first_or_def last_or_def)

fun linked :: "('k, 'c) nodes \<Rightarrow> u32 \<Rightarrow> u32 list \<Rightarrow> u32 \<Rightarrow> bool" where
  "linked H pv [] nx \<longleftrightarrow> True"
| "linked H pv (p # ps) nx \<longleftrightarrow>
     (\<exists>l. H p = Some (Leaf l) \<and> ln_prev_leaf l = pv \<and> ln_next_leaf l = first_or nx ps)
     \<and> linked H p ps nx"

lemma linked_append:
  "linked H pv (ps @ qs) nx \<longleftrightarrow> linked H pv ps (first_or nx qs) \<and> linked H (last_or pv ps) qs nx"
  by (induction ps arbitrary: pv) auto

lemma linked_frame:
  assumes "linked H pv ps nx" and "\<forall>p \<in> set ps. H' p = H p"
  shows "linked H' pv ps nx"
  using assms by (induction ps arbitrary: pv) auto

section \<open>Contexts\<close>

text \<open>
  A frame is a node with a hole: its page, the children with separators left of the hole, and,
  unless the hole is the last child, the separator right of it and the remaining children.
\<close>

type_synonym 'k frame = "u32 \<times> ('k btr \<times> 'k) list \<times> ('k \<times> ('k btr \<times> 'k) list \<times> 'k btr) option"

fun plug1 :: "'k frame \<Rightarrow> 'k btr \<Rightarrow> 'k btr" where
  "plug1 (p, ls, None) s = Nd p ls s"
| "plug1 (p, ls, Some (k, rs, t)) s = Nd p (ls @ (s, k) # rs) t"

fun plug :: "'k frame list \<Rightarrow> 'k btr \<Rightarrow> 'k btr" where
  "plug [] s = s"
| "plug (f # ctx) s = plug ctx (plug1 f s)"

definition path_of :: "'k frame list \<Rightarrow> descent_path" where
  "path_of ctx = map (\<lambda>(p, ls, rest). (p, length ls)) ctx"

fun left_sibs :: "'k frame \<Rightarrow> 'k btr list" where
  "left_sibs (p, ls, rest) = map fst ls"

fun right_sibs :: "'k frame \<Rightarrow> 'k btr list" where
  "right_sibs (p, ls, None) = []"
| "right_sibs (p, ls, Some (k, rs, t)) = map fst rs @ [t]"

fun ctx_left :: "('k btr \<Rightarrow> 'a list) \<Rightarrow> 'k frame list \<Rightarrow> 'a list" where
  "ctx_left g [] = []"
| "ctx_left g (f # ctx) = ctx_left g ctx @ concat (map g (left_sibs f))"

fun ctx_right :: "('k btr \<Rightarrow> 'a list) \<Rightarrow> 'k frame list \<Rightarrow> 'a list" where
  "ctx_right g [] = []"
| "ctx_right g (f # ctx) = concat (map g (right_sibs f)) @ ctx_right g ctx"

definition ctx_ids :: "'k frame list \<Rightarrow> u32 list" where
  "ctx_ids ctx = concat (map (\<lambda>f. fst f # concat (map page_ids (left_sibs f @ right_sibs f))) ctx)"

lemma ctx_ids_Cons:
  "ctx_ids (f # ctx) = (fst f # concat (map page_ids (left_sibs f @ right_sibs f))) @ ctx_ids ctx"
  by (simp add: ctx_ids_def)

lemma ctx_ids_Nil [simp]: "ctx_ids [] = []"
  by (simp add: ctx_ids_def)

lemma contents_plug: "contents (plug ctx s) = ctx_left contents ctx @ contents s @ ctx_right contents ctx"
proof (induction ctx arbitrary: s)
  case (Cons f ctx)
  then show ?case by (cases "(f, s)" rule: plug1.cases) auto
qed simp

lemma leaf_ids_plug: "leaf_ids (plug ctx s) = ctx_left leaf_ids ctx @ leaf_ids s @ ctx_right leaf_ids ctx"
proof (induction ctx arbitrary: s)
  case (Cons f ctx)
  then show ?case by (cases "(f, s)" rule: plug1.cases) auto
qed simp

lemma page_ids_plug: "mset (page_ids (plug ctx s)) = mset (ctx_ids ctx @ page_ids s)"
proof (induction ctx arbitrary: s)
  case (Cons f ctx)
  have "mset (page_ids (plug1 f s)) = mset ((fst f # concat (map page_ids (left_sibs f @ right_sibs f))) @ page_ids s)"
    by (cases "(f, s)" rule: plug1.cases) auto
  with Cons [of "plug1 f s"] show ?case by (simp add: ctx_ids_Cons)
qed simp

lemma set_page_ids_plug: "set (page_ids (plug ctx s)) = set (ctx_ids ctx) \<union> set (page_ids s)"
  using mset_eq_setD [OF page_ids_plug [of ctx s]] by simp

lemma distinct_page_ids_plug:
  "distinct (page_ids (plug ctx s)) \<longleftrightarrow> distinct (ctx_ids ctx @ page_ids s)"
  using mset_eq_imp_distinct_iff [OF page_ids_plug [of ctx s]] .

text \<open>Order.\<close>

fun hole1 :: "'k frame \<Rightarrow> 'k option \<times> 'k option \<Rightarrow> 'k option \<times> 'k option" where
  "hole1 (p, ls, rest) (lo, hi) = (last_sep lo ls, case rest of None \<Rightarrow> hi | Some (k, rs, t) \<Rightarrow> Some k)"

fun hole :: "'k frame list \<Rightarrow> 'k option \<times> 'k option" where
  "hole [] = (None, None)"
| "hole (f # ctx) = hole1 f (hole ctx)"

fun frame_ordered :: "'k::linorder frame \<Rightarrow> 'k option \<times> 'k option \<Rightarrow> bool" where
  "frame_ordered (p, ls, None) (lo, hi) \<longleftrightarrow> ordered_pre lo hi ls"
| "frame_ordered (p, ls, Some (k, rs, t)) (lo, hi) \<longleftrightarrow>
     ordered_pre lo hi ls \<and> above_lo (last_sep lo ls) k \<and> below_hi hi k \<and> ordered_list (Some k) hi rs t"

fun ctx_ordered :: "'k::linorder frame list \<Rightarrow> bool" where
  "ctx_ordered [] \<longleftrightarrow> True"
| "ctx_ordered (f # ctx) \<longleftrightarrow> ctx_ordered ctx \<and> frame_ordered f (hole ctx)"

abbreviation ordered_in :: "'k::linorder option \<times> 'k option \<Rightarrow> 'k btr \<Rightarrow> bool" where
  "ordered_in b t \<equiv> ordered (fst b) (snd b) t"

lemma ordered_plug1: "ordered lo hi (plug1 f s) \<longleftrightarrow> frame_ordered f (lo, hi) \<and> ordered_in (hole1 f (lo, hi)) s"
proof (cases "(f, s)" rule: plug1.cases)
  case (1 p ls s)
  then show ?thesis by (simp add: ordered_list_pre)
next
  case (2 p ls k rs t s)
  then show ?thesis by (auto simp: ordered_list_append)
qed

lemma ordered_plug: "ordered None None (plug ctx s) \<longleftrightarrow> ctx_ordered ctx \<and> ordered_in (hole ctx) s"
proof (induction ctx arbitrary: s)
  case (Cons f ctx)
  obtain lo hi where h: "hole ctx = (lo, hi)" by (cases "hole ctx")
  with Cons [of "plug1 f s"] show ?case by (auto simp: ordered_plug1)
qed simp

text \<open>Height.\<close>

fun ctx_height :: "nat \<Rightarrow> 'k frame list \<Rightarrow> bool" where
  "ctx_height h [] \<longleftrightarrow> True"
| "ctx_height h (f # ctx) \<longleftrightarrow> (\<forall>s \<in> set (left_sibs f @ right_sibs f). height_is h s) \<and> ctx_height (Suc h) ctx"

lemma height_plug1:
  "height_is (Suc h) (plug1 f s) \<longleftrightarrow> (\<forall>s \<in> set (left_sibs f @ right_sibs f). height_is h s) \<and> height_is h s"
  by (cases "(f, s)" rule: plug1.cases) auto

lemma height_plug: "height_is (h + length ctx) (plug ctx s) \<longleftrightarrow> ctx_height h ctx \<and> height_is h s"
proof (induction ctx arbitrary: h s)
  case (Cons f ctx)
  from Cons [of "Suc h" "plug1 f s"] show ?case by (auto simp: height_plug1)
qed simp

lemma height_is_pos: "height_is h t \<Longrightarrow> 1 \<le> h"
  by (cases t) (auto split: nat.splits)

text \<open>Pages.\<close>

fun frame_node :: "'c \<Rightarrow> 'k frame \<Rightarrow> u32 \<Rightarrow> ('k, 'c) internal_node" where
  "frame_node cfg (p, ls, None) r = mk_internal cfg p (seps ls) r"
| "frame_node cfg (p, ls, Some (k, rs, t)) r = mk_internal cfg p (seps ls @ (k, r) # seps rs) (root_id t)"

fun ctx_represents :: "'c \<Rightarrow> ('k, 'c) nodes \<Rightarrow> 'k frame list \<Rightarrow> u32 \<Rightarrow> bool" where
  "ctx_represents cfg H [] r \<longleftrightarrow> True"
| "ctx_represents cfg H (f # ctx) r \<longleftrightarrow>
     H (fst f) = Some (Internal (frame_node cfg f r))
     \<and> (\<forall>s \<in> set (left_sibs f @ right_sibs f). represents cfg H s)
     \<and> ctx_represents cfg H ctx (fst f)"

lemma root_id_plug1 [simp]: "root_id (plug1 f s) = fst f"
  by (cases "(f, s)" rule: plug1.cases) auto

lemma represents_plug1:
  "represents cfg H (plug1 f s) \<longleftrightarrow> H (fst f) = Some (Internal (frame_node cfg f (root_id s)))
     \<and> (\<forall>s \<in> set (left_sibs f @ right_sibs f). represents cfg H s) \<and> represents cfg H s"
  by (cases "(f, s)" rule: plug1.cases) auto

lemma represents_plug:
  "represents cfg H (plug ctx s) \<longleftrightarrow> ctx_represents cfg H ctx (root_id s) \<and> represents cfg H s"
proof (induction ctx arbitrary: s)
  case Nil
  show ?case by simp
next
  case (Cons f ctx)
  have "represents cfg H (plug (f # ctx) s) \<longleftrightarrow>
      ctx_represents cfg H ctx (root_id (plug1 f s)) \<and> represents cfg H (plug1 f s)"
    using Cons by (simp only: plug.simps)
  then show ?case unfolding represents_plug1 root_id_plug1 ctx_represents.simps by blast
qed

lemma ctx_represents_frame:
  assumes "ctx_represents cfg H ctx r" and "\<forall>p \<in> set (ctx_ids ctx). H' p = H p"
  shows "ctx_represents cfg H' ctx r"
  using assms
proof (induction ctx arbitrary: r)
  case (Cons f ctx)
  have "represents cfg H' s" if "s \<in> set (left_sibs f @ right_sibs f)" for s
  proof (rule represents_frame)
    show "represents cfg H s" using that Cons.prems(1) by auto
    show "\<forall>p \<in> set (page_ids s). H' p = H p" using that Cons.prems(2) by (auto simp: ctx_ids_Cons)
  qed
  moreover have "ctx_represents cfg H' ctx (fst f)"
    using Cons.prems by (intro Cons.IH) (auto simp: ctx_ids_Cons)
  ultimately show ?case using Cons.prems by (simp add: ctx_ids_Cons)
qed simp

end
