(* ===== verification/Btree_Store.thy ===== *)
theory Btree_Store
  imports Btree_Shape
begin

text \<open>
  The nodes in the page file of a tree. \<open>store_ok\<close> says which pages hold which nodes; loading,
  saving, allocating and freeing act on this map as expected, by the contract of the page device
  and the codec of the nodes.
\<close>

definition node_bytes :: "('k, 'c) key_ops \<Rightarrow> ('k, 'c) node_ref \<Rightarrow> page result" where
  "node_bytes K n = (case n of Internal i \<Rightarrow> internal_to_bytes K i | Leaf l \<Rightarrow> leaf_to_bytes K l)"

fun node_ok :: "('k, 'c) key_ops \<Rightarrow> 'c \<Rightarrow> ('k \<Rightarrow> bool) \<Rightarrow> u32 \<Rightarrow> ('k, 'c) node_ref \<Rightarrow> bool" where
  "node_ok K cfg key_ok pid (Internal n) \<longleftrightarrow>
     in_page_id n = pid \<and> in_config n = cfg \<and> in_num_keys n = word_of_nat (length (in_entries n))
     \<and> length (in_entries n) \<le> internal_max_keys K cfg \<and> (\<forall>e \<in> set (in_entries n). key_ok (fst e))"
| "node_ok K cfg key_ok pid (Leaf l) \<longleftrightarrow>
     ln_page_id l = pid \<and> ln_config l = cfg \<and> ln_num_entries l = word_of_nat (length (ln_entries l))
     \<and> length (ln_entries l) \<le> leaf_max_entries K cfg \<and> (\<forall>e \<in> set (ln_entries l). key_ok (fst e))"

definition holds_node :: "('k, 'c) key_ops \<Rightarrow> (bytes \<Rightarrow> u32) \<Rightarrow> page_manager \<Rightarrow> u32 \<Rightarrow> ('k, 'c) node_ref \<Rightarrow> bool" where
  "holds_node K crc pm pid n \<longleftrightarrow>
     (\<exists>buf. node_bytes K n = Inr buf \<and> page_ok buf \<and> pm_page pm pid = stamp_checksum crc buf)"

definition store_ok ::
  "('k, 'c) key_ops \<Rightarrow> 'c \<Rightarrow> ('k \<Rightarrow> bool) \<Rightarrow> (bytes \<Rightarrow> u32) \<Rightarrow> 'c btree \<Rightarrow> ('k, 'c) nodes \<Rightarrow> bool" where
  "store_ok K cfg key_ok crc bt H \<longleftrightarrow>
     pm_ok crc (tr_pm bt) \<and> bm_config (tr_meta bt) = cfg
     \<and> tr_meta_page_id bt \<in> pm_used (tr_pm bt) - dom H \<and> dom H \<subseteq> pm_used (tr_pm bt)
     \<and> (\<forall>pid n. H pid = Some n \<longrightarrow> node_ok K cfg key_ok pid n \<and> holds_node K crc (tr_pm bt) pid n)"

abbreviation with_pm :: "'c btree \<Rightarrow> page_manager \<Rightarrow> 'c btree" where
  "with_pm bt pm \<equiv> bt\<lparr>tr_pm := pm\<rparr>"

lemma bind_pure_op: "bind_op (pure_op f) g s = (case f s of Inl e \<Rightarrow> (s, Inl e) | Inr x \<Rightarrow> g x s)"
  by (simp add: bind_op_def pure_op_def)

lemma on_pm_eq: "f (tr_pm bt) = (pm, r) \<Longrightarrow> on_pm f bt = (with_pm bt pm, r)"
  by (simp add: on_pm_def)

lemma store_okD:
  assumes "store_ok K cfg key_ok crc bt H"
  shows "pm_ok crc (tr_pm bt)" "bm_config (tr_meta bt) = cfg"
    "tr_meta_page_id bt \<in> pm_used (tr_pm bt)" "tr_meta_page_id bt \<notin> dom H"
    "H pid = Some n \<Longrightarrow> pid \<in> pm_used (tr_pm bt)"
    "H pid = Some n \<Longrightarrow> node_ok K cfg key_ok pid n" "H pid = Some n \<Longrightarrow> holds_node K crc (tr_pm bt) pid n"
    "H pid = Some n \<Longrightarrow> pid \<noteq> 0"
  using assms pm_device.used_nonzero [of crc "tr_pm bt"] by (auto simp: store_ok_def)

lemma store_zero: "store_ok K cfg key_ok crc bt H \<Longrightarrow> H 0 = None"
  using store_okD(8) [of K cfg key_ok crc bt H 0] by (cases "H 0") auto

lemma store_ok_meta:
  "store_ok K cfg key_ok crc bt H \<Longrightarrow> bm_config (f (tr_meta bt)) = cfg \<Longrightarrow>
     store_ok K cfg key_ok crc (bt\<lparr>tr_meta := f (tr_meta bt)\<rparr>) H"
  by (simp add: store_ok_def)

lemma holds_node_frame:
  "holds_node K crc pm pid n \<Longrightarrow> pm_page pm' pid = pm_page pm pid \<Longrightarrow> holds_node K crc pm' pid n"
  by (simp add: holds_node_def)

context key_codec
begin

lemma node_roundtrip:
  assumes "node_ok K cfg key_ok pid n"
  shows "\<exists>buf. node_bytes K n = Inr buf \<and> page_ok buf"
proof (cases n)
  case (Internal i)
  then show ?thesis using assms internal_roundtrip [of i] by (auto simp: node_bytes_def)
next
  case (Leaf l)
  then show ?thesis using assms leaf_roundtrip [of l] by (auto simp: node_bytes_def)
qed

lemma read_internal_ok:
  assumes "store_ok K cfg key_ok crc bt H" and "H pid = Some (Internal n)"
  shows "read_internal K crc pid bt = Inr n"
proof -
  note s = store_okD [OF assms(1)]
  from s(6) [OF assms(2)] internal_roundtrip [of n crc] s(7) [OF assms(2)]
  have "internal_from_bytes K (pm_page (tr_pm bt) pid) = Inr n"
    by (auto simp: holds_node_def node_bytes_def)
  then show ?thesis
    using pm_device.rd_used [OF s(1) s(5) [OF assms(2)]] by (simp add: read_internal_def)
qed

lemma read_leaf_ok:
  assumes "store_ok K cfg key_ok crc bt H" and "H pid = Some (Leaf n)"
  shows "read_leaf K crc pid bt = Inr n"
proof -
  note s = store_okD [OF assms(1)]
  from s(6) [OF assms(2)] leaf_roundtrip [of n crc] s(7) [OF assms(2)]
  have "leaf_from_bytes K (pm_page (tr_pm bt) pid) = Inr n"
    by (auto simp: holds_node_def node_bytes_def)
  then show ?thesis
    using pm_device.rd_used [OF s(1) s(5) [OF assms(2)]] by (simp add: read_leaf_def)
qed

lemma load_node_ok:
  assumes "store_ok K cfg key_ok crc bt H" and "H pid = Some n"
  shows "load_node K crc pid bt = Inr n"
proof -
  note s = store_okD [OF assms(1)]
  note rd = pm_device.rd_used [OF s(1) s(5) [OF assms(2)]]
  show ?thesis
  proof (cases n)
    case (Internal i)
    with s(6) [OF assms(2)] internal_roundtrip [of i crc] s(7) [OF assms(2)] obtain buf where
      "internal_from_bytes K (pm_page (tr_pm bt) pid) = Inr i" "page_ok buf"
      "hd_page_type (header_read_from buf) = BTreeInternal" "pm_page (tr_pm bt) pid = stamp_checksum crc buf"
      by (auto simp: holds_node_def node_bytes_def)
    then show ?thesis using rd header_read_stamp [of buf crc] by (simp add: load_node_def Internal)
  next
    case (Leaf l)
    with s(6) [OF assms(2)] leaf_roundtrip [of l crc] s(7) [OF assms(2)] obtain buf where
      "leaf_from_bytes K (pm_page (tr_pm bt) pid) = Inr l" "page_ok buf"
      "hd_page_type (header_read_from buf) = BTreeLeaf" "pm_page (tr_pm bt) pid = stamp_checksum crc buf"
      by (auto simp: holds_node_def node_bytes_def)
    then show ?thesis using rd header_read_stamp [of buf crc] by (simp add: load_node_def Leaf)
  qed
qed

lemma write_node_ok:
  assumes "store_ok K cfg key_ok crc bt H" and "node_ok K cfg key_ok pid n"
    and "pid \<in> pm_used (tr_pm bt)" and "pid \<noteq> tr_meta_page_id bt"
  shows "\<exists>buf pm. node_bytes K n = Inr buf \<and> write_page crc pid buf (tr_pm bt) = (pm, Inr ())
    \<and> store_ok K cfg key_ok crc (with_pm bt pm) (H(pid \<mapsto> n))
    \<and> pm_used pm = pm_used (tr_pm bt) \<and> pm_room pm = pm_room (tr_pm bt)"
proof -
  note s = store_okD [OF assms(1)]
  obtain buf where buf: "node_bytes K n = Inr buf" "page_ok buf" using node_roundtrip [OF assms(2)] by blast
  from pm_device.wr_used [OF s(1) assms(3) buf(2)] obtain pm where
    pm: "write_page crc pid buf (tr_pm bt) = (pm, Inr ())" "pm_ok crc pm" "pm_used pm = pm_used (tr_pm bt)"
      "pm_room pm = pm_room (tr_pm bt)"
    and pages: "\<And>q. q \<in> pm_used (tr_pm bt) \<Longrightarrow>
      pm_page pm q = (if q = pid then stamp_checksum crc buf else pm_page (tr_pm bt) q)" by blast
  have "holds_node K crc pm q m" if "(H(pid \<mapsto> n)) q = Some m" for q m
  proof (cases "q = pid")
    case True
    then show ?thesis using that buf pages [OF assms(3)] by (auto simp: holds_node_def)
  next
    case False
    then have q: "H q = Some m" using that by simp
    show ?thesis using holds_node_frame [OF s(7) [OF q]] pages [OF s(5) [OF q]] False by simp
  qed
  moreover have "node_ok K cfg key_ok q m" if "(H(pid \<mapsto> n)) q = Some m" for q m
    using that assms(2) s(6) by (auto split: if_splits)
  ultimately have "store_ok K cfg key_ok crc (with_pm bt pm) (H(pid \<mapsto> n))"
    using s(2,3,4,5) assms(3,4) pm(2,3) by (auto simp: store_ok_def)
  with buf(1) pm show ?thesis by blast
qed

lemma save_internal_ok:
  assumes "store_ok K cfg key_ok crc bt H" and "node_ok K cfg key_ok pid (Internal n)"
    and "pid \<in> pm_used (tr_pm bt)" and "pid \<noteq> tr_meta_page_id bt"
  shows "\<exists>pm. save_internal K crc n bt = (with_pm bt pm, Inr ())
    \<and> store_ok K cfg key_ok crc (with_pm bt pm) (H(pid \<mapsto> Internal n))
    \<and> pm_used pm = pm_used (tr_pm bt) \<and> pm_room pm = pm_room (tr_pm bt)"
proof -
  have "in_page_id n = pid" using assms(2) by simp
  with write_node_ok [OF assms] show ?thesis
    by (auto simp: save_internal_def node_bytes_def on_pm_eq bind_pure_op)
qed

lemma save_leaf_ok:
  assumes "store_ok K cfg key_ok crc bt H" and "node_ok K cfg key_ok pid (Leaf n)"
    and "pid \<in> pm_used (tr_pm bt)" and "pid \<noteq> tr_meta_page_id bt"
  shows "\<exists>pm. save_leaf K crc n bt = (with_pm bt pm, Inr ())
    \<and> store_ok K cfg key_ok crc (with_pm bt pm) (H(pid \<mapsto> Leaf n))
    \<and> pm_used pm = pm_used (tr_pm bt) \<and> pm_room pm = pm_room (tr_pm bt)"
proof -
  have "ln_page_id n = pid" using assms(2) by simp
  with write_node_ok [OF assms] show ?thesis
    by (auto simp: save_leaf_def node_bytes_def on_pm_eq bind_pure_op)
qed

end

lemma alloc_ok:
  assumes "store_ok K cfg key_ok crc bt H" and "0 < pm_room (tr_pm bt)"
  shows "\<exists>pm pid. on_pm (allocate_page crc) bt = (with_pm bt pm, Inr pid)
    \<and> store_ok K cfg key_ok crc (with_pm bt pm) H \<and> H pid = None \<and> pid \<noteq> tr_meta_page_id bt \<and> pid \<noteq> 0
    \<and> pm_used pm = insert pid (pm_used (tr_pm bt)) \<and> pm_room pm = pm_room (tr_pm bt) - 1"
proof -
  note s = store_okD [OF assms(1)]
  from pm_device.alloc_new [OF s(1) assms(2)] obtain pm pid where
    pm: "allocate_page crc (tr_pm bt) = (pm, Inr pid)" "pm_ok crc pm" "pid \<notin> pm_used (tr_pm bt)"
      "pm_used pm = insert pid (pm_used (tr_pm bt))" "pm_room pm = pm_room (tr_pm bt) - 1"
    and pages: "\<And>q. q \<in> pm_used (tr_pm bt) \<Longrightarrow> pm_page pm q = pm_page (tr_pm bt) q" by blast
  have "holds_node K crc pm q n" if "H q = Some n" for q n
    using holds_node_frame [OF s(7) [OF that]] pages [OF s(5) [OF that]] by simp
  then have "store_ok K cfg key_ok crc (with_pm bt pm) H"
    using s pm(2,4) by (auto simp: store_ok_def)
  moreover have "H pid = None" using pm(3) s(5) by (cases "H pid") auto
  moreover have "pid \<noteq> 0" using pm_device.used_nonzero [OF pm(2)] pm(4) by auto
  ultimately show ?thesis using pm s(3) by (auto simp: on_pm_eq)
qed

lemma free_ok:
  assumes "store_ok K cfg key_ok crc bt H" and "H pid = Some n"
  shows "\<exists>pm. on_pm (free_page crc pid) bt = (with_pm bt pm, Inr ())
    \<and> store_ok K cfg key_ok crc (with_pm bt pm) (H(pid := None))
    \<and> pm_used (tr_pm bt) - {pid} \<subseteq> pm_used pm"
proof -
  note s = store_okD [OF assms(1)]
  from free_page_eq [OF s(1) s(5) [OF assms(2)]] obtain pm where
    pm: "free_page crc pid (tr_pm bt) = (pm, Inr ())" "pm_ok crc pm"
      "pm_free pm = take 2039 (pm_free (tr_pm bt) @ [pid])" "pm_num_pages pm = pm_num_pages (tr_pm bt)"
    and pages: "\<And>q. q \<in> pm_used (tr_pm bt) - {pid} \<Longrightarrow> pm_page pm q = pm_page (tr_pm bt) q" by blast
  have used: "pm_used (tr_pm bt) - {pid} \<subseteq> pm_used pm"
    using free_keeps_used [OF pm(3,4)] by blast
  have "holds_node K crc pm q m" if "(H(pid := None)) q = Some m" for q m
  proof -
    have q: "H q = Some m" "q \<noteq> pid" using that by (auto split: if_splits)
    show ?thesis using holds_node_frame [OF s(7) [OF q(1)]] pages [of q] s(5) [OF q(1)] q(2) by simp
  qed
  moreover have "dom (H(pid := None)) \<subseteq> pm_used pm"
  proof
    fix q assume "q \<in> dom (H(pid := None))"
    then obtain m where "H q = Some m" "q \<noteq> pid" by (auto split: if_splits)
    then show "q \<in> pm_used pm" using s(5) used by blast
  qed
  moreover have "tr_meta_page_id bt \<noteq> pid" using s(4) assms(2) by auto
  ultimately have "store_ok K cfg key_ok crc (with_pm bt pm) (H(pid := None))"
    using s(2,3,4,6) used pm(2) by (auto simp: store_ok_def split: if_splits)
  with pm(1) used show ?thesis by (auto simp: on_pm_eq)
qed


section \<open>The metadata page\<close>

definition meta_stored :: "('k, 'c) key_ops \<Rightarrow> (bytes \<Rightarrow> u32) \<Rightarrow> 'c btree \<Rightarrow> bool" where
  "meta_stored K crc bt \<longleftrightarrow> tr_meta_page_id bt \<in> pm_used (tr_pm bt) \<and>
     read_meta_from_buf K (pm_page (tr_pm bt) (tr_meta_page_id bt)) = tr_meta bt"

context key_codec
begin

lemma meta_roundtrip:
  assumes "page_ok buf" and "bm_config m = cfg"
  shows "page_ok (write_meta_to_buf K m buf)"
    "read_meta_from_buf K (stamp_checksum crc (write_meta_to_buf K m buf)) = m"
proof -
  have len: "length buf = 8192" using assms(1) by (simp add: page_ok_def PAGE_SIZE_def)
  define b where "b = blit 40 (to_le (bm_num_entries m))
    (blit 36 (to_le (bm_height m)) (blit 32 (to_le (bm_root_page_id m)) buf))"
  have blen: "length b = 8192" using len by (simp add: b_def)
  have w: "write_meta_to_buf K m buf = blit 48 cfg_bytes b"
    using write_tree_cfg [of b] blen assms(2) by (simp add: write_meta_to_buf_def b_def)
  then show p: "page_ok (write_meta_to_buf K m buf)"
    using blen meta_bytes(3) by (simp add: page_ok_def PAGE_SIZE_def)
  define st where "st = stamp_checksum crc (write_meta_to_buf K m buf)"
  have sl: "slice i n st = slice i n (blit 48 cfg_bytes b)" if "32 \<le> i" "i + n \<le> 8192" for i n
    using that p w by (simp add: st_def slice_stamp_body PAGE_SIZE_def)
  have stl: "length st = 8192" using p by (simp add: st_def page_ok_def [symmetric] PAGE_SIZE_def [symmetric])
  have f: "slice 32 4 b = to_le (bm_root_page_id m)" "slice 36 4 b = to_le (bm_height m)"
    "slice 40 8 b = to_le (bm_num_entries m)"
    using len by (simp_all add: b_def slice_blit_same slice_blit_other)
  have "slice 32 4 st = to_le (bm_root_page_id m)" "slice 36 4 st = to_le (bm_height m)"
    "slice 40 8 st = to_le (bm_num_entries m)" "slice 48 (length cfg_bytes) st = cfg_bytes"
    using sl f blen meta_bytes(3) by (simp_all add: slice_blit_same slice_blit_other)
  then show "read_meta_from_buf K (stamp_checksum crc (write_meta_to_buf K m buf)) = m"
    using read_tree_cfg [of st] stl assms(2) by (simp add: read_meta_from_buf_def st_def)
qed

lemma flush_meta_ok:
  assumes "store_ok K cfg key_ok crc bt H"
  shows "\<exists>pm. flush_meta K crc bt = (with_pm bt pm, Inr ())
    \<and> store_ok K cfg key_ok crc (with_pm bt pm) H \<and> meta_stored K crc (with_pm bt pm)
    \<and> pm_used pm = pm_used (tr_pm bt) \<and> pm_room pm = pm_room (tr_pm bt)"
proof -
  note s = store_okD [OF assms]
  define buf where "buf = write_meta_to_buf K (tr_meta bt)
    (header_write_to (header_new (tr_meta_page_id bt) BTreeInternal) zero_page)"
  have buf: "page_ok buf" "read_meta_from_buf K (stamp_checksum crc buf) = tr_meta bt"
    using meta_roundtrip [OF _ s(2)] by (simp_all add: buf_def)
  from pm_device.wr_used [OF s(1,3) buf(1)] obtain pm where
    pm: "write_page crc (tr_meta_page_id bt) buf (tr_pm bt) = (pm, Inr ())" "pm_ok crc pm"
      "pm_used pm = pm_used (tr_pm bt)" "pm_room pm = pm_room (tr_pm bt)"
    and pages: "\<And>q. q \<in> pm_used (tr_pm bt) \<Longrightarrow> pm_page pm q =
      (if q = tr_meta_page_id bt then stamp_checksum crc buf else pm_page (tr_pm bt) q)" by blast
  have "holds_node K crc pm q n" if "H q = Some n" for q n
  proof (rule holds_node_frame [OF s(7) [OF that]])
    have "q \<noteq> tr_meta_page_id bt" using s(4) that by auto
    then show "pm_page pm q = pm_page (tr_pm bt) q" using pages [OF s(5) [OF that]] by simp
  qed
  then have "store_ok K cfg key_ok crc (with_pm bt pm) H"
    using s(2-6) pm(2,3) by (auto simp: store_ok_def)
  moreover have "meta_stored K crc (with_pm bt pm)"
    using buf(2) pages [OF s(3)] s(3) pm(3) by (simp add: meta_stored_def)
  ultimately show ?thesis using pm by (auto simp: flush_meta_def Let_def buf_def [symmetric] on_pm_eq)
qed

end

end
