(* ===== verification/Btree_Search.thy ===== *)
theory Btree_Search
  imports Btree_Store
begin

text \<open>
  Descending: in an ordered tree the loops of \<^verbatim>\<open>find_leaf\<close> and \<^verbatim>\<open>find_leaf_with_path\<close> end in the leaf
  whose bounds contain the key, and the recorded path is that of the context of this leaf.
\<close>

definition key_in :: "'k::linorder \<Rightarrow> 'k frame list \<Rightarrow> bool" where
  "key_in key ctx \<longleftrightarrow> from_lo (fst (hole ctx)) key \<and> below_hi (snd (hole ctx)) key"

lemma height_plug_length: "height_is h (plug ctx s) \<Longrightarrow> \<exists>h'. h = h' + length ctx \<and> height_is h' s \<and> ctx_height h' ctx"
proof (induction ctx arbitrary: s)
  case Nil
  then show ?case by simp
next
  case (Cons f ctx)
  then obtain h' where h': "h = h' + length ctx" "height_is h' (plug1 f s)" "ctx_height h' ctx" by auto
  then obtain h'' where "h' = Suc h''"
    using height_is_pos [OF h'(2)] by (cases h') auto
  then show ?case using h' height_plug1 [of h'' f s] by auto
qed

lemma child_split:
  assumes "ordered_list lo hi ts t" and "from_lo lo key" and "below_hi hi key"
    and "n = mk_internal cfg p (seps ts) (root_id t)"
  shows "\<exists>f s. plug1 f s = Nd p ts t \<and> find_child n key = root_id s
    \<and> get_child_at n (find_child_index n key) = root_id s
    \<and> path_of [f] = [(p, find_child_index n key)]
    \<and> from_lo (fst (hole1 f (lo, hi))) key \<and> below_hi (snd (hole1 f (lo, hi))) key
    \<and> size s < size (Nd p ts t)"
proof -
  define ls where "ls = takeWhile (\<lambda>x. snd x \<le> key) ts"
  define rs where "rs = dropWhile (\<lambda>x. snd x \<le> key) ts"
  have ts: "ts = ls @ rs" by (simp add: ls_def rs_def)
  have ls: "\<forall>x \<in> set ls. snd x \<le> key" by (auto simp: ls_def dest: set_takeWhileD)
  have es: "in_entries n = seps ts" "in_right_child n = root_id t" by (simp_all add: assms(4) mk_internal_def)
  have pos: "partition_point (\<lambda>e. fst e \<le> key) (in_entries n) = length ls"
    unfolding es ls_def partition_point_def takeWhile_map by (simp add: comp_def split_beta)
  have lo: "from_lo (last_sep lo ls) key"
    using ls assms(2) by (cases ls rule: rev_cases) (auto simp: last_sep_def)
  show ?thesis
  proof (cases rs)
    case Nil
    then show ?thesis
      using ts pos es assms(3) lo
      by (intro exI [of _ "(p, ls, None)"] exI [of _ t])
        (simp add: find_child_def find_child_index_def get_child_at_def path_of_def)
  next
    case (Cons x rs')
    obtain s k where x: "x = (s, k)" by (cases x)
    have "\<not> snd x \<le> key" using Cons hd_dropWhile [of "\<lambda>x. snd x \<le> key" ts] by (simp add: rs_def)
    then have k: "key < k" by (simp add: x)
    have "in_entries n ! length ls = (k, root_id s)" "length ls < length (in_entries n)"
      using ts Cons x by (simp_all add: es nth_append)
    moreover have "size s < size (Nd p ts t)" using ts Cons x by simp
    ultimately show ?thesis
      using ts Cons x pos k lo
      by (intro exI [of _ "(p, ls, Some (k, rs', t))"] exI [of _ s])
        (simp add: find_child_def find_child_index_def get_child_at_def path_of_def)
  qed
qed

context key_codec
begin

lemma descend:
  assumes "store_ok K cfg key_ok crc bt H" and "represents cfg H (plug ctx s)"
    and "ordered None None (plug ctx s)" and "key_in key ctx"
  shows "\<exists>ctx' p es pv nx. plug ctx' (Lf p es) = plug ctx s \<and> key_in key ctx'
    \<and> H p = Some (Leaf (mk_leaf cfg p es pv nx))
    \<and> find_leaf_from K crc key bt (root_id s) = Some (Inr (mk_leaf cfg p es pv nx))
    \<and> find_path_from K crc key bt (path_of ctx) (root_id s) = Some (Inr (mk_leaf cfg p es pv nx, path_of ctx'))"
  using assms(2-4)
proof (induction s arbitrary: ctx rule: measure_induct_rule [where f = size])
  case (less s)
  show ?case
  proof (cases s)
    case (Lf p es)
    then obtain pv nx where p: "H p = Some (Leaf (mk_leaf cfg p es pv nx))"
      using less.prems(1) by (auto simp: represents_plug)
    then show ?thesis
      using less.prems(3) load_node_ok [OF assms(1) p] Lf
      by (intro exI [of _ ctx] exI [of _ p] exI [of _ es] exI [of _ pv] exI [of _ nx])
        (simp add: find_leaf_from.simps [of K crc key bt p] find_path_from.simps [of K crc key bt _ p])
  next
    case (Nd p ts t)
    define n where "n = mk_internal cfg p (seps ts) (root_id t)"
    have p: "H p = Some (Internal n)" using less.prems(1) Nd by (simp add: represents_plug n_def)
    obtain lo hi where h: "hole ctx = (lo, hi)" by (cases "hole ctx")
    then have ol: "ordered_list lo hi ts t" using less.prems(2) Nd by (simp add: ordered_plug)
    have key: "from_lo lo key" "below_hi hi key" using less.prems(3) h by (simp_all add: key_in_def)
    from child_split [OF ol key n_def] obtain f s' where
      f: "plug1 f s' = Nd p ts t" "find_child n key = root_id s'"
        "get_child_at n (find_child_index n key) = root_id s'" "path_of [f] = [(p, find_child_index n key)]"
        "from_lo (fst (hole1 f (lo, hi))) key" "below_hi (snd (hole1 f (lo, hi))) key" "size s' < size s"
      unfolding Nd by blast
    have eq: "plug (f # ctx) s' = plug ctx s" using f(1) Nd by simp
    have path: "path_of (f # ctx) = (p, find_child_index n key) # path_of ctx"
      using f(4) by (simp add: path_of_def)
    have "represents cfg H (plug (f # ctx) s')" "ordered None None (plug (f # ctx) s')"
      using less.prems(1,2) eq by simp_all
    moreover have "key_in key (f # ctx)" using f(5,6) h by (simp add: key_in_def)
    ultimately obtain ctx' q es pv nx where r: "plug ctx' (Lf q es) = plug (f # ctx) s'" "key_in key ctx'"
      "H q = Some (Leaf (mk_leaf cfg q es pv nx))"
      "find_leaf_from K crc key bt (root_id s') = Some (Inr (mk_leaf cfg q es pv nx))"
      "find_path_from K crc key bt (path_of (f # ctx)) (root_id s')
        = Some (Inr (mk_leaf cfg q es pv nx, path_of ctx'))"
      using less.IH [OF f(7), of "f # ctx"] by blast
    show ?thesis
      using r eq load_node_ok [OF assms(1) p] f(2,3) path Nd
      by (intro exI [of _ ctx'] exI [of _ q] exI [of _ es] exI [of _ pv] exI [of _ nx])
        (simp add: find_leaf_from.simps [of K crc key bt p] find_path_from.simps [of K crc key bt _ p] Let_def)
  qed
qed

end

end
