(* ===== verification/Btree_Insert.thy ===== *)
theory Btree_Insert
  imports Btree_Search
begin

text \<open>
  Insertion: a leaf that overflows is split, and the new separator moves up the descent path until a
  node has room for it or the tree grows a new root.
\<close>

text \<open>A frame whose hole is filled by two subtrees and the separator between them.\<close>

fun split1 :: "'k frame \<Rightarrow> 'k btr \<Rightarrow> 'k \<Rightarrow> 'k btr \<Rightarrow> 'k btr" where
  "split1 (p, ls, None) l k r = Nd p (ls @ [(l, k)]) r"
| "split1 (p, ls, Some (k2, rs, t)) l k r = Nd p (ls @ (l, k) # (r, k2) # rs) t"

lemma split1_basic:
  "root_id (split1 f l k r) = fst f"
  "contents (split1 f l k r) = concat (map contents (left_sibs f)) @ contents l @ contents r
     @ concat (map contents (right_sibs f))"
  "leaf_ids (split1 f l k r) = concat (map leaf_ids (left_sibs f)) @ leaf_ids l @ leaf_ids r
     @ concat (map leaf_ids (right_sibs f))"
  "mset (page_ids (split1 f l k r)) =
     mset (fst f # concat (map page_ids (left_sibs f @ right_sibs f)) @ page_ids l @ page_ids r)"
  "height_is (Suc h) (split1 f l k r) \<longleftrightarrow>
     (\<forall>s \<in> set (left_sibs f @ right_sibs f). height_is h s) \<and> height_is h l \<and> height_is h r"
  by (cases "(f, l, k, r)" rule: split1.cases; auto)+

lemma split1_ordered:
  assumes "frame_ordered f (lo, hi)" and "hole1 f (lo, hi) = (lo', hi')"
    and "above_lo lo' k" and "below_hi hi' k" and "ordered lo' (Some k) l" and "ordered (Some k) hi' r"
  shows "ordered lo hi (split1 f l k r)"
proof (cases "(f, l, k, r)" rule: split1.cases)
  case (1 p ls l k r)
  then show ?thesis using assms by (auto simp: ordered_list_append)
next
  case (2 p ls k2 rs t l k r)
  then have "below_hi hi k" using assms below_trans [of hi k2 k] by auto
  then show ?thesis using 2 assms by (auto simp: ordered_list_append)
qed

fun tree_node :: "'c \<Rightarrow> 'k btr \<Rightarrow> ('k, 'c) internal_node" where
  "tree_node cfg (Nd p ts t) = mk_internal cfg p (seps ts) (root_id t)"

lemma split1_represents:
  "represents cfg H (split1 f l k r) \<longleftrightarrow>
     H (fst f) = Some (Internal (tree_node cfg (split1 f l k r)))
     \<and> (\<forall>s \<in> set (left_sibs f @ right_sibs f). represents cfg H s)
     \<and> represents cfg H l \<and> represents cfg H r"
  by (cases "(f, l, k, r)" rule: split1.cases) auto

lemma split1_children:
  assumes "split1 f l k r = Nd p ts t"
  shows "set (map fst ts @ [t]) = set (left_sibs f @ right_sibs f) \<union> {l, r}"
proof (cases "(f, l, k, r)" rule: split1.cases)
  case (1 p' ls l' k' r')
  then show ?thesis using assms by auto
next
  case (2 p' ls k2 rs t' l' k' r')
  then have "ts = ls @ (l, k) # (r, k2) # rs" "t = t'" "left_sibs f = map fst ls"
    "right_sibs f = map fst rs @ [t']" using assms by auto
  then show ?thesis by (simp add: insert_commute Un_commute)
qed

lemma split1_node:
  assumes "n = tree_node cfg (split1 f l k r)"
  shows "in_page_id n = fst f" "in_config n = cfg" "in_num_keys n = word_of_nat (length (in_entries n))"
    "length (in_entries n) = Suc (length (in_entries (frame_node cfg f x)))"
    "fst ` set (in_entries n) = insert k (fst ` set (in_entries (frame_node cfg f x)))"
  using assms by (cases "(f, l, k, r)" rule: split1.cases; auto simp: mk_internal_def image_Un image_image split_beta)+

lemma ordered_pre_less:
  assumes "ordered_pre lo hi ls" and "above_lo (last_sep lo ls) k"
  shows "\<forall>x \<in> set ls. snd x < k"
proof (cases ls rule: rev_cases)
  case (snoc ls' x)
  have "sorted_wrt (<) (map snd ls)" using ordered_pre_keys [OF assms(1)] by simp
  then show ?thesis using snoc assms(2) by (cases x) (auto simp: sorted_wrt_append intro: less_trans)
qed simp

lemma insert_entry_split1:
  assumes "frame_ordered f (lo, hi)" and "hole1 f (lo, hi) = (lo', hi')"
    and "above_lo lo' k" and "below_hi hi' k"
  shows "internal_insert_entry k (root_id r) (frame_node cfg f (root_id l)) = tree_node cfg (split1 f l k r)"
proof (cases "(f, l, k, r)" rule: split1.cases)
  case (1 p ls l k r)
  have "\<forall>x \<in> set ls. snd x < k" using 1 assms by (intro ordered_pre_less [of lo hi]) auto
  then have "partition_point (\<lambda>e. fst e < k) (seps ls @ []) = length (seps ls)"
    by (intro partition_point_split) auto
  then show ?thesis
    using 1 by (simp add: internal_insert_entry_def unwrap_binary_search mk_internal_def Let_def)
next
  case (2 p ls k2 rs t l k r)
  have "\<forall>x \<in> set ls. snd x < k" using 2 assms by (intro ordered_pre_less [of lo hi]) auto
  moreover have "k < k2" using 2 assms by auto
  ultimately have "partition_point (\<lambda>e. fst e < k) (seps ls @ (k2, root_id l) # seps rs) = length (seps ls)"
    by (intro partition_point_split) auto
  then show ?thesis
    using 2 by (simp add: internal_insert_entry_def unwrap_binary_search mk_internal_def Let_def
        vec_insert_def nth_append list_update_append)
qed

text \<open>Splitting an ordered node at a separator.\<close>

lemma ordered_pre_tighten:
  "ordered_pre lo hi ts \<Longrightarrow> \<forall>x \<in> set ts. snd x < k \<Longrightarrow> ordered_pre lo (Some k) ts"
proof (induction ts arbitrary: lo)
  case (Cons x ts)
  then show ?case by (cases x) auto
qed simp

lemma ordered_split:
  assumes "ordered_list lo hi (A @ (m, k) # B) t"
  shows "above_lo lo k" "below_hi hi k" "ordered lo (Some k) (Nd p A m)" "ordered (Some k) hi (Nd q B t)"
proof -
  have a: "ordered_pre lo hi A" "above_lo (last_sep lo A) k" "below_hi hi k" "ordered (last_sep lo A) (Some k) m"
    "ordered_list (Some k) hi B t" using assms by (simp_all add: ordered_list_append)
  then show "below_hi hi k" "ordered (Some k) hi (Nd q B t)" by simp_all
  have lt: "\<forall>x \<in> set A. snd x < k" using ordered_pre_less [OF a(1,2)] .
  then show "ordered lo (Some k) (Nd p A m)"
    using a(4) ordered_pre_tighten [OF a(1)] by (simp add: ordered_list_pre)
  show "above_lo lo k"
  proof (cases A)
    case Nil
    then show ?thesis using a(2) by simp
  next
    case (Cons x A')
    then have "above_lo lo (snd x)" using a(1) by (cases x) simp
    then show ?thesis using lt Cons above_trans by auto
  qed
qed

section \<open>Finished trees\<close>

definition shape_ok :: "'c \<Rightarrow> ('k::linorder, 'c) nodes \<Rightarrow> 'k btr \<Rightarrow> bool" where
  "shape_ok cfg H t \<longleftrightarrow> represents cfg H t \<and> distinct (page_ids t) \<and> ordered None None t
     \<and> linked H 0 (leaf_ids t) 0"

definition rooted :: "'c btree \<Rightarrow> 'k btr \<Rightarrow> bool" where
  "rooted bt t \<longleftrightarrow> bm_root_page_id (tr_meta bt) = root_id t
     \<and> (\<exists>h. height_is h t \<and> bm_height (tr_meta bt) = word_of_nat h)"

lemma rootedI:
  "bm_root_page_id (tr_meta bt) = root_id t \<Longrightarrow> height_is h t \<Longrightarrow> bm_height (tr_meta bt) = word_of_nat h \<Longrightarrow>
     rooted bt t"
  by (auto simp: rooted_def)

lemma root_id_plug_cong: "root_id s = root_id s' \<Longrightarrow> root_id (plug ctx s) = root_id (plug ctx s')"
proof (induction ctx arbitrary: s s')
  case (Cons f ctx)
  then show ?case by simp
qed simp


lemma linked_member: "linked H pv ps nx \<Longrightarrow> p \<in> set ps \<Longrightarrow> \<exists>l. H p = Some (Leaf l)"
  by (induction ps arbitrary: pv) auto

lemma linked_nonzero: "linked H pv ps nx \<Longrightarrow> H 0 = None \<Longrightarrow> 0 \<notin> set ps"
  using linked_member [of H pv ps nx 0] by auto

lemma linked_upd:
  assumes "linked H pv ps nx" and "\<forall>l. H p \<noteq> Some (Leaf l)"
  shows "linked (H(p := x)) pv ps nx"
  using assms linked_member [OF assms(1), of p] by (intro linked_frame [OF assms(1)]) auto

lemma represents_upd: "represents cfg H t \<Longrightarrow> p \<notin> set (page_ids t) \<Longrightarrow> represents cfg (H(p := x)) t"
  by (rule represents_frame) auto

lemma ctx_represents_upd:
  "ctx_represents cfg H ctx r \<Longrightarrow> p \<notin> set (ctx_ids ctx) \<Longrightarrow> ctx_represents cfg (H(p := x)) ctx r"
  by (rule ctx_represents_frame) auto

lemma represents_not_in: "represents cfg H t \<Longrightarrow> H p = None \<Longrightarrow> p \<notin> set (page_ids t)"
proof (induction t rule: page_ids.induct)
  case (2 q ts t)
  then show ?case by auto
qed auto

lemma ctx_represents_not_in: "ctx_represents cfg H ctx r \<Longrightarrow> H p = None \<Longrightarrow> p \<notin> set (ctx_ids ctx)"
proof (induction ctx arbitrary: r)
  case (Cons f ctx)
  have "p \<notin> set (page_ids s)" if "s \<in> set (left_sibs f @ right_sibs f)" for s
    using that Cons.prems represents_not_in [of cfg H s p] by auto
  then show ?case using Cons by (auto simp: ctx_ids_Cons)
qed simp

text \<open>The situation in the loop of \<^verbatim>\<open>propagate_split\<close>: the hole of the context holds two subtrees.\<close>

definition split_state ::
  "'c \<Rightarrow> ('k \<Rightarrow> bool) \<Rightarrow> ('k::linorder, 'c) nodes \<Rightarrow> nat \<Rightarrow> 'k frame list \<Rightarrow> 'k btr \<Rightarrow> 'k \<Rightarrow> 'k btr \<Rightarrow> bool" where
  "split_state cfg key_ok H h ctx l k r \<longleftrightarrow>
     ctx_represents cfg H ctx (root_id l) \<and> represents cfg H l \<and> represents cfg H r
     \<and> distinct (ctx_ids ctx @ page_ids l @ page_ids r) \<and> key_ok k
     \<and> ctx_ordered ctx \<and> above_lo (fst (hole ctx)) k \<and> below_hi (snd (hole ctx)) k
     \<and> ordered (fst (hole ctx)) (Some k) l \<and> ordered (Some k) (snd (hole ctx)) r
     \<and> ctx_height h ctx \<and> height_is h l \<and> height_is h r
     \<and> linked H 0 (ctx_left leaf_ids ctx @ leaf_ids l @ leaf_ids r @ ctx_right leaf_ids ctx) 0"

lemma split_stateD:
  assumes "split_state cfg key_ok H h (f # ctx) l k r" and "hole ctx = (lo, hi)"
  shows "H (fst f) = Some (Internal (frame_node cfg f (root_id l)))"
    "\<forall>s \<in> set (left_sibs f @ right_sibs f). represents cfg H s" "ctx_represents cfg H ctx (fst f)"
    "represents cfg H l" "represents cfg H r"
    "internal_insert_entry k (root_id r) (frame_node cfg f (root_id l)) = tree_node cfg (split1 f l k r)"
    "ordered lo hi (split1 f l k r)" "height_is (Suc h) (split1 f l k r)"
    "distinct (ctx_ids ctx @ page_ids (split1 f l k r))" "key_ok k"
    "ctx_ordered ctx" "ctx_height (Suc h) ctx"
    "linked H 0 (ctx_left leaf_ids ctx @ leaf_ids (split1 f l k r) @ ctx_right leaf_ids ctx) 0"
    "ctx_left contents ctx @ contents (split1 f l k r) @ ctx_right contents ctx =
      ctx_left contents (f # ctx) @ contents l @ contents r @ ctx_right contents (f # ctx)"
proof -
  obtain lo' hi' where h: "hole1 f (lo, hi) = (lo', hi')" by (cases "hole1 f (lo, hi)")
  have fo: "frame_ordered f (lo, hi)" using assms by (simp add: split_state_def)
  have b: "above_lo lo' k" "below_hi hi' k" "ordered lo' (Some k) l" "ordered (Some k) hi' r"
    using assms h by (simp_all add: split_state_def)
  show "internal_insert_entry k (root_id r) (frame_node cfg f (root_id l)) = tree_node cfg (split1 f l k r)"
    by (rule insert_entry_split1 [OF fo h b(1,2)])
  show "ordered lo hi (split1 f l k r)" by (rule split1_ordered [OF fo h b])
  have "distinct (ctx_ids (f # ctx) @ page_ids l @ page_ids r)" using assms(1) by (simp add: split_state_def)
  moreover have "mset (ctx_ids (f # ctx) @ page_ids l @ page_ids r) = mset (ctx_ids ctx @ page_ids (split1 f l k r))"
    by (simp add: ctx_ids_Cons split1_basic)
  ultimately show "distinct (ctx_ids ctx @ page_ids (split1 f l k r))"
    using mset_eq_imp_distinct_iff by blast
qed (use assms in \<open>simp_all add: split_state_def split1_basic\<close>)


definition same_tree :: "'c btree \<Rightarrow> 'c btree \<Rightarrow> bool" where
  "same_tree bt bt' \<longleftrightarrow> tr_meta_page_id bt' = tr_meta_page_id bt
     \<and> bm_num_entries (tr_meta bt') = bm_num_entries (tr_meta bt)"

lemma path_of_Cons: "path_of (f # ctx) = (fst f, length (left_sibs f)) # path_of ctx"
  by (cases f) (simp add: path_of_def)

lemma path_of_Nil [simp]: "path_of [] = []"
  by (simp add: path_of_def)

context key_codec
begin

lemma propagate_root_ok:
  assumes "store_ok K cfg key_ok crc bt H" and "split_state cfg key_ok H h [] l k r"
    and "0 < pm_room (tr_pm bt)"
    and "bm_root_page_id (tr_meta bt) = root_id l" and "bm_height (tr_meta bt) = word_of_nat h"
  shows "\<exists>bt' H' t'. propagate_split K crc [] k (root_id r) bt = (bt', Inr ())
    \<and> store_ok K cfg key_ok crc bt' H' \<and> shape_ok cfg H' t' \<and> rooted bt' t'
    \<and> contents t' = contents l @ contents r \<and> same_tree bt bt'
    \<and> pm_room (tr_pm bt) \<le> pm_room (tr_pm bt') + 1"
proof -
  note st = assms(2) [unfolded split_state_def, simplified]
  from alloc_ok [OF assms(1,3)] obtain pm q where
    q: "on_pm (allocate_page crc) bt = (with_pm bt pm, Inr q)" "store_ok K cfg key_ok crc (with_pm bt pm) H"
      "H q = None" "q \<noteq> tr_meta_page_id bt" "pm_used pm = insert q (pm_used (tr_pm bt))"
      "pm_room pm = pm_room (tr_pm bt) - 1" by blast
  define n where "n = mk_internal cfg q [(k, root_id l)] (root_id r)"
  have "node_ok K cfg key_ok q (Internal n)"
    using st capacities(1) by (simp add: n_def mk_internal_def)
  from save_internal_ok [OF q(2) this] q(4,5) obtain pm' where
    s: "save_internal K crc n (with_pm bt pm) = (with_pm bt pm', Inr ())"
      "store_ok K cfg key_ok crc (with_pm bt pm') (H(q \<mapsto> Internal n))" "pm_room pm' = pm_room pm" by auto
  define bt' where "bt' = (with_pm bt pm')\<lparr>tr_meta :=
    (tr_meta bt)\<lparr>bm_root_page_id := q, bm_height := bm_height (tr_meta bt) + 1\<rparr>\<rparr>"
  define t' where "t' = Nd q [(l, k)] r"
  have cfg: "bm_config (tr_meta bt) = cfg" using store_okD(2) [OF assms(1)] .
  have run: "propagate_split K crc [] k (root_id r) bt = (bt', Inr ())"
    using q(1) s(1) cfg assms(4)
    by (simp add: bind_op_Inr internal_new_def Let_def n_def mk_internal_def modify_meta_def bt'_def)
  have "store_ok K cfg key_ok crc bt' (H(q \<mapsto> Internal n))"
    using store_ok_meta [OF s(2), of "\<lambda>m. m\<lparr>bm_root_page_id := q, bm_height := bm_height m + 1\<rparr>"] cfg
    by (simp add: bt'_def)
  moreover have "shape_ok cfg (H(q \<mapsto> Internal n)) t'"
    using st represents_not_in [of cfg H l q] represents_not_in [of cfg H r q] q(3)
    by (auto simp: shape_ok_def t'_def n_def intro!: represents_upd linked_upd)
  moreover have "rooted bt' t'"
  proof -
    have "height_is (Suc h) t'" using st by (simp add: t'_def)
    moreover have "bm_height (tr_meta bt') = word_of_nat (Suc h)" using assms(5) by (simp add: bt'_def add.commute)
    moreover have "bm_root_page_id (tr_meta bt') = root_id t'" by (simp add: t'_def bt'_def)
    ultimately show ?thesis unfolding rooted_def by blast
  qed
  moreover have "contents t' = contents l @ contents r" by (simp add: t'_def)
  moreover have "same_tree bt bt'" by (simp add: same_tree_def bt'_def)
  moreover have "pm_room (tr_pm bt) \<le> pm_room (tr_pm bt') + 1" using s(3) q(6) by (simp add: bt'_def)
  ultimately show ?thesis using run by blast
qed


text \<open>Splitting the node of a frame: both halves are saved and the middle separator moves up.\<close>

lemma split_internal_ok:
  assumes "store_ok K cfg key_ok crc bt H" and "0 < pm_room (tr_pm bt)"
    and "H p = Some (Internal old)" and "n = mk_internal cfg p (seps (A @ (m, k) # B)) (root_id t)"
    and "length A = Suc (length (A @ B)) div 2" and "length (A @ B) \<le> internal_max_keys K cfg"
    and "\<forall>x \<in> set (A @ B). key_ok (snd x)"
  shows "\<exists>pm q. bind_op (split_internal crc n) (\<lambda>(left_int, right_int, promoted).
          bind_op (save_internal K crc left_int) (\<lambda>_.
          bind_op (save_internal K crc right_int) (\<lambda>_. g promoted (in_page_id right_int)))) bt
        = g k q (with_pm bt pm)
    \<and> store_ok K cfg key_ok crc (with_pm bt pm)
        (H(p \<mapsto> Internal (mk_internal cfg p (seps A) (root_id m)),
           q \<mapsto> Internal (mk_internal cfg q (seps B) (root_id t))))
    \<and> H q = None \<and> pm_room pm = pm_room (tr_pm bt) - 1"
proof -
  from alloc_ok [OF assms(1,2)] obtain pm q where
    q: "on_pm (allocate_page crc) bt = (with_pm bt pm, Inr q)" "store_ok K cfg key_ok crc (with_pm bt pm) H"
      "H q = None" "q \<noteq> tr_meta_page_id bt" "pm_used pm = insert q (pm_used (tr_pm bt))"
      "pm_room pm = pm_room (tr_pm bt) - 1" by blast
  define nl where "nl = mk_internal cfg p (seps A) (root_id m)"
  define nr where "nr = mk_internal cfg q (seps B) (root_id t)"
  have mid: "length (seps (A @ (m, k) # B)) div 2 = length A" using assms(5) by simp
  have "split_internal crc n bt = (with_pm bt pm, Inr (nl, nr, k))"
    unfolding split_internal_def assms(4) mk_internal_def
    using q(1) mid by (simp add: Let_def bind_op_Inr internal_new_def nl_def nr_def mk_internal_def nth_append)
  moreover have pl: "p \<in> pm_used pm" "p \<noteq> tr_meta_page_id bt" "p \<noteq> q"
    using store_okD(4,5) [OF assms(1)] assms(3) q(3,5) by auto
  have "node_ok K cfg key_ok p (Internal nl)" "node_ok K cfg key_ok q (Internal nr)"
    using assms(6,7) by (simp_all add: nl_def nr_def mk_internal_def split_beta)
  note oks = this
  from save_internal_ok [OF q(2) oks(1)] pl obtain pm1 where
    s1: "save_internal K crc nl (with_pm bt pm) = (with_pm bt pm1, Inr ())"
      "store_ok K cfg key_ok crc (with_pm bt pm1) (H(p \<mapsto> Internal nl))" "pm_used pm1 = pm_used pm"
      "pm_room pm1 = pm_room pm" by auto
  from save_internal_ok [OF s1(2) oks(2)] q(4,5) s1(3) obtain pm2 where
    s2: "save_internal K crc nr (with_pm bt pm1) = (with_pm bt pm2, Inr ())"
      "store_ok K cfg key_ok crc (with_pm bt pm2) (H(p \<mapsto> Internal nl, q \<mapsto> Internal nr))"
      "pm_room pm2 = pm_room pm1" by auto
  have "in_page_id nr = q" by (simp add: nr_def mk_internal_def)
  ultimately show ?thesis
    using s1 s2 q(3,6) by (intro exI [of _ pm2] exI [of _ q]) (simp add: bind_op_Inr nl_def nr_def)
qed

lemma propagate_split_ok:
  assumes "store_ok K cfg key_ok crc bt H" and "split_state cfg key_ok H h ctx l k r"
    and "length ctx < pm_room (tr_pm bt)"
    and "bm_root_page_id (tr_meta bt) = root_id (plug ctx l)"
    and "bm_height (tr_meta bt) = word_of_nat (h + length ctx)"
  shows "\<exists>bt' H' t'. propagate_split K crc (path_of ctx) k (root_id r) bt = (bt', Inr ())
    \<and> store_ok K cfg key_ok crc bt' H' \<and> shape_ok cfg H' t' \<and> rooted bt' t'
    \<and> contents t' = ctx_left contents ctx @ contents l @ contents r @ ctx_right contents ctx
    \<and> same_tree bt bt' \<and> pm_room (tr_pm bt) \<le> pm_room (tr_pm bt') + length ctx + 1"
  using assms
proof (induction ctx arbitrary: bt H h l k r)
  case Nil
  then show ?case using propagate_root_ok [of crc bt H h l k r] by auto
next
  case (Cons f ctx)
  obtain lo hi where ho: "hole ctx = (lo, hi)" by (cases "hole ctx")
  note sd = split_stateD [OF Cons.prems(2) ho]
  obtain p ts t where spl: "split1 f l k r = Nd p ts t" by (cases "(f, l, k, r)" rule: split1.cases) auto
  then have p: "p = fst f" using split1_basic(1) [of f l k r] by simp
  define n where "n = mk_internal cfg p (seps ts) (root_id t)"
  have n: "tree_node cfg (split1 f l k r) = n" by (simp add: spl n_def)
  note sn = split1_node [OF n [symmetric]]
  have old: "node_ok K cfg key_ok p (Internal (frame_node cfg f (root_id l)))"
    using store_okD(6) [OF Cons.prems(1) sd(1)] by (simp add: p)
  have "\<forall>x \<in> fst ` set (in_entries n). key_ok x"
    unfolding sn(5) [of "root_id l"] using old sd(10) by simp
  then have keys: "\<forall>e \<in> set (in_entries n). key_ok (fst e)" by simp
  have len: "length ts \<le> Suc (internal_max_keys K cfg)"
    using old sn(4) [of "root_id l"] by (simp add: n_def mk_internal_def)
  have num: "unat (in_num_keys n) = length ts"
    using len capacities(2) by (simp add: n_def mk_internal_def unat_of_nat_small)
  have read: "read_internal K crc (fst f) bt = Inr (frame_node cfg f (root_id l))"
    by (rule read_internal_ok [OF Cons.prems(1) sd(1)])
  have over: "internal_is_overfull K n \<longleftrightarrow> internal_max_keys K cfg < length ts"
    using num by (simp add: internal_is_overfull_def n_def mk_internal_def)
  have dis: "fst f \<notin> set (ctx_ids ctx)"
    "\<forall>s \<in> set (left_sibs f @ right_sibs f) \<union> {l, r}. fst f \<notin> set (page_ids s)"
    using sd(9) mset_eq_imp_distinct_iff [OF split1_basic(4) [of f l k r]]
      mset_eq_setD [OF split1_basic(4) [of f l k r]] by auto
  show ?case
  proof (cases "internal_is_overfull K n")
    case False
    then have "node_ok K cfg key_ok (fst f) (Internal n)" using keys over by (simp add: p n_def mk_internal_def)
    from save_internal_ok [OF Cons.prems(1) this] store_okD(4,5) [OF Cons.prems(1)] sd(1) obtain pm where
      s: "save_internal K crc n bt = (with_pm bt pm, Inr ())"
        "store_ok K cfg key_ok crc (with_pm bt pm) (H(fst f \<mapsto> Internal n))" "pm_room pm = pm_room (tr_pm bt)"
      by (metis domI)
    have run: "propagate_split K crc (path_of (f # ctx)) k (root_id r) bt = (with_pm bt pm, Inr ())"
      using read s(1) False by (simp add: path_of_Cons bind_pure_op sd(6) n)
    define t' H' where "t' = plug ctx (split1 f l k r)" and "H' = H(fst f \<mapsto> Internal n)"
    have "represents cfg H' t'"
      unfolding t'_def H'_def represents_plug split1_basic(1) split1_represents n
      using sd(2-5) dis(1,2) by (auto intro!: ctx_represents_upd represents_upd)
    moreover have "linked H' 0 (leaf_ids t') 0"
      unfolding t'_def H'_def leaf_ids_plug by (rule linked_upd [OF sd(13)]) (simp add: sd(1))
    ultimately have shape: "shape_ok cfg H' t'"
      using sd(7,9,11) ho by (simp add: shape_ok_def t'_def distinct_page_ids_plug ordered_plug)
    have "root_id t' = root_id (plug (f # ctx) l)"
      using root_id_plug_cong [of "split1 f l k r" "plug1 f l" ctx] by (simp add: t'_def split1_basic(1))
    moreover have "height_is (Suc h + length ctx) t'" using sd(8,12) by (simp only: t'_def height_plug)
    ultimately have "rooted (with_pm bt pm) t'"
      using Cons.prems(4,5) by (intro rootedI [of _ _ "Suc h + length ctx"]) simp_all
    moreover have "contents t' = ctx_left contents (f # ctx) @ contents l @ contents r @ ctx_right contents (f # ctx)"
      using sd(14) by (simp only: t'_def contents_plug)
    moreover have "same_tree bt (with_pm bt pm)"
      "pm_room (tr_pm bt) \<le> pm_room (tr_pm (with_pm bt pm)) + length (f # ctx) + 1"
      using s(3) by (simp_all add: same_tree_def)
    ultimately show ?thesis using run s(2) shape unfolding H'_def [symmetric] by blast
  next
    case True
    then have lts: "length ts = Suc (internal_max_keys K cfg)" using len over by simp
    define A m km B where "A = take (length ts div 2) ts" and "m = fst (ts ! (length ts div 2))"
      and "km = snd (ts ! (length ts div 2))" and "B = drop (Suc (length ts div 2)) ts"
    have ts: "ts = A @ (m, km) # B"
      using id_take_nth_drop [of "length ts div 2" ts] lts by (simp add: A_def B_def m_def km_def)
    have "length A = length ts div 2" "length B = length ts - Suc (length ts div 2)"
      by (simp_all add: A_def B_def)
    then have lAB: "length A = Suc (length (A @ B)) div 2" "length (A @ B) \<le> internal_max_keys K cfg"
      using lts by simp_all
    have kAB: "\<forall>x \<in> set (A @ B). key_ok (snd x)" "key_ok km"
      using keys unfolding n_def mk_internal_def ts by (simp_all add: split_beta ball_Un)
    have "0 < pm_room (tr_pm bt)" using Cons.prems(3) by simp
    from split_internal_ok [OF Cons.prems(1) this sd(1) _ lAB kAB(1), of n m km t
        "\<lambda>promoted q. propagate_split K crc (path_of ctx) promoted q"] n_def ts p
    obtain pm q where run: "propagate_split K crc (path_of (f # ctx)) k (root_id r) bt
        = propagate_split K crc (path_of ctx) km q (with_pm bt pm)"
      and so: "store_ok K cfg key_ok crc (with_pm bt pm)
        (H(p \<mapsto> Internal (mk_internal cfg p (seps A) (root_id m)),
           q \<mapsto> Internal (mk_internal cfg q (seps B) (root_id t))))"
      and q: "H q = None" "pm_room pm = pm_room (tr_pm bt) - 1"
      using True read by (auto simp: path_of_Cons bind_pure_op sd(6) n)
    define H2 where "H2 = H(p \<mapsto> Internal (mk_internal cfg p (seps A) (root_id m)),
           q \<mapsto> Internal (mk_internal cfg q (seps B) (root_id t)))"
    define l2 r2 where "l2 = Nd p A m" and "r2 = Nd q B t"
    have kids: "represents cfg H s \<and> p \<notin> set (page_ids s) \<and> q \<notin> set (page_ids s)"
      if "s \<in> set (map fst ts @ [t])" for s
      using that sd(2,4,5) dis(2) q(1) represents_not_in [of cfg H s q] unfolding split1_children [OF spl] p by auto
    then have kids2: "represents cfg H2 s" if "s \<in> set (map fst ts @ [t])" for s
      using that unfolding H2_def by (intro represents_upd) auto
    have qp: "q \<noteq> p" "q \<notin> set (ctx_ids ctx)"
      using q(1) sd(1) p ctx_represents_not_in [OF sd(3)] by auto
    have "represents cfg H2 l2" "represents cfg H2 r2"
      using kids2 qp(1) by (auto simp: l2_def r2_def H2_def ts)
    moreover have "ctx_represents cfg H2 ctx (root_id l2)"
      unfolding H2_def using sd(3) dis(1) qp by (auto simp: l2_def p intro!: ctx_represents_upd)
    moreover have "distinct (ctx_ids ctx @ page_ids l2 @ page_ids r2)"
    proof -
      have e: "mset (ctx_ids ctx @ page_ids l2 @ page_ids r2) = mset (q # ctx_ids ctx @ page_ids (Nd p ts t))"
        by (simp add: l2_def r2_def ts)
      have "q \<notin> set (page_ids (Nd p ts t))" using kids qp(1) by auto
      then show ?thesis unfolding mset_eq_imp_distinct_iff [OF e] using sd(9) qp(2) spl by simp
    qed
    moreover have "ordered_list lo hi (A @ (m, km) # B) t" using sd(7) spl ts by simp
    note os = ordered_split [OF this]
    have "above_lo lo km" "below_hi hi km" "ordered lo (Some km) l2" "ordered (Some km) hi r2"
      using os by (simp_all add: l2_def r2_def)
    moreover have "height_is (Suc h) l2" "height_is (Suc h) r2"
      using sd(8) unfolding spl ts by (auto simp: l2_def r2_def)
    moreover have "linked H2 0 (ctx_left leaf_ids ctx @ leaf_ids l2 @ leaf_ids r2 @ ctx_right leaf_ids ctx) 0"
    proof -
      have "leaf_ids (split1 f l k r) = leaf_ids l2 @ leaf_ids r2" by (simp add: spl ts l2_def r2_def)
      with sd(13) have "linked H 0 (ctx_left leaf_ids ctx @ leaf_ids l2 @ leaf_ids r2 @ ctx_right leaf_ids ctx) 0"
        by simp
      then show ?thesis unfolding H2_def using sd(1) q(1) p by (intro linked_upd) auto
    qed
    ultimately have ss: "split_state cfg key_ok H2 (Suc h) ctx l2 km r2"
      using sd(11,12) kAB(2) ho by (simp add: split_state_def)
    have root: "root_id (plug ctx l2) = root_id (plug (f # ctx) l)"
      using root_id_plug_cong [of l2 "plug1 f l" ctx] by (simp add: l2_def p)
    have i: "length ctx < pm_room (tr_pm (with_pm bt pm))"
      "bm_root_page_id (tr_meta (with_pm bt pm)) = root_id (plug ctx l2)"
      "bm_height (tr_meta (with_pm bt pm)) = word_of_nat (Suc h + length ctx)"
      using Cons.prems(3-5) q(2) root by simp_all
    have "root_id r2 = q" by (simp add: r2_def)
    with Cons.IH [OF so [folded H2_def] ss i] obtain bt' H' t' where
      r': "propagate_split K crc (path_of ctx) km q (with_pm bt pm) = (bt', Inr ())"
      "store_ok K cfg key_ok crc bt' H'" "shape_ok cfg H' t'" "rooted bt' t'"
      "contents t' = ctx_left contents ctx @ contents l2 @ contents r2 @ ctx_right contents ctx"
      "same_tree (with_pm bt pm) bt'" "pm_room pm \<le> pm_room (tr_pm bt') + length ctx + 1" by auto
    have "contents l2 @ contents r2 = contents (split1 f l k r)" by (simp add: spl ts l2_def r2_def)
    then have "contents t' = ctx_left contents (f # ctx) @ contents l @ contents r @ ctx_right contents (f # ctx)"
      using r'(5) sd(14) by simp
    then show ?thesis
      using run r'(1-4,6,7) q(2) by (intro exI [of _ bt'] exI [of _ H'] exI [of _ t']) (simp add: same_tree_def)
  qed
qed

end

section \<open>Leaves\<close>

text \<open>What \<^verbatim>\<open>next.prev_leaf = ...\<close> does to the nodes.\<close>

definition relinked :: "('k, 'c) nodes \<Rightarrow> u32 \<Rightarrow> u32 \<Rightarrow> ('k, 'c) nodes" where
  "relinked H nx q =
     (case H nx of Some (Leaf l) \<Rightarrow> H(nx \<mapsto> Leaf (l\<lparr>ln_prev_leaf := q\<rparr>)) | _ \<Rightarrow> H)"

lemma mk_leaf_prev [simp]: "(mk_leaf cfg p es pv nx)\<lparr>ln_prev_leaf := q\<rparr> = mk_leaf cfg p es q nx"
  by (simp add: mk_leaf_def)

lemma relinked_other [simp]: "p \<noteq> nx \<Longrightarrow> relinked H nx q p = H p"
  by (auto simp: relinked_def split: option.splits node_ref.splits)

lemma relinked_cases:
  "relinked H nx q p = H p \<or> (\<exists>l. H p = Some (Leaf l) \<and> relinked H nx q p = Some (Leaf (l\<lparr>ln_prev_leaf := q\<rparr>)))"
  by (auto simp: relinked_def split: option.splits node_ref.splits)

lemma relinked_internal: "H p = Some (Internal n) \<Longrightarrow> relinked H nx q p = Some (Internal n)"
  using relinked_cases [of H nx q p] by auto

lemma represents_relinked: "represents cfg H t \<Longrightarrow> represents cfg (relinked H nx q) t"
proof (induction t rule: page_ids.induct)
  case (1 p es)
  then obtain pv x where "H p = Some (Leaf (mk_leaf cfg p es pv x))" by auto
  then show ?case using relinked_cases [of H nx q p] by auto
qed (auto simp: relinked_internal)

lemma ctx_represents_relinked: "ctx_represents cfg H ctx r \<Longrightarrow> ctx_represents cfg (relinked H nx q) ctx r"
  by (induction ctx arbitrary: r) (auto simp: relinked_internal intro: represents_relinked)

lemma linked_relinked_other:
  "linked H pv ps x \<Longrightarrow> nx \<notin> set ps \<Longrightarrow> linked (relinked H nx q) pv ps x"
  by (rule linked_frame) (auto intro!: relinked_other)

lemma linked_relinked:
  assumes "linked H pv ps 0" and "distinct ps" and "H 0 = None"
  shows "linked (relinked H (first_or 0 ps) q) q ps 0"
proof (cases ps)
  case (Cons p ps')
  then have "linked (relinked H p q) p ps' 0" using assms by (intro linked_relinked_other) auto
  with Cons assms show ?thesis by (auto simp: relinked_def)
qed simp

lemma linked_leaf:
  assumes "linked H pv (L @ p # R) 0" and "H p = Some (Leaf l)"
  shows "ln_prev_leaf l = last_or pv L" "ln_next_leaf l = first_or 0 R" "linked H pv L p" "linked H p R 0"
  using assms by (auto simp: linked_append)

lemma linked_relabel:
  assumes "linked H pv ps nx" and "H p = Some (Leaf l)"
    and "ln_prev_leaf l' = ln_prev_leaf l" and "ln_next_leaf l' = ln_next_leaf l"
  shows "linked (H(p \<mapsto> Leaf l')) pv ps nx"
  using assms(1) by (induction ps arbitrary: pv) (use assms(2-4) in auto)

context key_codec
begin

lemma relink_next_ok:
  assumes "store_ok K cfg key_ok crc bt H" and "nx \<noteq> 0 \<longrightarrow> (\<exists>l. H nx = Some (Leaf l))"
  shows "\<exists>pm. relink_next K crc nx q bt = (with_pm bt pm, Inr ())
    \<and> store_ok K cfg key_ok crc (with_pm bt pm) (relinked H nx q)
    \<and> pm_used pm = pm_used (tr_pm bt) \<and> pm_room pm = pm_room (tr_pm bt)"
proof (cases "nx = 0")
  case True
  have "H 0 = None" using store_zero [OF assms(1)] .
  then show ?thesis
    using assms(1) True by (intro exI [of _ "tr_pm bt"]) (simp add: relink_next_def relinked_def)
next
  case False
  with assms(2) obtain l where l: "H nx = Some (Leaf l)" by blast
  note s = store_okD [OF assms(1)]
  have "node_ok K cfg key_ok nx (Leaf (l\<lparr>ln_prev_leaf := q\<rparr>))" using s(6) [OF l] by simp
  moreover have "nx \<noteq> tr_meta_page_id bt" using s(4) l by auto
  ultimately obtain pm where "save_leaf K crc (l\<lparr>ln_prev_leaf := q\<rparr>) bt = (with_pm bt pm, Inr ())"
    "store_ok K cfg key_ok crc (with_pm bt pm) (H(nx \<mapsto> Leaf (l\<lparr>ln_prev_leaf := q\<rparr>)))"
    "pm_used pm = pm_used (tr_pm bt)" "pm_room pm = pm_room (tr_pm bt)"
    using save_leaf_ok [OF assms(1) _ s(5) [OF l]] by blast
  then show ?thesis
    using False read_leaf_ok [OF assms(1) l] l
    by (intro exI [of _ pm]) (simp add: relink_next_def bind_pure_op relinked_def)
qed


lemma split_leaf_ok:
  assumes "store_ok K cfg key_ok crc bt H" and "0 < pm_room (tr_pm bt)"
    and "H p = Some (Leaf old)" and "nx \<noteq> 0 \<longrightarrow> (\<exists>l. H nx = Some (Leaf l)) \<and> nx \<noteq> p"
    and "length A = length (A @ B) div 2" and "length (A @ B) = Suc (leaf_max_entries K cfg)"
    and "\<forall>e \<in> set (A @ B). key_ok (fst e)"
  shows "\<exists>pm q. bind_op (split_leaf crc (mk_leaf cfg p (A @ B) pv nx)) (\<lambda>(left, right, promoted).
          bind_op (save_leaf K crc left) (\<lambda>_.
          bind_op (save_leaf K crc right) (\<lambda>_.
          bind_op (relink_next K crc (ln_next_leaf right) (ln_page_id right)) (\<lambda>_.
            g promoted (ln_page_id right))))) bt
        = g (fst (hd B)) q (with_pm bt pm)
    \<and> store_ok K cfg key_ok crc (with_pm bt pm)
        (relinked (H(p \<mapsto> Leaf (mk_leaf cfg p A pv q), q \<mapsto> Leaf (mk_leaf cfg q B p nx))) nx q)
    \<and> H q = None \<and> q \<noteq> 0 \<and> pm_room pm = pm_room (tr_pm bt) - 1"
proof -
  from alloc_ok [OF assms(1,2)] obtain pm q where
    q: "on_pm (allocate_page crc) bt = (with_pm bt pm, Inr q)" "store_ok K cfg key_ok crc (with_pm bt pm) H"
      "H q = None" "q \<noteq> tr_meta_page_id bt" "pm_used pm = insert q (pm_used (tr_pm bt))"
      "pm_room pm = pm_room (tr_pm bt) - 1" "q \<noteq> 0" by blast
  define nl nr where "nl = mk_leaf cfg p A pv q" and "nr = mk_leaf cfg q B p nx"
  have cap: "length A \<le> leaf_max_entries K cfg" "length B \<le> leaf_max_entries K cfg" "B \<noteq> []"
    using assms(5,6) capacities(3) by auto
  have spl: "split_leaf crc (mk_leaf cfg p (A @ B) pv nx) bt = (with_pm bt pm, Inr (nl, nr, fst (hd B)))"
  proof -
    have t: "take (length (A @ B) div 2) (A @ B) = A" "drop (length (A @ B) div 2) (A @ B) = B"
      unfolding assms(5) [symmetric] by simp_all
    show ?thesis
      using q(1) cap(3) t by (auto simp: split_leaf_def mk_leaf_def Let_def bind_op_Inr leaf_new_def nl_def nr_def
          neq_Nil_conv)
  qed
  have pl: "p \<in> pm_used pm" "p \<noteq> tr_meta_page_id bt" "p \<noteq> q"
    using store_okD(4,5) [OF assms(1)] assms(3) q(3,5) by auto
  have oks: "node_ok K cfg key_ok p (Leaf nl)" "node_ok K cfg key_ok q (Leaf nr)"
    using cap assms(7) by (simp_all add: nl_def nr_def mk_leaf_def)
  from save_leaf_ok [OF q(2) oks(1)] pl obtain pm1 where
    s1: "save_leaf K crc nl (with_pm bt pm) = (with_pm bt pm1, Inr ())"
      "store_ok K cfg key_ok crc (with_pm bt pm1) (H(p \<mapsto> Leaf nl))" "pm_used pm1 = pm_used pm"
      "pm_room pm1 = pm_room pm" by auto
  from save_leaf_ok [OF s1(2) oks(2)] q(4,5) s1(3) obtain pm2 where
    s2: "save_leaf K crc nr (with_pm bt pm1) = (with_pm bt pm2, Inr ())"
      "store_ok K cfg key_ok crc (with_pm bt pm2) (H(p \<mapsto> Leaf nl, q \<mapsto> Leaf nr))"
      "pm_room pm2 = pm_room pm1" by auto
  have "nx \<noteq> 0 \<longrightarrow> (\<exists>l. (H(p \<mapsto> Leaf nl, q \<mapsto> Leaf nr)) nx = Some (Leaf l))" using assms(4) by auto
  from relink_next_ok [OF s2(2) this, of q] obtain pm3 where
    s3: "relink_next K crc nx q (with_pm bt pm2) = (with_pm bt pm3, Inr ())"
      "store_ok K cfg key_ok crc (with_pm bt pm3) (relinked (H(p \<mapsto> Leaf nl, q \<mapsto> Leaf nr)) nx q)"
      "pm_room pm3 = pm_room pm2" by (auto simp del: fun_upd_apply)
  have "ln_page_id nr = q" "ln_next_leaf nr = nx" by (simp_all add: nr_def mk_leaf_def)
  then show ?thesis
    using spl s1 s2 s3 q(3,6,7)
    by (intro exI [of _ pm3] exI [of _ q]) (simp add: bind_op_Inr nl_def nr_def)
qed

end

end
