(* ===== verification/Btree_Update.thy ===== *)
theory Btree_Update
  imports Btree_Insert
begin

text \<open>
  Search and insertion of the B+tree against the sorted list of its entries: what \<open>tree_holds\<close>
  says of a tree on disk, and that \<^verbatim>\<open>search\<close> and \<^verbatim>\<open>insert\<close> look up and insert in this list.
\<close>

section \<open>The entries of a tree\<close>

definition tree_holds ::
  "('k::linorder, 'c) key_ops \<Rightarrow> 'c \<Rightarrow> ('k \<Rightarrow> bool) \<Rightarrow> (bytes \<Rightarrow> u32) \<Rightarrow> 'c btree \<Rightarrow> 'k leaf_entry list \<Rightarrow> bool" where
  "tree_holds K cfg key_ok crc bt es \<longleftrightarrow>
     (\<exists>H t. store_ok K cfg key_ok crc bt H \<and> shape_ok cfg H t \<and> rooted bt t \<and> contents t = es)
     \<and> meta_stored K crc bt \<and> tr_meta_page_id bt = META_PAGE_ID
     \<and> bm_num_entries (tr_meta bt) = word_of_nat (length es)"

lemma tree_holds_sorted: "tree_holds K cfg key_ok crc bt es \<Longrightarrow> bt_ok es"
  by (auto simp: tree_holds_def shape_ok_def dest: ordered_contents(1))

lemma bt_insert_append_left: "\<forall>e \<in> set L. fst e < k \<Longrightarrow> bt_insert k v (L @ es) = L @ bt_insert k v es"
proof (induction L)
  case (Cons e L)
  then show ?case by (cases e) auto
qed simp

lemma bt_insert_append_right: "\<forall>e \<in> set R. k < fst e \<Longrightarrow> bt_insert k v (es @ R) = bt_insert k v es @ R"
proof (induction es)
  case Nil
  then show ?case by (cases R) auto
next
  case (Cons e es)
  then show ?case by (cases e) auto
qed

lemma length_bt_insert_new: "k \<notin> fst ` set m \<Longrightarrow> length (bt_insert k v m) = Suc (length m)"
  by (induction m rule: bt_insert.induct [of _ k v]) auto

lemma key_sides:
  assumes "key_in key ctx" and "ordered None None (plug ctx (Lf p es))"
  shows "\<forall>e \<in> set (ctx_left contents ctx). fst e < key" "\<forall>e \<in> set (ctx_right contents ctx). key < fst e"
proof -
  obtain lo hi where h: "hole ctx = (lo, hi)" by (cases "hole ctx")
  have "ordered None None (plug ctx (Lf p [(key, undefined)]))"
    using assms h by (simp add: ordered_plug key_in_def)
  from ordered_contents(1) [OF this]
  show "\<forall>e \<in> set (ctx_left contents ctx). fst e < key" "\<forall>e \<in> set (ctx_right contents ctx). key < fst e"
    by (auto simp: contents_plug bt_ok_def sorted_wrt_append)
qed

lemma leaf_contents:
  assumes "key_in key ctx" and "ordered None None (plug ctx (Lf p es))"
  shows "map_of (contents (plug ctx (Lf p es))) key = map_of es key"
    "key \<in> fst ` set (contents (plug ctx (Lf p es))) \<longleftrightarrow> key \<in> fst ` set es"
    "bt_insert key v (contents (plug ctx (Lf p es))) = contents (plug ctx (Lf p (bt_insert key v es)))"
    "bt_remove key (contents (plug ctx (Lf p es))) = contents (plug ctx (Lf p (bt_remove key es)))"
proof -
  note s = key_sides [OF assms]
  have out: "key \<notin> fst ` set (ctx_left contents ctx)" "key \<notin> fst ` set (ctx_right contents ctx)"
    using s by fastforce+
  then have "map_of (ctx_left contents ctx) key = None" "map_of (ctx_right contents ctx) key = None"
    by (simp_all add: map_of_eq_None_iff)
  then show "map_of (contents (plug ctx (Lf p es))) key = map_of es key"
    by (auto simp: contents_plug map_add_def split: option.split)
  show "key \<in> fst ` set (contents (plug ctx (Lf p es))) \<longleftrightarrow> key \<in> fst ` set es"
    using out by (auto simp: contents_plug)
  show "bt_insert key v (contents (plug ctx (Lf p es))) = contents (plug ctx (Lf p (bt_insert key v es)))"
    by (simp add: contents_plug bt_insert_append_left [OF s(1)] bt_insert_append_right [OF s(2)])
  have "filter (\<lambda>e. fst e \<noteq> key) (ctx_left contents ctx) = ctx_left contents ctx"
    "filter (\<lambda>e. fst e \<noteq> key) (ctx_right contents ctx) = ctx_right contents ctx"
    using s by (auto simp: filter_id_conv)
  then show "bt_remove key (contents (plug ctx (Lf p es))) = contents (plug ctx (Lf p (bt_remove key es)))"
    by (simp add: contents_plug bt_remove_def)
qed

lemma ordered_leaf:
  assumes "ordered None None (plug ctx (Lf p es))" and "bt_ok es'"
    and "\<forall>e \<in> set es'. fst e \<in> fst ` set es \<or> (fst e = key \<and> key_in key ctx)"
  shows "ordered None None (plug ctx (Lf p' es'))"
proof -
  obtain lo hi where h: "hole ctx = (lo, hi)" by (cases "hole ctx")
  with assms show ?thesis by (force simp: ordered_plug key_in_def)
qed

lemma leaf_search_mk:
  assumes "bt_ok es"
  shows "leaf_search (mk_leaf cfg p es pv nx) key = None \<longleftrightarrow> key \<notin> fst ` set es"
    "leaf_search (mk_leaf cfg p es pv nx) key = Some i \<Longrightarrow> map_of es key = Some (snd (es ! i))"
proof -
  have found: "\<exists>i. leaf_search (mk_leaf cfg p es pv nx) key = Some i \<and> map_of es key = Some (snd (es ! i))"
    if "key \<in> fst ` set es"
  proof -
    from that obtain v where v: "(key, v) \<in> set es" by auto
    from binary_search_found [OF assms v] obtain ls rs where
      b: "es = ls @ (key, v) # rs" "binary_search fst key es = Inr (length ls)" by blast
    have "map_of es key = Some v" using v bt_ok_distinct [OF assms] by (metis map_of_is_SomeI)
    then show ?thesis using b by (simp add: leaf_search_def mk_leaf_def)
  qed
  have missing: "leaf_search (mk_leaf cfg p es pv nx) key = None" if "key \<notin> fst ` set es"
    using binary_search_missing [OF that] by (auto simp: leaf_search_def mk_leaf_def)
  show "leaf_search (mk_leaf cfg p es pv nx) key = None \<longleftrightarrow> key \<notin> fst ` set es"
    using found missing by fastforce
  show "leaf_search (mk_leaf cfg p es pv nx) key = Some i \<Longrightarrow> map_of es key = Some (snd (es ! i))"
    using found missing by fastforce
qed

lemma leaf_insert_mk:
  assumes "bt_ok es" and "key \<notin> fst ` set es"
  shows "leaf_insert_entry (key, v) (mk_leaf cfg p es pv nx) = mk_leaf cfg p (bt_insert key v es) pv nx"
  using bt_insert_vec [OF assms, of v] length_bt_insert_new [OF assms(2), of v]
  by (simp add: leaf_insert_entry_def mk_leaf_def unwrap_binary_search add.commute)

lemma height_le_pages: "height_is h t \<Longrightarrow> h \<le> length (page_ids t)"
proof (induction t arbitrary: h rule: page_ids.induct)
  case (2 p ts t)
  then obtain h' where h': "h = Suc h'" "height_is h' t" by (cases h) auto
  with 2 show ?case by fastforce
qed simp

lemma height_bound:
  assumes "shape_ok cfg H t" and "H 0 = None" and "height_is h t"
  shows "h < 2 ^ 32"
proof -
  have "set (page_ids t) \<subseteq> UNIV - {0}"
    using represents_not_in [of cfg H t 0] assms(1,2) by (auto simp: shape_ok_def)
  then have "card (set (page_ids t)) \<le> card (UNIV - {0 :: u32})" by (intro card_mono) auto
  then have "length (page_ids t) < 2 ^ 32"
    using assms(1) by (simp add: shape_ok_def distinct_card card_word)
  then show ?thesis using height_le_pages [OF assms(3)] by simp
qed

lemma leaf_depth:
  assumes "rooted bt (plug ctx (Lf p es))"
  shows "ctx_height 1 ctx" "bm_height (tr_meta bt) = word_of_nat (1 + length ctx)"
    "height_is (1 + length ctx) (plug ctx (Lf p es))"
proof -
  from assms obtain h where h: "height_is h (plug ctx (Lf p es))" "bm_height (tr_meta bt) = word_of_nat h"
    by (auto simp: rooted_def)
  from height_plug_length [OF h(1)] obtain h' where "h = h' + length ctx" "height_is h' (Lf p es)" "ctx_height h' ctx"
    by blast
  then have "h = 1 + length ctx" "ctx_height 1 ctx" by simp_all
  then show "ctx_height 1 ctx" "bm_height (tr_meta bt) = word_of_nat (1 + length ctx)"
    "height_is (1 + length ctx) (plug ctx (Lf p es))" using h by simp_all
qed

lemma leaf_depth_unat:
  assumes "store_ok K cfg key_ok crc bt H" and "shape_ok cfg H (plug ctx (Lf p es))" and "rooted bt (plug ctx (Lf p es))"
  shows "unat (bm_height (tr_meta bt)) = Suc (length ctx)"
proof -
  have "H 0 = None" using store_zero [OF assms(1)] .
  then have "1 + length ctx < 2 ^ 32" using height_bound [OF assms(2) _ leaf_depth(3) [OF assms(3)]] by blast
  then show ?thesis
    using leaf_depth(2) [OF assms(3)] unat_of_nat_small [of "1 + length ctx", where 'a = 32]
    by (simp del: of_nat_add of_nat_Suc)
qed

section \<open>Search\<close>

context key_codec
begin

lemma locate:
  assumes "store_ok K cfg key_ok crc bt H" and "shape_ok cfg H t" and "rooted bt t"
  shows "\<exists>ctx p es pv nx. t = plug ctx (Lf p es) \<and> key_in key ctx
    \<and> H p = Some (Leaf (mk_leaf cfg p es pv nx))
    \<and> find_leaf K crc key bt = Some (Inr (mk_leaf cfg p es pv nx))
    \<and> find_leaf_with_path K crc key bt = Some (Inr (mk_leaf cfg p es pv nx, path_of ctx))"
proof -
  have "represents cfg H (plug [] t)" "ordered None None (plug [] t)" "key_in key []"
    using assms(2) by (simp_all add: shape_ok_def key_in_def)
  from descend [OF assms(1) this] obtain ctx p es pv nx where
    r: "plug ctx (Lf p es) = t" "key_in key ctx" "H p = Some (Leaf (mk_leaf cfg p es pv nx))"
      "find_leaf_from K crc key bt (root_id t) = Some (Inr (mk_leaf cfg p es pv nx))"
      "find_path_from K crc key bt (path_of []) (root_id t) = Some (Inr (mk_leaf cfg p es pv nx, path_of ctx))"
    by auto
  have "bm_root_page_id (tr_meta bt) = root_id t" using assms(3) by (simp add: rooted_def)
  then show ?thesis
    using r by (intro exI [of _ ctx] exI [of _ p] exI [of _ es] exI [of _ pv] exI [of _ nx])
      (simp add: find_leaf_def find_leaf_with_path_def path_of_def)
qed

lemma holds_leaf:
  assumes "tree_holds K cfg key_ok crc bt es"
  shows "\<exists>H ctx p ls pv nx. store_ok K cfg key_ok crc bt H \<and> shape_ok cfg H (plug ctx (Lf p ls))
    \<and> rooted bt (plug ctx (Lf p ls)) \<and> H p = Some (Leaf (mk_leaf cfg p ls pv nx))
    \<and> find_leaf K crc key bt = Some (Inr (mk_leaf cfg p ls pv nx))
    \<and> find_leaf_with_path K crc key bt = Some (Inr (mk_leaf cfg p ls pv nx, path_of ctx))
    \<and> key_in key ctx \<and> ordered None None (plug ctx (Lf p ls)) \<and> bt_ok ls \<and> contents (plug ctx (Lf p ls)) = es"
proof -
  from assms obtain H t where t: "store_ok K cfg key_ok crc bt H" "shape_ok cfg H t" "rooted bt t"
    "contents t = es" by (auto simp: tree_holds_def)
  from locate [OF t(1-3), of key] obtain ctx p ls pv nx where
    l: "t = plug ctx (Lf p ls)" "key_in key ctx" "H p = Some (Leaf (mk_leaf cfg p ls pv nx))"
      "find_leaf K crc key bt = Some (Inr (mk_leaf cfg p ls pv nx))"
      "find_leaf_with_path K crc key bt = Some (Inr (mk_leaf cfg p ls pv nx, path_of ctx))"
    by blast
  have o: "ordered None None (plug ctx (Lf p ls))" using t(2) l(1) by (simp add: shape_ok_def)
  then have "bt_ok ls" by (cases "hole ctx") (simp add: ordered_plug)
  then show ?thesis using t l(2-5) o unfolding l(1) by blast
qed

lemma search_ok:
  assumes "tree_holds K cfg key_ok crc bt es"
  shows "tree_search K crc key bt = Some (Inr (bt_get es key))"
proof -
  from holds_leaf [OF assms, of key] obtain ctx p ls pv nx where
    l: "find_leaf K crc key bt = Some (Inr (mk_leaf cfg p ls pv nx))" "key_in key ctx"
      "ordered None None (plug ctx (Lf p ls))" "bt_ok ls" "contents (plug ctx (Lf p ls)) = es" by blast
  have g: "bt_get es key = bt_get ls key" using leaf_contents(1) [OF l(2,3)] l(5) by simp
  show ?thesis
  proof (cases "leaf_search (mk_leaf cfg p ls pv nx) key")
    case None
    then have "bt_get ls key = None"
      using leaf_search_mk(1) [OF l(4), of cfg p pv nx key] by (simp add: map_of_eq_None_iff)
    then show ?thesis using l(1) None g by (simp add: tree_search_def)
  next
    case (Some i)
    then show ?thesis using l(1) g leaf_search_mk(2) [OF l(4) Some] by (simp add: tree_search_def mk_leaf_def)
  qed
qed

end

section \<open>Insertion\<close>

lemma mset_concat_mono:
  "\<forall>s \<in> set ss. mset (f s) \<subseteq># mset (g s) \<Longrightarrow> mset (concat (map f ss)) \<subseteq># mset (concat (map g ss))"
  by (induction ss) (auto intro: subset_mset.add_mono)

lemma mset_leaf_ids: "mset (leaf_ids t) \<subseteq># mset (page_ids t)"
proof (induction t rule: page_ids.induct)
  case (2 p ts t)
  have "mset (concat (map leaf_ids (map fst ts))) \<subseteq># mset (concat (map page_ids (map fst ts)))"
    using 2 by (intro mset_concat_mono) auto
  then have "mset (leaf_ids (Nd p ts t)) \<subseteq># mset (concat (map page_ids (map fst ts))) + mset (page_ids t)"
    using 2 by (auto intro: subset_mset.add_mono)
  also have "\<dots> \<subseteq># mset (page_ids (Nd p ts t))" by simp
  finally show ?case .
qed simp

lemma distinct_mset_mono:
  assumes "mset xs \<subseteq># mset ys" and "distinct ys"
  shows "distinct xs"
proof -
  have "count (mset ys) a \<le> 1" for a using assms(2) unfolding distinct_count_atmost_1 by simp
  then have "count (mset xs) a \<le> 1" for a
    using mset_subset_eq_count [OF assms(1), of a] order_trans by blast
  then have "count (mset xs) a = (if a \<in> set xs then 1 else 0)" for a
    using count_mset_gt_0 [of a xs] by (cases "a \<in> set xs") (simp_all add: le_antisym Suc_leI count_mset_0_iff)
  then show ?thesis by (simp add: distinct_count_atmost_1)
qed

lemma distinct_leaf_ids: "distinct (page_ids t) \<Longrightarrow> distinct (leaf_ids t)"
  using distinct_mset_mono [OF mset_leaf_ids] by blast

lemma ordered_cut:
  assumes "bt_ok (A @ B)" and "\<forall>e \<in> set (A @ B). from_lo lo (fst e) \<and> below_hi hi (fst e)"
    and "A \<noteq> []" and "B \<noteq> []"
  shows "above_lo lo (fst (hd B))" "below_hi hi (fst (hd B))"
    "ordered lo (Some (fst (hd B))) (Lf p A)" "ordered (Some (fst (hd B))) hi (Lf q B)"
proof -
  obtain a A' where a: "A = a # A'" using assms(3) by (cases A) auto
  obtain b B' where b: "B = b # B'" using assms(4) by (cases B) auto
  have s: "sorted_wrt (<) (map fst A @ map fst B)" using assms(1) by (simp add: bt_ok_def)
  then have lt: "\<forall>e \<in> set A. fst e < fst b" and le: "\<forall>e \<in> set B. fst b \<le> fst e" and ok: "bt_ok A" "bt_ok B"
    using b by (auto simp: sorted_wrt_append bt_ok_def)
  have "from_lo lo (fst a)" "fst a < fst b" using assms(2) lt a by auto
  then show "above_lo lo (fst (hd B))" using b by (auto simp: from_lo_def above_lo_def split: option.splits)
  show "below_hi hi (fst (hd B))" using assms(2) b by simp
  show "ordered lo (Some (fst (hd B))) (Lf p A)" "ordered (Some (fst (hd B))) hi (Lf q B)"
    using ok assms(2) lt le b by (auto simp: below_hi_def [of "Some _"] from_lo_def [of "Some _"])
qed

lemma linked_split:
  assumes "linked H 0 (L @ p # R) 0" and "distinct (L @ p # R)" and "H p = Some (Leaf (mk_leaf cfg p es pv nx))"
    and "H q = None" and "H 0 = None" and "q \<noteq> 0"
  shows "linked (relinked (H(p \<mapsto> Leaf (mk_leaf cfg p A pv q), q \<mapsto> Leaf (mk_leaf cfg q B p nx))) nx q)
           0 (L @ p # q # R) 0"
proof -
  define H2 where "H2 = H(p \<mapsto> Leaf (mk_leaf cfg p A pv q), q \<mapsto> Leaf (mk_leaf cfg q B p nx))"
  note l = linked_leaf [OF assms(1,3)]
  have nx: "nx = first_or 0 R" "pv = last_or 0 L" using l(1,2) by (simp_all add: mk_leaf_def)
  have "\<exists>l. H r = Some (Leaf l)" if "r \<in> set (L @ p # R)" for r using linked_member [OF assms(1) that] .
  then have q: "q \<notin> set (L @ p # R)" "0 \<notin> set (L @ p # R)" using assms(4,5) by force+
  have out: "nx \<notin> set L" "p \<noteq> nx" "q \<noteq> nx" using assms(2,6) q nx(1) by (cases R; auto)+
  have "linked H2 p R 0" using assms(2) q by (intro linked_frame [OF l(4)]) (auto simp: H2_def)
  moreover have "H2 0 = None" using q assms(5,6) by (auto simp: H2_def)
  ultimately have r: "linked (relinked H2 nx q) q R 0"
    using linked_relinked [of H2 p R q] assms(2) nx(1) by simp
  have "linked H2 0 L p" using assms(2) q by (intro linked_frame [OF l(3)]) (auto simp: H2_def)
  then have l: "linked (relinked H2 nx q) 0 L p" using out by (intro linked_relinked_other)
  have "relinked H2 nx q p = Some (Leaf (mk_leaf cfg p A pv q))"
    "relinked H2 nx q q = Some (Leaf (mk_leaf cfg q B p nx))"
    using out q by (auto simp: H2_def)
  then have "linked (relinked H2 nx q) 0 (L @ p # q # R) 0"
    using l r nx by (simp add: linked_append) (simp add: mk_leaf_def)
  then show ?thesis by (simp add: H2_def)
qed

lemma split_leaf_state:
  assumes "shape_ok cfg H (plug ctx (Lf p es))" and "H p = Some (Leaf (mk_leaf cfg p es pv nx))"
    and "H q = None" and "H 0 = None" and "q \<noteq> 0"
    and "ordered None None (plug ctx (Lf p (A @ B)))" and "A \<noteq> []" and "B \<noteq> []" and "key_ok (fst (hd B))"
    and "ctx_height 1 ctx"
    and "H' = relinked (H(p \<mapsto> Leaf (mk_leaf cfg p A pv q), q \<mapsto> Leaf (mk_leaf cfg q B p nx))) nx q"
  shows "split_state cfg key_ok H' 1 ctx (Lf p A) (fst (hd B)) (Lf q B)"
proof -
  define H2 where "H2 = H(p \<mapsto> Leaf (mk_leaf cfg p A pv q), q \<mapsto> Leaf (mk_leaf cfg q B p nx))"
  have H': "H' = relinked H2 nx q" using assms(11) by (simp add: H2_def)
  note sh = assms(1) [unfolded shape_ok_def represents_plug leaf_ids_plug]
  have d: "distinct (ctx_ids ctx @ [p])" using sh by (simp add: distinct_page_ids_plug)
  have q: "q \<notin> set (ctx_ids ctx)" "q \<noteq> p"
    using ctx_represents_not_in [of cfg H ctx p q] sh assms(2,3) by auto
  have "ctx_represents cfg H2 ctx p"
    unfolding H2_def using sh d q by (intro ctx_represents_upd) auto
  then have c: "ctx_represents cfg H' ctx p" unfolding H' by (rule ctx_represents_relinked)
  have "represents cfg H2 (Lf p A)" "represents cfg H2 (Lf q B)" using q by (auto simp: H2_def)
  then have r: "represents cfg H' (Lf p A)" "represents cfg H' (Lf q B)"
    unfolding H' by (simp_all only: represents_relinked)
  have "distinct (leaf_ids (plug ctx (Lf p es)))"
    using assms(1) by (auto simp: shape_ok_def intro: distinct_leaf_ids)
  then have "linked H' 0 (ctx_left leaf_ids ctx @ p # q # ctx_right leaf_ids ctx) 0"
    unfolding assms(11) using sh assms(2-5) by (intro linked_split) (simp_all add: leaf_ids_plug)
  moreover obtain lo hi where h: "hole ctx = (lo, hi)" by (cases "hole ctx")
  moreover have "ctx_ordered ctx" and o: "ordered lo hi (Lf p (A @ B))" using assms(6) h by (simp_all add: ordered_plug)
  moreover note ordered_cut [of A B lo hi, OF _ _ assms(7,8)]
  ultimately show ?thesis
    using c r d q assms(9,10) by (auto simp: split_state_def)
qed

abbreviation insert_done :: "('k, 'c) key_ops \<Rightarrow> (bytes \<Rightarrow> u32) \<Rightarrow> ('c btree, unit) op" where
  "insert_done K crc \<equiv> bind_op (modify_meta (\<lambda>m. m\<lparr>bm_num_entries := bm_num_entries m + 1\<rparr>)) (\<lambda>_. flush_meta K crc)"

context key_codec
begin

lemma flush_holds:
  assumes "store_ok K cfg key_ok crc bt H" and "shape_ok cfg H t" and "rooted bt t"
    and "tr_meta_page_id bt = META_PAGE_ID" and "bm_num_entries (tr_meta bt) = word_of_nat (length (contents t))"
  shows "\<exists>pm. flush_meta K crc bt = (with_pm bt pm, Inr ())
    \<and> tree_holds K cfg key_ok crc (with_pm bt pm) (contents t) \<and> pm_room pm = pm_room (tr_pm bt)"
proof -
  from flush_meta_ok [OF assms(1)] obtain pm where
    pm: "flush_meta K crc bt = (with_pm bt pm, Inr ())" "store_ok K cfg key_ok crc (with_pm bt pm) H"
      "meta_stored K crc (with_pm bt pm)" "pm_room pm = pm_room (tr_pm bt)" by blast
  have "rooted (with_pm bt pm) t" using assms(3) by (simp add: rooted_def)
  then have "tree_holds K cfg key_ok crc (with_pm bt pm) (contents t)"
    unfolding tree_holds_def using pm(2,3) assms(2,4,5) by auto
  then show ?thesis using pm by blast
qed

lemma replace_leaf_ok:
  assumes "store_ok K cfg key_ok crc bt H" and "shape_ok cfg H (plug ctx (Lf p es))"
    and "H p = Some (Leaf (mk_leaf cfg p es pv nx))" and "ordered None None (plug ctx (Lf p es'))"
    and "length es' \<le> leaf_max_entries K cfg" and "\<forall>e \<in> set es'. key_ok (fst e)"
    and "H' = H(p \<mapsto> Leaf (mk_leaf cfg p es' pv nx))"
  shows "\<exists>pm. save_leaf K crc (mk_leaf cfg p es' pv nx) bt = (with_pm bt pm, Inr ())
    \<and> store_ok K cfg key_ok crc (with_pm bt pm) H' \<and> pm_room pm = pm_room (tr_pm bt)"
    "shape_ok cfg H' (plug ctx (Lf p es'))"
proof -
  have "node_ok K cfg key_ok p (Leaf (mk_leaf cfg p es' pv nx))" using assms(5,6) by (simp add: mk_leaf_def)
  moreover have "p \<in> pm_used (tr_pm bt)" "p \<noteq> tr_meta_page_id bt"
    using store_okD(4,5) [OF assms(1)] assms(3) by auto
  ultimately show "\<exists>pm. save_leaf K crc (mk_leaf cfg p es' pv nx) bt = (with_pm bt pm, Inr ())
    \<and> store_ok K cfg key_ok crc (with_pm bt pm) H' \<and> pm_room pm = pm_room (tr_pm bt)"
    using save_leaf_ok [OF assms(1)] assms(7) by blast
  note sh = assms(2) [unfolded shape_ok_def represents_plug leaf_ids_plug distinct_page_ids_plug]
  have "linked H' 0 (ctx_left leaf_ids ctx @ [p] @ ctx_right leaf_ids ctx) 0"
    unfolding assms(7)
    by (rule linked_relabel [where l = "mk_leaf cfg p es pv nx"]) (use sh assms(3) in \<open>simp_all add: mk_leaf_def\<close>)
  moreover have "ctx_represents cfg H' ctx p"
    unfolding assms(7) using sh by (intro ctx_represents_upd) auto
  ultimately show "shape_ok cfg H' (plug ctx (Lf p es'))"
    using sh assms(4,7) by (auto simp: shape_ok_def represents_plug leaf_ids_plug distinct_page_ids_plug)
qed

lemma overfull_mk_leaf:
  assumes "length es \<le> Suc (leaf_max_entries K cfg)"
  shows "leaf_is_overfull K (mk_leaf cfg p es pv nx) \<longleftrightarrow> length es = Suc (leaf_max_entries K cfg)"
proof -
  have "length es < 2 ^ 16" using assms capacities(4) by simp
  then show ?thesis using assms by (auto simp: leaf_is_overfull_def mk_leaf_def unat_of_nat_small)
qed

lemma rooted_leaf:
  assumes "rooted bt (plug ctx (Lf p es))"
  shows "rooted bt (plug ctx (Lf p es'))"
proof -
  have "height_is (1 + length ctx) (plug ctx (Lf p es'))"
    using leaf_depth(1) [OF assms] by (simp only: height_plug height_is.simps)
  then show ?thesis
    using leaf_depth(2) [OF assms] assms root_id_plug_cong [of "Lf p es" "Lf p es'" ctx] by (auto simp: rooted_def)
qed

lemma insert_done_ok:
  assumes "store_ok K cfg key_ok crc bt H" and "shape_ok cfg H t" and "rooted bt t"
    and "tr_meta_page_id bt = META_PAGE_ID" and "bm_num_entries (tr_meta bt) + 1 = word_of_nat (length (contents t))"
  shows "\<exists>bt'. insert_done K crc bt = (bt', Inr ()) \<and> tree_holds K cfg key_ok crc bt' (contents t)
    \<and> pm_room (tr_pm bt') = pm_room (tr_pm bt)"
proof -
  define bt1 where "bt1 = bt\<lparr>tr_meta := (tr_meta bt)\<lparr>bm_num_entries := bm_num_entries (tr_meta bt) + 1\<rparr>\<rparr>"
  have "store_ok K cfg key_ok crc bt1 H"
    unfolding bt1_def by (rule store_ok_meta [OF assms(1), of "\<lambda>m. m\<lparr>bm_num_entries := bm_num_entries m + 1\<rparr>"])
      (simp add: store_okD(2) [OF assms(1)])
  moreover have "rooted bt1 t" using assms(3) by (simp add: rooted_def bt1_def)
  ultimately obtain pm where
    "flush_meta K crc bt1 = (with_pm bt1 pm, Inr ())" "tree_holds K cfg key_ok crc (with_pm bt1 pm) (contents t)"
    "pm_room pm = pm_room (tr_pm bt1)"
    using flush_holds [of crc bt1 H t] assms(2,4,5) by (auto simp: bt1_def)
  then show ?thesis
    by (intro exI [of _ "with_pm bt1 pm"]) (simp add: bind_op_Inr modify_meta_def bt1_def)
qed

lemma insert_fits:
  assumes "store_ok K cfg key_ok crc bt H" and "shape_ok cfg H (plug ctx (Lf p es))" and "rooted bt (plug ctx (Lf p es))"
    and "H p = Some (Leaf (mk_leaf cfg p es pv nx))" and "ordered None None (plug ctx (Lf p es'))"
    and "length es' \<le> leaf_max_entries K cfg" and "\<forall>e \<in> set es'. key_ok (fst e)"
    and "tr_meta_page_id bt = META_PAGE_ID"
    and "bm_num_entries (tr_meta bt) + 1 = word_of_nat (length (contents (plug ctx (Lf p es'))))"
  shows "\<exists>bt'. bind_op (save_leaf K crc (mk_leaf cfg p es' pv nx)) (\<lambda>_. insert_done K crc) bt = (bt', Inr ())
    \<and> tree_holds K cfg key_ok crc bt' (contents (plug ctx (Lf p es'))) \<and> pm_room (tr_pm bt') = pm_room (tr_pm bt)"
proof -
  define H' where "H' = H(p \<mapsto> Leaf (mk_leaf cfg p es' pv nx))"
  note r = replace_leaf_ok [OF assms(1,2,4-7) H'_def]
  from r(1) obtain pm where pm: "save_leaf K crc (mk_leaf cfg p es' pv nx) bt = (with_pm bt pm, Inr ())"
    "store_ok K cfg key_ok crc (with_pm bt pm) H'" "pm_room pm = pm_room (tr_pm bt)" by blast
  have "rooted (with_pm bt pm) (plug ctx (Lf p es'))"
    using rooted_leaf [OF assms(3), of es'] by (simp add: rooted_def)
  from insert_done_ok [OF pm(2) r(2) this] assms(8,9) pm show ?thesis by (simp add: bind_op_Inr)
qed

lemma insert_splits:
  assumes "store_ok K cfg key_ok crc bt H" and "shape_ok cfg H (plug ctx (Lf p es))" and "rooted bt (plug ctx (Lf p es))"
    and "H p = Some (Leaf (mk_leaf cfg p es pv nx))" and "ordered None None (plug ctx (Lf p es'))"
    and "length es' = Suc (leaf_max_entries K cfg)" and "\<forall>e \<in> set es'. key_ok (fst e)"
    and "tr_meta_page_id bt = META_PAGE_ID"
    and "bm_num_entries (tr_meta bt) + 1 = word_of_nat (length (contents (plug ctx (Lf p es'))))"
    and "Suc (length ctx) < pm_room (tr_pm bt)"
  shows "\<exists>bt'. bind_op (split_leaf crc (mk_leaf cfg p es' pv nx)) (\<lambda>(left, right, promoted).
          bind_op (save_leaf K crc left) (\<lambda>_.
          bind_op (save_leaf K crc right) (\<lambda>_.
          bind_op (relink_next K crc (ln_next_leaf right) (ln_page_id right)) (\<lambda>_.
          bind_op (propagate_split K crc (path_of ctx) promoted (ln_page_id right)) (\<lambda>_. insert_done K crc))))) bt
        = (bt', Inr ())
    \<and> tree_holds K cfg key_ok crc bt' (contents (plug ctx (Lf p es')))
    \<and> pm_room (tr_pm bt) \<le> pm_room (tr_pm bt') + length ctx + 2"
proof -
  define A where "A = take (length es' div 2) es'"
  define B where "B = drop (length es' div 2) es'"
  have AB: "es' = A @ B" "length A = length (A @ B) div 2" "A \<noteq> []" "B \<noteq> []"
    using assms(6) capacities(3) by (auto simp: A_def B_def)
  have H0: "H 0 = None" using store_zero [OF assms(1)] .
  note sh = assms(2) [unfolded shape_ok_def]
  have dl: "distinct (leaf_ids (plug ctx (Lf p es)))" using sh distinct_leaf_ids by blast
  have lk: "linked H 0 (ctx_left leaf_ids ctx @ p # ctx_right leaf_ids ctx) 0" using sh by (simp add: leaf_ids_plug)
  have "nx = first_or 0 (ctx_right leaf_ids ctx)" using linked_leaf(2) [OF lk assms(4)] by (simp add: mk_leaf_def)
  then have nx: "nx \<noteq> 0 \<longrightarrow> (\<exists>l. H nx = Some (Leaf l)) \<and> nx \<noteq> p"
    using lk dl linked_member [OF lk, of nx] by (cases "ctx_right leaf_ids ctx") (auto simp: leaf_ids_plug)
  note h1 = leaf_depth(1,2) [OF assms(3)]
  define g where "g = (\<lambda>k q. bind_op (propagate_split K crc (path_of ctx) k q) (\<lambda>_. insert_done K crc))"
  from split_leaf_ok [OF assms(1) _ assms(4) nx AB(2), where g = g and pv = pv] AB(1) assms(6,7,10) obtain pm q where
    run: "bind_op (split_leaf crc (mk_leaf cfg p es' pv nx)) (\<lambda>(left, right, promoted).
          bind_op (save_leaf K crc left) (\<lambda>_. bind_op (save_leaf K crc right) (\<lambda>_.
          bind_op (relink_next K crc (ln_next_leaf right) (ln_page_id right)) (\<lambda>_.
            g promoted (ln_page_id right))))) bt = g (fst (hd B)) q (with_pm bt pm)"
    and st: "store_ok K cfg key_ok crc (with_pm bt pm)
        (relinked (H(p \<mapsto> Leaf (mk_leaf cfg p A pv q), q \<mapsto> Leaf (mk_leaf cfg q B p nx))) nx q)"
    and q: "H q = None" "q \<noteq> 0" "pm_room pm = pm_room (tr_pm bt) - 1" by auto
  define H' where "H' = relinked (H(p \<mapsto> Leaf (mk_leaf cfg p A pv q), q \<mapsto> Leaf (mk_leaf cfg q B p nx))) nx q"
  have kB: "key_ok (fst (hd B))" using assms(7) AB(1,4) by auto
  have ss: "split_state cfg key_ok H' 1 ctx (Lf p A) (fst (hd B)) (Lf q B)"
    using assms(2,4,5) q H0 AB kB h1(1) H'_def by (intro split_leaf_state [where key_ok = key_ok]) auto
  have "bm_root_page_id (tr_meta bt) = root_id (plug ctx (Lf p A))"
    using assms(3) root_id_plug_cong [of "Lf p es" "Lf p A" ctx] by (simp add: rooted_def)
  moreover have "length ctx < pm_room pm" using assms(10) q(3) by simp
  ultimately obtain bt1 H1 t1 where
    pr: "propagate_split K crc (path_of ctx) (fst (hd B)) q (with_pm bt pm) = (bt1, Inr ())"
      "store_ok K cfg key_ok crc bt1 H1" "shape_ok cfg H1 t1" "rooted bt1 t1"
      "contents t1 = ctx_left contents ctx @ A @ B @ ctx_right contents ctx" "same_tree (with_pm bt pm) bt1"
      "pm_room pm \<le> pm_room (tr_pm bt1) + length ctx + 1"
    using propagate_split_ok [OF st [folded H'_def] ss] h1(2) by auto
  have ct: "contents t1 = contents (plug ctx (Lf p es'))" using pr(5) AB(1) by (simp add: contents_plug)
  from insert_done_ok [OF pr(2-4)] pr(6) assms(8,9) ct obtain bt' where
    "insert_done K crc bt1 = (bt', Inr ())" "tree_holds K cfg key_ok crc bt' (contents t1)"
    "pm_room (tr_pm bt') = pm_room (tr_pm bt1)" by (auto simp: same_tree_def)
  then show ?thesis
    using run pr(1,7) q(3) ct by (intro exI [of _ bt']) (simp add: g_def bind_op_Inr)
qed

lemma insert_new_ok:
  assumes "tree_holds K cfg key_ok crc bt es" and "key_ok key" and "key \<notin> fst ` set es"
    and "unat (bm_height (tr_meta bt)) < pm_room (tr_pm bt)"
  shows "\<exists>bt'. tree_insert K crc key page_id slot_id bt = Some (bt', Inr ())
      \<and> tree_holds K cfg key_ok crc bt' (bt_insert key (page_id, slot_id) es)
      \<and> pm_room (tr_pm bt) \<le> pm_room (tr_pm bt') + unat (bm_height (tr_meta bt)) + 1"
proof -
  from holds_leaf [OF assms(1), of key] obtain H ctx p ls pv nx where
    l: "store_ok K cfg key_ok crc bt H" "shape_ok cfg H (plug ctx (Lf p ls))" "rooted bt (plug ctx (Lf p ls))"
      "H p = Some (Leaf (mk_leaf cfg p ls pv nx))" "key_in key ctx" "ordered None None (plug ctx (Lf p ls))"
      "find_leaf_with_path K crc key bt = Some (Inr (mk_leaf cfg p ls pv nx, path_of ctx))" "bt_ok ls"
      "contents (plug ctx (Lf p ls)) = es" by blast
  have m: "tr_meta_page_id bt = META_PAGE_ID" "bm_num_entries (tr_meta bt) = word_of_nat (length es)"
    using assms(1) by (auto simp: tree_holds_def)
  define ls' where "ls' = bt_insert key (page_id, slot_id) ls"
  have new: "key \<notin> fst ` set ls" using leaf_contents(2) [OF l(5,6)] l(9) assms(3) by simp
  then have len: "length ls' = Suc (length ls)" by (simp add: ls'_def length_bt_insert_new)
  have ko: "\<forall>e \<in> set ls'. key_ok (fst e)" and ll: "length ls' \<le> Suc (leaf_max_entries K cfg)"
    using store_okD(6) [OF l(1,4)] assms(2) len by (simp_all add: ls'_def mk_leaf_def ball_bt_insert)
  have ord: "ordered None None (plug ctx (Lf p ls'))"
    using l(5,8) set_bt_insert [of key "(page_id, slot_id)" ls]
    by (intro ordered_leaf [OF l(6), of _ key]) (auto simp: ls'_def)
  have es': "contents (plug ctx (Lf p ls')) = bt_insert key (page_id, slot_id) es"
    using leaf_contents(3) [OF l(5,6)] l(9) by (simp add: ls'_def)
  have n: "bm_num_entries (tr_meta bt) + 1 = word_of_nat (length (contents (plug ctx (Lf p ls'))))"
    using m(2) es' assms(3) by (simp add: length_bt_insert_new add.commute)
  note ht = leaf_depth_unat [OF l(1-3)]
  have srch: "leaf_search (mk_leaf cfg p ls pv nx) key = None"
    using new leaf_search_mk(1) [OF l(8), of cfg p pv nx key] by simp
  note ins = leaf_insert_mk [OF l(8) new, of "(page_id, slot_id)" cfg p pv nx, folded ls'_def]
  have "\<exists>bt'. insert_into_leaf K crc key page_id slot_id (mk_leaf cfg p ls pv nx) (path_of ctx) bt = (bt', Inr ())
    \<and> tree_holds K cfg key_ok crc bt' (contents (plug ctx (Lf p ls')))
    \<and> pm_room (tr_pm bt) \<le> pm_room (tr_pm bt') + length ctx + 2"
  proof (cases "length ls' = Suc (leaf_max_entries K cfg)")
    case True
    then show ?thesis
      using insert_splits [OF l(1-4) ord True ko m(1) n] assms(4) ht srch ins overfull_mk_leaf [OF ll]
      by (simp add: insert_into_leaf_def Let_def)
  next
    case False
    then have "length ls' \<le> leaf_max_entries K cfg" using ll by simp
    from insert_fits [OF l(1-4) ord this ko m(1) n] show ?thesis
      using srch ins overfull_mk_leaf [OF ll] False by (auto simp: insert_into_leaf_def Let_def)
  qed
  then show ?thesis using l(7) es' ht by (auto simp: tree_insert_def)
qed

lemma insert_duplicate:
  assumes "tree_holds K cfg key_ok crc bt es" and "key \<in> fst ` set es"
  shows "tree_insert K crc key page_id slot_id bt = Some (bt, Inl (Err (duplicate_key_error K key)))"
proof -
  from holds_leaf [OF assms(1), of key] obtain ctx p ls pv nx where
    l: "key_in key ctx" "ordered None None (plug ctx (Lf p ls))" "bt_ok ls"
      "find_leaf_with_path K crc key bt = Some (Inr (mk_leaf cfg p ls pv nx, path_of ctx))"
      "contents (plug ctx (Lf p ls)) = es" by blast
  have "key \<in> fst ` set ls" using leaf_contents(2) [OF l(1,2)] l(5) assms(2) by simp
  then have "leaf_search (mk_leaf cfg p ls pv nx) key \<noteq> None"
    using leaf_search_mk(1) [OF l(3), of cfg p pv nx key] by simp
  then show ?thesis using l(4) by (simp add: tree_insert_def insert_into_leaf_def fail_op_def)
qed

end

end
