(* ===== verification/Btree_Delete.thy ===== *)
theory Btree_Delete
  imports Btree_Update
begin

text \<open>
  Deletion: an underfull node takes an entry from a sibling or merges with it; after a merge the
  parent loses a child and is rebalanced in turn, up to the root, which shrinks the tree when it has
  one child left.
\<close>

section \<open>Two adjacent children\<close>

text \<open>The node of a frame, seen as two adjacent children with the separator between them.\<close>

lemma sibling_left:
  assumes "left_sibs f \<noteq> []"
  shows "\<exists>g l k. (\<forall>s. plug1 f s = split1 g l k s) \<and> length (left_sibs f) = Suc (length (left_sibs g)) \<and> fst g = fst f"
proof -
  obtain p ls rest where f: "f = (p, ls, rest)" by (cases f)
  with assms obtain ls0 l k where ls: "ls = ls0 @ [(l, k)]" by (cases ls rule: rev_cases) auto
  have "plug1 f s = split1 (p, ls0, rest) l k s" for s
    using f ls by (cases "(f, s)" rule: plug1.cases) auto
  then show ?thesis using f ls by (intro exI [of _ "(p, ls0, rest)"] exI [of _ l] exI [of _ k]) simp
qed

lemma sibling_right:
  assumes "left_sibs f = []" and "right_sibs f \<noteq> []"
  shows "\<exists>g k r. (\<forall>s. plug1 f s = split1 g s k r) \<and> left_sibs g = [] \<and> fst g = fst f"
proof -
  obtain p k rs t where f: "f = (p, [], Some (k, rs, t))"
    using assms by (cases f rule: right_sibs.cases) auto
  show ?thesis
  proof (cases rs)
    case Nil
    then show ?thesis using f by (intro exI [of _ "(p, [], None)"] exI [of _ k] exI [of _ t]) simp
  next
    case (Cons x rs')
    obtain r k2 where "x = (r, k2)" by (cases x)
    then show ?thesis
      using f Cons by (intro exI [of _ "(p, [], Some (k2, rs', t))"] exI [of _ k] exI [of _ r]) simp
  qed
qed

lemma tree_node_plug1: "tree_node cfg (plug1 f s) = frame_node cfg f (root_id s)"
  by (cases "(f, s)" rule: plug1.cases) auto

lemma tree_node_split1_cong:
  "root_id l = root_id l' \<Longrightarrow> root_id r = root_id r' \<Longrightarrow>
     tree_node cfg (split1 g l k r) = tree_node cfg (split1 g l' k r')"
  by (cases "(g, l, k, r)" rule: split1.cases) auto

lemma drop_child_mk:
  "drop_child (Suc (length A)) (mk_internal cfg p (A @ [(k, a)]) r) = Inr (mk_internal cfg p A a)"
  "drop_child (Suc (length A)) (mk_internal cfg p (A @ (k, a) # (k2, b) # B) r)
     = Inr (mk_internal cfg p (A @ (k2, a) # B) r)"
proof -
  have z: "zip (map fst C @ xs) (map snd C @ ys) = C @ zip xs ys" for C :: "('a \<times> u32) list" and xs ys
    by (simp add: zip_append zip_map_fst_snd)
  have "zip (map fst A) (map snd A @ [a]) = A" using z [of A "[]"] by simp
  then show "drop_child (Suc (length A)) (mk_internal cfg p (A @ [(k, a)]) r) = Inr (mk_internal cfg p A a)"
    by (simp add: drop_child_def Let_def mk_internal_def vec_remove_def)
  have "zip (map fst B) (map snd B @ [r]) = B" using z [of B "[]"] by simp
  then show "drop_child (Suc (length A)) (mk_internal cfg p (A @ (k, a) # (k2, b) # B) r)
     = Inr (mk_internal cfg p (A @ (k2, a) # B) r)"
    using z by (simp add: drop_child_def Let_def mk_internal_def vec_remove_def)
qed

lemma split1_access:
  assumes "n = tree_node cfg (split1 g l k r)" and "i = length (left_sibs g)"
  shows "get_child_at n i = root_id l" "get_child_at n (Suc i) = root_id r"
    "i < length (in_entries n)" "fst (in_entries n ! i) = k"
    "set_entry_key i k' n = tree_node cfg (split1 g l k' r)"
    "drop_child (Suc i) n = Inr (frame_node cfg g (root_id l))"
proof -
  show "get_child_at n i = root_id l" "get_child_at n (Suc i) = root_id r"
    "i < length (in_entries n)" "fst (in_entries n ! i) = k"
    using assms
    by (cases "(g, l, k, r)" rule: split1.cases; simp add: get_child_at_def mk_internal_def nth_append)+
  show "set_entry_key i k' n = tree_node cfg (split1 g l k' r)"
    using assms by (cases "(g, l, k, r)" rule: split1.cases)
      (simp_all add: mk_internal_def set_entry_key_def nth_append list_update_append)
  show "drop_child (Suc i) n = Inr (frame_node cfg g (root_id l))"
  proof (cases "(g, l, k, r)" rule: split1.cases)
    case (1 p ls l k r)
    then show ?thesis using assms drop_child_mk(1) [of "seps ls"] by simp
  next
    case (2 p ls k2 rs t l k r)
    then show ?thesis using assms drop_child_mk(2) [of "seps ls"] by simp
  qed
qed

lemma split1_orderedD:
  assumes "ordered lo hi (split1 g l k r)" and "hole1 g (lo, hi) = (lo', hi')"
  shows "frame_ordered g (lo, hi)" "above_lo lo' k" "below_hi hi' k" "ordered lo' (Some k) l" "ordered (Some k) hi' r"
proof -
  have "frame_ordered g (lo, hi) \<and> above_lo lo' k \<and> below_hi hi' k \<and> ordered lo' (Some k) l \<and> ordered (Some k) hi' r"
  proof (cases "(g, l, k, r)" rule: split1.cases)
    case (1 p ls l k r)
    then show ?thesis using assms by (auto simp: ordered_list_append)
  next
    case (2 p ls k2 rs t l k r)
    then show ?thesis using assms by (auto simp: ordered_list_append intro: above_trans)
  qed
  then show "frame_ordered g (lo, hi)" "above_lo lo' k" "below_hi hi' k" "ordered lo' (Some k) l"
    "ordered (Some k) hi' r" by blast+
qed

section \<open>Shapes\<close>

lemma shape_plug:
  "shape_ok cfg H (plug ctx s) \<longleftrightarrow>
     ctx_represents cfg H ctx (root_id s) \<and> represents cfg H s \<and> distinct (ctx_ids ctx @ page_ids s)
     \<and> ctx_ordered ctx \<and> ordered_in (hole ctx) s
     \<and> linked H 0 (ctx_left leaf_ids ctx @ leaf_ids s @ ctx_right leaf_ids ctx) 0"
  by (auto simp: shape_ok_def represents_plug distinct_page_ids_plug ordered_plug leaf_ids_plug)

lemma rooted_replace:
  assumes "rooted bt (plug ctx s)" and "root_id s' = root_id s" and "\<And>h. height_is h s \<Longrightarrow> height_is h s'"
  shows "rooted bt (plug ctx s')"
proof -
  from assms(1) obtain h where h: "height_is h (plug ctx s)" "bm_height (tr_meta bt) = word_of_nat h"
    by (auto simp: rooted_def)
  from height_plug_length [OF h(1)] obtain h' where "h = h' + length ctx" "height_is h' s" "ctx_height h' ctx"
    by blast
  then have "height_is h (plug ctx s')" using assms(3) by (simp only: height_plug)
  then show ?thesis
    using assms(1) h(2) root_id_plug_cong [OF assms(2)] by (auto simp: rooted_def)
qed

lemma represents_root: "represents cfg H t \<Longrightarrow> \<exists>n. H (root_id t) = Some n"
  by (cases t) auto

text \<open>Entries move between two adjacent children.\<close>

lemma linked_same_links:
  assumes "linked H pv ps nx"
    and "\<And>p l. H p = Some (Leaf l) \<Longrightarrow>
      \<exists>l'. H' p = Some (Leaf l') \<and> ln_prev_leaf l' = ln_prev_leaf l \<and> ln_next_leaf l' = ln_next_leaf l"
  shows "linked H' pv ps nx"
  using assms(1) by (induction ps arbitrary: pv) (auto dest!: assms(2))

lemma split1_distinct:
  "distinct (ctx_ids ctx @ page_ids (split1 g l k r)) \<longleftrightarrow>
     distinct (ctx_ids ctx @ fst g # concat (map page_ids (left_sibs g @ right_sibs g)) @ page_ids l @ page_ids r)"
  by (rule mset_eq_imp_distinct_iff) (simp add: split1_basic(4))

lemma redistribute_shape:
  assumes sh: "shape_ok cfg H (plug ctx (split1 g l k r))" and h: "hole1 g (hole ctx) = (lo, hi)"
    and roots: "root_id l' = root_id l" "root_id r' = root_id r"
    and rep: "represents cfg H' l'" "represents cfg H' r'"
    and par: "H' (fst g) = Some (Internal (tree_node cfg (split1 g l' k' r')))"
    and frame: "\<And>p. p \<notin> {root_id l, root_id r, fst g} \<Longrightarrow> H' p = H p"
    and ids: "mset (page_ids l' @ page_ids r') = mset (page_ids l @ page_ids r)"
      "leaf_ids l' @ leaf_ids r' = leaf_ids l @ leaf_ids r"
    and ord: "above_lo lo k'" "below_hi hi k'" "ordered lo (Some k') l'" "ordered (Some k') hi r'"
    and links: "\<And>p l. H p = Some (Leaf l) \<Longrightarrow>
      \<exists>l'. H' p = Some (Leaf l') \<and> ln_prev_leaf l' = ln_prev_leaf l \<and> ln_next_leaf l' = ln_next_leaf l"
  shows "shape_ok cfg H' (plug ctx (split1 g l' k' r'))"
proof -
  note s = sh [unfolded shape_plug split1_represents split1_basic(1,3)]
  have m: "mset (page_ids (split1 g l' k' r')) = mset (page_ids (split1 g l k r))"
    using ids(1) by (simp add: split1_basic(4))
  have ds: "distinct (ctx_ids ctx @ fst g # concat (map page_ids (left_sibs g @ right_sibs g)) @ page_ids l @ page_ids r)"
    using s unfolding split1_distinct by blast
  have three: "q \<notin> set (ctx_ids ctx)" "\<And>u. u \<in> set (left_sibs g @ right_sibs g) \<Longrightarrow> q \<notin> set (page_ids u)"
    if "q \<in> {root_id l, root_id r, fst g}" for q
  proof -
    have q: "q = fst g \<or> q \<in> set (page_ids l) \<or> q \<in> set (page_ids r)"
      using that root_in_page_ids [of l] root_in_page_ids [of r] by blast
    then show "q \<notin> set (ctx_ids ctx)" using ds by auto
    have "q \<notin> set (concat (map page_ids (left_sibs g @ right_sibs g)))" using q ds by auto
    then show "q \<notin> set (page_ids u)" if "u \<in> set (left_sibs g @ right_sibs g)" for u using that by auto
  qed
  have "ctx_represents cfg H' ctx (fst g)"
  proof (rule ctx_represents_frame)
    show "ctx_represents cfg H ctx (fst g)" using s by blast
    show "\<forall>p \<in> set (ctx_ids ctx). H' p = H p" using three(1) frame by metis
  qed
  moreover have "represents cfg H' u" if "u \<in> set (left_sibs g @ right_sibs g)" for u
  proof (rule represents_frame)
    show "represents cfg H u" using s that by blast
    show "\<forall>p \<in> set (page_ids u). H' p = H p" using three(2) [OF _ that] frame by metis
  qed
  moreover have "distinct (ctx_ids ctx @ page_ids (split1 g l' k' r'))"
    using s mset_eq_imp_distinct_iff [of "ctx_ids ctx @ page_ids (split1 g l' k' r')" "ctx_ids ctx @ page_ids (split1 g l k r)"]
      m by simp
  moreover have "ordered_in (hole ctx) (split1 g l' k' r')"
    using s split1_orderedD(1) [of "fst (hole ctx)" "snd (hole ctx)" g l k r] h ord
    by (intro split1_ordered [of g _ _ lo hi]) simp_all
  moreover have "linked H' 0 (ctx_left leaf_ids ctx @ leaf_ids (split1 g l' k' r') @ ctx_right leaf_ids ctx) 0"
  proof -
    have "leaf_ids l' @ leaf_ids r' @ xs = leaf_ids l @ leaf_ids r @ xs" for xs using ids(2) by (metis append_assoc)
    then have "leaf_ids (split1 g l' k' r') = leaf_ids (split1 g l k r)" by (simp add: split1_basic(3))
    moreover have "linked H 0 (ctx_left leaf_ids ctx @ leaf_ids (split1 g l k r) @ ctx_right leaf_ids ctx) 0"
      using sh by (simp add: shape_plug)
    ultimately show ?thesis using linked_same_links [of H, OF _ links] by simp
  qed
  ultimately show ?thesis
    using s rep par by (simp add: shape_plug split1_represents split1_basic(1))
qed

text \<open>Two adjacent children become one.\<close>

lemma merge_shape:
  assumes sh: "shape_ok cfg H (plug ctx (split1 g l k r))" and h: "hole1 g (hole ctx) = (lo, hi)"
    and rep: "represents cfg H' m" "ctx_represents cfg H' ctx (fst g)"
      "\<forall>u \<in> set (left_sibs g @ right_sibs g). represents cfg H' u"
    and ids: "mset (page_ids m) \<subseteq># mset (page_ids l @ page_ids r)"
    and ord: "ordered lo hi m"
    and lk: "linked H' 0 (ctx_left leaf_ids (g # ctx) @ leaf_ids m @ ctx_right leaf_ids (g # ctx)) 0"
    and par: "H' (fst g) = Some (Internal n)"
    and H'': "H'' = H'(fst g \<mapsto> Internal (frame_node cfg g (root_id m)))"
  shows "shape_ok cfg H'' (plug ctx (plug1 g m))"
proof -
  note s = sh [unfolded shape_plug]
  have "mset (ctx_ids (g # ctx) @ page_ids m) \<subseteq># mset (ctx_ids ctx @ page_ids (split1 g l k r))"
    using ids by (simp add: ctx_ids_Cons split1_basic(4))
  with s have d: "distinct (ctx_ids (g # ctx) @ page_ids m)" using distinct_mset_mono by blast
  have "fst g \<notin> set (page_ids m)" "fst g \<notin> set (ctx_ids ctx)" using d by (auto simp: ctx_ids_Cons)
  moreover have "fst g \<notin> set (page_ids u)" if "u \<in> set (left_sibs g @ right_sibs g)" for u
    using d that by (auto simp: ctx_ids_Cons)
  ultimately have "represents cfg H'' m" "ctx_represents cfg H'' (g # ctx) (root_id m)"
    using rep by (simp_all add: H'' represents_upd ctx_represents_upd fun_upd_same del: fun_upd_apply)
  moreover have "linked H'' 0 (ctx_left leaf_ids (g # ctx) @ leaf_ids m @ ctx_right leaf_ids (g # ctx)) 0"
    unfolding H'' using lk par by (intro linked_upd) auto
  moreover have "ctx_ordered (g # ctx)" "ordered_in (hole (g # ctx)) m"
    using s split1_orderedD(1) [of "fst (hole ctx)" "snd (hole ctx)" g l k r] h ord by simp_all
  ultimately have "shape_ok cfg H'' (plug (g # ctx) m)" using d shape_plug [of cfg H'' "g # ctx" m] by blast
  then show ?thesis by simp
qed

section \<open>Removing a child\<close>

definition finishes ::
  "('k::linorder, 'c) key_ops \<Rightarrow> 'c \<Rightarrow> ('k \<Rightarrow> bool) \<Rightarrow> (bytes \<Rightarrow> u32) \<Rightarrow> 'c btree \<Rightarrow> 'k leaf_entry list
     \<Rightarrow> 'c btree \<times> unit result \<Rightarrow> bool" where
  "finishes K cfg key_ok crc bt es r \<longleftrightarrow>
     (\<exists>bt' H t. r = (bt', Inr ()) \<and> store_ok K cfg key_ok crc bt' H \<and> shape_ok cfg H t \<and> rooted bt' t
        \<and> contents t = es \<and> same_tree bt bt')"

lemma finishesI:
  "r = (bt', Inr ()) \<Longrightarrow> store_ok K cfg key_ok crc bt' H \<Longrightarrow> shape_ok cfg H t \<Longrightarrow> rooted bt' t \<Longrightarrow>
     contents t = es \<Longrightarrow> same_tree bt bt' \<Longrightarrow> finishes K cfg key_ok crc bt es r"
  by (auto simp: finishes_def)

definition remove_works ::
  "('k::linorder, 'c) key_ops \<Rightarrow> 'c \<Rightarrow> ('k \<Rightarrow> bool) \<Rightarrow> (bytes \<Rightarrow> u32) \<Rightarrow> 'k frame list \<Rightarrow> bool" where
  "remove_works K cfg key_ok crc ctx \<longleftrightarrow>
     (\<forall>bt H g m n j.
        store_ok K cfg key_ok crc bt H \<longrightarrow> (\<exists>n0. H (fst g) = Some (Internal n0))
        \<longrightarrow> drop_child j n = Inr (frame_node cfg g (root_id m))
        \<longrightarrow> node_ok K cfg key_ok (fst g) (Internal (frame_node cfg g (root_id m)))
        \<longrightarrow> shape_ok cfg (H(fst g \<mapsto> Internal (frame_node cfg g (root_id m)))) (plug ctx (plug1 g m))
        \<longrightarrow> rooted bt (plug ctx (plug1 g m))
        \<longrightarrow> finishes K cfg key_ok crc bt (contents (plug ctx (plug1 g m)))
              (remove_from_internal K crc n j (path_of ctx) bt))"

definition save_node :: "('k, 'c) key_ops \<Rightarrow> (bytes \<Rightarrow> u32) \<Rightarrow> ('k, 'c) node_ref \<Rightarrow> ('c btree, unit) op" where
  "save_node K crc n = (case n of Internal i \<Rightarrow> save_internal K crc i | Leaf l \<Rightarrow> save_leaf K crc l)"

context key_codec
begin

lemma save_node_ok:
  assumes "store_ok K cfg key_ok crc bt H" and "node_ok K cfg key_ok p n" and "H p \<noteq> None"
  shows "\<exists>pm. save_node K crc n bt = (with_pm bt pm, Inr ()) \<and> store_ok K cfg key_ok crc (with_pm bt pm) (H(p \<mapsto> n))"
proof -
  have "p \<in> pm_used (tr_pm bt)" "p \<noteq> tr_meta_page_id bt"
    using store_okD(4,5) [OF assms(1)] assms(3) by auto
  then show ?thesis
    using save_internal_ok [OF assms(1), of p] save_leaf_ok [OF assms(1), of p] assms(2)
    by (cases n) (fastforce simp: save_node_def)+
qed

lemma three_saves:
  assumes "store_ok K cfg key_ok crc bt H"
    and "node_ok K cfg key_ok p1 n1" "node_ok K cfg key_ok p2 n2" "node_ok K cfg key_ok p3 n3"
    and "H p1 \<noteq> None" "H p2 \<noteq> None" "H p3 \<noteq> None"
  shows "\<exists>pm. bind_op (save_node K crc n1) (\<lambda>_. bind_op (save_node K crc n2) (\<lambda>_. save_node K crc n3)) bt
      = (with_pm bt pm, Inr ())
    \<and> store_ok K cfg key_ok crc (with_pm bt pm) (H(p1 \<mapsto> n1, p2 \<mapsto> n2, p3 \<mapsto> n3))"
proof -
  from save_node_ok [OF assms(1,2,5)] obtain pm1 where
    1: "save_node K crc n1 bt = (with_pm bt pm1, Inr ())" "store_ok K cfg key_ok crc (with_pm bt pm1) (H(p1 \<mapsto> n1))"
    by blast
  have "(H(p1 \<mapsto> n1)) p2 \<noteq> None" using assms(6) by simp
  from save_node_ok [OF 1(2) assms(3) this] obtain pm2 where
    2: "save_node K crc n2 (with_pm bt pm1) = (with_pm bt pm2, Inr ())"
      "store_ok K cfg key_ok crc (with_pm bt pm2) (H(p1 \<mapsto> n1, p2 \<mapsto> n2))" by (auto simp del: fun_upd_apply)
  have "(H(p1 \<mapsto> n1, p2 \<mapsto> n2)) p3 \<noteq> None" using assms(7) by simp
  from save_node_ok [OF 2(2) assms(4) this] obtain pm3 where
    3: "save_node K crc n3 (with_pm bt pm2) = (with_pm bt pm3, Inr ())"
      "store_ok K cfg key_ok crc (with_pm bt pm3) (H(p1 \<mapsto> n1, p2 \<mapsto> n2, p3 \<mapsto> n3))"
    by (auto simp del: fun_upd_apply)
  then show ?thesis using 1(1) 2(1) by (auto simp: bind_op_Inr simp del: fun_upd_apply)
qed

end

section \<open>Rebalancing internal nodes\<close>

text \<open>
  Two adjacent internal nodes and their separator as one sequence of children; redistribution and
  merging keep this sequence.
\<close>

lemma ordered_pre_relax: "ordered_pre lo (Some k) ts \<Longrightarrow> below_hi hi k \<Longrightarrow> ordered_pre lo hi ts"
proof (induction ts arbitrary: lo)
  case (Cons x ts)
  then show ?case by (cases x) (auto intro: below_trans)
qed simp

lemma ordered_join:
  assumes "above_lo lo k" and "below_hi hi k" and "ordered lo (Some k) (Nd p A m)" and "ordered (Some k) hi (Nd q B t)"
  shows "ordered_list lo hi (A @ (m, k) # B) t"
proof -
  have a: "ordered_pre lo (Some k) A" "ordered (last_sep lo A) (Some k) m"
    using assms(3) by (simp_all add: ordered_list_pre)
  have "above_lo (last_sep lo A) k"
  proof (cases A rule: rev_cases)
    case Nil
    then show ?thesis using assms(1) by (simp add: last_sep_def)
  next
    case (snoc A' x)
    then have "below_hi (Some k) (snd x)" using ordered_pre_keys [OF a(1)] by simp
    then show ?thesis using snoc by (simp add: last_sep_def above_lo_def below_hi_def)
  qed
  then show ?thesis
    using a assms(2,4) ordered_pre_relax [OF a(1)] by (simp add: ordered_list_append)
qed

definition flat :: "('k btr \<times> 'k) list \<Rightarrow> 'k btr \<Rightarrow> 'k btr list" where
  "flat ts t = map fst ts @ [t]"

lemma flat_node:
  "contents (Nd p ts t) = concat (map contents (flat ts t))"
  "leaf_ids (Nd p ts t) = concat (map leaf_ids (flat ts t))"
  "page_ids (Nd p ts t) = p # concat (map page_ids (flat ts t))"
  "height_is (Suc h) (Nd p ts t) \<longleftrightarrow> (\<forall>s \<in> set (flat ts t). height_is h s)"
  "represents cfg H (Nd p ts t) \<longleftrightarrow>
     H p = Some (Internal (tree_node cfg (Nd p ts t))) \<and> (\<forall>s \<in> set (flat ts t). represents cfg H s)"
  by (auto simp: flat_def)

lemma flat_append: "flat (A @ (m, k) # B) t = flat A m @ flat B t"
  by (simp add: flat_def)

lemma height_NdE: "height_is h (Nd p ts t) \<Longrightarrow> \<exists>h'. h = Suc h'"
  by (cases h) auto

lemma internal_pair:
  assumes "shape_ok cfg H (plug ctx (split1 g (Nd pl A m) k (Nd pr B t)))"
  shows "H pl = Some (Internal (tree_node cfg (Nd pl A m)))" "H pr = Some (Internal (tree_node cfg (Nd pr B t)))"
    "H (fst g) = Some (Internal (tree_node cfg (split1 g (Nd pl A m) k (Nd pr B t))))"
    "pl \<noteq> pr" "pl \<noteq> fst g" "pr \<noteq> fst g"
    "\<And>c. c \<in> set (flat (A @ (m, k) # B) t) \<Longrightarrow>
       represents cfg H c \<and> pl \<notin> set (page_ids c) \<and> pr \<notin> set (page_ids c) \<and> fst g \<notin> set (page_ids c)"
    "hole1 g (hole ctx) = (lo, hi) \<Longrightarrow> ordered_list lo hi (A @ (m, k) # B) t"
proof -
  note s = assms [unfolded shape_plug split1_represents split1_basic(1) split1_distinct]
  show "H pl = Some (Internal (tree_node cfg (Nd pl A m)))" "H pr = Some (Internal (tree_node cfg (Nd pr B t)))"
    "H (fst g) = Some (Internal (tree_node cfg (split1 g (Nd pl A m) k (Nd pr B t))))" using s by simp_all
  have rl: "represents cfg H (Nd pl A m)" "represents cfg H (Nd pr B t)" using s by blast+
  have d: "distinct (fst g # page_ids (Nd pl A m) @ page_ids (Nd pr B t))" using s by auto
  show "pl \<noteq> pr" "pl \<noteq> fst g" "pr \<noteq> fst g" using d by auto
  show "represents cfg H c \<and> pl \<notin> set (page_ids c) \<and> pr \<notin> set (page_ids c) \<and> fst g \<notin> set (page_ids c)"
    if c: "c \<in> set (flat (A @ (m, k) # B) t)" for c
  proof -
    have c': "c \<in> set (flat A m) \<or> c \<in> set (flat B t)" using c by (simp add: flat_append)
    then have "represents cfg H c" using rl [unfolded flat_node(5)] by blast
    moreover have "distinct (fst g # (pl # concat (map page_ids (flat A m))) @ pr # concat (map page_ids (flat B t)))"
      using d by (simp only: flat_node(3) append.simps append_assoc)
    ultimately show ?thesis using c' by auto
  qed
  show "ordered_list lo hi (A @ (m, k) # B) t" if h: "hole1 g (hole ctx) = (lo, hi)"
  proof -
    have "ordered (fst (hole ctx)) (snd (hole ctx)) (split1 g (Nd pl A m) k (Nd pr B t))" using s by blast
    from split1_orderedD(2-5) [OF this] h show ?thesis by (intro ordered_join [of lo k hi pl A m pr B t]) simp_all
  qed
qed

lemma redistribute_internal_shape:
  assumes sh: "shape_ok cfg H (plug ctx (split1 g (Nd pl A m) k (Nd pr B t)))"
    and F: "A @ (m, k) # B = A' @ (m', k') # B'"
    and H': "H' = H(pl \<mapsto> Internal (tree_node cfg (Nd pl A' m')), pr \<mapsto> Internal (tree_node cfg (Nd pr B' t)),
      fst g \<mapsto> Internal (tree_node cfg (split1 g (Nd pl A' m') k' (Nd pr B' t))))"
  shows "shape_ok cfg H' (plug ctx (split1 g (Nd pl A' m') k' (Nd pr B' t)))"
proof -
  obtain lo hi where h: "hole1 g (hole ctx) = (lo, hi)" by (cases "hole1 g (hole ctx)")
  note ip = internal_pair [OF sh]
  have o: "ordered_list lo hi (A' @ (m', k') # B') t" using ip(8) [OF h] F by simp
  have kids: "represents cfg H' c" if "c \<in> set (flat A' m') \<or> c \<in> set (flat B' t)" for c
  proof -
    have "c \<in> set (flat (A @ (m, k) # B) t)" using that unfolding F by (simp add: flat_append)
    from ip(7) [OF this] show ?thesis unfolding H' by (intro represents_upd) auto
  qed
  have fl: "flat A m @ flat B t = flat A' m' @ flat B' t" using F by (metis flat_append)
  have cc: "concat (map f (flat A m)) @ concat (map f (flat B t)) = concat (map f (flat A' m')) @ concat (map f (flat B' t))"
    for f :: "_ \<Rightarrow> u32 list" using arg_cong [OF fl, of "\<lambda>x. concat (map f x)"] by simp
  show ?thesis
  proof (rule redistribute_shape [OF sh h])
    show "represents cfg H' (Nd pl A' m')" "represents cfg H' (Nd pr B' t)"
      unfolding flat_node(5) using kids ip(4-6) by (simp_all add: H')
    show "mset (page_ids (Nd pl A' m') @ page_ids (Nd pr B' t)) = mset (page_ids (Nd pl A m) @ page_ids (Nd pr B t))"
      using arg_cong [OF cc [of page_ids], of mset] by (simp only: flat_node(3)) simp
    show "leaf_ids (Nd pl A' m') @ leaf_ids (Nd pr B' t) = leaf_ids (Nd pl A m) @ leaf_ids (Nd pr B t)"
      using cc [of leaf_ids] by (simp only: flat_node(2))
    show "above_lo lo k'" "below_hi hi k'" "ordered lo (Some k') (Nd pl A' m')" "ordered (Some k') hi (Nd pr B' t)"
      using ordered_split [OF o] by simp_all
    show "\<exists>l'. H' q = Some (Leaf l') \<and> ln_prev_leaf l' = ln_prev_leaf l \<and> ln_next_leaf l' = ln_next_leaf l"
      if "H q = Some (Leaf l)" for q l using that ip(1-3) by (auto simp: H')
  qed (auto simp: H')
qed

lemma node_ok_tree:
  "node_ok K cfg key_ok p (Internal (tree_node cfg (Nd p ts t))) \<longleftrightarrow>
     length ts \<le> internal_max_keys K cfg \<and> (\<forall>x \<in> set ts. key_ok (snd x))"
  by (auto simp: mk_internal_def)

lemma node_ok_split1:
  assumes "node_ok K cfg key_ok (fst g) (Internal (tree_node cfg (split1 g l k r)))"
  shows "key_ok k" "key_ok k' \<Longrightarrow> node_ok K cfg key_ok (fst g) (Internal (tree_node cfg (split1 g l' k' r')))"
    "node_ok K cfg key_ok (fst g) (Internal (frame_node cfg g x))"
  using assms by (cases "(g, l, k, r)" rule: split1.cases; auto simp: mk_internal_def ball_Un)+

lemma height_split1:
  assumes "height_is h (split1 g l k r)" and "\<And>h. height_is h l \<Longrightarrow> height_is h r \<Longrightarrow> height_is h l' \<and> height_is h r'"
  shows "height_is h (split1 g l' k' r')"
proof (cases h)
  case 0
  then show ?thesis using assms(1) by (cases "(g, l, k, r)" rule: split1.cases) auto
next
  case (Suc h')
  then show ?thesis using assms unfolding Suc split1_basic(5) by blast
qed

lemma height_merged:
  assumes "height_is h (split1 g l k r)" and "\<And>h. height_is h l \<Longrightarrow> height_is h r \<Longrightarrow> height_is h m"
  shows "height_is h (plug1 g m)"
proof (cases h)
  case 0
  then show ?thesis using assms(1) by (cases "(g, l, k, r)" rule: split1.cases) auto
next
  case (Suc h')
  then show ?thesis using assms unfolding Suc split1_basic(5) height_plug1 by blast
qed

lemma flat_height:
  assumes "flat A m @ flat B t = fs" and "height_is h (Nd pl A m)" and "height_is h (Nd pr B t)"
  shows "\<exists>h'. h = Suc h' \<and> (\<forall>s \<in> set fs. height_is h' s)"
proof -
  obtain h' where "h = Suc h'" using height_NdE [OF assms(2)] by blast
  then show ?thesis using assms by (auto simp: flat_node(4) simp del: height_is.simps)
qed

lemma redistribute_internal_left_eq:
  assumes "gp = tree_node cfg (split1 g (Nd pl (A @ [(u, ku)]) m) k (Nd pr B t))"
  shows "redistribute_internal_from_left K crc (tree_node cfg (Nd pl (A @ [(u, ku)]) m)) (tree_node cfg (Nd pr B t)) gp
      (Suc (length (left_sibs g)))
    = bind_op (save_internal K crc (tree_node cfg (Nd pl A u))) (\<lambda>_.
      bind_op (save_internal K crc (tree_node cfg (Nd pr ((m, k) # B) t))) (\<lambda>_.
        save_internal K crc (tree_node cfg (split1 g (Nd pl A u) ku (Nd pr ((m, k) # B) t)))))"
proof -
  note acc = split1_access [OF assms refl]
  have "set_entry_key (length (left_sibs g)) ku gp = tree_node cfg (split1 g (Nd pl A u) ku (Nd pr ((m, k) # B) t))"
    unfolding acc(5) by (rule tree_node_split1_cong) simp_all
  then show ?thesis
    using acc(3,4) by (simp add: redistribute_internal_from_left_def Let_def mk_internal_def add_ac)
qed

lemma redistribute_internal_right_eq:
  assumes "gp = tree_node cfg (split1 g (Nd pl A m) k (Nd pr ((u, ku) # B) t))"
  shows "redistribute_internal_from_right K crc (tree_node cfg (Nd pl A m)) (tree_node cfg (Nd pr ((u, ku) # B) t)) gp
      (length (left_sibs g))
    = bind_op (save_internal K crc (tree_node cfg (Nd pl (A @ [(m, k)]) u))) (\<lambda>_.
      bind_op (save_internal K crc (tree_node cfg (Nd pr B t))) (\<lambda>_.
        save_internal K crc (tree_node cfg (split1 g (Nd pl (A @ [(m, k)]) u) ku (Nd pr B t)))))"
proof -
  note acc = split1_access [OF assms refl]
  have "set_entry_key (length (left_sibs g)) ku gp = tree_node cfg (split1 g (Nd pl (A @ [(m, k)]) u) ku (Nd pr B t))"
    unfolding acc(5) by (rule tree_node_split1_cong) simp_all
  then show ?thesis
    using acc(3,4) by (simp add: redistribute_internal_from_right_def Let_def mk_internal_def add_ac)
qed

lemma frame_entries_length:
  "length (in_entries (frame_node cfg f x)) = length (left_sibs f) + length (right_sibs f)"
  by (cases f rule: right_sibs.cases) (auto simp: mk_internal_def)

lemma sibling_heights:
  assumes "rooted bt (plug ctx (split1 g l k r))"
  shows "\<exists>h. height_is h l \<and> height_is h r"
proof -
  from assms obtain h where "height_is h (plug ctx (split1 g l k r))" by (auto simp: rooted_def)
  from height_plug_length [OF this] obtain h' where h': "height_is h' (split1 g l k r)" by blast
  then obtain h2 where h2: "h' = Suc h2" by (cases h'; cases "(g, l, k, r)" rule: split1.cases) auto
  then show ?thesis using h' [unfolded h2 split1_basic(5)] by blast
qed

lemma height_node: "height_is h (Nd p ts t) \<Longrightarrow> height_is h s \<Longrightarrow> \<exists>q us u. s = Nd q us u"
proof (cases s)
  case (Lf q es)
  assume "height_is h (Nd p ts t)" "height_is h s"
  then have "height_is 0 t" using Lf by auto
  then show ?thesis using height_is_pos [of 0 t] by simp
qed auto

lemma height_leaf: "height_is h (Lf p es) \<Longrightarrow> height_is h s \<Longrightarrow> \<exists>q fs. s = Lf q fs"
proof (cases s)
  case (Nd q us u)
  assume "height_is h (Lf p es)" "height_is h s"
  then have "height_is 0 u" using Nd by auto
  then show ?thesis using height_is_pos [of 0 u] by simp
qed auto

context key_codec
begin

lemma pair_keys_ok:
  assumes "store_ok K cfg key_ok crc bt H" and "shape_ok cfg H (plug ctx (split1 g (Nd pl A m) k (Nd pr B t)))"
  shows "\<forall>x \<in> set (A @ (m, k) # B). key_ok (snd x)"
    "node_ok K cfg key_ok (fst g) (Internal (tree_node cfg (split1 g (Nd pl A m) k (Nd pr B t))))"
proof -
  note ip = internal_pair(1-3) [OF assms(2)]
  show gp: "node_ok K cfg key_ok (fst g) (Internal (tree_node cfg (split1 g (Nd pl A m) k (Nd pr B t))))"
    using store_okD(6) [OF assms(1) ip(3)] .
  show "\<forall>x \<in> set (A @ (m, k) # B). key_ok (snd x)"
    using store_okD(6) [OF assms(1) ip(1), unfolded node_ok_tree] store_okD(6) [OF assms(1) ip(2), unfolded node_ok_tree]
      node_ok_split1(1) [OF gp] by auto
qed

lemma redistribute_internal_ok:
  assumes st: "store_ok K cfg key_ok crc bt H"
    and sh: "shape_ok cfg H (plug ctx (split1 g (Nd pl A m) k (Nd pr B t)))"
    and ro: "rooted bt (plug ctx (split1 g (Nd pl A m) k (Nd pr B t)))"
    and F: "A @ (m, k) # B = A' @ (m', k') # B'"
    and len: "length A' \<le> internal_max_keys K cfg" "length B' \<le> internal_max_keys K cfg"
  shows "finishes K cfg key_ok crc bt (contents (plug ctx (split1 g (Nd pl A m) k (Nd pr B t))))
    (bind_op (save_internal K crc (tree_node cfg (Nd pl A' m'))) (\<lambda>_.
     bind_op (save_internal K crc (tree_node cfg (Nd pr B' t))) (\<lambda>_.
       save_internal K crc (tree_node cfg (split1 g (Nd pl A' m') k' (Nd pr B' t))))) bt)"
proof -
  define n1 n2 n3 where n: "n1 = Internal (tree_node cfg (Nd pl A' m'))" "n2 = Internal (tree_node cfg (Nd pr B' t))"
    "n3 = Internal (tree_node cfg (split1 g (Nd pl A' m') k' (Nd pr B' t)))"
  note ip = internal_pair [OF sh] and pk = pair_keys_ok [OF st sh, unfolded F]
  have ok: "node_ok K cfg key_ok pl n1" "node_ok K cfg key_ok pr n2"
    using pk(1) len unfolding n node_ok_tree by auto
  have ok3: "node_ok K cfg key_ok (fst g) n3"
    unfolding n by (rule node_ok_split1(2) [OF pair_keys_ok(2) [OF st sh]]) (use pk(1) in simp)
  from three_saves [OF st ok ok3] ip(1-3) obtain pm where
    pm: "bind_op (save_node K crc n1) (\<lambda>_. bind_op (save_node K crc n2) (\<lambda>_. save_node K crc n3)) bt
        = (with_pm bt pm, Inr ())"
      "store_ok K cfg key_ok crc (with_pm bt pm) (H(pl \<mapsto> n1, pr \<mapsto> n2, fst g \<mapsto> n3))"
    by (auto simp del: fun_upd_apply tree_node.simps)
  have fl: "flat A m @ flat B t = flat A' m' @ flat B' t" using F by (metis flat_append)
  have ct: "contents (plug ctx (split1 g (Nd pl A' m') k' (Nd pr B' t))) = contents (plug ctx (split1 g (Nd pl A m) k (Nd pr B t)))"
    using arg_cong [OF fl, of "\<lambda>x. concat (map contents x)"]
    by (simp add: contents_plug split1_basic(2) flat_node(1) del: contents.simps)
  have "rooted bt (plug ctx (split1 g (Nd pl A' m') k' (Nd pr B' t)))"
  proof (rule rooted_replace [OF ro])
    show "height_is h (split1 g (Nd pl A' m') k' (Nd pr B' t))"
      if "height_is h (split1 g (Nd pl A m) k (Nd pr B t))" for h
      using flat_height [OF fl] by (intro height_split1 [OF that]) (fastforce simp: flat_node(4) simp del: height_is.simps)
  qed (simp add: split1_basic(1))
  then have rt: "rooted (with_pm bt pm) (plug ctx (split1 g (Nd pl A' m') k' (Nd pr B' t)))" by (simp add: rooted_def)
  show ?thesis
    by (rule finishesI [OF _ pm(2) redistribute_internal_shape [OF sh F, folded n, OF refl] rt ct])
      (use pm(1) in \<open>simp_all add: same_tree_def save_node_def n\<close>)
qed

lemma merge_internal_shape:
  assumes sh: "shape_ok cfg H (plug ctx (split1 g (Nd pl A m) k (Nd pr B t)))"
    and M: "M = Nd pl (A @ (m, k) # B) t"
    and H': "H' = H(pr := None, pl \<mapsto> Internal (tree_node cfg M))"
    and H'': "H'' = H'(fst g \<mapsto> Internal (frame_node cfg g pl))"
  shows "shape_ok cfg H'' (plug ctx (plug1 g M))"
proof -
  obtain lo hi where h: "hole1 g (hole ctx) = (lo, hi)" by (cases "hole1 g (hole ctx)")
  note ip = internal_pair [OF sh] and s = sh [unfolded shape_plug split1_represents split1_basic(1,3) split1_distinct]
  have kids: "represents cfg H' c" if "c \<in> set (flat (A @ (m, k) # B) t)" for c
    using ip(7) [OF that] unfolding H' by (intro represents_upd) auto
  show ?thesis
  proof (rule merge_shape [OF sh h])
    show "represents cfg H' M" unfolding M flat_node(5) using kids by (simp add: H' M)
    show "ctx_represents cfg H' ctx (fst g)"
      unfolding H' by (intro ctx_represents_upd) (use s in auto)
    show "\<forall>u \<in> set (left_sibs g @ right_sibs g). represents cfg H' u"
    proof
      fix u assume u: "u \<in> set (left_sibs g @ right_sibs g)"
      then have "represents cfg H u" "pl \<notin> set (page_ids u)" "pr \<notin> set (page_ids u)" using s by auto
      then show "represents cfg H' u" unfolding H' by (intro represents_upd)
    qed
    show "mset (page_ids M) \<subseteq># mset (page_ids (Nd pl A m) @ page_ids (Nd pr B t))"
      by (simp add: M)
    show "ordered lo hi M" using ip(8) [OF h] by (simp add: M)
    have "linked H 0 (ctx_left leaf_ids (g # ctx) @ leaf_ids M @ ctx_right leaf_ids (g # ctx)) 0"
      using s by (simp add: M)
    then show "linked H' 0 (ctx_left leaf_ids (g # ctx) @ leaf_ids M @ ctx_right leaf_ids (g # ctx)) 0"
      unfolding H' by (intro linked_upd) (use ip(1,2,4) in auto)
    show "H' (fst g) = Some (Internal (tree_node cfg (split1 g (Nd pl A m) k (Nd pr B t))))"
      using ip(3,5,6) by (simp add: H')
    show "H'' = H'(fst g \<mapsto> Internal (frame_node cfg g (root_id M)))" by (simp add: H'' M)
  qed
qed

lemma finishes_with_pm:
  "finishes K cfg key_ok crc (with_pm bt pm) es r \<Longrightarrow> finishes K cfg key_ok crc bt es r"
  by (auto simp: finishes_def same_tree_def)

lemma merge_internal_ok:
  assumes st: "store_ok K cfg key_ok crc bt H"
    and sh: "shape_ok cfg H (plug ctx (split1 g (Nd pl A m) k (Nd pr B t)))"
    and ro: "rooted bt (plug ctx (split1 g (Nd pl A m) k (Nd pr B t)))"
    and len: "length (A @ (m, k) # B) \<le> internal_max_keys K cfg"
    and rw: "remove_works K cfg key_ok crc ctx"
    and gp: "gp = tree_node cfg (split1 g (Nd pl A m) k (Nd pr B t))"
  shows "finishes K cfg key_ok crc bt (contents (plug ctx (split1 g (Nd pl A m) k (Nd pr B t))))
    (merge_internal K crc (tree_node cfg (Nd pl A m)) (tree_node cfg (Nd pr B t)) gp
       (Suc (length (left_sibs g))) (path_of ctx) bt)"
proof -
  define M where "M = Nd pl (A @ (m, k) # B) t"
  define n where "n = Internal (tree_node cfg M)"
  note ip = internal_pair [OF sh] and pk = pair_keys_ok [OF st sh] and acc = split1_access [OF gp refl]
  from free_ok [OF st ip(2)] obtain pm where
    pm: "on_pm (free_page crc pr) bt = (with_pm bt pm, Inr ())"
      "store_ok K cfg key_ok crc (with_pm bt pm) (H(pr := None))" by blast
  have nk: "node_ok K cfg key_ok pl n" using pk(1) len unfolding n_def M_def node_ok_tree by blast
  have "(H(pr := None)) pl \<noteq> None" using ip(1,4) by simp
  from save_node_ok [OF pm(2) nk this] obtain pm2 where
    pm2: "save_node K crc n (with_pm bt pm) = (with_pm bt pm2, Inr ())"
      "store_ok K cfg key_ok crc (with_pm bt pm2) (H(pr := None, pl \<mapsto> n))" by (auto simp del: fun_upd_apply)
  have run: "merge_internal K crc (tree_node cfg (Nd pl A m)) (tree_node cfg (Nd pr B t)) gp
      (Suc (length (left_sibs g))) (path_of ctx) bt
    = remove_from_internal K crc gp (Suc (length (left_sibs g))) (path_of ctx) (with_pm bt pm2)"
    using acc(3,4) pm(1) pm2(1)
    by (simp add: merge_internal.simps Let_def bind_op_Inr mk_internal_def n_def M_def save_node_def add_ac)
  have drop: "drop_child (Suc (length (left_sibs g))) gp = Inr (frame_node cfg g (root_id M))"
    using acc(6) by (simp add: M_def)
  have "height_is h (plug1 g M)" if "height_is h (split1 g (Nd pl A m) k (Nd pr B t))" for h
    using flat_height [OF flat_append [symmetric, of A m B t k]] unfolding M_def
    by (intro height_merged [OF that]) (fastforce simp: flat_node(4) simp del: height_is.simps)
  then have rt: "rooted (with_pm bt pm2) (plug ctx (plug1 g M))"
    using rooted_replace [OF ro, of "plug1 g M"] by (simp add: split1_basic(1) rooted_def)
  have par: "\<exists>n0. (H(pr := None, pl \<mapsto> n)) (fst g) = Some (Internal n0)" using ip(3,5,6) by simp
  have "shape_ok cfg (H(pr := None, pl \<mapsto> n, fst g \<mapsto> Internal (frame_node cfg g (root_id M)))) (plug ctx (plug1 g M))"
    by (rule merge_internal_shape [OF sh M_def refl]) (simp add: n_def M_def)
  with rw [unfolded remove_works_def, rule_format, OF pm2(2) par drop] node_ok_split1(3) [OF pk(2)] rt
  have "finishes K cfg key_ok crc bt (contents (plug ctx (plug1 g M)))
      (remove_from_internal K crc gp (Suc (length (left_sibs g))) (path_of ctx) (with_pm bt pm2))"
    using finishes_with_pm by blast
  moreover have "contents (plug ctx (plug1 g M)) = contents (plug ctx (split1 g (Nd pl A m) k (Nd pr B t)))"
    using contents_plug [of "g # ctx" M] by (simp add: contents_plug split1_basic(2) M_def)
  ultimately show ?thesis using run by simp
qed

lemma min_keys: "internal_min_keys K cfg * 2 \<le> internal_max_keys K cfg" "leaf_min_entries K cfg * 2 \<le> leaf_max_entries K cfg"
  "0 < leaf_min_entries K cfg"
  using capacities(3) by (simp_all add: internal_min_keys_def leaf_min_entries_def MIN_OCCUPANCY_PERCENT_def)

lemma rebalance_internal_left:
  assumes st: "store_ok K cfg key_ok crc bt H"
    and sh: "shape_ok cfg H (plug ctx (split1 g l k (Nd pn ts t)))"
    and ro: "rooted bt (plug ctx (split1 g l k (Nd pn ts t)))"
    and len: "length ts < internal_min_keys K cfg"
    and rw: "remove_works K cfg key_ok crc ctx"
  shows "finishes K cfg key_ok crc bt (contents (plug ctx (split1 g l k (Nd pn ts t))))
    (rebalance_internal K crc (tree_node cfg (Nd pn ts t)) ((fst g, Suc (length (left_sibs g))) # path_of ctx) bt)"
proof -
  obtain pl A m where l: "l = Nd pl A m"
    using sibling_heights [OF ro] height_node by blast
  define gp where "gp = tree_node cfg (split1 g l k (Nd pn ts t))"
  note ip = internal_pair [OF sh [unfolded l]] and acc = split1_access [OF gp_def refl]
  have rd: "read_internal K crc (fst g) bt = Inr gp" "read_internal K crc pl bt = Inr (tree_node cfg l)"
    using read_internal_ok [OF st] ip(1,3) by (simp_all only: gp_def l)
  have cfg: "bm_config (tr_meta bt) = cfg" using store_okD(2) [OF st] .
  have ll: "length (in_entries (tree_node cfg l)) = length A" by (simp add: l mk_internal_def)
  show ?thesis
  proof (cases "internal_min_keys K cfg < length A")
    case True
    then obtain A0 u ku where A: "A = A0 @ [(u, ku)]" by (cases A rule: rev_cases) auto
    have "finishes K cfg key_ok crc bt (contents (plug ctx (split1 g l k (Nd pn ts t))))
      (redistribute_internal_from_left K crc (tree_node cfg l) (tree_node cfg (Nd pn ts t)) gp (Suc (length (left_sibs g))) bt)"
      unfolding redistribute_internal_left_eq [OF gp_def [unfolded l A]] l A
      by (rule redistribute_internal_ok [OF st sh [unfolded l A] ro [unfolded l A]])
        (use True len min_keys(1) store_okD(6) [OF st ip(1), unfolded node_ok_tree] A in auto)
    then show ?thesis
      using rd acc(1) True ll cfg l by (simp add: bind_pure_op)
  next
    case False
    then have "length (A @ (m, k) # ts) \<le> internal_max_keys K cfg" using len min_keys(1) by simp
    from merge_internal_ok [OF st sh [unfolded l] ro [unfolded l] this rw gp_def [unfolded l]]
    show ?thesis using rd acc(1) False ll cfg l by (simp add: bind_pure_op)
  qed
qed

lemma num_children:
  assumes "node_ok K cfg key_ok p (Internal n)"
  shows "unat (in_num_keys n) = length (in_entries n)"
  using assms capacities(2) by (auto simp: unat_of_nat_small)

lemma rebalance_internal_right:
  assumes st: "store_ok K cfg key_ok crc bt H"
    and sh: "shape_ok cfg H (plug ctx (split1 g (Nd pn ts t) k r))"
    and ro: "rooted bt (plug ctx (split1 g (Nd pn ts t) k r))"
    and len: "length ts < internal_min_keys K cfg"
    and rw: "remove_works K cfg key_ok crc ctx" and g0: "left_sibs g = []"
  shows "finishes K cfg key_ok crc bt (contents (plug ctx (split1 g (Nd pn ts t) k r)))
    (rebalance_internal K crc (tree_node cfg (Nd pn ts t)) ((fst g, 0) # path_of ctx) bt)"
proof -
  obtain pr B v where r: "r = Nd pr B v"
    using sibling_heights [OF ro] height_node by blast
  define gp where "gp = tree_node cfg (split1 g (Nd pn ts t) k r)"
  note ip = internal_pair [OF sh [unfolded r]] and acc = split1_access [OF gp_def refl, unfolded g0, simplified]
  have rd: "read_internal K crc (fst g) bt = Inr gp" "read_internal K crc pr bt = Inr (tree_node cfg r)"
    using read_internal_ok [OF st] ip(2,3) by (simp_all only: gp_def r)
  have cfg: "bm_config (tr_meta bt) = cfg" using store_okD(2) [OF st] .
  have ch: "0 < unat (in_num_keys gp)"
    using num_children [OF pair_keys_ok(2) [OF st sh [unfolded r]]] acc(3) by (simp add: gp_def r)
  have ll: "length (in_entries (tree_node cfg r)) = length B" by (simp add: r mk_internal_def)
  show ?thesis
  proof (cases "internal_min_keys K cfg < length B")
    case True
    then obtain B0 u ku where B: "B = (u, ku) # B0" by (cases B) auto
    have "finishes K cfg key_ok crc bt (contents (plug ctx (split1 g (Nd pn ts t) k r)))
      (redistribute_internal_from_right K crc (tree_node cfg (Nd pn ts t)) (tree_node cfg r) gp (length (left_sibs g)) bt)"
      unfolding redistribute_internal_right_eq [OF gp_def [unfolded r B]] r B
      by (rule redistribute_internal_ok [OF st sh [unfolded r B] ro [unfolded r B]])
        (use True len min_keys(1) store_okD(6) [OF st ip(2), unfolded node_ok_tree] B in auto)
    then show ?thesis
      using rd acc(2) True ll cfg r ch g0 by (simp add: bind_pure_op)
  next
    case False
    then have "length (ts @ (t, k) # B) \<le> internal_max_keys K cfg" using len min_keys(1) by simp
    from merge_internal_ok [OF st sh [unfolded r] ro [unfolded r] this rw gp_def [unfolded r]]
    show ?thesis using rd acc(2) False ll cfg r ch g0 by (simp add: bind_pure_op)
  qed
qed

lemma rebalance_internal_ok:
  assumes st: "store_ok K cfg key_ok crc bt H"
    and sh: "shape_ok cfg H (plug (f # ctx) (Nd pn ts t))" and ro: "rooted bt (plug (f # ctx) (Nd pn ts t))"
    and len: "length ts < internal_min_keys K cfg" and rw: "remove_works K cfg key_ok crc ctx"
  shows "finishes K cfg key_ok crc bt (contents (plug (f # ctx) (Nd pn ts t)))
    (rebalance_internal K crc (tree_node cfg (Nd pn ts t)) (path_of (f # ctx)) bt)"
proof -
  consider (left) "left_sibs f \<noteq> []" | (right) "left_sibs f = []" "right_sibs f \<noteq> []"
    | (none) "left_sibs f = []" "right_sibs f = []" by blast
  then show ?thesis
  proof cases
    case left
    from sibling_left [OF this] obtain g l k where
      g: "\<And>s. plug1 f s = split1 g l k s" "length (left_sibs f) = Suc (length (left_sibs g))" "fst g = fst f" by blast
    then show ?thesis
      using rebalance_internal_left [OF st _ _ len rw, of g l k] sh ro by (simp add: path_of_Cons)
  next
    case right
    from sibling_right [OF this] obtain g k r where
      g: "\<And>s. plug1 f s = split1 g s k r" "left_sibs g = []" "fst g = fst f" by blast
    then show ?thesis
      using rebalance_internal_right [OF st _ _ len rw, where g = g and k = k and r = r] sh ro right(1) by (simp add: path_of_Cons)
  next
    case none
    have gp: "H (fst f) = Some (Internal (frame_node cfg f pn))" using sh unfolding shape_plug by simp
    have "unat (in_num_keys (frame_node cfg f pn)) = 0"
      using num_children [OF store_okD(6) [OF st gp]] none by (simp add: frame_entries_length)
    then have "rebalance_internal K crc (tree_node cfg (Nd pn ts t)) (path_of (f # ctx)) bt = (bt, Inr ())"
      using read_internal_ok [OF st gp] none(1) by (simp add: path_of_Cons bind_pure_op ret_op_def)
    then show ?thesis using st sh ro by (intro finishesI) (simp_all add: same_tree_def)
  qed
qed

lemma shrink_root:
  assumes st: "store_ok K cfg key_ok crc bt H" and par: "H p = Some (Internal n)"
    and sh: "shape_ok cfg (H(p \<mapsto> x)) (Nd p [] m)" and ro: "rooted bt (Nd p [] m)"
  shows "finishes K cfg key_ok crc bt (contents m)
    (bind_op (on_pm (free_page crc p)) (\<lambda>_. modify_meta (\<lambda>me. me\<lparr>bm_root_page_id := root_id m,
       bm_height := (if bm_height me > 1 then bm_height me - 1 else bm_height me)\<rparr>)) bt)"
proof -
  from free_ok [OF st par] obtain pm where
    pm: "on_pm (free_page crc p) bt = (with_pm bt pm, Inr ())" "store_ok K cfg key_ok crc (with_pm bt pm) (H(p := None))"
    by blast
  define f where "f = (\<lambda>me :: 'c btree_meta. me\<lparr>bm_root_page_id := root_id m,
       bm_height := (if bm_height me > 1 then bm_height me - 1 else bm_height me)\<rparr>)"
  define bt' where "bt' = (with_pm bt pm)\<lparr>tr_meta := f (tr_meta (with_pm bt pm))\<rparr>"
  have st': "store_ok K cfg key_ok crc bt' (H(p := None))"
    unfolding bt'_def by (rule store_ok_meta [OF pm(2)]) (simp add: f_def store_okD(2) [OF st])
  have s: "represents cfg (H(p \<mapsto> x)) m" "p \<notin> set (page_ids m)" "distinct (page_ids m)" "ordered None None m"
    "linked (H(p \<mapsto> x)) 0 (leaf_ids m) 0" using sh by (auto simp add: shape_ok_def simp del: fun_upd_apply)
  have "represents cfg (H(p := None)) m" using s(2) by (intro represents_frame [OF s(1)]) auto
  moreover have "linked (H(p := None)) 0 (leaf_ids m) 0"
    using s(2) leaf_ids_subset [of m] by (intro linked_frame [OF s(5)]) auto
  ultimately have sh': "shape_ok cfg (H(p := None)) m" using s by (simp add: shape_ok_def)
  from ro obtain h where "height_is h (Nd p [] m)" "bm_height (tr_meta bt) = word_of_nat h" by (auto simp: rooted_def)
  moreover then obtain h' where "h = Suc h'" using height_NdE by blast
  ultimately have h: "height_is (Suc h') (Nd p [] m)" "height_is h' m" "bm_height (tr_meta bt) = word_of_nat (Suc h')"
    by simp_all
  have "p \<noteq> 0" "H 0 = None" using store_okD(8) [OF st, of 0] store_okD(8) [OF st par] by (cases "H 0"; auto)+
  then have "Suc h' < 2 ^ 32" using height_bound [OF sh _ h(1)] by simp
  then have "unat (word_of_nat (Suc h') :: u32) = Suc h'" by (intro unat_of_nat_small) simp
  then have "1 < (word_of_nat (Suc h') :: u32)" using height_is_pos [OF h(2)] by (simp add: word_less_nat_alt)
  then have rt: "rooted bt' m"
    using h(2,3) by (intro rootedI [of _ _ h']) (simp_all add: bt'_def f_def)
  show ?thesis
    by (rule finishesI [OF _ st' sh' rt]) (use pm(1) in \<open>simp_all add: bind_op_Inr modify_meta_def f_def bt'_def same_tree_def\<close>)
qed

lemma remove_step:
  assumes st: "store_ok K cfg key_ok crc bt H" and par: "H (fst g) = Some (Internal n0)"
    and dr: "drop_child j n = Inr (frame_node cfg g (root_id m))"
    and nk: "node_ok K cfg key_ok (fst g) (Internal (frame_node cfg g (root_id m)))"
    and sh: "shape_ok cfg (H(fst g \<mapsto> Internal (frame_node cfg g (root_id m)))) (plug ctx (plug1 g m))"
    and ro: "rooted bt (plug ctx (plug1 g m))"
    and IH: "\<And>f ctx'. ctx = f # ctx' \<Longrightarrow> remove_works K cfg key_ok crc ctx'"
  shows "finishes K cfg key_ok crc bt (contents (plug ctx (plug1 g m))) (remove_from_internal K crc n j (path_of ctx) bt)"
proof -
  define n' where "n' = frame_node cfg g (root_id m)"
  have nc: "unat (in_num_keys n') = length (in_entries n')" "in_page_id n' = fst g"
    using num_children [OF nk] nk by (simp_all add: n'_def)
  show ?thesis
  proof (cases "ctx = [] \<and> in_num_keys n' = 0")
    case True
    then have "length (left_sibs g) + length (right_sibs g) = 0"
      using nc(1) frame_entries_length [of cfg g "root_id m"] by (simp add: n'_def)
    then obtain p where g: "g = (p, [], None)" by (cases g rule: right_sibs.cases) auto
    show ?thesis
      using shrink_root [OF st, of p n0 _ m] par sh ro True dr g
      by (simp add: remove_from_internal.simps bind_pure_op path_of_def mk_internal_def)
  next
    case False
    obtain pn ts t where node: "plug1 g m = Nd pn ts t" by (cases "(g, m)" rule: plug1.cases) auto
    have n': "n' = tree_node cfg (Nd pn ts t)" using tree_node_plug1 [of cfg g m] by (simp only: n'_def node)
    from save_node_ok [OF st nk] par obtain pm where
      pm: "save_internal K crc n' bt = (with_pm bt pm, Inr ())"
        "store_ok K cfg key_ok crc (with_pm bt pm) (H(fst g \<mapsto> Internal n'))"
      by (auto simp: save_node_def n'_def simp del: fun_upd_apply)
    have ro': "rooted (with_pm bt pm) (plug ctx (Nd pn ts t))" using ro by (simp add: rooted_def node)
    note sh' = sh [folded n'_def, unfolded node]
    have under: "internal_is_underfull K n' \<longleftrightarrow> length ts < internal_min_keys K cfg"
      using nc(1) by (simp add: internal_is_underfull_def n' mk_internal_def)
    have run: "remove_from_internal K crc n j (path_of ctx) bt =
      (if ctx \<noteq> [] \<and> internal_is_underfull K n' then rebalance_internal K crc n' (path_of ctx) (with_pm bt pm)
       else (with_pm bt pm, Inr ()))"
      using dr [folded n'_def] False pm(1)
      by (auto simp: remove_from_internal.simps bind_pure_op bind_op_Inr path_of_def ret_op_def)
    show ?thesis
    proof (cases "ctx \<noteq> [] \<and> internal_is_underfull K n'")
      case True
      then obtain f ctx' where c: "ctx = f # ctx'" by (cases ctx) auto
      have "finishes K cfg key_ok crc (with_pm bt pm) (contents (plug ctx (Nd pn ts t)))
        (rebalance_internal K crc n' (path_of ctx) (with_pm bt pm))"
        unfolding c n'
        by (rule rebalance_internal_ok [OF pm(2) sh' [unfolded c] ro' [unfolded c] _ IH [OF c]]) (use under True in simp)
      then show ?thesis using True run finishes_with_pm by (simp add: node)
    next
      case False
      then show ?thesis
        using run by (intro finishesI [OF _ pm(2) sh' ro']) (auto simp add: node same_tree_def)
    qed
  qed
qed

lemma remove_ok: "remove_works K cfg key_ok crc ctx"
proof (induction ctx)
  case Nil
  show ?case unfolding remove_works_def
    by (intro allI impI, elim exE, rule remove_step) (assumption | simp)+
next
  case (Cons f ctx)
  show ?case unfolding remove_works_def [of _ _ _ _ "f # ctx"]
    by (intro allI impI, elim exE, rule remove_step) (assumption | simp add: Cons.IH)+
qed

end

end
