(* ===== verification/Btree_Remove.thy ===== *)
theory Btree_Remove
  imports Btree_Delete
begin

text \<open>
  Deletion of an entry: the leaf loses it, an underfull leaf takes an entry from a sibling or merges
  with it, and the count in the metadata follows.
\<close>

section \<open>Two adjacent leaves\<close>

lemma foldl_leaf_insert:
  "bt_ok (A @ B) \<Longrightarrow>
     foldl (\<lambda>l e. leaf_insert_entry e l) (mk_leaf cfg p A pv nx) B = mk_leaf cfg p (A @ B) pv nx"
proof (induction B arbitrary: A)
  case (Cons e B)
  obtain k v where e: "e = (k, v)" by (cases e)
  have less: "\<forall>a \<in> set A. fst a < k" and ok: "bt_ok A" using Cons.prems e by (auto simp: bt_ok_def sorted_wrt_append)
  then have "k \<notin> fst ` set A" by auto
  from leaf_insert_mk [OF ok this, of v cfg p pv nx] less
  have "leaf_insert_entry e (mk_leaf cfg p A pv nx) = mk_leaf cfg p (A @ [e]) pv nx"
    using bt_insert_append_left [of A k v "[]"] by (simp add: e)
  then show ?case using Cons.IH [of "A @ [e]"] Cons.prems by simp
qed simp

lemma leaf_pair:
  assumes "shape_ok cfg H (plug ctx (split1 g (Lf pl A) k (Lf pr B)))"
  shows "\<exists>pv nx. H pl = Some (Leaf (mk_leaf cfg pl A pv pr)) \<and> H pr = Some (Leaf (mk_leaf cfg pr B pl nx))"
    "H (fst g) = Some (Internal (tree_node cfg (split1 g (Lf pl A) k (Lf pr B))))"
    "pl \<noteq> pr" "pl \<noteq> fst g" "pr \<noteq> fst g"
    "hole1 g (hole ctx) = (lo, hi) \<Longrightarrow>
       bt_ok (A @ B) \<and> (\<forall>e \<in> set (A @ B). from_lo lo (fst e) \<and> below_hi hi (fst e))"
    "linked H 0 (ctx_left leaf_ids (g # ctx) @ pl # pr # ctx_right leaf_ids (g # ctx)) 0"
    "distinct (ctx_left leaf_ids (g # ctx) @ pl # pr # ctx_right leaf_ids (g # ctx))"
proof -
  note s = assms [unfolded shape_plug split1_represents split1_basic(1,3) split1_distinct]
  show lk: "linked H 0 (ctx_left leaf_ids (g # ctx) @ pl # pr # ctx_right leaf_ids (g # ctx)) 0" using s by simp
  from s obtain pv x y nx where H: "H pl = Some (Leaf (mk_leaf cfg pl A pv x))" "H pr = Some (Leaf (mk_leaf cfg pr B y nx))"
    by auto
  moreover have "x = pr" "y = pl" using lk H by (auto simp: linked_append mk_leaf_def)
  ultimately show "\<exists>pv nx. H pl = Some (Leaf (mk_leaf cfg pl A pv pr)) \<and> H pr = Some (Leaf (mk_leaf cfg pr B pl nx))" by blast
  show "H (fst g) = Some (Internal (tree_node cfg (split1 g (Lf pl A) k (Lf pr B))))" using s by blast
  show "pl \<noteq> pr" "pl \<noteq> fst g" "pr \<noteq> fst g" using s by auto
  have "distinct (leaf_ids (plug ctx (split1 g (Lf pl A) k (Lf pr B))))"
    using assms distinct_leaf_ids unfolding shape_ok_def by blast
  then show "distinct (ctx_left leaf_ids (g # ctx) @ pl # pr # ctx_right leaf_ids (g # ctx))"
    by (simp add: leaf_ids_plug split1_basic(3))
  show "bt_ok (A @ B) \<and> (\<forall>e \<in> set (A @ B). from_lo lo (fst e) \<and> below_hi hi (fst e))"
    if h: "hole1 g (hole ctx) = (lo, hi)"
  proof -
    have "ordered (fst (hole ctx)) (snd (hole ctx)) (split1 g (Lf pl A) k (Lf pr B))" using s by blast
    from split1_orderedD(2-5) [OF this, of lo hi] h
    have o: "above_lo lo k" "below_hi hi k" "ordered lo (Some k) (Lf pl A)" "ordered (Some k) hi (Lf pr B)" by simp_all
    then show ?thesis
      using ordered_contents(2) [of lo hi "[(Lf pl A, k)]" "Lf pr B"] by simp
  qed
qed

lemma redistribute_leaf_shape:
  assumes sh: "shape_ok cfg H (plug ctx (split1 g (Lf pl A) k (Lf pr B)))"
    and F: "A @ B = A' @ B'" "A' \<noteq> []" "B' \<noteq> []" and k': "k' = fst (hd B')"
    and lv: "H pl = Some (Leaf (mk_leaf cfg pl A pv pr))" "H pr = Some (Leaf (mk_leaf cfg pr B pl nx))"
    and H': "H' = H(pl \<mapsto> Leaf (mk_leaf cfg pl A' pv pr), pr \<mapsto> Leaf (mk_leaf cfg pr B' pl nx),
      fst g \<mapsto> Internal (tree_node cfg (split1 g (Lf pl A') k' (Lf pr B'))))"
  shows "shape_ok cfg H' (plug ctx (split1 g (Lf pl A') k' (Lf pr B')))"
proof -
  obtain lo hi where h: "hole1 g (hole ctx) = (lo, hi)" by (cases "hole1 g (hole ctx)")
  note lp = leaf_pair [OF sh]
  have o: "bt_ok (A' @ B')" "\<forall>e \<in> set (A' @ B'). from_lo lo (fst e) \<and> below_hi hi (fst e)"
    using lp(6) [OF h] unfolding F(1) by blast+
  show ?thesis
  proof (rule redistribute_shape [OF sh h])
    show "represents cfg H' (Lf pl A')" "represents cfg H' (Lf pr B')"
      using lp(3-5) by (auto simp: H')
    show "above_lo lo k'" "below_hi hi k'" "ordered lo (Some k') (Lf pl A')" "ordered (Some k') hi (Lf pr B')"
      unfolding k' by (rule ordered_cut [OF o F(2,3)])+
    show "\<exists>l'. H' q = Some (Leaf l') \<and> ln_prev_leaf l' = ln_prev_leaf l \<and> ln_next_leaf l' = ln_next_leaf l"
      if "H q = Some (Leaf l)" for q l using that lv lp(2-5) by (auto simp: H' mk_leaf_def)
  qed (auto simp: H')
qed

lemma linked_merge:
  assumes "linked H 0 (L @ pl # pr # R) 0" and "distinct (L @ pl # pr # R)" and "H 0 = None"
    and "H pl = Some (Leaf (mk_leaf cfg pl A pv pr))" "H pr = Some (Leaf (mk_leaf cfg pr B pl nx))"
    and H': "H' = (relinked H nx pl)(pr := None, pl \<mapsto> Leaf (mk_leaf cfg pl C pv nx))"
  shows "linked H' 0 (L @ pl # R) 0"
proof -
  have nx: "nx = first_or 0 R" "pv = last_or 0 L" and lk: "linked H 0 L pl" "linked H pr R 0"
    using assms(1,4,5) by (auto simp: linked_append mk_leaf_def)
  have "\<exists>l. H r = Some (Leaf l)" if "r \<in> set (L @ pl # pr # R)" for r using linked_member [OF assms(1) that] .
  then have z: "0 \<notin> set (L @ pl # pr # R)" using assms(3) by force
  have out: "nx \<notin> set L" "pl \<noteq> nx" "pr \<noteq> nx" using assms(2) z nx(1) by (cases R; auto)+
  have "linked (relinked H nx pl) pl R 0"
    using linked_relinked [OF lk(2) _ assms(3), of pl] assms(2) nx(1) by simp
  then have r: "linked H' pl R 0" using assms(2) unfolding H' by (rule_tac linked_frame) auto
  have "linked (relinked H nx pl) 0 L pl" using lk(1) out(1) by (rule linked_relinked_other)
  then have l: "linked H' 0 L pl" using assms(2) unfolding H' by (rule_tac linked_frame) auto
  have "H' pl = Some (Leaf (mk_leaf cfg pl C pv nx))" by (simp add: H')
  then show ?thesis using l r nx by (simp add: linked_append) (simp add: mk_leaf_def)
qed

lemma merge_leaf_shape:
  assumes sh: "shape_ok cfg H (plug ctx (split1 g (Lf pl A) k (Lf pr B)))" and H0: "H 0 = None"
    and lv: "H pl = Some (Leaf (mk_leaf cfg pl A pv pr))" "H pr = Some (Leaf (mk_leaf cfg pr B pl nx))"
    and H': "H' = (relinked H nx pl)(pr := None, pl \<mapsto> Leaf (mk_leaf cfg pl (A @ B) pv nx))"
    and H'': "H'' = H'(fst g \<mapsto> Internal (frame_node cfg g pl))"
  shows "shape_ok cfg H'' (plug ctx (plug1 g (Lf pl (A @ B))))"
proof -
  obtain lo hi where h: "hole1 g (hole ctx) = (lo, hi)" by (cases "hole1 g (hole ctx)")
  note lp = leaf_pair [OF sh] and s = sh [unfolded shape_plug split1_represents split1_basic(1,3) split1_distinct]
  show ?thesis
  proof (rule merge_shape [OF sh h])
    show "represents cfg H' (Lf pl (A @ B))" by (auto simp: H')
    have "ctx_represents cfg (relinked H nx pl) ctx (fst g)" using s by (intro ctx_represents_relinked) blast
    then show "ctx_represents cfg H' ctx (fst g)"
      unfolding H' by (intro ctx_represents_upd) (use s in auto)
    show "\<forall>u \<in> set (left_sibs g @ right_sibs g). represents cfg H' u"
    proof
      fix u assume u: "u \<in> set (left_sibs g @ right_sibs g)"
      then have "represents cfg H u" "pl \<notin> set (page_ids u)" "pr \<notin> set (page_ids u)" using s by auto
      then show "represents cfg H' u" unfolding H' by (intro represents_upd represents_relinked)
    qed
    show "mset (page_ids (Lf pl (A @ B))) \<subseteq># mset (page_ids (Lf pl A) @ page_ids (Lf pr B))" by simp
    show "ordered lo hi (Lf pl (A @ B))" using lp(6) [OF h] by simp
    show "linked H' 0 (ctx_left leaf_ids (g # ctx) @ leaf_ids (Lf pl (A @ B)) @ ctx_right leaf_ids (g # ctx)) 0"
      using linked_merge [OF lp(7,8) H0 lv H'] by simp
    show "H' (fst g) = Some (Internal (tree_node cfg (split1 g (Lf pl A) k (Lf pr B))))"
      using relinked_internal [of H "fst g"] lp(2,4,5) by (simp add: H')
    show "H'' = H'(fst g \<mapsto> Internal (frame_node cfg g (root_id (Lf pl (A @ B)))))" by (simp add: H'')
  qed
qed

lemma mk_leaf_sel:
  "ln_page_id (mk_leaf cfg p es pv nx) = p" "ln_entries (mk_leaf cfg p es pv nx) = es"
  "ln_num_entries (mk_leaf cfg p es pv nx) = word_of_nat (length es)"
  "ln_prev_leaf (mk_leaf cfg p es pv nx) = pv" "ln_next_leaf (mk_leaf cfg p es pv nx) = nx"
  by (simp_all add: mk_leaf_def)

lemma first_or_mem: "first_or 0 ps \<noteq> 0 \<Longrightarrow> first_or 0 ps \<in> set ps"
  by (cases ps) auto

lemma insert_front: "bt_ok (e # es) \<Longrightarrow> leaf_insert_entry e (mk_leaf cfg p es pv nx) = mk_leaf cfg p (e # es) pv nx"
proof -
  assume ok: "bt_ok (e # es)"
  obtain k v where e: "e = (k, v)" by (cases e)
  have "bt_insert k v es = e # es" using ok e bt_insert_append_right [of es k v "[]"] by simp
  moreover have "k \<notin> fst ` set es" "bt_ok es" using ok e by auto
  ultimately show ?thesis using leaf_insert_mk [of es k v cfg p pv nx] by (simp add: e)
qed

lemma insert_back: "bt_ok (es @ [e]) \<Longrightarrow> leaf_insert_entry e (mk_leaf cfg p es pv nx) = mk_leaf cfg p (es @ [e]) pv nx"
  using foldl_leaf_insert [of es "[e]" cfg p pv nx] by simp

lemma redistribute_leaf_left_eq:
  assumes "gp = tree_node cfg (split1 g (Lf pl (A @ [e])) k (Lf pr B))" and "bt_ok (e # B)"
  shows "redistribute_leaf_from_left K crc (mk_leaf cfg pl (A @ [e]) pv pr) (mk_leaf cfg pr B pl nx) gp (Suc (length (left_sibs g)))
    = bind_op (save_leaf K crc (mk_leaf cfg pl A pv pr)) (\<lambda>_.
      bind_op (save_leaf K crc (mk_leaf cfg pr (e # B) pl nx)) (\<lambda>_.
        save_internal K crc (tree_node cfg (split1 g (Lf pl A) (fst e) (Lf pr (e # B))))))"
proof -
  note acc = split1_access [OF assms(1) refl]
  have "set_entry_key (length (left_sibs g)) (fst e) gp = tree_node cfg (split1 g (Lf pl A) (fst e) (Lf pr (e # B)))"
    unfolding acc(5) by (rule tree_node_split1_cong) simp_all
  moreover have "(mk_leaf cfg pl (A @ [e]) pv pr)\<lparr>ln_entries := A, ln_num_entries := word_of_nat (length (A @ [e])) - 1\<rparr>
      = mk_leaf cfg pl A pv pr" by (simp add: mk_leaf_def)
  ultimately show ?thesis
    using acc(3) insert_front [OF assms(2), of cfg pr pl nx] by (simp add: redistribute_leaf_from_left_def Let_def mk_leaf_sel)
qed

lemma redistribute_leaf_right_eq:
  assumes "gp = tree_node cfg (split1 g (Lf pl A) k (Lf pr (e # B)))" and "bt_ok (A @ [e])" and "B \<noteq> []"
  shows "redistribute_leaf_from_right K crc (mk_leaf cfg pl A pv pr) (mk_leaf cfg pr (e # B) pl nx) gp (length (left_sibs g))
    = bind_op (save_leaf K crc (mk_leaf cfg pl (A @ [e]) pv pr)) (\<lambda>_.
      bind_op (save_leaf K crc (mk_leaf cfg pr B pl nx)) (\<lambda>_.
        save_internal K crc (tree_node cfg (split1 g (Lf pl (A @ [e])) (fst (hd B)) (Lf pr B)))))"
proof -
  note acc = split1_access [OF assms(1) refl]
  have "set_entry_key (length (left_sibs g)) (fst (hd B)) gp
      = tree_node cfg (split1 g (Lf pl (A @ [e])) (fst (hd B)) (Lf pr B))"
    unfolding acc(5) by (rule tree_node_split1_cong) simp_all
  moreover have "(mk_leaf cfg pr (e # B) pl nx)\<lparr>ln_entries := B, ln_num_entries := word_of_nat (length (e # B)) - 1\<rparr>
      = mk_leaf cfg pr B pl nx" by (simp add: mk_leaf_def)
  ultimately show ?thesis
    using acc(3) insert_back [OF assms(2), of cfg pl pv pr] assms(3) by (simp add: redistribute_leaf_from_right_def Let_def mk_leaf_sel)
qed

section \<open>Rebalancing leaves\<close>

context key_codec
begin

lemma leaf_keys_ok:
  assumes "store_ok K cfg key_ok crc bt H" and "shape_ok cfg H (plug ctx (split1 g (Lf pl A) k (Lf pr B)))"
  shows "\<forall>e \<in> set (A @ B). key_ok (fst e)"
    "node_ok K cfg key_ok (fst g) (Internal (tree_node cfg (split1 g (Lf pl A) k (Lf pr B))))"
    "length A \<le> leaf_max_entries K cfg" "length B \<le> leaf_max_entries K cfg"
proof -
  from leaf_pair(1) [OF assms(2)] obtain pv nx where
    "H pl = Some (Leaf (mk_leaf cfg pl A pv pr))" "H pr = Some (Leaf (mk_leaf cfg pr B pl nx))" by blast
  from store_okD(6) [OF assms(1) this(1)] store_okD(6) [OF assms(1) this(2)]
  show "\<forall>e \<in> set (A @ B). key_ok (fst e)" "length A \<le> leaf_max_entries K cfg" "length B \<le> leaf_max_entries K cfg"
    by (auto simp: mk_leaf_def)
  show "node_ok K cfg key_ok (fst g) (Internal (tree_node cfg (split1 g (Lf pl A) k (Lf pr B))))"
    using store_okD(6) [OF assms(1) leaf_pair(2) [OF assms(2)]] .
qed

lemma redistribute_leaf_ok:
  assumes st: "store_ok K cfg key_ok crc bt H"
    and sh: "shape_ok cfg H (plug ctx (split1 g (Lf pl A) k (Lf pr B)))"
    and ro: "rooted bt (plug ctx (split1 g (Lf pl A) k (Lf pr B)))"
    and F: "A @ B = A' @ B'" "A' \<noteq> []" "B' \<noteq> []"
    and lv: "H pl = Some (Leaf (mk_leaf cfg pl A pv pr))" "H pr = Some (Leaf (mk_leaf cfg pr B pl nx))"
    and len: "length A' \<le> leaf_max_entries K cfg" "length B' \<le> leaf_max_entries K cfg"
  shows "finishes K cfg key_ok crc bt (contents (plug ctx (split1 g (Lf pl A) k (Lf pr B))))
    (bind_op (save_leaf K crc (mk_leaf cfg pl A' pv pr)) (\<lambda>_.
     bind_op (save_leaf K crc (mk_leaf cfg pr B' pl nx)) (\<lambda>_.
       save_internal K crc (tree_node cfg (split1 g (Lf pl A') (fst (hd B')) (Lf pr B'))))) bt)"
proof -
  define n1 n2 n3 where n: "n1 = Leaf (mk_leaf cfg pl A' pv pr)" "n2 = Leaf (mk_leaf cfg pr B' pl nx)"
    "n3 = Internal (tree_node cfg (split1 g (Lf pl A') (fst (hd B')) (Lf pr B')))"
  note ko = leaf_keys_ok [OF st sh]
  have keys: "\<forall>e \<in> set (A' @ B'). key_ok (fst e)" using ko(1) F(1) by simp
  have ok: "node_ok K cfg key_ok pl n1" "node_ok K cfg key_ok pr n2"
    using keys len by (auto simp: n mk_leaf_def)
  have ok3: "node_ok K cfg key_ok (fst g) n3"
    unfolding n by (rule node_ok_split1(2) [OF ko(2)]) (use keys F(3) in auto)
  from three_saves [OF st ok ok3] lv leaf_pair(2) [OF sh] obtain pm where
    pm: "bind_op (save_node K crc n1) (\<lambda>_. bind_op (save_node K crc n2) (\<lambda>_. save_node K crc n3)) bt
        = (with_pm bt pm, Inr ())"
      "store_ok K cfg key_ok crc (with_pm bt pm) (H(pl \<mapsto> n1, pr \<mapsto> n2, fst g \<mapsto> n3))"
    by (auto simp del: fun_upd_apply)
  have ct: "contents (plug ctx (split1 g (Lf pl A') (fst (hd B')) (Lf pr B'))) = contents (plug ctx (split1 g (Lf pl A) k (Lf pr B)))"
    using arg_cong [OF F(1), of "\<lambda>x. x @ y" for y] by (simp add: contents_plug split1_basic(2))
  have "rooted bt (plug ctx (split1 g (Lf pl A') (fst (hd B')) (Lf pr B')))"
    by (rule rooted_replace [OF ro]) (auto simp: split1_basic(1) elim: height_split1)
  then have rt: "rooted (with_pm bt pm) (plug ctx (split1 g (Lf pl A') (fst (hd B')) (Lf pr B')))" by (simp add: rooted_def)
  show ?thesis
    by (rule finishesI [OF _ pm(2) redistribute_leaf_shape [OF sh F refl lv, folded n, OF refl] rt ct])
      (use pm(1) in \<open>simp_all add: same_tree_def save_node_def n\<close>)
qed

lemma merge_leaves_ok:
  assumes st: "store_ok K cfg key_ok crc bt H"
    and sh: "shape_ok cfg H (plug ctx (split1 g (Lf pl A) k (Lf pr B)))"
    and ro: "rooted bt (plug ctx (split1 g (Lf pl A) k (Lf pr B)))"
    and lv: "H pl = Some (Leaf (mk_leaf cfg pl A pv pr))" "H pr = Some (Leaf (mk_leaf cfg pr B pl nx))"
    and len: "length (A @ B) \<le> leaf_max_entries K cfg"
    and gp: "gp = tree_node cfg (split1 g (Lf pl A) k (Lf pr B))"
  shows "finishes K cfg key_ok crc bt (contents (plug ctx (split1 g (Lf pl A) k (Lf pr B))))
    (merge_leaves K crc (mk_leaf cfg pl A pv pr) (mk_leaf cfg pr B pl nx) gp (Suc (length (left_sibs g))) (path_of ctx) bt)"
proof -
  define M where "M = Lf pl (A @ B)"
  define n where "n = mk_leaf cfg pl (A @ B) pv nx"
  note lp = leaf_pair [OF sh] and ko = leaf_keys_ok [OF st sh] and acc = split1_access [OF gp refl]
  have H0: "H 0 = None" using store_zero [OF st] .
  have nx: "nx = first_or 0 (ctx_right leaf_ids (g # ctx))" using lp(7) lv(2) by (auto simp: linked_append mk_leaf_def)
  have mem: "nx \<noteq> 0 \<longrightarrow> nx \<in> set (ctx_right leaf_ids (g # ctx))"
    unfolding nx using first_or_mem by blast
  then have ex: "nx \<noteq> 0 \<longrightarrow> (\<exists>l. H nx = Some (Leaf l))" using linked_member [OF lp(7), of nx] by auto
  have "pr \<noteq> 0" "pl \<noteq> 0" using lv H0 by auto
  then have dn: "pr \<noteq> nx" "pl \<noteq> nx" using mem lp(8) by (cases "nx = 0"; auto)+
  from relink_next_ok [OF st ex, of pl] obtain pm1 where
    1: "relink_next K crc nx pl bt = (with_pm bt pm1, Inr ())" "store_ok K cfg key_ok crc (with_pm bt pm1) (relinked H nx pl)"
    by blast
  have "relinked H nx pl pr = Some (Leaf (mk_leaf cfg pr B pl nx))" using dn lv by simp
  from free_ok [OF 1(2) this] obtain pm2 where
    2: "on_pm (free_page crc pr) (with_pm bt pm1) = (with_pm bt pm2, Inr ())"
      "store_ok K cfg key_ok crc (with_pm bt pm2) ((relinked H nx pl)(pr := None))" by auto
  have nk: "node_ok K cfg key_ok pl (Leaf n)" using ko(1) len by (auto simp: n_def mk_leaf_def)
  have "((relinked H nx pl)(pr := None)) pl \<noteq> None" using dn lv lp(3) by simp
  from save_node_ok [OF 2(2) nk this] obtain pm3 where
    3: "save_leaf K crc n (with_pm bt pm2) = (with_pm bt pm3, Inr ())"
      "store_ok K cfg key_ok crc (with_pm bt pm3) ((relinked H nx pl)(pr := None, pl \<mapsto> Leaf n))"
    by (auto simp: save_node_def simp del: fun_upd_apply)
  have "bt_ok (A @ B)" using lp(6) by (cases "hole1 g (hole ctx)") blast
  note fold = foldl_leaf_insert [OF this, of cfg pl pv pr]
  have "(mk_leaf cfg pl (A @ B) pv pr)\<lparr>ln_next_leaf := nx\<rparr> = n" by (simp add: n_def mk_leaf_def)
  then have run: "merge_leaves K crc (mk_leaf cfg pl A pv pr) (mk_leaf cfg pr B pl nx) gp (Suc (length (left_sibs g))) (path_of ctx) bt
      = remove_from_internal K crc gp (Suc (length (left_sibs g))) (path_of ctx) (with_pm bt pm3)"
    using fold 1(1) 2(1) 3(1) by (simp add: merge_leaves_def Let_def mk_leaf_sel bind_op_Inr)
  have drop: "drop_child (Suc (length (left_sibs g))) gp = Inr (frame_node cfg g (root_id M))"
    using acc(6) by (simp add: M_def)
  have "rooted bt (plug ctx (plug1 g M))"
    by (rule rooted_replace [OF ro]) (auto simp: split1_basic(1) M_def elim: height_merged)
  then have rt: "rooted (with_pm bt pm3) (plug ctx (plug1 g M))" by (simp add: rooted_def)
  have par: "\<exists>n0. ((relinked H nx pl)(pr := None, pl \<mapsto> Leaf n)) (fst g) = Some (Internal n0)"
    using relinked_internal [of H "fst g"] lp(2,4,5) by auto
  have "shape_ok cfg ((relinked H nx pl)(pr := None, pl \<mapsto> Leaf n, fst g \<mapsto> Internal (frame_node cfg g (root_id M)))) (plug ctx (plug1 g M))"
    unfolding M_def n_def by (rule merge_leaf_shape [OF sh H0 lv refl]) simp
  with remove_ok [of crc ctx, unfolded remove_works_def, rule_format, OF 3(2) par drop] node_ok_split1(3) [OF ko(2)] rt
  have "finishes K cfg key_ok crc bt (contents (plug ctx (plug1 g M)))
      (remove_from_internal K crc gp (Suc (length (left_sibs g))) (path_of ctx) (with_pm bt pm3))"
    using finishes_with_pm by blast
  moreover have "contents (plug ctx (plug1 g M)) = contents (plug ctx (split1 g (Lf pl A) k (Lf pr B)))"
    using contents_plug [of "g # ctx" M] by (simp add: contents_plug split1_basic(2) M_def)
  ultimately show ?thesis using run by simp
qed

lemma rebalance_leaf_left:
  assumes st: "store_ok K cfg key_ok crc bt H"
    and sh: "shape_ok cfg H (plug ctx (split1 g l k (Lf p es)))"
    and ro: "rooted bt (plug ctx (split1 g l k (Lf p es)))"
    and lf: "H p = Some (Leaf n)" and len: "length es < leaf_min_entries K cfg"
  shows "finishes K cfg key_ok crc bt (contents (plug ctx (split1 g l k (Lf p es))))
    (rebalance_leaf K crc n ((fst g, Suc (length (left_sibs g))) # path_of ctx) bt)"
proof -
  obtain pl A where l: "l = Lf pl A" using sibling_heights [OF ro] height_leaf by blast
  define gp where "gp = tree_node cfg (split1 g l k (Lf p es))"
  note lp = leaf_pair [OF sh [unfolded l]] and acc = split1_access [OF gp_def refl]
  obtain pv nx where lv: "H pl = Some (Leaf (mk_leaf cfg pl A pv p))" "H p = Some (Leaf (mk_leaf cfg p es pl nx))"
    using lp(1) by blast
  have n: "n = mk_leaf cfg p es pl nx" using lf lv(2) by simp
  have rd: "read_internal K crc (fst g) bt = Inr gp" "read_leaf K crc pl bt = Inr (mk_leaf cfg pl A pv p)"
    using read_internal_ok [OF st] read_leaf_ok [OF st] lp(2) lv(1) by (simp_all only: gp_def l)
  have cfg: "bm_config (tr_meta bt) = cfg" using store_okD(2) [OF st] .
  show ?thesis
  proof (cases "leaf_min_entries K cfg < length A")
    case True
    then obtain A0 e where A: "A = A0 @ [e]" by (cases A rule: rev_cases) auto
    have "A0 \<noteq> []" using True min_keys(3) A by auto
    moreover have "bt_ok (A @ es)" using lp(6) by (cases "hole1 g (hole ctx)") blast
    then have ok: "bt_ok (e # es)" using A by (cases e) (auto simp: bt_ok_def sorted_wrt_append)
    ultimately have "finishes K cfg key_ok crc bt (contents (plug ctx (split1 g l k (Lf p es))))
      (redistribute_leaf_from_left K crc (mk_leaf cfg pl A pv p) (mk_leaf cfg p es pl nx) gp (Suc (length (left_sibs g))) bt)"
      unfolding l A redistribute_leaf_left_eq [OF gp_def [unfolded l A] ok]
      using redistribute_leaf_ok [OF st sh [unfolded l A] ro [unfolded l A], of A0 "e # es" pv nx]
        lv True len min_keys(2,3) leaf_keys_ok(3) [OF st sh [unfolded l]] A by auto
    then show ?thesis
      using rd acc(1) True cfg l n by (simp add: bind_pure_op mk_leaf_sel)
  next
    case False
    then have "length (A @ es) \<le> leaf_max_entries K cfg" using len min_keys(2) by simp
    from merge_leaves_ok [OF st sh [unfolded l] ro [unfolded l] lv this gp_def [unfolded l]]
    show ?thesis using rd acc(1) False cfg l n by (simp add: bind_pure_op mk_leaf_sel)
  qed
qed

lemma rebalance_leaf_right:
  assumes st: "store_ok K cfg key_ok crc bt H"
    and sh: "shape_ok cfg H (plug ctx (split1 g (Lf p es) k r))"
    and ro: "rooted bt (plug ctx (split1 g (Lf p es) k r))"
    and lf: "H p = Some (Leaf n)" and len: "length es < leaf_min_entries K cfg" and g0: "left_sibs g = []"
  shows "finishes K cfg key_ok crc bt (contents (plug ctx (split1 g (Lf p es) k r)))
    (rebalance_leaf K crc n ((fst g, 0) # path_of ctx) bt)"
proof -
  obtain pr B where r: "r = Lf pr B" using sibling_heights [OF ro] height_leaf by blast
  define gp where "gp = tree_node cfg (split1 g (Lf p es) k r)"
  note lp = leaf_pair [OF sh [unfolded r]] and acc = split1_access [OF gp_def refl, unfolded g0, simplified]
  obtain pv nx where lv: "H p = Some (Leaf (mk_leaf cfg p es pv pr))" "H pr = Some (Leaf (mk_leaf cfg pr B p nx))"
    using lp(1) by blast
  have n: "n = mk_leaf cfg p es pv pr" using lf lv(1) by simp
  have rd: "read_internal K crc (fst g) bt = Inr gp" "read_leaf K crc pr bt = Inr (mk_leaf cfg pr B p nx)"
    using read_internal_ok [OF st] read_leaf_ok [OF st] lp(2) lv(2) by (simp_all only: gp_def r)
  have cfg: "bm_config (tr_meta bt) = cfg" using store_okD(2) [OF st] .
  have ch: "0 < unat (in_num_keys gp)"
    using num_children [OF leaf_keys_ok(2) [OF st sh [unfolded r]]] acc(3) by (simp add: gp_def r)
  show ?thesis
  proof (cases "leaf_min_entries K cfg < length B")
    case True
    then have "1 < length B" using min_keys(3) by linarith
    then obtain e B0 where B: "B = e # B0" "B0 \<noteq> []" by (cases B) auto
    have "bt_ok (es @ B)" using lp(6) by (cases "hole1 g (hole ctx)") blast
    then have ok: "bt_ok (es @ [e])" using B by (auto simp: bt_ok_def sorted_wrt_append)
    have "finishes K cfg key_ok crc bt (contents (plug ctx (split1 g (Lf p es) k r)))
      (redistribute_leaf_from_right K crc (mk_leaf cfg p es pv pr) (mk_leaf cfg pr B p nx) gp (length (left_sibs g)) bt)"
      unfolding r B(1) redistribute_leaf_right_eq [OF gp_def [unfolded r B(1)] ok B(2)]
      using redistribute_leaf_ok [OF st sh [unfolded r B(1)] ro [unfolded r B(1)], of "es @ [e]" B0 pv nx]
        lv True len min_keys(2,3) leaf_keys_ok(4) [OF st sh [unfolded r]] B by auto
    then show ?thesis
      using rd acc(2) True cfg r n ch g0 by (simp add: bind_pure_op mk_leaf_sel)
  next
    case False
    then have "length (es @ B) \<le> leaf_max_entries K cfg" using len min_keys(2) by simp
    from merge_leaves_ok [OF st sh [unfolded r] ro [unfolded r] lv this gp_def [unfolded r]]
    show ?thesis using rd acc(2) False cfg r n ch g0 by (simp add: bind_pure_op mk_leaf_sel)
  qed
qed

lemma rebalance_leaf_ok:
  assumes st: "store_ok K cfg key_ok crc bt H"
    and sh: "shape_ok cfg H (plug (f # ctx) (Lf p es))" and ro: "rooted bt (plug (f # ctx) (Lf p es))"
    and lf: "H p = Some (Leaf n)" and len: "length es < leaf_min_entries K cfg"
  shows "finishes K cfg key_ok crc bt (contents (plug (f # ctx) (Lf p es)))
    (rebalance_leaf K crc n (path_of (f # ctx)) bt)"
proof -
  consider (left) "left_sibs f \<noteq> []" | (right) "left_sibs f = []" "right_sibs f \<noteq> []"
    | (none) "left_sibs f = []" "right_sibs f = []" by blast
  then show ?thesis
  proof cases
    case left
    from sibling_left [OF this] obtain g l k where
      g: "\<And>s. plug1 f s = split1 g l k s" "length (left_sibs f) = Suc (length (left_sibs g))" "fst g = fst f" by blast
    then show ?thesis
      using rebalance_leaf_left [OF st _ _ lf len, where g = g and l = l and k = k] sh ro by (simp add: path_of_Cons)
  next
    case right
    from sibling_right [OF this] obtain g k r where
      g: "\<And>s. plug1 f s = split1 g s k r" "left_sibs g = []" "fst g = fst f" by blast
    then show ?thesis
      using rebalance_leaf_right [OF st _ _ lf len, where g = g and k = k and r = r] sh ro right(1)
      by (simp add: path_of_Cons)
  next
    case none
    have gp: "H (fst f) = Some (Internal (frame_node cfg f p))" using sh unfolding shape_plug by simp
    have "unat (in_num_keys (frame_node cfg f p)) = 0"
      using num_children [OF store_okD(6) [OF st gp]] none by (simp add: frame_entries_length)
    then have "rebalance_leaf K crc n (path_of (f # ctx)) bt = (bt, Inr ())"
      using read_internal_ok [OF st gp] none(1) by (simp add: path_of_Cons bind_pure_op ret_op_def)
    then show ?thesis using st sh ro by (intro finishesI) (simp_all add: same_tree_def)
  qed
qed

section \<open>Deletion\<close>

lemma delete_missing:
  assumes "tree_holds K cfg key_ok crc bt es" and "key \<notin> fst ` set es"
  shows "tree_delete K crc key bt = Some (bt, Inl (Err (key_not_found_error K key)))"
proof -
  from holds_leaf [OF assms(1), of key] obtain ctx p ls pv nx where
    l: "key_in key ctx" "ordered None None (plug ctx (Lf p ls))"
      "find_leaf_with_path K crc key bt = Some (Inr (mk_leaf cfg p ls pv nx, path_of ctx))"
      "contents (plug ctx (Lf p ls)) = es" by blast
  have "key \<notin> fst ` set ls" using leaf_contents(2) [OF l(1,2)] l(4) assms(2) by simp
  then obtain i where "binary_search fst key ls = Inl i" using binary_search_missing by blast
  then show ?thesis
    using l(3) by (simp add: tree_delete_def delete_from_leaf_def leaf_remove_entry_def mk_leaf_sel fail_op_def)
qed

lemma leaf_remove_mk:
  assumes "bt_ok es" and "key \<in> fst ` set es"
  shows "\<exists>e. leaf_remove_entry key (mk_leaf cfg p es pv nx) = (mk_leaf cfg p (bt_remove key es) pv nx, Some e)"
    "Suc (length (bt_remove key es)) = length es"
proof -
  from assms(2) obtain v where "(key, v) \<in> set es" by auto
  from binary_search_found [OF assms(1) this] obtain ls rs where
    b: "es = ls @ (key, v) # rs" "binary_search fst key es = Inr (length ls)" by blast
  have r: "bt_remove key es = ls @ rs" using bt_remove_split [of ls key v rs] assms(1) b(1) by simp
  show "\<exists>e. leaf_remove_entry key (mk_leaf cfg p es pv nx) = (mk_leaf cfg p (bt_remove key es) pv nx, Some e)"
    using b r by (simp add: leaf_remove_entry_def mk_leaf_def vec_remove_def)
  show "Suc (length (bt_remove key es)) = length es" using r b(1) by simp
qed

lemma delete_finish:
  assumes "store_ok K cfg key_ok crc bt H" and "shape_ok cfg H (plug ctx (Lf p es))" and "rooted bt (plug ctx (Lf p es))"
    and "H p = Some (Leaf n)" and "leaf_is_underfull K n \<longleftrightarrow> length es < leaf_min_entries K cfg"
    and "tr_meta_page_id bt = META_PAGE_ID" and "bm_num_entries (tr_meta bt) = word_of_nat (length (contents (plug ctx (Lf p es))))"
  shows "\<exists>bt'. (if path_of ctx = [] \<or> \<not> leaf_is_underfull K n then flush_meta K crc
      else bind_op (rebalance_leaf K crc n (path_of ctx)) (\<lambda>_. flush_meta K crc)) bt = (bt', Inr ())
    \<and> tree_holds K cfg key_ok crc bt' (contents (plug ctx (Lf p es)))"
proof (cases "path_of ctx = [] \<or> \<not> leaf_is_underfull K n")
  case True
  then show ?thesis using flush_holds [OF assms(1-3,6,7)] by auto
next
  case False
  then obtain f ctx' where c: "ctx = f # ctx'" by (cases ctx) (auto simp: path_of_def)
  have "length es < leaf_min_entries K cfg" using False assms(5) by simp
  from rebalance_leaf_ok [OF assms(1-3) [unfolded c] assms(4) this]
  obtain bt1 H1 t1 where r: "rebalance_leaf K crc n (path_of ctx) bt = (bt1, Inr ())" "store_ok K cfg key_ok crc bt1 H1"
    "shape_ok cfg H1 t1" "rooted bt1 t1" "contents t1 = contents (plug ctx (Lf p es))" "same_tree bt bt1"
    unfolding finishes_def c by blast
  have "tr_meta_page_id bt1 = META_PAGE_ID" "bm_num_entries (tr_meta bt1) = word_of_nat (length (contents t1))"
    using r(5,6) assms(6,7) by (simp_all add: same_tree_def)
  from flush_holds [OF r(2-4) this] show ?thesis using False r(1,5) by (auto simp: bind_op_Inr)
qed

lemma delete_found:
  assumes "tree_holds K cfg key_ok crc bt es" and "key \<in> fst ` set es"
  shows "\<exists>bt'. tree_delete K crc key bt = Some (bt', Inr ()) \<and> tree_holds K cfg key_ok crc bt' (bt_remove key es)"
proof -
  from holds_leaf [OF assms(1), of key] obtain H ctx p ls pv nx where
    l: "store_ok K cfg key_ok crc bt H" "shape_ok cfg H (plug ctx (Lf p ls))" "rooted bt (plug ctx (Lf p ls))"
      "H p = Some (Leaf (mk_leaf cfg p ls pv nx))" "key_in key ctx" "ordered None None (plug ctx (Lf p ls))"
      "find_leaf_with_path K crc key bt = Some (Inr (mk_leaf cfg p ls pv nx, path_of ctx))" "bt_ok ls"
      "contents (plug ctx (Lf p ls)) = es" by blast
  have m: "tr_meta_page_id bt = META_PAGE_ID" "bm_num_entries (tr_meta bt) = word_of_nat (length es)"
    using assms(1) by (auto simp: tree_holds_def)
  have inl: "key \<in> fst ` set ls" using leaf_contents(2) [OF l(5,6)] l(9) assms(2) by simp
  define ls' where "ls' = bt_remove key ls"
  define n where "n = mk_leaf cfg p ls' pv nx"
  define H1 where "H1 = H(p \<mapsto> Leaf n)"
  from leaf_remove_mk(1) [OF l(8) inl] obtain e where
    rem: "leaf_remove_entry key (mk_leaf cfg p ls pv nx) = (n, Some e)" unfolding n_def ls'_def by blast
  have len: "Suc (length ls') = length ls" using leaf_remove_mk(2) [OF l(8) inl] by (simp add: ls'_def)
  have nk: "node_ok K cfg key_ok p (Leaf (mk_leaf cfg p ls pv nx))" using store_okD(6) [OF l(1,4)] .
  have ord: "ordered None None (plug ctx (Lf p ls'))"
    by (rule ordered_leaf [OF l(6), of _ key]) (simp add: ls'_def l(8), auto simp: ls'_def bt_remove_def)
  have sub: "length ls' \<le> leaf_max_entries K cfg" "\<forall>e \<in> set ls'. key_ok (fst e)"
    using nk len by (auto simp: ls'_def bt_remove_def mk_leaf_def)
  note rl = replace_leaf_ok [OF l(1,2,4) ord sub H1_def [unfolded n_def]]
  from rl(1) obtain pm where pm: "save_leaf K crc n bt = (with_pm bt pm, Inr ())"
    "store_ok K cfg key_ok crc (with_pm bt pm) H1" by (auto simp: n_def)
  have es': "contents (plug ctx (Lf p ls')) = bt_remove key es"
    using leaf_contents(4) [OF l(5,6)] l(9) by (simp add: ls'_def)
  have el: "Suc (length (bt_remove key es)) = length es"
    using leaf_remove_mk(2) [OF tree_holds_sorted [OF assms(1)] assms(2)] .
  define bt1 where "bt1 = (with_pm bt pm)\<lparr>tr_meta := (tr_meta bt)\<lparr>bm_num_entries := bm_num_entries (tr_meta bt) - 1\<rparr>\<rparr>"
  have st1: "store_ok K cfg key_ok crc bt1 H1"
    using store_ok_meta [OF pm(2), of "\<lambda>m. m\<lparr>bm_num_entries := bm_num_entries m - 1\<rparr>"] store_okD(2) [OF l(1)]
    by (simp add: bt1_def)
  have ro1: "rooted bt1 (plug ctx (Lf p ls'))"
    using rooted_leaf [OF l(3), of ls'] by (simp add: rooted_def bt1_def)
  have "word_of_nat (length es) = 1 + (word_of_nat (length (bt_remove key es)) :: u64)" using el by (metis of_nat_Suc)
  then have cnt: "bm_num_entries (tr_meta bt1) = word_of_nat (length (bt_remove key es))" "tr_meta_page_id bt1 = META_PAGE_ID"
    using m by (simp_all add: bt1_def)
  have under: "leaf_is_underfull K n \<longleftrightarrow> length ls' < leaf_min_entries K cfg"
    using sub(1) capacities(4) by (simp add: leaf_is_underfull_def n_def mk_leaf_def unat_of_nat_small)
  have "\<exists>bt'. delete_from_leaf K crc key (mk_leaf cfg p ls pv nx) (path_of ctx) bt = (bt', Inr ())
    \<and> tree_holds K cfg key_ok crc bt' (bt_remove key es)"
    using delete_finish [OF st1 rl(2) ro1 _ under cnt(2)] cnt(1) rem pm(1) es'
    by (simp add: delete_from_leaf_def bind_op_Inr modify_meta_def bt1_def H1_def)
  then show ?thesis using l(7) by (auto simp: tree_delete_def)
qed

end

end
