(* ===== verification/Btree_Range.thy ===== *)
theory Btree_Range
  imports Btree_Delete
begin

text \<open>
  Cursors: walking the chain of leaves yields the entries of the tree in key order, so a range scan
  returns the entries whose keys lie in the range.
\<close>

section \<open>The chain of leaves\<close>

definition leaf_es :: "('k, 'c) nodes \<Rightarrow> u32 \<Rightarrow> 'k leaf_entry list" where
  "leaf_es H p = (case H p of Some (Leaf l) \<Rightarrow> ln_entries l | _ \<Rightarrow> [])"

lemma concat_chain:
  "\<forall>s \<in> set ss. concat (map f (g s)) = h s \<Longrightarrow> concat (map f (concat (map g ss))) = concat (map h ss)"
  by (induction ss) auto

lemma chain_contents: "represents cfg H t \<Longrightarrow> concat (map (leaf_es H) (leaf_ids t)) = contents t"
proof (induction t rule: page_ids.induct)
  case (1 p es)
  then show ?case by (auto simp: leaf_es_def mk_leaf_def)
next
  case (2 p ts t)
  then show ?case using concat_chain [of "map fst ts" "leaf_es H" leaf_ids contents] by simp
qed

lemma ctx_chain_right:
  "ctx_represents cfg H ctx r \<Longrightarrow> concat (map (leaf_es H) (ctx_right leaf_ids ctx)) = ctx_right contents ctx"
proof (induction ctx arbitrary: r)
  case (Cons f ctx)
  have "\<forall>s \<in> set (right_sibs f). concat (map (leaf_es H) (leaf_ids s)) = contents s"
  proof
    fix s assume "s \<in> set (right_sibs f)"
    then have "represents cfg H s" using Cons.prems by simp
    then show "concat (map (leaf_es H) (leaf_ids s)) = contents s" by (rule chain_contents)
  qed
  from concat_chain [OF this] Cons show ?case by auto
qed simp

text \<open>What a cursor still has to return.\<close>

definition cursor_rest :: "('k, 'c) nodes \<Rightarrow> 'k btree_cursor \<Rightarrow> 'k leaf_entry list \<Rightarrow> bool" where
  "cursor_rest H cur rest \<longleftrightarrow>
     (\<exists>pv ps. linked H pv ps 0 \<and> cu_next_leaf_id cur = first_or 0 ps \<and> 0 \<notin> set ps
        \<and> rest = drop (cu_pos cur) (cu_entries cur) @ concat (map (leaf_es H) ps))"

lemma cursor_restI:
  "linked H pv ps 0 \<Longrightarrow> cu_next_leaf_id cur = first_or 0 ps \<Longrightarrow> 0 \<notin> set ps \<Longrightarrow>
     rest = drop (cu_pos cur) (cu_entries cur) @ concat (map (leaf_es H) ps) \<Longrightarrow> cursor_rest H cur rest"
  by (auto simp: cursor_rest_def)

context key_codec
begin

lemma next_entry_chain:
  assumes "store_ok K cfg key_ok crc bt H" and "linked H pv ps 0" and "0 \<notin> set ps"
    and "cu_next_leaf_id cur = first_or 0 ps"
  shows "\<exists>cur'. next_entry K crc bt cur = Some (Inr (cur',
      case drop (cu_pos cur) (cu_entries cur) @ concat (map (leaf_es H) ps) of [] \<Rightarrow> None | e # _ \<Rightarrow> Some e))
    \<and> cursor_rest H cur' (tl (drop (cu_pos cur) (cu_entries cur) @ concat (map (leaf_es H) ps)))"
  using assms(2-4)
proof (induction ps arbitrary: pv cur)
  case Nil
  show ?case
  proof (cases "cu_pos cur < length (cu_entries cur)")
    case True
    then have "drop (cu_pos cur) (cu_entries cur) = cu_entries cur ! cu_pos cur # drop (Suc (cu_pos cur)) (cu_entries cur)"
      by (simp add: Cons_nth_drop_Suc)
    then show ?thesis using True Nil
      by (subst next_entry.simps) (auto simp: cursor_rest_def intro!: exI [of _ "[]"])
  next
    case False
    then show ?thesis using Nil
      by (subst next_entry.simps) (auto simp: cursor_rest_def intro!: exI [of _ "[]"])
  qed
next
  case (Cons p ps)
  show ?case
  proof (cases "cu_pos cur < length (cu_entries cur)")
    case True
    then have "drop (cu_pos cur) (cu_entries cur) = cu_entries cur ! cu_pos cur # drop (Suc (cu_pos cur)) (cu_entries cur)"
      by (simp add: Cons_nth_drop_Suc)
    then show ?thesis using True Cons.prems
      by (subst next_entry.simps) (force simp: cursor_rest_def intro!: exI [of _ pv] exI [of _ "p # ps"])
  next
    case False
    from Cons.prems(1) obtain l where l: "H p = Some (Leaf l)" "ln_next_leaf l = first_or 0 ps" "linked H p ps 0" by auto
    define cur2 where "cur2 = cur\<lparr>cu_entries := ln_entries l, cu_pos := 0, cu_next_leaf_id := ln_next_leaf l\<rparr>"
    have "next_entry K crc bt cur = next_entry K crc bt cur2"
      using False Cons.prems l read_leaf_ok [OF assms(1) l(1)]
      by (subst next_entry.simps) (auto simp: cur2_def)
    moreover have "leaf_es H p = ln_entries l" using l(1) by (simp add: leaf_es_def)
    ultimately show ?thesis
      using Cons.IH [OF l(3), of cur2] Cons.prems(2) l(2) False by (simp add: cur2_def)
  qed
qed

lemma next_entry_ok:
  assumes "store_ok K cfg key_ok crc bt H" and "cursor_rest H cur rest"
  shows "\<exists>cur'. next_entry K crc bt cur = Some (Inr (cur', case rest of [] \<Rightarrow> None | e # _ \<Rightarrow> Some e))
    \<and> cursor_rest H cur' (tl rest)"
  using assms(2) next_entry_chain [OF assms(1)] unfolding cursor_rest_def [of H cur rest] by blast

lemma range_loop_ok:
  assumes "store_ok K cfg key_ok crc bt H" and "cursor_rest H cur rest"
  shows "range_loop K crc bt stop results cur =
    Some (Inr (results @ takeWhile (\<lambda>e. case stop of None \<Rightarrow> True | Some k \<Rightarrow> fst e < k) rest))"
  using assms(2)
proof (induction rest arbitrary: cur results)
  case Nil
  from next_entry_ok [OF assms(1) Nil] show ?case by (subst range_loop.simps) auto
next
  case (Cons e rest)
  from next_entry_ok [OF assms(1) Cons.prems] obtain cur' where
    n: "next_entry K crc bt cur = Some (Inr (cur', Some e))" "cursor_rest H cur' rest" by auto
  show ?case
    using n(1) Cons.IH [OF n(2), of "results @ [e]"]
    by (subst range_loop.simps) (auto simp: not_less split: option.splits)
qed

lemma first_leaf_ok:
  assumes "store_ok K cfg key_ok crc bt H" and "represents cfg H t"
  shows "\<exists>l. H (hd (leaf_ids t)) = Some (Leaf l) \<and> find_first_leaf_from K crc bt (root_id t) = Some (Inr l)"
  using assms(2)
proof (induction t rule: page_ids.induct)
  case (1 p es)
  then obtain pv nx where "H p = Some (Leaf (mk_leaf cfg p es pv nx))" by auto
  then show ?case
    using load_node_ok [OF assms(1)] by (auto simp: find_first_leaf_from.simps [of K crc bt p])
next
  case (2 p ts t)
  define n where "n = mk_internal cfg p (seps ts) (root_id t)"
  have p: "H p = Some (Internal n)" using 2 by (simp add: n_def)
  define s where "s = (if ts = [] then t else fst (hd ts))"
  have c: "(if in_entries n = [] then in_right_child n else snd (hd (in_entries n))) = root_id s"
    by (cases ts) (auto simp: n_def mk_internal_def s_def)
  have "\<exists>l. H (hd (leaf_ids s)) = Some (Leaf l) \<and> find_first_leaf_from K crc bt (root_id s) = Some (Inr l)"
    using 2 by (cases ts) (auto simp: s_def)
  moreover have "hd (leaf_ids (Nd p ts t)) = hd (leaf_ids s)" by (cases ts) (auto simp: s_def)
  ultimately show ?case
    using load_node_ok [OF assms(1) p] c by (simp add: find_first_leaf_from.simps [of K crc bt p])
qed

lemma cursor_first:
  assumes "tree_holds K cfg key_ok crc bt es"
  shows "\<exists>H cur. store_ok K cfg key_ok crc bt H \<and> tree_cursor K crc bt = Some (Inr cur) \<and> cursor_rest H cur es"
proof -
  from assms obtain H t where t: "store_ok K cfg key_ok crc bt H" "shape_ok cfg H t" "rooted bt t" "contents t = es"
    by (auto simp: tree_holds_def)
  have rep: "represents cfg H t" and lk: "linked H 0 (leaf_ids t) 0" using t(2) by (auto simp: shape_ok_def)
  obtain p ps where ids: "leaf_ids t = p # ps" by (cases "leaf_ids t") auto
  from first_leaf_ok [OF t(1) rep] ids obtain l where
    l: "H p = Some (Leaf l)" "find_first_leaf_from K crc bt (root_id t) = Some (Inr l)" by auto
  have nx: "ln_next_leaf l = first_or 0 ps" "linked H p ps 0" using lk ids l(1) by auto
  have "0 \<notin> set (leaf_ids t)" using linked_nonzero [OF lk store_zero [OF t(1)]] .
  moreover have "es = ln_entries l @ concat (map (leaf_es H) ps)"
    using chain_contents [OF rep] t(4) ids l(1) by (simp add: leaf_es_def)
  moreover have "bm_root_page_id (tr_meta bt) = root_id t" using t(3) by (simp add: rooted_def)
  ultimately show ?thesis
    using t(1) l(2) nx ids
    by (intro exI [of _ H] exI [of _ "\<lparr>cu_entries = ln_entries l, cu_pos = 0, cu_next_leaf_id = ln_next_leaf l\<rparr>"])
      (auto simp: tree_cursor_def cursor_rest_def)
qed

lemma drop_partition_point:
  assumes "bt_ok es"
  shows "drop (partition_point (\<lambda>e. fst e < k) es) es = filter (\<lambda>e. k \<le> fst e) es"
  using assms
proof (induction es)
  case (Cons e es)
  then show ?case
    by (cases e) (auto simp: partition_point_def filter_id_conv intro: filter_True [symmetric] less_imp_le le_less_trans)
qed (simp add: partition_point_def)

lemma cursor_from_ok:
  assumes "tree_holds K cfg key_ok crc bt es"
  shows "\<exists>H cur. store_ok K cfg key_ok crc bt H \<and> tree_cursor_from K crc k bt = Some (Inr cur)
    \<and> cursor_rest H cur (filter (\<lambda>e. k \<le> fst e) es)"
proof -
  from holds_leaf [OF assms, of k] obtain H ctx p ls pv nx where
    l: "store_ok K cfg key_ok crc bt H" "shape_ok cfg H (plug ctx (Lf p ls))" "H p = Some (Leaf (mk_leaf cfg p ls pv nx))"
      "find_leaf K crc k bt = Some (Inr (mk_leaf cfg p ls pv nx))" "key_in k ctx" "ordered None None (plug ctx (Lf p ls))"
      "bt_ok ls" "contents (plug ctx (Lf p ls)) = es" by blast
  note s = l(2) [unfolded shape_plug]
  have lk: "linked H 0 (ctx_left leaf_ids ctx @ p # ctx_right leaf_ids ctx) 0" using s by simp
  have nx: "nx = first_or 0 (ctx_right leaf_ids ctx)" "linked H p (ctx_right leaf_ids ctx) 0"
    using linked_leaf(2,4) [OF lk l(3)] by (simp_all add: mk_leaf_def)
  have z: "0 \<notin> set (ctx_right leaf_ids ctx)"
    using linked_nonzero [OF nx(2) store_zero [OF l(1)]] .
  note ks = key_sides [OF l(5,6)]
  have "filter (\<lambda>e. k \<le> fst e) es = filter (\<lambda>e. k \<le> fst e) ls @ ctx_right contents ctx"
  proof -
    have "filter (\<lambda>e. k \<le> fst e) (ctx_left contents ctx) = []" using ks(1) by (auto simp: filter_empty_conv)
    moreover have "filter (\<lambda>e. k \<le> fst e) (ctx_right contents ctx) = ctx_right contents ctx"
      using ks(2) by (auto simp: filter_id_conv)
    ultimately show ?thesis using l(8) by (auto simp: contents_plug)
  qed
  moreover have "concat (map (leaf_es H) (ctx_right leaf_ids ctx)) = ctx_right contents ctx"
    using s by (intro ctx_chain_right) blast
  ultimately have "cursor_rest H \<lparr>cu_entries = ls, cu_pos = partition_point (\<lambda>e. fst e < k) ls, cu_next_leaf_id = nx\<rparr>
      (filter (\<lambda>e. k \<le> fst e) es)"
    using nx(1) drop_partition_point [OF l(7), of k] by (intro cursor_restI [OF nx(2) _ z]) simp_all
  then show ?thesis
    using l(1,4) by (auto simp: tree_cursor_from_def mk_leaf_def unwrap_binary_search)
qed

lemma takeWhile_filter_sorted:
  assumes "bt_ok es"
  shows "takeWhile (\<lambda>e. fst e < k) es = filter (\<lambda>e. fst e < k) es"
  using assms
proof (induction es)
  case (Cons e es)
  show ?case
  proof (cases "fst e < k")
    case False
    then have "\<forall>x \<in> set es. \<not> fst x < k" using Cons.prems by (cases e) force
    then show ?thesis using False by (simp add: filter_False)
  qed (use Cons in \<open>cases e; simp\<close>)
qed simp

lemma range_ok:
  assumes "tree_holds K cfg key_ok crc bt es"
  shows "tree_range K crc start stop bt = Some (Inr (filter (\<lambda>e.
    (case start of None \<Rightarrow> True | Some k \<Rightarrow> k \<le> fst e) \<and> (case stop of None \<Rightarrow> True | Some k \<Rightarrow> fst e < k)) es))"
proof -
  define es' where "es' = filter (\<lambda>e. case start of None \<Rightarrow> True | Some k \<Rightarrow> k \<le> fst e) es"
  have "\<exists>H cur. store_ok K cfg key_ok crc bt H
    \<and> (case start of Some k \<Rightarrow> tree_cursor_from K crc k bt | None \<Rightarrow> tree_cursor K crc bt) = Some (Inr cur)
    \<and> cursor_rest H cur es'"
    using cursor_first [OF assms] cursor_from_ok [OF assms] by (cases start) (simp_all add: es'_def)
  then have r: "tree_range K crc start stop bt =
      Some (Inr (takeWhile (\<lambda>e. case stop of None \<Rightarrow> True | Some k \<Rightarrow> fst e < k) es'))"
    using range_loop_ok by (auto simp: tree_range_def)
  have "bt_ok es'"
    using tree_holds_sorted [OF assms] unfolding es'_def bt_ok_def by (induction es) auto
  then have "takeWhile (\<lambda>e. case stop of None \<Rightarrow> True | Some k \<Rightarrow> fst e < k) es'
      = filter (\<lambda>e. case stop of None \<Rightarrow> True | Some k \<Rightarrow> fst e < k) es'"
    by (cases stop) (simp_all add: takeWhile_filter_sorted)
  with r show ?thesis by (simp add: es'_def conj_commute)
qed

section \<open>Creating and opening a tree\<close>

lemma open_ok:
  assumes "tree_holds K cfg key_ok crc bt es"
  shows "tree_open K crc (pm_file (tr_pm bt)) = Inr bt"
proof -
  from assms obtain H where st: "store_ok K cfg key_ok crc bt H" and m: "meta_stored K crc bt" "tr_meta_page_id bt = META_PAGE_ID"
    by (auto simp: tree_holds_def)
  have v: "pm_valid crc (tr_pm bt)" using store_okD(1) [OF st] by (simp add: pm_ok_def)
  then have "unat (pm_num_pages (tr_pm bt)) > 0" by (simp add: pm_valid_def word_less_nat_alt)
  then have "pm_open (pm_file (tr_pm bt)) = tr_pm bt"
    using v by (auto simp: pm_open_def pm_valid_def page_consts)
  moreover have "read_page crc META_PAGE_ID (tr_pm bt) = Inr (pm_page (tr_pm bt) META_PAGE_ID)"
    using pm_device.rd_used [OF store_okD(1) [OF st] store_okD(3) [OF st]] m(2) by simp
  ultimately show ?thesis
    using m by (simp add: tree_open_def meta_stored_def)
qed

lemma create_ok:
  "\<exists>bt. tree_create_with K crc cfg [] = (tr_pm bt, Inr bt) \<and> tree_holds K cfg key_ok crc bt []
     \<and> bm_height (tr_meta bt) = 1 \<and> pm_room (tr_pm bt) = 2 ^ 32 - 4"
proof -
  note new = pm_ok_new [of crc]
  have "pm_num_pages (pm_open []) = 1" by (simp add: pm_open_def)
  with allocate_extend [of crc "pm_open []"] new have one: "\<exists>pm. allocate_page crc (pm_open []) = (pm, Inr 1)" by auto
  from pm_device.alloc_new [of crc "pm_open []"] new one obtain pm1 where
    a1: "allocate_page crc (pm_open []) = (pm1, Inr 1)" "pm_ok crc pm1" "pm_used pm1 = {1}" "pm_room pm1 = 2 ^ 32 - 3" by auto
  from pm_device.alloc_new [OF a1(2)] a1(3,4) obtain pm2 r where
    a2: "allocate_page crc pm1 = (pm2, Inr r)" "pm_ok crc pm2" "r \<noteq> 1" "pm_used pm2 = {r, 1}" "pm_room pm2 = 2 ^ 32 - 4" by auto
  define meta where "meta = \<lparr>bm_root_page_id = r, bm_height = 1, bm_num_entries = 0, bm_config = cfg\<rparr>"
  define bt0 where "bt0 = \<lparr>tr_meta_page_id = 1, tr_pm = pm2, tr_meta = meta\<rparr>"
  define root where "root = (mk_leaf cfg r [] 0 0 :: ('k, 'c) leaf_node)"
  have st0: "store_ok K cfg key_ok crc bt0 Map.empty" using a2 by (simp add: store_ok_def bt0_def meta_def)
  have nk: "node_ok K cfg key_ok r (Leaf root)" by (simp add: root_def mk_leaf_def)
  have "r \<in> pm_used (tr_pm bt0)" "r \<noteq> tr_meta_page_id bt0" using a2 by (auto simp: bt0_def)
  from write_node_ok [OF st0 nk this] obtain buf pm3 where
    w: "leaf_to_bytes K root = Inr buf" "write_page crc r buf pm2 = (pm3, Inr ())"
      "store_ok K cfg key_ok crc (with_pm bt0 pm3) [r \<mapsto> Leaf root]" "pm_room pm3 = 2 ^ 32 - 4"
    using a2(5) by (auto simp: node_bytes_def bt0_def)
  from flush_meta_ok [OF w(3)] obtain pm4 where
    f: "flush_meta K crc (with_pm bt0 pm3) = (with_pm bt0 pm4, Inr ())" "store_ok K cfg key_ok crc (with_pm bt0 pm4) [r \<mapsto> Leaf root]"
      "meta_stored K crc (with_pm bt0 pm4)" "pm_room pm4 = 2 ^ 32 - 4" using w(4) by auto
  have fm: "write_page crc 1 (write_meta_to_buf K meta (header_write_to (header_new 1 BTreeInternal) zero_page)) pm3 = (pm4, Inr ())"
    using f(1) by (auto simp: flush_meta_def on_pm_def bt0_def Let_def split: prod.splits)
  have "tree_create_with K crc cfg [] = (pm4, Inr (with_pm bt0 pm4))"
    using a1(1) a2(1) w(1,2) fm
    by (simp add: tree_create_with_def bind_op_Inr bind_pure_op leaf_new_def root_def mk_leaf_def meta_def [symmetric] bt0_def Let_def)
  moreover have "tree_holds K cfg key_ok crc (with_pm bt0 pm4) []"
  proof -
    have "shape_ok cfg [r \<mapsto> Leaf root] (Lf r [])"
      by (auto simp: shape_ok_def root_def mk_leaf_def)
    moreover have "rooted (with_pm bt0 pm4) (Lf r [])" by (rule rootedI [of _ _ 1]) (simp_all add: bt0_def meta_def)
    ultimately show ?thesis
      unfolding tree_holds_def using f(2,3) by (fastforce simp: bt0_def meta_def META_PAGE_ID_def)
  qed
  ultimately show ?thesis
    using f(4) by (intro exI [of _ "with_pm bt0 pm4"]) (simp add: bt0_def meta_def)
qed

end

end
