(* ===== verification/Btree_Index.thy ===== *)
theory Btree_Index
  imports Btree_Remove Btree_Range
begin

text \<open>
  The contract of an index and the proof that the B+tree keeps it, for the document ids of the primary
  index and for the byte strings of the secondary indexes: a run of calls on a tree answers as the same
  run on the sorted list of its entries.
\<close>

section \<open>Calls\<close>

datatype 'k tree_call =
    TInsert 'k u32 u16
  | TDelete 'k
  | TSearch 'k
  | TRange "'k option" "'k option"

datatype 'k tree_reply =
    TDone
  | TFailed grumpy_error
  | TPanicked
  | TFound "(u32 \<times> u16) option"
  | TEntries "'k leaf_entry list"

definition unit_reply :: "unit result \<Rightarrow> 'k tree_reply" where
  "unit_reply r = (case r of Inr _ \<Rightarrow> TDone | Inl (Err e) \<Rightarrow> TFailed e | Inl Panic \<Rightarrow> TPanicked)"

definition value_reply :: "('a \<Rightarrow> 'k tree_reply) \<Rightarrow> 'a result \<Rightarrow> 'k tree_reply" where
  "value_reply f r = (case r of Inr x \<Rightarrow> f x | Inl (Err e) \<Rightarrow> TFailed e | Inl Panic \<Rightarrow> TPanicked)"

fun tree_step :: "('k::linorder, 'c) key_ops \<Rightarrow> (bytes \<Rightarrow> u32) \<Rightarrow> 'k tree_call \<Rightarrow> 'c btree
  \<Rightarrow> ('c btree \<times> 'k tree_reply) option" where
  "tree_step K crc (TInsert k p s) bt = map_option (map_prod id unit_reply) (tree_insert K crc k p s bt)"
| "tree_step K crc (TDelete k) bt = map_option (map_prod id unit_reply) (tree_delete K crc k bt)"
| "tree_step K crc (TSearch k) bt = map_option (\<lambda>r. (bt, value_reply TFound r)) (tree_search K crc k bt)"
| "tree_step K crc (TRange a b) bt = map_option (\<lambda>r. (bt, value_reply TEntries r)) (tree_range K crc a b bt)"

text \<open>The same call on the sorted list of entries.\<close>

definition in_range :: "'k::linorder option \<Rightarrow> 'k option \<Rightarrow> 'k \<Rightarrow> bool" where
  "in_range a b k \<longleftrightarrow> (case a of None \<Rightarrow> True | Some l \<Rightarrow> l \<le> k) \<and> (case b of None \<Rightarrow> True | Some u \<Rightarrow> k < u)"

fun map_step :: "('k \<Rightarrow> grumpy_error) \<Rightarrow> ('k \<Rightarrow> grumpy_error) \<Rightarrow> 'k::linorder tree_call \<Rightarrow> 'k leaf_entry list
  \<Rightarrow> 'k leaf_entry list \<times> 'k tree_reply" where
  "map_step dup missing (TInsert k p s) m =
     (if bt_get m k = None then (bt_insert k (p, s) m, TDone) else (m, TFailed (dup k)))"
| "map_step dup missing (TDelete k) m =
     (if bt_get m k = None then (m, TFailed (missing k)) else (bt_remove k m, TDone))"
| "map_step dup missing (TSearch k) m = (m, TFound (bt_get m k))"
| "map_step dup missing (TRange a b) m = (m, TEntries (filter (\<lambda>e. in_range a b (fst e)) m))"

text \<open>Runs of calls. An insertion may need a page for every level of the tree and one for a new root.\<close>

fun run_calls :: "('c \<Rightarrow> 's \<Rightarrow> ('s \<times> 'r) option) \<Rightarrow> 'c list \<Rightarrow> 's \<Rightarrow> ('s \<times> 'r list) option" where
  "run_calls step [] s = Some (s, [])"
| "run_calls step (c # cs) s =
     (case step c s of None \<Rightarrow> None
      | Some (s', r) \<Rightarrow> map_option (map_prod id ((#) r)) (run_calls step cs s'))"

fun map_calls :: "('c \<Rightarrow> 's \<Rightarrow> 's \<times> 'r) \<Rightarrow> 'c list \<Rightarrow> 's \<Rightarrow> 's \<times> 'r list" where
  "map_calls step [] s = (s, [])"
| "map_calls step (c # cs) s = (case step c s of (s', r) \<Rightarrow> map_prod id ((#) r) (map_calls step cs s'))"

definition has_room :: "'c btree \<Rightarrow> bool" where
  "has_room bt \<longleftrightarrow> unat (bm_height (tr_meta bt)) < pm_room (tr_pm bt)"

fun call_ready :: "('k \<Rightarrow> bool) \<Rightarrow> ('s \<Rightarrow> bool) \<Rightarrow> 'k tree_call \<Rightarrow> 's \<Rightarrow> bool" where
  "call_ready key_ok room (TInsert k p sl) s \<longleftrightarrow> key_ok k \<and> room s"
| "call_ready key_ok room c s \<longleftrightarrow> True"

fun calls_ready :: "('c \<Rightarrow> 's \<Rightarrow> bool) \<Rightarrow> ('c \<Rightarrow> 's \<Rightarrow> ('s \<times> 'r) option) \<Rightarrow> 'c list \<Rightarrow> 's \<Rightarrow> bool" where
  "calls_ready rdy step [] s \<longleftrightarrow> True"
| "calls_ready rdy step (c # cs) s \<longleftrightarrow>
     rdy c s \<and> (case step c s of None \<Rightarrow> True | Some (s', r) \<Rightarrow> calls_ready rdy step cs s')"

section \<open>The contract\<close>

locale call_refinement =
  fixes abs :: "'s \<Rightarrow> 'm \<Rightarrow> bool"
    and rdy :: "'c \<Rightarrow> 's \<Rightarrow> bool"
    and step :: "'c \<Rightarrow> 's \<Rightarrow> ('s \<times> 'r) option"
    and spec :: "'c \<Rightarrow> 'm \<Rightarrow> 'm \<times> 'r"
  assumes step_ok: "abs s m \<Longrightarrow> rdy c s \<Longrightarrow> \<exists>s'. step c s = Some (s', snd (spec c m)) \<and> abs s' (fst (spec c m))"
begin

lemma run_ok:
  assumes "abs s m" and "calls_ready rdy step cs s"
  shows "\<exists>s'. run_calls step cs s = Some (s', snd (map_calls spec cs m)) \<and> abs s' (fst (map_calls spec cs m))"
  using assms
proof (induction cs arbitrary: s m)
  case (Cons c cs)
  from step_ok [OF Cons.prems(1), of c] Cons.prems(2) obtain s1 where
    s1: "step c s = Some (s1, snd (spec c m))" "abs s1 (fst (spec c m))" by auto
  from Cons.IH [OF s1(2)] Cons.prems(2) s1(1) obtain s2 where
    "run_calls step cs s1 = Some (s2, snd (map_calls spec cs (fst (spec c m))))"
    "abs s2 (fst (map_calls spec cs (fst (spec c m))))" by auto
  then show ?case using s1(1) by (simp add: split_beta)
qed simp

end

context key_codec
begin

lemma tree_step_ok:
  assumes "tree_holds K cfg key_ok crc bt m" and "call_ready key_ok has_room c bt"
  shows "\<exists>bt'. tree_step K crc c bt = Some (bt', snd (map_step (duplicate_key_error K) (key_not_found_error K) c m))
    \<and> tree_holds K cfg key_ok crc bt' (fst (map_step (duplicate_key_error K) (key_not_found_error K) c m))"
proof (cases c)
  case (TInsert k p s)
  show ?thesis
  proof (cases "bt_get m k = None")
    case True
    then have "k \<notin> fst ` set m" by (simp add: map_of_eq_None_iff)
    from insert_new_ok [OF assms(1) _ this, of p s] assms(2) TInsert obtain bt' where
      "tree_insert K crc k p s bt = Some (bt', Inr ())" "tree_holds K cfg key_ok crc bt' (bt_insert k (p, s) m)"
      by (auto simp: has_room_def)
    then show ?thesis using TInsert True by (simp add: unit_reply_def)
  next
    case False
    then have "k \<in> fst ` set m" by (simp add: map_of_eq_None_iff)
    from insert_duplicate [OF assms(1) this] TInsert False assms(1) show ?thesis by (simp add: unit_reply_def)
  qed
next
  case (TDelete k)
  show ?thesis
  proof (cases "bt_get m k = None")
    case True
    then have "k \<notin> fst ` set m" by (simp add: map_of_eq_None_iff)
    from delete_missing [OF assms(1) this] TDelete True assms(1) show ?thesis by (simp add: unit_reply_def)
  next
    case False
    then have "k \<in> fst ` set m" by (simp add: map_of_eq_None_iff)
    from delete_found [OF assms(1) this] obtain bt' where
      "tree_delete K crc k bt = Some (bt', Inr ())" "tree_holds K cfg key_ok crc bt' (bt_remove k m)" by blast
    then show ?thesis using TDelete False by (simp add: unit_reply_def)
  qed
next
  case (TSearch k)
  then show ?thesis using search_ok [OF assms(1), of k] assms(1) by (simp add: value_reply_def)
next
  case (TRange a b)
  then show ?thesis using range_ok [OF assms(1), of a b] assms(1) by (simp add: value_reply_def in_range_def)
qed

end

sublocale key_codec \<subseteq> calls: call_refinement "tree_holds K cfg key_ok crc" "call_ready key_ok has_room" "tree_step K crc"
  "map_step (duplicate_key_error K) (key_not_found_error K)" for crc
  by unfold_locales (rule tree_step_ok)

context key_codec
begin

lemma tree_lifecycle:
  "\<exists>bt. tree_create_with K crc cfg [] = (tr_pm bt, Inr bt) \<and> has_room bt
    \<and> (\<forall>cs. calls_ready (call_ready key_ok has_room) (tree_step K crc) cs bt \<longrightarrow>
        (case map_calls (map_step (duplicate_key_error K) (key_not_found_error K)) cs [] of (m, rs) \<Rightarrow>
           \<exists>bt'. run_calls (tree_step K crc) cs bt = Some (bt', rs) \<and> tree_holds K cfg key_ok crc bt' m
             \<and> tree_open K crc (pm_file (tr_pm bt')) = Inr bt'))"
proof -
  from create_ok [of crc] obtain bt where
    bt: "tree_create_with K crc cfg [] = (tr_pm bt, Inr bt)" "tree_holds K cfg key_ok crc bt []"
      "bm_height (tr_meta bt) = 1" "pm_room (tr_pm bt) = 2 ^ 32 - 4" by blast
  have "has_room bt" using bt(3,4) by (simp add: has_room_def)
  then show ?thesis using bt(1) open_ok calls.run_ok [OF bt(2)] unfolding split_beta by blast
qed

end

context var_config
begin

lemma node_bounds:
  "leaf_entries_start var_key + leaf_max_entries var_key cfg * (slot_key_size var_key cfg + DATA_PTR_SIZE) \<le> PAGE_SIZE"
  "internal_entries_start var_key + internal_max_keys var_key cfg * (slot_key_size var_key cfg + CHILD_PTR_SIZE) \<le> PAGE_SIZE"
  "leaf_max_entries var_key cfg < 2 ^ 16" "internal_max_keys var_key cfg < 2 ^ 16"
  "2 * leaf_min_entries var_key cfg \<le> leaf_max_entries var_key cfg"
  "2 * internal_min_keys var_key cfg \<le> internal_max_keys var_key cfg"
  "10 \<le> leaf_max_entries var_key cfg" "10 \<le> internal_max_keys var_key cfg"
  using leaf_fits [of "leaf_max_entries var_key cfg"] internal_fits [of "internal_max_keys var_key cfg"]
    capacities min_keys by (simp_all add: node_consts)

end

section \<open>Properties\<close>

text \<open>
  C20. The primary index. Creating an index on a new file succeeds, and from then on any sequence of
  insertions, deletions, searches and range scans by document id, as long as the file can still grow by
  a page per level when an insertion starts, gives exactly the answers of a sorted map: insertion of a
  present id is refused as a duplicate, deletion of an absent one as not found, a search returns the
  stored location and a scan the entries with start <= key < end in order. No call panics or loops, the
  stored number of entries is the size of the map (mod 2^64), and opening the file again at any time gives
  back the same tree.
\<close>

theorem primary_index_correct:
  "\<exists>bt. tree_create_with uuid_key crc () [] = (tr_pm bt, Inr bt) \<and> has_room bt
    \<and> (\<forall>cs. calls_ready (call_ready (\<lambda>_. True) has_room) (tree_step uuid_key crc) cs bt \<longrightarrow>
        (case map_calls (map_step DuplicateKey KeyNotFound) cs [] of (m, rs) \<Rightarrow>
           \<exists>bt'. run_calls (tree_step uuid_key crc) cs bt = Some (bt', rs)
             \<and> bm_num_entries (tr_meta bt') = word_of_nat (length m)
             \<and> tree_open uuid_key crc (pm_file (tr_pm bt')) = Inr bt'))"
proof -
  have e: "duplicate_key_error uuid_key = DuplicateKey" "key_not_found_error uuid_key = KeyNotFound"
    by (simp_all add: uuid_key_def)
  show ?thesis
    using uuid_keys.tree_lifecycle [of crc] unfolding e split_beta tree_holds_def by blast
qed

theorem primary_index_correct_witness:
  "\<exists>bt bt'. tree_create_with uuid_key (\<lambda>_. 5) () [] = (tr_pm bt, Inr bt)
     \<and> run_calls (tree_step uuid_key (\<lambda>_. 5)) [TInsert 7 3 1, TDelete 9, TSearch 7, TRange None (Some 7)] bt
       = Some (bt', [TDone, TFailed (KeyNotFound 9), TFound (Some (3, 1)), TEntries []])
     \<and> tree_open uuid_key (\<lambda>_. 5) (pm_file (tr_pm bt')) = Inr bt'"
proof -
  define cs where "cs = [TInsert (7 :: uuid) 3 1, TDelete 9, TSearch 7, TRange None (Some 7)]"
  have r: "calls_ready (call_ready (\<lambda>_. True) has_room) (tree_step uuid_key (\<lambda>_. 5)) cs bt" if "has_room bt" for bt
    using that by (simp add: cs_def split: option.split prod.split)
  have "map_calls (map_step DuplicateKey KeyNotFound) cs [] =
      ([(7, 3, 1)], [TDone, TFailed (KeyNotFound 9), TFound (Some (3, 1)), TEntries []])"
    by (simp add: cs_def in_range_def)
  then show ?thesis
    using primary_index_correct [of "\<lambda>_. 5"] r unfolding cs_def by fastforce
qed

text \<open>
  C21. Indexes over byte strings. The same holds of the trees behind the secondary indexes, whose keys are
  byte strings in lexicographic order of at most the configured 160 bytes.
\<close>

theorem byte_index_correct:
  "\<exists>bt. tree_create_with var_key crc INDEX_MAX_KEY_SIZE [] = (tr_pm bt, Inr bt) \<and> has_room bt
    \<and> (\<forall>cs. calls_ready (call_ready (\<lambda>k. length k \<le> unat INDEX_MAX_KEY_SIZE) has_room) (tree_step var_key crc) cs bt \<longrightarrow>
        (case map_calls (map_step (duplicate_key_error var_key) (key_not_found_error var_key)) cs [] of (m, rs) \<Rightarrow>
           \<exists>bt'. run_calls (tree_step var_key crc) cs bt = Some (bt', rs)
             \<and> bm_num_entries (tr_meta bt') = word_of_nat (length m)
             \<and> tree_open var_key crc (pm_file (tr_pm bt')) = Inr bt'))"
  using index_keys.tree_lifecycle [of crc] unfolding split_beta tree_holds_def by blast

theorem byte_index_correct_witness:
  "\<exists>bt bt'. tree_create_with var_key (\<lambda>_. 5) INDEX_MAX_KEY_SIZE [] = (tr_pm bt, Inr bt)
     \<and> run_calls (tree_step var_key (\<lambda>_. 5)) [TInsert [1, 2] 3 1, TSearch [1], TRange (Some [1]) None] bt
       = Some (bt', [TDone, TFound None, TEntries [([1, 2], 3, 1)]])"
proof -
  define cs where "cs = [TInsert ([1, 2] :: bytes) 3 1, TSearch [1], TRange (Some [1]) None]"
  have r: "calls_ready (call_ready (\<lambda>k. length k \<le> unat INDEX_MAX_KEY_SIZE) has_room) (tree_step var_key (\<lambda>_. 5)) cs bt"
    if "has_room bt" for bt
    using that by (simp add: cs_def INDEX_MAX_KEY_SIZE_def split: option.split prod.split)
  have "map_calls (map_step (duplicate_key_error var_key) (key_not_found_error var_key)) cs [] =
      ([([1, 2], 3, 1)], [TDone, TFound None, TEntries [([1, 2], 3, 1)]])"
    by (simp add: cs_def in_range_def)
  then show ?thesis
    using byte_index_correct [of "\<lambda>_. 5"] r unfolding cs_def by fastforce
qed

text \<open>
  Node capacities. For every key size the tree can be configured with, a node with the maximum number
  of entries fits in its page, its entry count fits the 16-bit field, and the capacity is large enough
  that two nodes below the minimum occupancy merge into one that is not overfull and the halves of a
  split node are not empty.
\<close>

theorem node_capacity_bounds:
  assumes "unat cfg \<le> VAR_KEY_MAX_SIZE"
  shows "leaf_entries_start var_key + leaf_max_entries var_key cfg * (slot_key_size var_key cfg + DATA_PTR_SIZE) \<le> PAGE_SIZE
    \<and> internal_entries_start var_key + internal_max_keys var_key cfg * (slot_key_size var_key cfg + CHILD_PTR_SIZE) \<le> PAGE_SIZE
    \<and> leaf_max_entries var_key cfg < 2 ^ 16 \<and> internal_max_keys var_key cfg < 2 ^ 16
    \<and> 2 * leaf_min_entries var_key cfg \<le> leaf_max_entries var_key cfg
    \<and> 2 * internal_min_keys var_key cfg \<le> internal_max_keys var_key cfg
    \<and> 10 \<le> leaf_max_entries var_key cfg \<and> 10 \<le> internal_max_keys var_key cfg"
proof -
  have "var_config cfg" using assms by unfold_locales
  from var_config.node_bounds [OF this] show ?thesis by simp
qed

theorem node_capacity_bounds_witness:
  "leaf_max_entries var_key INDEX_MAX_KEY_SIZE < 2 ^ 16 \<and> 10 \<le> leaf_max_entries var_key INDEX_MAX_KEY_SIZE"
  using node_capacity_bounds [of INDEX_MAX_KEY_SIZE] by (simp add: INDEX_MAX_KEY_SIZE_def VAR_KEY_MAX_SIZE_def)

end
