(* ===== verification/Secondary_Index.thy ===== *)
theory Secondary_Index
  imports Sortable_Key Btree_Index
begin

text \<open>
  The secondary indexes of \<^verbatim>\<open>src/src/index/mod.rs\<close>: a B+tree over byte strings whose keys are the
  sortable encoding of a field followed by the id of its document. The tree starts in an empty file;
  removing and recreating the file, as a rebuild does, gives the empty file again.
\<close>

record index_definition =
  id_name :: bytes
  id_field_path :: bytes

record secondary_index =
  si_def :: index_definition
  si_btree :: "u16 btree"

definition si_create :: "(bytes \<Rightarrow> u32) \<Rightarrow> bytes \<Rightarrow> index_definition \<Rightarrow> secondary_index result" where
  "si_create crc f d =
     bind_res (snd (tree_create_with var_key crc INDEX_MAX_KEY_SIZE f)) (\<lambda>bt.
       Inr \<lparr>si_def = d, si_btree = bt\<rparr>)"

definition si_open :: "(bytes \<Rightarrow> u32) \<Rightarrow> bytes \<Rightarrow> index_definition \<Rightarrow> secondary_index result" where
  "si_open crc f d =
     bind_res (tree_open var_key crc f) (\<lambda>bt. Inr \<lparr>si_def = d, si_btree = bt\<rparr>)"

abbreviation on_btree :: "(u16 btree, 'a) call \<Rightarrow> (secondary_index, 'a) call" where
  "on_btree \<equiv> zoom si_btree (\<lambda>bt si. si\<lparr>si_btree := bt\<rparr>)"

definition index_document :: "(bytes \<Rightarrow> u32) \<Rightarrow> uuid \<Rightarrow> grumpy_value \<Rightarrow> (secondary_index, unit) call" where
  "index_document crc u doc si =
     (case extract_field doc (id_field_path (si_def si)) of
        None \<Rightarrow> Some (si, Inr ())
      | Some field_val \<Rightarrow>
          bind_call (result_call (encode_composite_key field_val u)) (\<lambda>key.
            on_btree (tree_insert var_key crc key 0 0)) si)"

text \<open>The outcome of the deletion is ignored: the key may be absent.\<close>

definition unindex_document :: "(bytes \<Rightarrow> u32) \<Rightarrow> uuid \<Rightarrow> grumpy_value \<Rightarrow> (secondary_index, unit) call" where
  "unindex_document crc u doc si =
     (case extract_field doc (id_field_path (si_def si)) of
        None \<Rightarrow> Some (si, Inr ())
      | Some field_val \<Rightarrow>
          bind_call (result_call (encode_composite_key field_val u)) (\<lambda>key si.
            case on_btree (tree_delete var_key crc key) si of
              None \<Rightarrow> None
            | Some (si, Inl Panic) \<Rightarrow> Some (si, Inl Panic)
            | Some (si, _) \<Rightarrow> Some (si, Inr ())) si)"

definition extract_uuid_from_composite :: "bytes \<Rightarrow> uuid option" where
  "extract_uuid_from_composite k =
     (if length k < 16 then None else Some (of_be (drop (length k - 16) k)))"

text \<open>The loop of \<^verbatim>\<open>increment_bytes\<close> runs over the bytes from the last to the first.\<close>

fun increment_rev :: "bytes \<Rightarrow> bytes option" where
  "increment_rev [] = None"
| "increment_rev (b # bs) =
     (if b < 0xFF then Some ((b + 1) # bs) else map_option ((#) 0) (increment_rev bs))"

definition increment_bytes :: "bytes \<Rightarrow> bytes" where
  "increment_bytes bs =
     (case increment_rev (rev bs) of
        Some r \<Rightarrow> rev r
      | None \<Rightarrow> 1 # replicate (length bs) 0 @ [0])"

definition ids_between :: "(bytes \<Rightarrow> u32) \<Rightarrow> bytes \<Rightarrow> bytes \<Rightarrow> secondary_index \<Rightarrow> uuid list result option" where
  "ids_between crc start_key end_key si =
     map_option (\<lambda>r. bind_res r (\<lambda>entries. Inr (List.map_filter (\<lambda>e. extract_uuid_from_composite (fst e)) entries)))
       (tree_range var_key crc (Some start_key) (Some end_key) (si_btree si))"

definition si_lookup :: "(bytes \<Rightarrow> u32) \<Rightarrow> grumpy_value \<Rightarrow> secondary_index \<Rightarrow> uuid list result option" where
  "si_lookup crc v si =
     (case encode_sortable_value v of
        Inl e \<Rightarrow> Some (Inl e)
      | Inr p \<Rightarrow> ids_between crc (p @ to_be (0 :: uuid)) (increment_bytes p) si)"

definition si_range_query :: "(bytes \<Rightarrow> u32) \<Rightarrow> grumpy_value \<Rightarrow> grumpy_value \<Rightarrow> secondary_index \<Rightarrow> uuid list result option" where
  "si_range_query crc start stop si =
     (case encode_sortable_value start of
        Inl e \<Rightarrow> Some (Inl e)
      | Inr s \<Rightarrow>
          (case encode_sortable_value stop of
             Inl e \<Rightarrow> Some (Inl e)
           | Inr t \<Rightarrow> ids_between crc (s @ to_be (0 :: uuid)) (t @ to_be (0 :: uuid)) si))"

definition si_count :: "secondary_index \<Rightarrow> u64" where
  "si_count si = bm_num_entries (tr_meta (si_btree si))"

definition si_rebuild :: "(bytes \<Rightarrow> u32) \<Rightarrow> (uuid \<times> grumpy_value) list \<Rightarrow> (secondary_index, unit) call" where
  "si_rebuild crc docs si =
     (case snd (tree_create_with var_key crc INDEX_MAX_KEY_SIZE []) of
        Inl e \<Rightarrow> Some (si, Inl e)
      | Inr bt \<Rightarrow> for_each (\<lambda>(u, doc). index_document crc u doc) docs (si\<lparr>si_btree := bt\<rparr>))"

section \<open>Search bounds\<close>

lemma byte_max: "b < 0xFF \<or> b = (0xFF :: byte)"
proof -
  have "unat b < 256" using unsigned_less [of b] by simp
  then show ?thesis by (auto simp: word_less_nat_alt word_unat_eq_iff)
qed

lemma increment_rev_Some:
  "increment_rev bs = Some r \<Longrightarrow> length r = length bs \<and> le_nat r = Suc (le_nat bs)"
proof (induction bs arbitrary: r)
  case (Cons b bs)
  show ?case
  proof (cases "b < 0xFF")
    case True
    then have "unat (b + 1) = Suc (unat b)"
      by (simp add: word_less_nat_alt unat_word_ariths)
    with True Cons show ?thesis by auto
  next
    case False
    then have "b = 0xFF" using byte_max [of b] by simp
    with False Cons show ?thesis by auto
  qed
qed simp

lemma increment_rev_None: "increment_rev bs = None \<Longrightarrow> \<forall>b \<in> set bs. b = 0xFF"
proof (induction bs)
  case (Cons b bs)
  then show ?case using byte_max [of b] by (auto split: if_splits)
qed simp

lemma increment_bytes_bound:
  assumes "\<exists>b \<in> set p. b \<noteq> 0xFF" and "length p \<le> length k"
  shows "k < increment_bytes p \<longleftrightarrow> take (length p) k \<le> p"
proof -
  from assms(1) obtain r where r: "increment_rev (rev p) = Some r"
    using increment_rev_None [of "rev p"] by (cases "increment_rev (rev p)") auto
  then have inc: "increment_bytes p = rev r" "length r = length p" "le_nat r = Suc (le_nat (rev p))"
    using increment_rev_Some [OF r] by (simp_all add: increment_bytes_def)
  define h where "h = take (length p) k"
  have h: "length h = length p" "k = h @ drop (length p) k" using assms(2) by (simp_all add: h_def)
  have "k < rev r \<longleftrightarrow> h < rev r"
    using lex_append [of h "rev r" "drop (length p) k" "[]"] h inc(2) by simp
  also have "\<dots> \<longleftrightarrow> \<not> p < h" using h(1) inc by (simp add: lex_nat not_less less_Suc_eq_le)
  finally show ?thesis by (simp add: inc(1) h_def not_less)
qed

section \<open>Entries of an index\<close>

abbreviation composite :: "bytes \<times> uuid \<Rightarrow> bytes" where
  "composite e \<equiv> fst e @ to_be (snd e)"

lemma composite_inject: "composite e = composite e' \<longleftrightarrow> e = e'"
  by (cases e; cases e') (auto simp: to_be_inject)

lemma composite_uuid: "extract_uuid_from_composite (composite e) = Some (snd e)"
  by (simp add: extract_uuid_from_composite_def)

text \<open>
  What an index stands for: a set of pairs of an encoded field value and a document id.
\<close>

definition index_holds :: "(bytes \<Rightarrow> u32) \<Rightarrow> secondary_index \<Rightarrow> (bytes \<times> uuid) set \<Rightarrow> bool" where
  "index_holds crc si S \<longleftrightarrow>
     (\<exists>es. tree_holds var_key INDEX_MAX_KEY_SIZE (\<lambda>k. length k \<le> unat INDEX_MAX_KEY_SIZE) crc (si_btree si) es
        \<and> fst ` set es = composite ` S)
     \<and> (\<forall>e \<in> S. sortable (fst e))"

lemma index_holds_finite: "index_holds crc si S \<Longrightarrow> finite S"
proof -
  assume "index_holds crc si S"
  then obtain es where "fst ` set (es :: bytes leaf_entry list) = composite ` S"
    by (auto simp: index_holds_def)
  then have "finite (composite ` S)" by (metis List.finite_set finite_imageI)
  then show ?thesis by (rule finite_imageD) (simp add: inj_on_def composite_inject)
qed

lemma map_filter_composite: "List.map_filter extract_uuid_from_composite (map composite xs) = map snd xs"
  by (induction xs) (simp_all add: map_filter_simps composite_uuid)

lemma inj_composite: "inj composite"
  by (simp add: inj_on_def composite_inject)

lemma entries_between:
  assumes "index_holds crc si S"
  shows "\<exists>xs. ids_between crc a b si = Some (Inr (map snd xs))
    \<and> sorted_wrt (<) (map composite xs) \<and> set xs = {e \<in> S. a \<le> composite e \<and> composite e < b}"
proof -
  from assms obtain es where es: "tree_holds var_key INDEX_MAX_KEY_SIZE (\<lambda>k. length k \<le> unat INDEX_MAX_KEY_SIZE) crc (si_btree si) es"
    "fst ` set es = composite ` S" by (auto simp: index_holds_def)
  define ks where "ks = map fst (filter (\<lambda>e. in_range (Some a) (Some b) (fst e)) es)"
  have r: "tree_range var_key crc (Some a) (Some b) (si_btree si)
      = Some (Inr (filter (\<lambda>e. in_range (Some a) (Some b) (fst e)) es))"
    using index_keys.range_ok [OF es(1), of "Some a" "Some b"] by (simp add: in_range_def)
  have "set ks = {k \<in> fst ` set es. a \<le> k \<and> k < b}" by (auto simp: ks_def in_range_def)
  then have set: "set ks = composite ` {e \<in> S. a \<le> composite e \<and> composite e < b}"
    unfolding es(2) by auto
  then have "\<exists>xs. ks = map composite xs" by (auto simp: ex_map_conv)
  then obtain xs where xs: "ks = map composite xs" ..
  have "ids_between crc a b si = Some (Inr (List.map_filter extract_uuid_from_composite ks))"
    by (simp add: ids_between_def r ks_def List.map_filter_def filter_map comp_def)
  then have "ids_between crc a b si = Some (Inr (map snd xs))" by (simp only: xs map_filter_composite)
  moreover have "sorted_wrt (<) ks"
    using tree_holds_sorted [OF es(1)] by (auto simp: ks_def bt_ok_def sorted_wrt_map intro: sorted_wrt_filter)
  moreover have "set xs = {e \<in> S. a \<le> composite e \<and> composite e < b}"
    using set inj_image_eq_iff [OF inj_composite] by (simp add: xs)
  ultimately show ?thesis using xs by blast
qed

lemma ids_between_sorted:
  assumes "index_holds crc si S" and H: "H = {e \<in> S. a \<le> composite e \<and> composite e < b}"
    and mono: "\<And>x y. x \<in> H \<Longrightarrow> y \<in> H \<Longrightarrow> composite x < composite y \<longleftrightarrow> x < y"
  shows "ids_between crc a b si = Some (Inr (map snd (sorted_list_of_set H)))"
proof -
  from entries_between [OF assms(1), of a b] obtain xs where
    xs: "ids_between crc a b si = Some (Inr (map snd xs))" "sorted_wrt (<) (map composite xs)" "set xs = H"
    unfolding H by blast
  have "sorted_wrt (<) xs"
    using xs(2) unfolding sorted_wrt_map by (rule sorted_wrt_mono_rel [rotated]) (simp add: mono xs(3))
  then have "xs = sorted_list_of_set H"
    unfolding xs(3) [symmetric] by (simp add: sorted_list_of_set_sort_remdups strict_sorted_iff sorted_sort_id distinct_remdups_id)
  then show ?thesis using xs(1) by simp
qed

section \<open>What the searches return\<close>

lemma nil_uuid_least: "\<not> to_be (u :: uuid) < to_be (0 :: uuid)"
  by (simp add: to_be_less)

lemma lookup_bounds:
  assumes "\<exists>b \<in> set p. b \<noteq> 0xFF" and "length p \<le> length k"
  shows "p @ z \<le> k \<and> k < increment_bytes p \<longleftrightarrow> prefix p k \<and> z \<le> drop (length p) k"
proof -
  define h d where "h = take (length p) k" and "d = drop (length p) k"
  have k: "k = h @ d" "length h = length p" using assms(2) by (simp_all add: h_def d_def)
  have "p @ z \<le> k \<longleftrightarrow> \<not> h < p \<and> (h = p \<longrightarrow> z \<le> d)"
    using lex_append [OF k(2), of d z] k(1) by (auto simp: not_less [symmetric])
  moreover have "k < increment_bytes p \<longleftrightarrow> \<not> p < h"
    using increment_bytes_bound [OF assms] by (simp add: h_def not_less)
  moreover have "prefix p k \<longleftrightarrow> h = p" using k by (auto simp: prefix_def)
  ultimately show ?thesis by (auto simp: d_def)
qed

lemma narrow_lookup_bounds:
  assumes "narrow p" and "sortable (fst e)"
  shows "p @ to_be (0 :: uuid) \<le> composite e \<and> composite e < increment_bytes p \<longleftrightarrow> fst e = p"
proof -
  have ne: "p \<noteq> []" "hd p < TAG_STRING" using assms(1) sortable_shape(1) by (auto simp: narrow_def)
  then have "\<exists>b \<in> set p. b \<noteq> 0xFF" by (intro bexI [of _ "hd p"]) (auto simp: sort_consts)
  moreover have "length p \<le> length (composite e)"
    using narrow_width [OF assms(1)] by auto
  ultimately show ?thesis
    using lookup_bounds [of p "composite e" "to_be (0 :: uuid)"] narrow_prefix(1) [OF assms, of "to_be (snd e)"]
      nil_uuid_least [of "snd e"]
    by (cases "fst e = p") (auto simp: not_less)
qed

lemma lookup_narrow:
  assumes "index_holds crc si S" and "encode_sortable_value v = Inr p" and "narrow p"
  shows "si_lookup crc v si = Some (Inr (map snd (sorted_list_of_set {e \<in> S. fst e = p})))"
proof -
  have H: "{e \<in> S. fst e = p} = {e \<in> S. p @ to_be (0 :: uuid) \<le> composite e \<and> composite e < increment_bytes p}"
    using assms(1) narrow_lookup_bounds [OF assms(3)] by (auto simp: index_holds_def)
  show ?thesis
    using ids_between_sorted [OF assms(1) H] assms(2)
    by (simp add: si_lookup_def to_be_less less_prod_def')
qed

lemma range_narrow:
  assumes "index_holds crc si S" and "encode_sortable_value a = Inr p" "narrow p"
    and "encode_sortable_value b = Inr q" "narrow q"
  shows "si_range_query crc a b si = Some (Inr (map snd (sorted_list_of_set {e \<in> S. p \<le> fst e \<and> fst e < q})))"
proof -
  have s: "sortable (fst e)" if "e \<in> S" for e using assms(1) that by (simp add: index_holds_def)
  have H: "{e \<in> S. p \<le> fst e \<and> fst e < q}
      = {e \<in> S. p @ to_be (0 :: uuid) \<le> composite e \<and> composite e < q @ to_be (0 :: uuid)}"
    using narrow_less_append [OF assms(3)] narrow_less_append [OF assms(5)] s nil_uuid_least
    by (auto simp: not_less [symmetric])
  have "narrow (fst e)" if "e \<in> S" "fst e < q" for e
  proof -
    have "fst e \<noteq> []" "q \<noteq> []" "hd q < TAG_STRING"
      using s [OF that(1)] assms(5) sortable_shape(1) by (auto simp: narrow_def)
    then show ?thesis using that(2) s [OF that(1)] by (cases "fst e"; cases q) (auto simp: narrow_def)
  qed
  then have "composite x < composite y \<longleftrightarrow> x < y"
    if "x \<in> {e \<in> S. p \<le> fst e \<and> fst e < q}" "y \<in> {e \<in> S. p \<le> fst e \<and> fst e < q}" for x y
    using that narrow_less_append(1) [of "fst x" "fst y"] s by (auto simp: less_prod_def' to_be_less)
  then show ?thesis
    using ids_between_sorted [OF assms(1) H] assms(2,4) by (simp add: si_range_query_def)
qed

section \<open>Calls\<close>

datatype index_call =
    XIndex uuid grumpy_value
  | XUnindex uuid grumpy_value
  | XRebuild "(uuid \<times> grumpy_value) list"
  | XLookup grumpy_value
  | XRange grumpy_value grumpy_value

datatype index_reply = XDone | XFailed grumpy_error | XPanicked | XIds "uuid list"

definition index_reply :: "('a \<Rightarrow> index_reply) \<Rightarrow> 'a result \<Rightarrow> index_reply" where
  "index_reply f r = (case r of Inr x \<Rightarrow> f x | Inl (Err e) \<Rightarrow> XFailed e | Inl Panic \<Rightarrow> XPanicked)"

lemma index_reply_simps [simp]:
  "index_reply f (Inr x) = f x" "index_reply f (Inl (Err e)) = XFailed e" "index_reply f (Inl Panic) = XPanicked"
  by (simp_all add: index_reply_def)

fun index_step :: "(bytes \<Rightarrow> u32) \<Rightarrow> index_call \<Rightarrow> secondary_index \<Rightarrow> (secondary_index \<times> index_reply) option" where
  "index_step crc (XIndex u doc) si = map_option (map_prod id (index_reply (\<lambda>_. XDone))) (index_document crc u doc si)"
| "index_step crc (XUnindex u doc) si = map_option (map_prod id (index_reply (\<lambda>_. XDone))) (unindex_document crc u doc si)"
| "index_step crc (XRebuild docs) si = map_option (map_prod id (index_reply (\<lambda>_. XDone))) (si_rebuild crc docs si)"
| "index_step crc (XLookup v) si = map_option (\<lambda>r. (si, index_reply XIds r)) (si_lookup crc v si)"
| "index_step crc (XRange a b) si = map_option (\<lambda>r. (si, index_reply XIds r)) (si_range_query crc a b si)"

text \<open>The same calls on the set of indexed fields.\<close>

definition field_code :: "bytes \<Rightarrow> grumpy_value \<Rightarrow> bytes result option" where
  "field_code path doc = map_option encode_sortable_value (extract_field doc path)"

definition add_entry :: "bytes \<Rightarrow> uuid \<Rightarrow> grumpy_value \<Rightarrow> (bytes \<times> uuid) set \<Rightarrow> (bytes \<times> uuid) set \<times> index_reply" where
  "add_entry path u doc S =
     (case field_code path doc of
        None \<Rightarrow> (S, XDone)
      | Some (Inl (Err e)) \<Rightarrow> (S, XFailed e)
      | Some (Inl Panic) \<Rightarrow> (S, XPanicked)
      | Some (Inr b) \<Rightarrow>
          if (b, u) \<in> S then (S, XFailed (Codec (DuplicateVarKey (length b + 16)))) else (insert (b, u) S, XDone))"

fun add_entries :: "bytes \<Rightarrow> (uuid \<times> grumpy_value) list \<Rightarrow> (bytes \<times> uuid) set \<Rightarrow> (bytes \<times> uuid) set \<times> index_reply" where
  "add_entries path [] S = (S, XDone)"
| "add_entries path ((u, doc) # docs) S =
     (case add_entry path u doc S of (S', XDone) \<Rightarrow> add_entries path docs S' | r \<Rightarrow> r)"

fun index_spec :: "bytes \<Rightarrow> index_call \<Rightarrow> (bytes \<times> uuid) set \<Rightarrow> (bytes \<times> uuid) set \<times> index_reply" where
  "index_spec path (XIndex u doc) S = add_entry path u doc S"
| "index_spec path (XUnindex u doc) S =
     (case field_code path doc of
        None \<Rightarrow> (S, XDone)
      | Some r \<Rightarrow> (S - {(b, u) | b. r = Inr b}, index_reply (\<lambda>_. XDone) r))"
| "index_spec path (XRebuild docs) S = add_entries path docs {}"
| "index_spec path (XLookup v) S =
     (S, index_reply (\<lambda>p. XIds (map snd (sorted_list_of_set {e \<in> S. fst e = p}))) (encode_sortable_value v))"
| "index_spec path (XRange a b) S =
     (S, index_reply (\<lambda>(p, q). XIds (map snd (sorted_list_of_set {e \<in> S. p \<le> fst e \<and> fst e < q})))
           (bind_res (encode_sortable_value a) (\<lambda>p. bind_res (encode_sortable_value b) (\<lambda>q. Inr (p, q)))))"

text \<open>
  When a call is covered: a field is at most as long as the codec allows, the file can still grow
  for an insertion, and searches are for null, a boolean or a number.
\<close>

definition doc_ready :: "bytes \<Rightarrow> grumpy_value \<Rightarrow> secondary_index \<Rightarrow> bool" where
  "doc_ready path doc si \<longleftrightarrow>
     (case extract_field doc path of None \<Rightarrow> True | Some v \<Rightarrow> wf_value v \<and> has_room (si_btree si))"

fun docs_ready :: "(bytes \<Rightarrow> u32) \<Rightarrow> bytes \<Rightarrow> (uuid \<times> grumpy_value) list \<Rightarrow> secondary_index \<Rightarrow> bool" where
  "docs_ready crc path [] si \<longleftrightarrow> True"
| "docs_ready crc path ((u, doc) # docs) si \<longleftrightarrow>
     doc_ready path doc si
     \<and> (case index_document crc u doc si of Some (si', Inr _) \<Rightarrow> docs_ready crc path docs si' | _ \<Rightarrow> True)"

fun index_ready :: "(bytes \<Rightarrow> u32) \<Rightarrow> bytes \<Rightarrow> index_call \<Rightarrow> secondary_index \<Rightarrow> bool" where
  "index_ready crc path (XIndex u doc) si \<longleftrightarrow> doc_ready path doc si"
| "index_ready crc path (XUnindex u doc) si \<longleftrightarrow> True"
| "index_ready crc path (XRebuild docs) si \<longleftrightarrow>
     (case si_create crc [] (si_def si) of Inr si' \<Rightarrow> docs_ready crc path docs si' | _ \<Rightarrow> True)"
| "index_ready crc path (XLookup v) si \<longleftrightarrow> fixed_width v"
| "index_ready crc path (XRange a b) si \<longleftrightarrow> fixed_width a \<and> fixed_width b"

definition index_abs :: "(bytes \<Rightarrow> u32) \<Rightarrow> bytes \<Rightarrow> secondary_index \<Rightarrow> (bytes \<times> uuid) set \<Rightarrow> bool" where
  "index_abs crc path si S \<longleftrightarrow> id_field_path (si_def si) = path \<and> index_holds crc si S"

lemma encode_not_panic [simp]: "encode_sortable_value v \<noteq> Inl Panic"
  by (cases v) simp_all

lemma si_create_ok:
  "\<exists>si. si_create crc [] d = Inr si \<and> si_def si = d \<and> index_holds crc si {} \<and> has_room (si_btree si)"
proof -
  from index_keys.create_ok [of crc] obtain bt where
    bt: "tree_create_with var_key crc INDEX_MAX_KEY_SIZE [] = (tr_pm bt, Inr bt)"
      "tree_holds var_key INDEX_MAX_KEY_SIZE (\<lambda>k. length k \<le> unat INDEX_MAX_KEY_SIZE) crc bt []"
      "bm_height (tr_meta bt) = 1" "pm_room (tr_pm bt) = 2 ^ 32 - 4" by blast
  have "has_room bt" using bt(3,4) by (simp add: has_room_def)
  then show ?thesis using bt(1,2) by (auto simp: si_create_def index_holds_def)
qed

lemma index_document_ok:
  assumes h: "index_abs crc path si S" and "doc_ready path doc si"
  shows "\<exists>si' r. index_document crc u doc si = Some (si', r) \<and> si_def si' = si_def si
    \<and> index_reply (\<lambda>_. XDone) r = snd (add_entry path u doc S)
    \<and> index_abs crc path si' (fst (add_entry path u doc S))"
proof (cases "field_code path doc")
  case None
  then show ?thesis using h by (simp add: field_code_def index_document_def index_abs_def add_entry_def)
next
  case (Some c)
  then obtain v where v: "extract_field doc path = Some v" "encode_sortable_value v = c"
    by (auto simp: field_code_def)
  show ?thesis
  proof (cases c)
    case (Inl e)
    then obtain e' where "e = Err e'" using v(2) by (cases e) auto
    then show ?thesis
      using h Some v Inl by (simp add: index_document_def index_abs_def encode_composite_key_def add_entry_def bind_call_def)
  next
    case (Inr b)
    have path: "id_field_path (si_def si) = path" using h by (simp add: index_abs_def)
    have len: "length (composite (b, u)) \<le> unat INDEX_MAX_KEY_SIZE"
      using composite_key_length [of v u "composite (b, u)"] assms(2) v Inr
      by (simp add: doc_ready_def encode_composite_key_def INDEX_MAX_KEY_SIZE_def)
    have sb: "sortable b" using v(2) Inr by (auto simp: sortable_def)
    from h obtain es where es: "tree_holds var_key INDEX_MAX_KEY_SIZE (\<lambda>k. length k \<le> unat INDEX_MAX_KEY_SIZE) crc (si_btree si) es"
      "fst ` set es = composite ` S" "\<forall>e \<in> S. sortable (fst e)" by (auto simp: index_abs_def index_holds_def)
    have mem: "composite (b, u) \<in> fst ` set es \<longleftrightarrow> (b, u) \<in> S"
      unfolding es(2) using inj_image_mem_iff [OF inj_composite] by blast
    have eq: "index_document crc u doc si = on_btree (tree_insert var_key crc (composite (b, u)) 0 0) si"
      using v Inr path by (simp add: index_document_def encode_composite_key_def bind_call_def)
    show ?thesis
    proof (cases "(b, u) \<in> S")
      case True
      from index_keys.insert_duplicate [OF es(1) mem [THEN iffD2, OF True], of 0 0]
      show ?thesis using h True Some Inr by (simp add: eq zoom_def add_entry_def var_key_def)
    next
      case False
      have room: "unat (bm_height (tr_meta (si_btree si))) < pm_room (tr_pm (si_btree si))"
        using assms(2) v by (simp add: doc_ready_def has_room_def)
      from index_keys.insert_new_ok [OF es(1) len, of 0 0] False mem room obtain bt' where
        bt': "tree_insert var_key crc (composite (b, u)) 0 0 (si_btree si) = Some (bt', Inr ())"
        "tree_holds var_key INDEX_MAX_KEY_SIZE (\<lambda>k. length k \<le> unat INDEX_MAX_KEY_SIZE) crc bt' (bt_insert (composite (b, u)) (0, 0) es)"
        by blast
      have "fst ` set (bt_insert (composite (b, u)) (0, 0) es) = composite ` insert (b, u) S"
        by (simp add: set_bt_insert es(2))
      then have "index_holds crc (si\<lparr>si_btree := bt'\<rparr>) (insert (b, u) S)"
        using bt'(2) es(3) sb unfolding index_holds_def by auto
      then show ?thesis
        using False Some Inr path bt'(1) by (simp add: eq zoom_def add_entry_def index_abs_def)
    qed
  qed
qed

lemma unindex_document_ok:
  assumes h: "index_abs crc path si S"
  shows "\<exists>si' r. unindex_document crc u doc si = Some (si', r)
    \<and> index_reply (\<lambda>_. XDone) r = snd (index_spec path (XUnindex u doc) S)
    \<and> index_abs crc path si' (fst (index_spec path (XUnindex u doc) S))"
proof (cases "field_code path doc")
  case None
  then show ?thesis using h by (simp add: field_code_def unindex_document_def index_abs_def)
next
  case (Some c)
  then obtain v where v: "extract_field doc path = Some v" "encode_sortable_value v = c"
    by (auto simp: field_code_def)
  show ?thesis
  proof (cases c)
    case (Inl e)
    then obtain e' where "e = Err e'" using v(2) by (cases e) auto
    then show ?thesis
      using h Some v Inl by (simp add: unindex_document_def index_abs_def encode_composite_key_def bind_call_def)
  next
    case (Inr b)
    have path: "id_field_path (si_def si) = path" using h by (simp add: index_abs_def)
    from h obtain es where es: "tree_holds var_key INDEX_MAX_KEY_SIZE (\<lambda>k. length k \<le> unat INDEX_MAX_KEY_SIZE) crc (si_btree si) es"
      "fst ` set es = composite ` S" "\<forall>e \<in> S. sortable (fst e)" by (auto simp: index_abs_def index_holds_def)
    have mem: "composite (b, u) \<in> fst ` set es \<longleftrightarrow> (b, u) \<in> S"
      unfolding es(2) using inj_image_mem_iff [OF inj_composite] by blast
    have S': "S - {(b', u) | b'. c = Inr b'} = S - {(b, u)}" using Inr by auto
    show ?thesis
    proof (cases "(b, u) \<in> S")
      case False
      from index_keys.delete_missing [OF es(1), of "composite (b, u)"] False mem h Some Inr v path show ?thesis
        by (simp add: unindex_document_def encode_composite_key_def bind_call_def zoom_def)
    next
      case True
      from index_keys.delete_found [OF es(1), of "composite (b, u)"] True mem obtain bt' where
        bt': "tree_delete var_key crc (composite (b, u)) (si_btree si) = Some (bt', Inr ())"
        "tree_holds var_key INDEX_MAX_KEY_SIZE (\<lambda>k. length k \<le> unat INDEX_MAX_KEY_SIZE) crc bt' (bt_remove (composite (b, u)) es)"
        by blast
      have "fst ` set (bt_remove (composite (b, u)) es) = fst ` set es - {composite (b, u)}"
        by (auto simp: bt_remove_def)
      also have "\<dots> = composite ` (S - {(b, u)})"
        unfolding es(2) by (simp add: image_set_diff [OF inj_composite])
      finally have "index_holds crc (si\<lparr>si_btree := bt'\<rparr>) (S - {(b, u)})"
        using bt'(2) es(3) unfolding index_holds_def by auto
      then show ?thesis
        using Some Inr v path bt'(1)
        by (simp add: unindex_document_def encode_composite_key_def bind_call_def zoom_def index_abs_def S' [unfolded Inr, simplified])
    qed
  qed
qed

lemma index_reply_done:
  "index_reply (\<lambda>_. XDone) (r :: unit result) = XDone \<longleftrightarrow> r = Inr ()"
  by (auto simp: index_reply_def split: sum.splits failure.splits)

lemma for_each_index_ok:
  assumes "index_abs crc path si S" and "docs_ready crc path docs si"
  shows "\<exists>si' r. for_each (\<lambda>(u, doc). index_document crc u doc) docs si = Some (si', r)
    \<and> index_reply (\<lambda>_. XDone) r = snd (add_entries path docs S)
    \<and> index_abs crc path si' (fst (add_entries path docs S))"
  using assms
proof (induction docs arbitrary: si S)
  case (Cons p docs)
  obtain u doc where p: "p = (u, doc)" by (cases p)
  obtain S' x where e: "add_entry path u doc S = (S', x)" by (cases "add_entry path u doc S")
  from index_document_ok [OF Cons.prems(1), of doc u] Cons.prems(2) p e obtain si1 r where
    s1: "index_document crc u doc si = Some (si1, r)" "index_reply (\<lambda>_. XDone) r = x"
      "index_abs crc path si1 S'" by auto
  show ?case
  proof (cases "r = Inr ()")
    case True
    then have "add_entries path (p # docs) S = add_entries path docs S'" using s1(2) e p by simp
    moreover have "docs_ready crc path docs si1" using Cons.prems(2) s1(1) True p by simp
    ultimately show ?thesis using Cons.IH [OF s1(3)] s1(1) True p by (simp add: bind_call_def)
  next
    case False
    then obtain f where f: "r = Inl f" by (cases r) auto
    have "x \<noteq> XDone" using s1(2) False index_reply_done [of r] by simp
    then have "add_entries path (p # docs) S = (S', x)" using e p by (cases x) simp_all
    then show ?thesis using s1 f p by (simp add: bind_call_def)
  qed
qed simp

interpretation secondary: call_refinement "index_abs crc path" "index_ready crc path" "index_step crc" "index_spec path"
  for crc path
proof unfold_locales
  fix si S c
  assume h: "index_abs crc path si S" and rdy: "index_ready crc path c si"
  have holds: "index_holds crc si S" using h by (simp add: index_abs_def)
  show "\<exists>s'. index_step crc c si = Some (s', snd (index_spec path c S)) \<and> index_abs crc path s' (fst (index_spec path c S))"
  proof (cases c)
    case (XIndex u doc)
    then show ?thesis using index_document_ok [OF h, of doc u] rdy by auto
  next
    case (XUnindex u doc)
    then show ?thesis using unindex_document_ok [OF h, of u doc] by auto
  next
    case (XRebuild docs)
    from si_create_ok [of crc "si_def si"] obtain si' where
      si': "si_create crc [] (si_def si) = Inr si'" "si_def si' = si_def si" "index_holds crc si' {}" by blast
    then have bt: "snd (tree_create_with var_key crc INDEX_MAX_KEY_SIZE []) = Inr (si_btree si')"
      and eq: "si\<lparr>si_btree := si_btree si'\<rparr> = si'"
      by (auto simp: si_create_def bind_res_eq_Inr)
    have "index_abs crc path si' {}" using si' h by (simp add: index_abs_def)
    from for_each_index_ok [OF this, of docs] rdy XRebuild si'(1) show ?thesis
      by (auto simp: si_rebuild_def bt eq)
  next
    case (XLookup v)
    then obtain p where "encode_sortable_value v = Inr p" "narrow p" using rdy fixed_narrow by auto
    then show ?thesis using XLookup h lookup_narrow [OF holds] by simp
  next
    case (XRange a b)
    then obtain p q where "encode_sortable_value a = Inr p" "narrow p" "encode_sortable_value b = Inr q" "narrow q"
      using rdy fixed_narrow by auto blast
    then show ?thesis using XRange h range_narrow [OF holds, of a p b q] by simp
  qed
qed

section \<open>Strings\<close>

lemma utf8_head:
  assumes "utf8_valid (b # bs)"
  shows "b \<le> 244 \<and> (\<exists>cs bs'. bs = cs @ bs' \<and> (\<forall>c \<in> set cs. c \<le> 244) \<and> utf8_valid bs')"
proof -
  have cont: "c \<le> 244" if "utf8_cont c" for c using that order_trans [of c 191 244] by (simp add: utf8_cont_def)
  have "b < 128 \<and> utf8_valid bs \<or> b \<le> 223 \<and> (\<exists>c bs'. bs = [c] @ bs' \<and> utf8_cont c \<and> utf8_valid bs')
    \<or> b \<le> 239 \<and> (\<exists>c d bs'. bs = [c, d] @ bs' \<and> utf8_cont c \<and> utf8_cont d \<and> utf8_valid bs')
    \<or> b \<le> 244 \<and> (\<exists>c d e bs'. bs = [c, d, e] @ bs' \<and> utf8_cont c \<and> utf8_cont d \<and> utf8_cont e \<and> utf8_valid bs')"
    using assms unfolding utf8_valid.simps(2) by (simp only: split: if_splits list.splits) auto
  moreover have "b \<le> 244" if "b < 128 \<or> b \<le> 223 \<or> b \<le> 239 \<or> b \<le> 244"
    using that order_trans [of b 223 244] order_trans [of b 239 244] order_trans [of b 128 244] by auto
  ultimately have "b \<le> 244" and "utf8_valid bs \<or> (\<exists>c bs'. bs = [c] @ bs' \<and> utf8_cont c \<and> utf8_valid bs')
    \<or> (\<exists>c d bs'. bs = [c, d] @ bs' \<and> utf8_cont c \<and> utf8_cont d \<and> utf8_valid bs')
    \<or> (\<exists>c d e bs'. bs = [c, d, e] @ bs' \<and> utf8_cont c \<and> utf8_cont d \<and> utf8_cont e \<and> utf8_valid bs')"
    by blast+
  from this(2) show ?thesis
  proof (elim disjE conjE exE)
    assume "utf8_valid bs"
    then show ?thesis using \<open>b \<le> 244\<close> by (intro conjI exI [of _ "[]"] exI [of _ bs]) simp_all
  next
    fix c bs' assume "bs = [c] @ bs'" "utf8_cont c" "utf8_valid bs'"
    then show ?thesis using \<open>b \<le> 244\<close> by (intro conjI exI [of _ "[c]"] exI [of _ bs']) (simp_all add: cont)
  next
    fix c d bs' assume "bs = [c, d] @ bs'" "utf8_cont c" "utf8_cont d" "utf8_valid bs'"
    then show ?thesis using \<open>b \<le> 244\<close> by (intro conjI exI [of _ "[c, d]"] exI [of _ bs']) (simp_all add: cont)
  next
    fix c d e bs' assume "bs = [c, d, e] @ bs'" "utf8_cont c" "utf8_cont d" "utf8_cont e" "utf8_valid bs'"
    then show ?thesis using \<open>b \<le> 244\<close> by (intro conjI exI [of _ "[c, d, e]"] exI [of _ bs']) (simp_all add: cont)
  qed
qed

lemma utf8_bytes: "utf8_valid s \<Longrightarrow> b \<in> set s \<Longrightarrow> b \<le> 244"
proof (induction "length s" arbitrary: s rule: less_induct)
  case less
  then obtain a bs where s: "s = a # bs" by (cases s) auto
  from utf8_head [OF less.prems(1) [unfolded s]] obtain cs bs' where
    h: "a \<le> 244" "bs = cs @ bs'" "\<forall>c \<in> set cs. c \<le> 244" "utf8_valid bs'" by blast
  have "length bs' < length s" using s h(2) by simp
  from less.hyps [OF this h(4)] show ?case using less.prems(2) h(1-3) s by (auto simp del: utf8_valid.simps)
qed

lemma short_key_outside:
  assumes "p = q @ [c]" and "c < 0xFF" and "length k < length p"
  shows "\<not> (p @ z \<le> k \<and> k < increment_bytes p)"
proof -
  have inc: "increment_bytes p = q @ [c + 1]" using assms(1,2) by (simp add: increment_bytes_def)
  show ?thesis
  proof (cases "prefix k q")
    case True
    then obtain ys where "q = k @ ys" by (auto simp: prefix_def)
    then have "p @ z = k @ (ys @ c # z)" using assms(1) by simp
    moreover have "k @ [] < k @ (ys @ c # z)" unfolding lex_append_same by (cases ys) auto
    ultimately show ?thesis by (simp add: not_le)
  next
    case False
    moreover have "\<not> prefix q k" using False assms(1,3) by (auto simp: prefix_def)
    ultimately show ?thesis
      using lex_incomparable [of k q "[]" "c # z"] lex_incomparable [of k q "[]" "[c + 1]"]
      by (auto simp: inc [unfolded assms(1)] assms(1) not_less [symmetric])
  qed
qed

lemma lookup_string:
  assumes "index_holds crc si S" and "utf8_valid s" and p: "p = TAG_STRING # take MAX_INDEXED_LEN s"
  shows "\<exists>us. si_lookup crc (VString s) si = Some (Inr us)
    \<and> set us = snd ` {e \<in> S. prefix p (composite e) \<and> to_be (0 :: uuid) \<le> drop (length p) (composite e)}"
proof -
  have "p \<noteq> []" by (simp add: p)
  then obtain q c where qc: "p = q @ [c]" by (metis append_butlast_last_id)
  have "b \<noteq> 0xFF" if "b \<in> set p" for b
    using that utf8_bytes [OF assms(2), of b] by (auto simp: p sort_consts dest: in_set_takeD)
  then have c: "c < 0xFF" and ex: "\<exists>b \<in> set p. b \<noteq> 0xFF" using qc byte_max [of c] by auto
  have eq: "p @ to_be (0 :: uuid) \<le> k \<and> k < increment_bytes p
      \<longleftrightarrow> prefix p k \<and> to_be (0 :: uuid) \<le> drop (length p) k" for k
  proof (cases "length p \<le> length k")
    case False
    then show ?thesis using short_key_outside [OF qc c, of k] by (auto dest: prefix_length_le)
  qed (rule lookup_bounds [OF ex])
  from entries_between [OF assms(1), of "p @ to_be (0 :: uuid)" "increment_bytes p"] obtain xs where
    "ids_between crc (p @ to_be (0 :: uuid)) (increment_bytes p) si = Some (Inr (map snd xs))"
    "set xs = {e \<in> S. prefix p (composite e) \<and> to_be (0 :: uuid) \<le> drop (length p) (composite e)}"
    unfolding eq by blast
  then show ?thesis by (simp add: si_lookup_def p)
qed

lemma le_bytes_zero: "le_bytes n 0 = replicate n 0"
  by (induction n) simp_all

lemma nil_uuid: "to_be (0 :: uuid) = replicate 16 0"
  by (simp only: to_be_def to_le_def unsigned_0 le_bytes_zero rev_replicate) simp

lemma zeros_to_be: "to_be (0 :: uuid) \<le> xs @ to_be (u :: uuid)"
proof -
  define ys where "ys = xs @ to_be u"
  have "length (take 16 ys) = 16" by (simp add: ys_def)
  then have "\<not> take 16 ys < replicate 16 0" using zeros_least [of "take 16 ys" 16] by (simp only: not_less)
  then have "\<not> take 16 ys @ drop 16 ys < replicate 16 0 @ []"
    using lex_append [of "take 16 ys" "replicate 16 0" "drop 16 ys" "[]"] by (auto simp: ys_def)
  then show ?thesis unfolding append_take_drop_id append_Nil2 not_less nil_uuid ys_def .
qed

lemma index_count: "index_holds crc si S \<Longrightarrow> si_count si = word_of_nat (card S)"
proof -
  assume "index_holds crc si S"
  then obtain es where es: "tree_holds var_key INDEX_MAX_KEY_SIZE (\<lambda>k. length k \<le> unat INDEX_MAX_KEY_SIZE) crc (si_btree si) es"
    "fst ` set es = composite ` S" by (auto simp: index_holds_def)
  have "card S = card (composite ` S)" by (simp add: card_image inj_composite [THEN inj_on_subset])
  also have "\<dots> = length (map fst es)"
    using distinct_card [OF bt_ok_distinct [OF tree_holds_sorted [OF es(1)]]] by (simp add: es(2))
  finally show ?thesis using es(1) by (simp add: si_count_def tree_holds_def)
qed

section \<open>Properties\<close>

text \<open>
  C22. Secondary indexes. Creating an index in an empty file succeeds, and from then on any sequence of
  indexing, unindexing and rebuilding, and of lookups and range queries for null, booleans and numbers,
  answers as the same calls on a set of pairs of an encoded field and a document id: a document without
  the field is skipped, a field that cannot be indexed and a second entry for the same field and document
  are refused, unindexing an absent document changes nothing, a lookup returns exactly the ids whose field
  has that encoding and a range query those whose field lies in [start, end), in order. The count
  is the number of pairs, and opening the file again gives back the same index.
\<close>

theorem secondary_index_correct:
  "\<exists>si. si_create crc [] d = Inr si \<and> has_room (si_btree si) \<and>
    (\<forall>cs. calls_ready (index_ready crc (id_field_path d)) (index_step crc) cs si \<longrightarrow>
      (case map_calls (index_spec (id_field_path d)) cs {} of (S, rs) \<Rightarrow>
         \<exists>si'. run_calls (index_step crc) cs si = Some (si', rs) \<and> si_count si' = word_of_nat (card S)
           \<and> si_open crc (pm_file (tr_pm (si_btree si'))) (si_def si') = Inr si'))"
proof -
  from si_create_ok [of crc d] obtain si where
    si: "si_create crc [] d = Inr si" "si_def si = d" "index_holds crc si {}" "has_room (si_btree si)" by blast
  have abs: "index_abs crc (id_field_path d) si {}" using si by (simp add: index_abs_def)
  have op: "si_open crc (pm_file (tr_pm (si_btree si'))) (si_def si') = Inr si'" if "index_holds crc si' S" for si' S
    using that index_keys.open_ok by (auto simp: index_holds_def si_open_def)
  show ?thesis
    using si(1,4) secondary.run_ok [OF abs] op index_count unfolding split_beta index_abs_def by meson
qed

theorem secondary_index_correct_witness:
  "\<exists>si si'. si_create (\<lambda>_. 5) [] \<lparr>id_name = [1], id_field_path = [97]\<rparr> = Inr si
     \<and> run_calls (index_step (\<lambda>_. 5))
         [XIndex 7 (VObject [([97], VInteger 3)]), XIndex 8 VNull, XLookup (VInteger 3), XUnindex 7 (VObject [([97], VInteger 3)]), XLookup (VInteger 3)] si
       = Some (si', [XDone, XDone, XIds [7], XDone, XIds []])"
proof -
  define doc where "doc = VObject [([97 :: byte], VInteger 3)]"
  define b where "b = TAG_INTEGER # to_be (sortable_integer 3)"
  define cs where "cs = [XIndex 7 doc, XIndex 8 VNull, XLookup (VInteger 3), XUnindex 7 doc, XLookup (VInteger 3)]"
  have f: "extract_field doc [97] = Some (VInteger 3)" "extract_field VNull [97] = None"
    by (simp_all add: doc_def extract_field_def)
  have c: "field_code [97] doc = Some (Inr b)" "field_code [97] VNull = None" "encode_sortable_value (VInteger 3) = Inr b"
    by (simp_all add: field_code_def f b_def)
  have one: "{e. e = (b, 7 :: uuid) \<and> fst e = b} = {(b, 7)}" by auto
  have r: "calls_ready (index_ready (\<lambda>_. 5) [97]) (index_step (\<lambda>_. 5)) cs si" if "has_room (si_btree si)" for si
    using that by (simp add: cs_def doc_ready_def f fixed_width_def split: option.split prod.split)
  have m: "map_calls (index_spec [97]) cs {} = ({}, [XDone, XDone, XIds [7], XDone, XIds []])"
    by (simp add: cs_def add_entry_def c one del: encode_sortable_value.simps)
  from secondary_index_correct [of "\<lambda>_. 5" "\<lparr>id_name = [1], id_field_path = [97]\<rparr>"] obtain si where
    "si_create (\<lambda>_. 5) [] \<lparr>id_name = [1], id_field_path = [97]\<rparr> = Inr si"
    "\<exists>si'. run_calls (index_step (\<lambda>_. 5)) cs si = Some (si', [XDone, XDone, XIds [7], XDone, XIds []])"
    using r m by (auto dest!: spec [of _ cs])
  then show ?thesis unfolding cs_def doc_def by blast
qed

text \<open>
  Lookups of strings. A lookup by a string value returns, besides the documents whose field is that
  string, every document whose indexed field starts with it, and also those with a shorter field whose id
  continues the key: the search covers all the keys that start with the encoded value.
\<close>

theorem string_lookup_prefix:
  assumes "index_holds crc si S" and "utf8_valid s"
  shows "\<exists>us. si_lookup crc (VString s) si = Some (Inr us)
    \<and> set us = (let p = TAG_STRING # take MAX_INDEXED_LEN s in
        {u. \<exists>b. (b, u) \<in> S \<and> prefix p (b @ to_be u) \<and> to_be (0 :: uuid) \<le> drop (length p) (b @ to_be u)})
    \<and> {u. \<exists>t. (TAG_STRING # take MAX_INDEXED_LEN s @ t, u) \<in> S} \<subseteq> set us"
proof -
  define p where "p = TAG_STRING # take MAX_INDEXED_LEN s"
  from lookup_string [OF assms p_def] obtain us where us: "si_lookup crc (VString s) si = Some (Inr us)"
    "set us = snd ` {e \<in> S. prefix p (composite e) \<and> to_be (0 :: uuid) \<le> drop (length p) (composite e)}" by blast
  have "u \<in> set us" if "(p @ t, u) \<in> S" for t u
    unfolding us(2) using that zeros_to_be by (intro image_eqI [of _ _ "(p @ t, u)"]) auto
  moreover have "set us = {u. \<exists>b. (b, u) \<in> S \<and> prefix p (b @ to_be u) \<and> to_be (0 :: uuid) \<le> drop (length p) (b @ to_be u)}"
    unfolding us(2) by force
  ultimately show ?thesis using us(1) by (auto simp: p_def Let_def)
qed

theorem string_lookup_prefix_witness:
  "\<exists>si si' us. si_create (\<lambda>_. 5) [] \<lparr>id_name = [1], id_field_path = [97]\<rparr> = Inr si
     \<and> index_document (\<lambda>_. 5) 7 (VObject [([97], VString [98, 99])]) si = Some (si', Inr ())
     \<and> si_lookup (\<lambda>_. 5) (VString [98]) si' = Some (Inr us) \<and> 7 \<in> set us"
proof -
  define d where "d = \<lparr>id_name = [1 :: byte], id_field_path = [97 :: byte]\<rparr>"
  define doc where "doc = VObject [([97 :: byte], VString [98, 99])]"
  have f: "extract_field doc [97] = Some (VString [98, 99])" by (simp add: doc_def extract_field_def)
  from si_create_ok [of "\<lambda>_. 5" d] obtain si where
    si: "si_create (\<lambda>_. 5) [] d = Inr si" "si_def si = d" "index_holds (\<lambda>_. 5) si {}" "has_room (si_btree si)" by blast
  have e: "add_entry [97] 7 doc {} = ({(TAG_STRING # [98, 99], 7)}, XDone)"
    by (simp add: add_entry_def field_code_def f MAX_INDEXED_LEN_def)
  have "index_abs (\<lambda>_. 5) [97] si {}" "doc_ready [97] doc si"
    using si by (simp_all add: index_abs_def d_def doc_ready_def f limit_defs)
  from index_document_ok [OF this, of 7, unfolded e] obtain si' where
    si': "index_document (\<lambda>_. 5) 7 doc si = Some (si', Inr ())" "index_holds (\<lambda>_. 5) si' {(TAG_STRING # [98, 99], 7)}"
    by (auto simp: index_reply_done index_abs_def)
  from string_lookup_prefix [OF si'(2), of "[98]"] have
    "\<exists>us. si_lookup (\<lambda>_. 5) (VString [98]) si' = Some (Inr us) \<and> 7 \<in> set us"
    by (auto simp: MAX_INDEXED_LEN_def)
  then show ?thesis using si(1) si'(1) unfolding d_def doc_def by blast
qed

end
