(* ===== verification/Buffer_Pool.thy ===== *)
theory Buffer_Pool
  imports Page_Store
begin

text \<open>
  The page cache of \<^verbatim>\<open>src/src/buffer/frame.rs\<close> and \<^verbatim>\<open>src/src/buffer/pool.rs\<close>: frames with pin counts
  and dirty flags in front of a page file, with eviction of the least recently used unpinned frame.
  The page table is a map; the order in which a hash map is iterated is an argument of
  \<open>flush_all\<close>.
\<close>

record frame =
  fr_data :: page
  fr_page_id :: "u32 option"
  fr_pin_count :: u32
  fr_dirty :: bool
  fr_last_accessed :: u64

definition frame_new :: frame where
  "frame_new = \<lparr>fr_data = zero_page, fr_page_id = None, fr_pin_count = 0, fr_dirty = False, fr_last_accessed = 0\<rparr>"

definition frame_pin :: "frame \<Rightarrow> frame" where
  "frame_pin f = f\<lparr>fr_pin_count := fr_pin_count f + 1\<rparr>"

definition frame_unpin :: "bool \<Rightarrow> frame \<Rightarrow> frame" where
  "frame_unpin dirty f =
     (let f = f\<lparr>fr_pin_count := fr_pin_count f - 1\<rparr> in if dirty then f\<lparr>fr_dirty := True\<rparr> else f)"

definition is_pinned :: "frame \<Rightarrow> bool" where
  "is_pinned f \<longleftrightarrow> fr_pin_count f > 0"

definition is_free :: "frame \<Rightarrow> bool" where
  "is_free f \<longleftrightarrow> fr_page_id f = None"

definition frame_reset :: "frame \<Rightarrow> frame" where
  "frame_reset f = f\<lparr>fr_page_id := None, fr_pin_count := 0, fr_dirty := False, fr_last_accessed := 0\<rparr>"

record buffer_pool =
  bp_frames :: "frame list"
  bp_page_table :: "u32 \<rightharpoonup> nat"
  bp_pm :: page_manager
  bp_clock :: u64
  bp_read_count :: u64
  bp_write_count :: u64

definition pool_new :: "nat \<Rightarrow> page_manager \<Rightarrow> buffer_pool" where
  "pool_new capacity pm =
     \<lparr>bp_frames = replicate capacity frame_new, bp_page_table = Map.empty, bp_pm = pm, bp_clock = 0,
      bp_read_count = 0, bp_write_count = 0\<rparr>"

definition set_frame :: "nat \<Rightarrow> frame \<Rightarrow> buffer_pool \<Rightarrow> buffer_pool" where
  "set_frame i f pool = pool\<lparr>bp_frames := (bp_frames pool)[i := f]\<rparr>"

text \<open>\<^verbatim>\<open>get_frame\<close> and an assignment to the data of \<^verbatim>\<open>get_frame_mut\<close>; both panic on a bad index.\<close>

definition get_frame :: "nat \<Rightarrow> (buffer_pool, frame) op" where
  "get_frame i pool = (pool, if i < length (bp_frames pool) then Inr (bp_frames pool ! i) else Inl Panic)"

definition set_frame_data :: "nat \<Rightarrow> page \<Rightarrow> (buffer_pool, unit) op" where
  "set_frame_data i d pool =
     (if i < length (bp_frames pool) then (set_frame i ((bp_frames pool ! i)\<lparr>fr_data := d\<rparr>) pool, Inr ())
      else (pool, Inl Panic))"

text \<open>\<^verbatim>\<open>Iterator::min_by_key\<close>: the first of the elements with the least key.\<close>

fun min_by_key :: "('a \<Rightarrow> 'k::linorder) \<Rightarrow> 'a list \<Rightarrow> 'a option" where
  "min_by_key f [] = None"
| "min_by_key f (x # xs) =
     (case min_by_key f xs of None \<Rightarrow> Some x | Some y \<Rightarrow> if f x \<le> f y then Some x else Some y)"

definition lru_victim :: "frame list \<Rightarrow> nat option" where
  "lru_victim frames =
     min_by_key (\<lambda>i. fr_last_accessed (frames ! i))
       (filter (\<lambda>i. \<not> is_pinned (frames ! i) \<and> \<not> is_free (frames ! i)) [0..<length frames])"

definition pool_pm :: "(page_manager, 'a) op \<Rightarrow> (buffer_pool, 'a) op" where
  "pool_pm m pool = (case m (bp_pm pool) of (pm, r) \<Rightarrow> (pool\<lparr>bp_pm := pm\<rparr>, r))"

text \<open>Writing back the frame chosen for eviction, and making it free.\<close>

definition evict_frame :: "(bytes \<Rightarrow> u32) \<Rightarrow> nat \<Rightarrow> (buffer_pool, nat) op" where
  "evict_frame crc victim_idx pool =
     (let frame = bp_frames pool ! victim_idx in
      bind_op
        (if fr_dirty frame then
           (case fr_page_id frame of
              None \<Rightarrow> fail_op (Corruption DirtyFrameWithoutPage)
            | Some pid \<Rightarrow>
                bind_op (pool_pm (write_page crc pid (fr_data frame)))
                  (\<lambda>_ pool. (pool\<lparr>bp_write_count := bp_write_count pool + 1\<rparr>, Inr ())))
         else ret_op ())
        (\<lambda>_ pool.
           let pool = (case fr_page_id frame of
                         None \<Rightarrow> pool
                       | Some pid \<Rightarrow> pool\<lparr>bp_page_table := (bp_page_table pool)(pid := None)\<rparr>)
           in (set_frame victim_idx (frame_reset frame) pool, Inr victim_idx)) pool)"

definition find_free_frame :: "(bytes \<Rightarrow> u32) \<Rightarrow> (buffer_pool, nat) op" where
  "find_free_frame crc pool =
     (case List.find (\<lambda>i. is_free (bp_frames pool ! i)) [0..<length (bp_frames pool)] of
        Some i \<Rightarrow> (pool, Inr i)
      | None \<Rightarrow>
          (case lru_victim (bp_frames pool) of
             None \<Rightarrow> fail_op BufferPoolExhausted pool
           | Some victim_idx \<Rightarrow> evict_frame crc victim_idx pool))"

text \<open>The tail of \<^verbatim>\<open>fetch_page\<close> and \<^verbatim>\<open>new_page\<close>: a page takes a frame.\<close>

definition install_page :: "nat \<Rightarrow> u32 \<Rightarrow> page \<Rightarrow> bool \<Rightarrow> buffer_pool \<Rightarrow> buffer_pool" where
  "install_page i page_id data dirty pool =
     (let clock = bp_clock pool + 1 in
      (set_frame i \<lparr>fr_data = data, fr_page_id = Some page_id, fr_pin_count = 1, fr_dirty = dirty,
          fr_last_accessed = clock\<rparr> pool)
        \<lparr>bp_clock := clock, bp_page_table := (bp_page_table pool)(page_id \<mapsto> i)\<rparr>)"

definition fetch_page :: "(bytes \<Rightarrow> u32) \<Rightarrow> u32 \<Rightarrow> (buffer_pool, nat) op" where
  "fetch_page crc page_id pool =
     (case bp_page_table pool page_id of
        Some frame_idx \<Rightarrow>
          if frame_idx < length (bp_frames pool) then
            (let clock = bp_clock pool + 1;
                 frame = (frame_pin (bp_frames pool ! frame_idx))\<lparr>fr_last_accessed := clock\<rparr>
             in ((set_frame frame_idx frame pool)\<lparr>bp_clock := clock\<rparr>, Inr frame_idx))
          else (pool, Inl Panic)
      | None \<Rightarrow>
          bind_op (find_free_frame crc) (\<lambda>frame_idx pool.
            case read_page crc page_id (bp_pm pool) of
              Inl e \<Rightarrow> (pool, Inl e)
            | Inr data \<Rightarrow>
                (install_page frame_idx page_id data False
                   (pool\<lparr>bp_read_count := bp_read_count pool + 1\<rparr>), Inr frame_idx)) pool)"

definition new_page :: "(bytes \<Rightarrow> u32) \<Rightarrow> (buffer_pool, u32 \<times> nat) op" where
  "new_page crc =
     bind_op (pool_pm (allocate_page crc)) (\<lambda>page_id.
     bind_op (find_free_frame crc) (\<lambda>frame_idx pool.
       (install_page frame_idx page_id zero_page True pool, Inr (page_id, frame_idx))))"

definition unpin :: "u32 \<Rightarrow> bool \<Rightarrow> (buffer_pool, unit) op" where
  "unpin page_id dirty pool =
     (case bp_page_table pool page_id of
        None \<Rightarrow> fail_op (PageNotFound page_id) pool
      | Some frame_idx \<Rightarrow>
          if frame_idx < length (bp_frames pool) then
            (set_frame frame_idx (frame_unpin dirty (bp_frames pool ! frame_idx)) pool, Inr ())
          else (pool, Inl Panic))"

definition flush_page :: "(bytes \<Rightarrow> u32) \<Rightarrow> u32 \<Rightarrow> (buffer_pool, unit) op" where
  "flush_page crc page_id pool =
     (case bp_page_table pool page_id of
        None \<Rightarrow> fail_op (PageNotFound page_id) pool
      | Some frame_idx \<Rightarrow>
          if frame_idx < length (bp_frames pool) then
            (let frame = bp_frames pool ! frame_idx in
             if fr_dirty frame then
               bind_op (pool_pm (write_page crc page_id (fr_data frame))) (\<lambda>_ pool.
                 (set_frame frame_idx (frame\<lparr>fr_dirty := False\<rparr>)
                    (pool\<lparr>bp_write_count := bp_write_count pool + 1\<rparr>), Inr ())) pool
             else (pool, Inr ()))
          else (pool, Inl Panic))"

fun flush_each :: "(bytes \<Rightarrow> u32) \<Rightarrow> u32 list \<Rightarrow> (buffer_pool, unit) op" where
  "flush_each crc [] = ret_op ()"
| "flush_each crc (pid # pids) = bind_op (flush_page crc pid) (\<lambda>_. flush_each crc pids)"

text \<open>
  \<open>keys\<close> are the keys of the page table in the order its iterator yields them. Syncing the file
  changes nothing in the model.
\<close>

definition flush_all :: "(bytes \<Rightarrow> u32) \<Rightarrow> u32 list \<Rightarrow> (buffer_pool, unit) op" where
  "flush_all crc keys pool =
     flush_each crc
       (filter (\<lambda>pid. case bp_page_table pool pid of
                        None \<Rightarrow> False | Some i \<Rightarrow> fr_dirty (bp_frames pool ! i)) keys) pool"

definition capacity :: "buffer_pool \<Rightarrow> nat" where
  "capacity pool = length (bp_frames pool)"

definition cached_count :: "buffer_pool \<Rightarrow> nat" where
  "cached_count pool = card (dom (bp_page_table pool))"

section \<open>The invariant and the pages a pool stands for\<close>

definition frame_ok :: "(bytes \<Rightarrow> u32) \<Rightarrow> page_manager \<Rightarrow> frame \<Rightarrow> bool" where
  "frame_ok crc pm f \<longleftrightarrow>
     (case fr_page_id f of
        None \<Rightarrow> True
      | Some pid \<Rightarrow> pid \<in> pm_used pm \<and> page_ok (fr_data f)
          \<and> (fr_dirty f \<or> stamp_checksum crc (fr_data f) = stamp_checksum crc (pm_page pm pid)))"

definition table_ok :: "(u32 \<rightharpoonup> nat) \<Rightarrow> frame list \<Rightarrow> bool" where
  "table_ok t frames \<longleftrightarrow> (\<forall>pid i. t pid = Some i \<longleftrightarrow> i < length frames \<and> fr_page_id (frames ! i) = Some pid)"

definition pool_ok :: "(bytes \<Rightarrow> u32) \<Rightarrow> buffer_pool \<Rightarrow> bool" where
  "pool_ok crc pool \<longleftrightarrow>
     pm_ok crc (bp_pm pool) \<and> table_ok (bp_page_table pool) (bp_frames pool)
     \<and> (\<forall>f \<in> set (bp_frames pool). frame_ok crc (bp_pm pool) f)"

text \<open>
  The contents of a page, wherever they are, with the checksum the page will have on disk.
\<close>

definition pool_page :: "(bytes \<Rightarrow> u32) \<Rightarrow> buffer_pool \<Rightarrow> u32 \<Rightarrow> page" where
  "pool_page crc pool pid =
     stamp_checksum crc
       (case bp_page_table pool pid of
          None \<Rightarrow> pm_page (bp_pm pool) pid | Some i \<Rightarrow> fr_data (bp_frames pool ! i))"

definition pool_used :: "buffer_pool \<Rightarrow> u32 set" where
  "pool_used pool = pm_used (bp_pm pool)"

lemma stamp_stamp [simp]: "page_ok d \<Longrightarrow> stamp_checksum crc (stamp_checksum crc d) = stamp_checksum crc d"
  using compute_checksum_stamp [of d crc]
  by (simp add: stamp_checksum_def [of crc "stamp_checksum crc d"])
    (simp add: stamp_checksum_def blit_def page_ok_def page_consts)

lemma pool_page_set_frame:
  "fr_data f = fr_data (bp_frames pool ! i) \<Longrightarrow> pool_page crc (set_frame i f pool) pid = pool_page crc pool pid"
  by (cases "i < length (bp_frames pool)") 
    (auto simp: pool_page_def set_frame_def nth_list_update list_update_beyond not_less split: option.split)

lemma pool_page_fields [simp]:
  "pool_page crc (pool\<lparr>bp_clock := c\<rparr>) pid = pool_page crc pool pid"
  "pool_page crc (pool\<lparr>bp_read_count := c\<rparr>) pid = pool_page crc pool pid"
  "pool_page crc (pool\<lparr>bp_write_count := c\<rparr>) pid = pool_page crc pool pid"
  by (simp_all add: pool_page_def split: option.split)

section \<open>Frames and the page table\<close>

lemma table_ok_same:
  "table_ok t fs \<Longrightarrow> fr_page_id f = fr_page_id (fs ! i) \<Longrightarrow> table_ok t (fs[i := f])"
  by (cases "i < length fs") (auto simp: table_ok_def nth_list_update)

lemma table_ok_drop:
  "table_ok t fs \<Longrightarrow> i < length fs \<Longrightarrow> fr_page_id (fs ! i) = Some pid \<Longrightarrow> fr_page_id f = None
    \<Longrightarrow> table_ok (t(pid := None)) (fs[i := f])"
  unfolding table_ok_def by (simp add: nth_list_update) (metis option.distinct(1) option.inject)

lemma table_ok_install:
  "table_ok t fs \<Longrightarrow> i < length fs \<Longrightarrow> fr_page_id (fs ! i) = None \<Longrightarrow> t pid = None \<Longrightarrow> fr_page_id f = Some pid
    \<Longrightarrow> table_ok (t(pid \<mapsto> i)) (fs[i := f])"
  unfolding table_ok_def by (simp add: nth_list_update) (metis option.distinct(1) option.inject)

lemma pool_okD:
  assumes "pool_ok crc pool"
  shows "pm_ok crc (bp_pm pool)" and "table_ok (bp_page_table pool) (bp_frames pool)"
    and "i < length (bp_frames pool) \<Longrightarrow> frame_ok crc (bp_pm pool) (bp_frames pool ! i)"
    and "bp_page_table pool pid = Some i \<Longrightarrow>
      i < length (bp_frames pool) \<and> fr_page_id (bp_frames pool ! i) = Some pid
      \<and> pid \<in> pool_used pool \<and> page_ok (fr_data (bp_frames pool ! i))"
proof -
  show f: "frame_ok crc (bp_pm pool) (bp_frames pool ! i)" if "i < length (bp_frames pool)" for i
    using assms that by (simp add: pool_ok_def)
  show t: "table_ok (bp_page_table pool) (bp_frames pool)" and "pm_ok crc (bp_pm pool)"
    using assms by (simp_all add: pool_ok_def)
  assume "bp_page_table pool pid = Some i"
  then have "i < length (bp_frames pool) \<and> fr_page_id (bp_frames pool ! i) = Some pid"
    using t by (simp add: table_ok_def)
  with f [of i] show "i < length (bp_frames pool) \<and> fr_page_id (bp_frames pool ! i) = Some pid
      \<and> pid \<in> pool_used pool \<and> page_ok (fr_data (bp_frames pool ! i))"
    by (simp add: frame_ok_def pool_used_def)
qed

lemma page_ok_pm_used: "pm_ok crc pm \<Longrightarrow> pid \<in> pm_used pm \<Longrightarrow> page_ok (pm_page pm pid)"
  using pm_okD(1,5) page_ok_pm_page by blast

text \<open>
  One step of a pool: it keeps the invariant, the allocated pages and their contents, leaves the
  file alone where it is not cached, and caches at most the pages of \<open>X\<close> in addition.
\<close>

definition pool_step :: "(bytes \<Rightarrow> u32) \<Rightarrow> u32 set \<Rightarrow> buffer_pool \<Rightarrow> buffer_pool \<Rightarrow> bool" where
  "pool_step crc X p q \<longleftrightarrow>
     pool_ok crc q \<and> pool_used q = pool_used p \<and> pm_room (bp_pm q) = pm_room (bp_pm p)
     \<and> length (bp_frames q) = length (bp_frames p)
     \<and> (\<forall>pid \<in> pool_used p. pool_page crc q pid = pool_page crc p pid)
     \<and> (\<forall>pid \<in> pool_used p. bp_page_table p pid = None \<longrightarrow> pm_page (bp_pm q) pid = pm_page (bp_pm p) pid)
     \<and> dom (bp_page_table q) \<subseteq> dom (bp_page_table p) \<union> X"

lemma pool_step_refl: "pool_ok crc p \<Longrightarrow> pool_step crc {} p p"
  by (simp add: pool_step_def)

lemma pool_step_trans:
  assumes "pool_step crc X p q" and "pool_step crc Y q r" and "X \<inter> dom (bp_page_table q) = {}"
  shows "pool_step crc (X \<union> Y) p r"
  using assms unfolding pool_step_def by (auto 4 4)

lemma write_back:
  assumes ok: "pool_ok crc pool" and i: "bp_page_table pool pid = Some i"
  shows "\<exists>pm'. write_page crc pid (fr_data (bp_frames pool ! i)) (bp_pm pool) = (pm', Inr ()) \<and> pm_ok crc pm'
    \<and> pm_used pm' = pm_used (bp_pm pool) \<and> pm_room pm' = pm_room (bp_pm pool)
    \<and> (\<forall>q \<in> pm_used (bp_pm pool). pm_page pm' q =
        (if q = pid then pool_page crc pool pid else pm_page (bp_pm pool) q))"
  using pm_device.wr_used [OF pool_okD(1) [OF ok], of pid "fr_data (bp_frames pool ! i)"] pool_okD(4) [OF ok i] i
  by (auto simp: pool_used_def pool_page_def)

lemma frame_ok_pm:
  assumes "frame_ok crc pm f" and "pm_used pm \<subseteq> pm_used pm'"
    and "\<And>q. q \<in> pm_used pm \<Longrightarrow> fr_page_id f = Some q \<Longrightarrow> stamp_checksum crc (pm_page pm' q) = stamp_checksum crc (pm_page pm q)"
  shows "frame_ok crc pm' f"
  using assms by (auto simp: frame_ok_def split: option.splits)

text \<open>Cleaning: a cached page is written to the file, and its frame may become clean.\<close>

lemma clean_frame:
  assumes ok: "pool_ok crc pool" and i: "bp_page_table pool pid = Some i"
    and w: "pm_used pm' = pm_used (bp_pm pool)" "pm_ok crc pm'"
      "\<forall>q \<in> pm_used (bp_pm pool). pm_page pm' q = (if q = pid then pool_page crc pool pid else pm_page (bp_pm pool) q)"
    and f: "f \<in> set (bp_frames pool)"
  shows "frame_ok crc pm' f"
proof (cases "fr_page_id f = Some pid")
  case True
  from f obtain j where j: "j < length (bp_frames pool)" "f = bp_frames pool ! j" by (auto simp: in_set_conv_nth)
  with True have "bp_page_table pool pid = Some j" using pool_okD(2) [OF ok] by (simp add: table_ok_def)
  with i have f: "f = bp_frames pool ! i" using j by simp
  note c = pool_okD(4) [OF ok i]
  then have "stamp_checksum crc (fr_data f) = stamp_checksum crc (pm_page pm' pid)"
    using w(3) i f by (simp add: pool_used_def pool_page_def)
  then show ?thesis using c True f w(1) by (simp add: frame_ok_def pool_used_def)
next
  case False
  have "frame_ok crc (bp_pm pool) f" using ok f by (simp add: pool_ok_def)
  then show ?thesis using w(1,3) False by (auto intro: frame_ok_pm)
qed

lemma evict_ok:
  assumes ok: "pool_ok crc pool" and v: "v < length (bp_frames pool)" and pid: "fr_page_id (bp_frames pool ! v) = Some pid"
  shows "\<exists>pool'. evict_frame crc v pool = (pool', Inr v) \<and> pool_step crc {} pool pool'
    \<and> fr_page_id (bp_frames pool' ! v) = None \<and> (\<forall>j. j \<noteq> v \<longrightarrow> bp_frames pool' ! j = bp_frames pool ! j)
    \<and> bp_page_table pool' = (bp_page_table pool)(pid := None)"
proof -
  have i: "bp_page_table pool pid = Some v" using pool_okD(2) [OF ok] v pid by (simp add: table_ok_def)
  let ?f = "bp_frames pool ! v"
  define pm' where "pm' = (if fr_dirty ?f then fst (write_page crc pid (fr_data ?f) (bp_pm pool)) else bp_pm pool)"
  define pool' where "pool' = (set_frame v (frame_reset ?f) (pool\<lparr>bp_pm := pm',
     bp_write_count := (if fr_dirty ?f then bp_write_count pool + 1 else bp_write_count pool),
     bp_page_table := (bp_page_table pool)(pid := None)\<rparr>))"
  from write_back [OF ok i] obtain w where
    w: "write_page crc pid (fr_data ?f) (bp_pm pool) = (w, Inr ())" "pm_ok crc w" "pm_used w = pm_used (bp_pm pool)"
      "pm_room w = pm_room (bp_pm pool)"
      "\<forall>q \<in> pm_used (bp_pm pool). pm_page w q = (if q = pid then pool_page crc pool pid else pm_page (bp_pm pool) q)" by blast
  have pm: "pm_ok crc pm'" "pm_used pm' = pm_used (bp_pm pool)" "pm_room pm' = pm_room (bp_pm pool)"
    using w pool_okD(1) [OF ok] by (simp_all add: pm'_def)
  have frames: "frame_ok crc pm' f" if "f \<in> set (bp_frames pool)" for f
    using clean_frame [OF ok i w(3,2,5) that] ok that w(1) by (auto simp: pm'_def pool_ok_def)
  have pages: "stamp_checksum crc (pm_page pm' q) = (if q = pid then pool_page crc pool q else stamp_checksum crc (pm_page (bp_pm pool) q))"
    "q \<noteq> pid \<Longrightarrow> pm_page pm' q = pm_page (bp_pm pool) q"
    if "q \<in> pm_used (bp_pm pool)" for q
  proof -
    have "fr_dirty ?f \<or> stamp_checksum crc (fr_data ?f) = stamp_checksum crc (pm_page (bp_pm pool) pid)"
      using pool_okD(3) [OF ok v] pid by (simp add: frame_ok_def)
    moreover have "page_ok (fr_data ?f)" "page_ok (pm_page (bp_pm pool) pid)"
      using pool_okD(4) [OF ok i] page_ok_pm_used [OF pool_okD(1) [OF ok]] by (simp_all add: pool_used_def)
    ultimately show "stamp_checksum crc (pm_page pm' q) = (if q = pid then pool_page crc pool q else stamp_checksum crc (pm_page (bp_pm pool) q))"
      using w(1,5) that i by (auto simp: pm'_def pool_page_def)
    show "q \<noteq> pid \<Longrightarrow> pm_page pm' q = pm_page (bp_pm pool) q" using w(1,5) that by (simp add: pm'_def)
  qed
  have "evict_frame crc v pool = (pool', Inr v)"
    using pid w(1) by (simp add: evict_frame_def Let_def bind_op_def pool_pm_def pool'_def pm'_def set_frame_def)
  moreover have "pool_ok crc pool'"
    unfolding pool_ok_def pool'_def
    using pm(1) table_ok_drop [OF pool_okD(2) [OF ok] v pid, of "frame_reset ?f"] frames
    by (auto simp: set_frame_def frame_reset_def frame_ok_def dest!: set_update_subset_insert [THEN subsetD])
  moreover have "pool_page crc pool' q = pool_page crc pool q" if "q \<in> pool_used pool" for q
  proof (cases "q = pid")
    case True
    then show ?thesis using pages that by (simp add: pool'_def pool_page_def set_frame_def pool_used_def)
  next
    case False
    then show ?thesis
      using pages [of q] that pool_okD(4) [OF ok, of q] pid v
      by (auto simp: frame_reset_def pool'_def pool_page_def [of crc] set_frame_def pool_used_def nth_list_update split: option.split)
  qed
  moreover have "pm_page pm' q = pm_page (bp_pm pool) q" if "q \<in> pm_used (bp_pm pool)" "bp_page_table pool q = None" for q
    using pages(2) [OF that(1)] that(2) i by force
  ultimately show ?thesis
    using pm i v
    by (auto simp: pool_step_def pool'_def set_frame_def pool_used_def frame_reset_def)
qed

lemma min_by_key_None: "min_by_key f xs = None \<longleftrightarrow> xs = []"
  by (cases xs) (auto split: option.splits)

lemma min_by_key_Some:
  "min_by_key f xs = Some x \<Longrightarrow> x \<in> set xs \<and> (\<forall>y \<in> set xs. f x \<le> f y)"
  by (induction xs arbitrary: x) (auto simp: min_by_key_None split: option.splits if_splits)

text \<open>A frame can be had as soon as one frame is not pinned.\<close>

definition has_unpinned :: "buffer_pool \<Rightarrow> bool" where
  "has_unpinned pool \<longleftrightarrow> (\<exists>f \<in> set (bp_frames pool). is_free f \<or> \<not> is_pinned f)"

lemma find_free_frame_ok:
  assumes ok: "pool_ok crc pool" and u: "has_unpinned pool"
  shows "\<exists>pool' i. find_free_frame crc pool = (pool', Inr i) \<and> pool_step crc {} pool pool'
    \<and> i < length (bp_frames pool) \<and> fr_page_id (bp_frames pool' ! i) = None
    \<and> (is_free (bp_frames pool ! i) \<or> \<not> is_pinned (bp_frames pool ! i))
    \<and> (\<forall>j. j \<noteq> i \<longrightarrow> bp_frames pool' ! j = bp_frames pool ! j)
    \<and> (\<forall>q j. bp_page_table pool q = Some j \<and> j \<noteq> i \<longrightarrow> bp_page_table pool' q = Some j)"
proof (cases "List.find (\<lambda>i. is_free (bp_frames pool ! i)) [0..<length (bp_frames pool)]")
  case (Some i)
  then have "is_free (bp_frames pool ! i)" "i < length (bp_frames pool)" using find_SomeD [OF Some] by simp_all
  then show ?thesis using Some pool_step_refl [OF ok] by (simp add: find_free_frame_def is_free_def)
next
  case None
  then have nf: "\<not> is_free (bp_frames pool ! i)" if "i < length (bp_frames pool)" for i
    using that by (simp add: find_None_iff)
  from u obtain j where "j < length (bp_frames pool)" "\<not> is_pinned (bp_frames pool ! j)"
    using nf by (auto simp: has_unpinned_def in_set_conv_nth)
  then have "lru_victim (bp_frames pool) \<noteq> None"
    using nf by (auto simp: lru_victim_def min_by_key_None filter_empty_conv)
  then obtain v where v: "lru_victim (bp_frames pool) = Some v" by blast
  then have vi: "v < length (bp_frames pool)" "\<not> is_pinned (bp_frames pool ! v)"
    using min_by_key_Some [OF v [unfolded lru_victim_def]] by auto
  obtain pid where pid: "fr_page_id (bp_frames pool ! v) = Some pid" using nf [OF vi(1)] by (auto simp: is_free_def)
  from evict_ok [OF ok vi(1) pid] obtain pool' where
    e: "evict_frame crc v pool = (pool', Inr v)" "pool_step crc {} pool pool'" "fr_page_id (bp_frames pool' ! v) = None"
      "\<forall>j. j \<noteq> v \<longrightarrow> bp_frames pool' ! j = bp_frames pool ! j"
      "bp_page_table pool' = (bp_page_table pool)(pid := None)" by blast
  have "bp_page_table pool pid = Some v" using pool_okD(2) [OF ok] vi(1) pid by (simp add: table_ok_def)
  then show ?thesis using None v vi e by (auto simp: find_free_frame_def)
qed

lemma install_ok:
  assumes ok: "pool_ok crc pool" and i: "i < length (bp_frames pool)" "fr_page_id (bp_frames pool ! i) = None"
    and pid: "bp_page_table pool pid = None" "pid \<in> pool_used pool" and d: "page_ok d"
    and c: "dirty \<or> stamp_checksum crc d = stamp_checksum crc (pm_page (bp_pm pool) pid)"
  shows "pool_ok crc (install_page i pid d dirty pool)"
    and "pool_page crc (install_page i pid d dirty pool) q = (if q = pid then stamp_checksum crc d else pool_page crc pool q)"
proof -
  show "pool_ok crc (install_page i pid d dirty pool)"
    unfolding pool_ok_def install_page_def Let_def
    using ok table_ok_install [OF pool_okD(2) [OF ok] i pid(1)] d c pid(2)
    by (auto simp: set_frame_def pool_ok_def frame_ok_def pool_used_def dest!: set_update_subset_insert [THEN subsetD])
  show "pool_page crc (install_page i pid d dirty pool) q = (if q = pid then stamp_checksum crc d else pool_page crc pool q)"
    using i pool_okD(4) [OF ok, of q]
    by (auto simp: install_page_def Let_def pool_page_def set_frame_def nth_list_update split: option.split)
qed

lemma fetch_ok:
  assumes ok: "pool_ok crc pool" and pid: "pid \<in> pool_used pool"
    and u: "bp_page_table pool pid \<noteq> None \<or> has_unpinned pool"
  shows "\<exists>pool' i. fetch_page crc pid pool = (pool', Inr i) \<and> pool_step crc {pid} pool pool'
    \<and> bp_page_table pool' pid = Some i
    \<and> fr_pin_count (bp_frames pool' ! i) = (if bp_page_table pool pid = None then 0 else fr_pin_count (bp_frames pool ! i)) + 1
    \<and> (\<forall>j. j \<noteq> i \<longrightarrow> bp_frames pool' ! j = bp_frames pool ! j)
    \<and> (bp_page_table pool pid = None \<longrightarrow> is_free (bp_frames pool ! i) \<or> \<not> is_pinned (bp_frames pool ! i))
    \<and> (\<forall>q j. bp_page_table pool q = Some j \<and> j \<noteq> i \<longrightarrow> bp_page_table pool' q = Some j)"
proof (cases "bp_page_table pool pid")
  case (Some i)
  note c = pool_okD(4) [OF ok Some]
  define f where "f = (frame_pin (bp_frames pool ! i))\<lparr>fr_last_accessed := bp_clock pool + 1\<rparr>"
  define pool' where "pool' = (set_frame i f pool)\<lparr>bp_clock := bp_clock pool + 1\<rparr>"
  have f: "fr_data f = fr_data (bp_frames pool ! i)" "fr_page_id f = fr_page_id (bp_frames pool ! i)"
    "frame_ok crc (bp_pm pool) f" "fr_pin_count f = fr_pin_count (bp_frames pool ! i) + 1"
    using pool_okD(3) [OF ok, of i] c by (simp_all add: f_def frame_pin_def frame_ok_def)
  have "pool_ok crc pool'"
    unfolding pool_ok_def using ok f table_ok_same [OF pool_okD(2) [OF ok] f(2)]
    by (auto simp: pool'_def set_frame_def pool_ok_def dest!: set_update_subset_insert [THEN subsetD])
  moreover have "pool_page crc pool' q = pool_page crc pool q" for q
    using pool_page_set_frame [OF f(1)] by (simp add: pool'_def)
  moreover have "fetch_page crc pid pool = (pool', Inr i)"
    using Some c by (simp add: fetch_page_def pool'_def f_def Let_def)
  ultimately show ?thesis
    using Some c f(4) by (auto simp: pool_step_def pool_used_def pool'_def set_frame_def)
next
  case None
  then have "has_unpinned pool" using u by simp
  from find_free_frame_ok [OF ok this] obtain p1 i where
    p1: "find_free_frame crc pool = (p1, Inr i)" "pool_step crc {} pool p1" "i < length (bp_frames pool)"
      "fr_page_id (bp_frames p1 ! i) = None" "is_free (bp_frames pool ! i) \<or> \<not> is_pinned (bp_frames pool ! i)"
      "\<forall>j. j \<noteq> i \<longrightarrow> bp_frames p1 ! j = bp_frames pool ! j"
      "\<forall>q j. bp_page_table pool q = Some j \<and> j \<noteq> i \<longrightarrow> bp_page_table p1 q = Some j" by blast
  define p2 where "p2 = p1\<lparr>bp_read_count := bp_read_count p1 + 1\<rparr>"
  have st: "pool_ok crc p1" "pool_used p1 = pool_used pool" "length (bp_frames p1) = length (bp_frames pool)"
    "bp_page_table p1 pid = None"
    using p1(2) None by (auto simp: pool_step_def)
  have ok2: "pool_ok crc p2" using st(1) by (simp add: p2_def pool_ok_def)
  have d: "read_page crc pid (bp_pm p1) = Inr (pm_page (bp_pm p1) pid)" "page_ok (pm_page (bp_pm p1) pid)"
    using pm_device.rd_used page_ok_pm_used pool_okD(1) [OF st(1)] pid st(2) by (auto simp: pool_used_def)
  note inst = install_ok [OF ok2, of i pid "pm_page (bp_pm p1) pid" False]
  have "pool_ok crc (install_page i pid (pm_page (bp_pm p1) pid) False p2)"
    using inst(1) p1(3,4) st(2,3,4) pid d(2) by (simp add: p2_def pool_used_def)
  moreover have "pool_page crc (install_page i pid (pm_page (bp_pm p1) pid) False p2) q = pool_page crc p1 q" for q
  proof -
    have "pool_page crc p1 pid = stamp_checksum crc (pm_page (bp_pm p1) pid)" using st(4) by (simp add: pool_page_def)
    then show ?thesis using inst(2) [of q] p1(3,4) st(2,3,4) pid d(2) by (simp add: p2_def pool_used_def)
  qed
  moreover have "fetch_page crc pid pool = (install_page i pid (pm_page (bp_pm p1) pid) False p2, Inr i)"
    using None d(1) by (simp add: fetch_page_def bind_op_Inr [of "find_free_frame crc", OF p1(1)] p2_def)
  ultimately show ?thesis
    using None p1 st
    by (auto simp: pool_step_def install_page_def Let_def p2_def pool_used_def set_frame_def)
qed

section \<open>Reading, changing and creating a page\<close>

lemma set_frame_ok:
  assumes ok: "pool_ok crc pool" and i: "bp_page_table pool pid = Some i"
    and f: "fr_page_id f = Some pid" "page_ok (fr_data f)"
      "fr_dirty f \<or> stamp_checksum crc (fr_data f) = stamp_checksum crc (pm_page (bp_pm pool) pid)"
  shows "pool_ok crc (set_frame i f pool)"
    and "pool_page crc (set_frame i f pool) q = (if q = pid then stamp_checksum crc (fr_data f) else pool_page crc pool q)"
proof -
  note c = pool_okD(4) [OF ok i]
  have same: "fr_page_id f = fr_page_id (bp_frames pool ! i)" using c f(1) by simp
  have "frame_ok crc (bp_pm pool) f" using f c by (simp add: frame_ok_def pool_used_def)
  then show "pool_ok crc (set_frame i f pool)"
    unfolding pool_ok_def using ok table_ok_same [OF pool_okD(2) [OF ok] same]
    by (auto simp: set_frame_def pool_ok_def dest!: set_update_subset_insert [THEN subsetD])
  show "pool_page crc (set_frame i f pool) q = (if q = pid then stamp_checksum crc (fr_data f) else pool_page crc pool q)"
    using c i pool_okD(4) [OF ok, of q] by (auto simp: pool_page_def set_frame_def nth_list_update split: option.split)
qed

lemma cached_page:
  assumes "pool_ok crc pool" and "bp_page_table pool pid = Some i"
  shows "pool_page crc pool pid = stamp_checksum crc (fr_data (bp_frames pool ! i))"
  using assms by (simp add: pool_page_def)

lemma unpin_ok:
  assumes ok: "pool_ok crc pool" and i: "bp_page_table pool pid = Some i"
  shows "\<exists>pool'. unpin pid dirty pool = (pool', Inr ()) \<and> pool_step crc {} pool pool'
    \<and> bp_page_table pool' = bp_page_table pool \<and> bp_pm pool' = bp_pm pool
    \<and> bp_frames pool' = (bp_frames pool)[i := frame_unpin dirty (bp_frames pool ! i)]"
proof -
  define f where "f = frame_unpin dirty (bp_frames pool ! i)"
  note c = pool_okD(4) [OF ok i]
  have f: "fr_page_id f = Some pid" "fr_data f = fr_data (bp_frames pool ! i)"
    "fr_dirty f \<or> stamp_checksum crc (fr_data f) = stamp_checksum crc (pm_page (bp_pm pool) pid)"
    using c pool_okD(3) [OF ok, of i] by (auto simp: f_def frame_unpin_def Let_def frame_ok_def)
  have pf: "page_ok (fr_data f)" using c f(2) by simp
  note s = set_frame_ok [OF ok i f(1) pf f(3)]
  have "unpin pid dirty pool = (set_frame i f pool, Inr ())" using i c by (simp add: unpin_def f_def)
  moreover have "pool_step crc {} pool (set_frame i f pool)"
    using s f(2) cached_page [OF ok i] by (simp add: pool_step_def pool_used_def set_frame_def)
  ultimately show ?thesis by (simp add: set_frame_def f_def)
qed

lemma replace_ok:
  assumes ok: "pool_ok crc pool" and i: "bp_page_table pool pid = Some i" and d: "page_ok d"
  shows "\<exists>pool'. bind_op (set_frame_data i d) (\<lambda>_. unpin pid True) pool = (pool', Inr ()) \<and> pool_ok crc pool'
    \<and> bp_page_table pool' = bp_page_table pool \<and> bp_pm pool' = bp_pm pool
    \<and> (\<forall>q. pool_page crc pool' q = (if q = pid then stamp_checksum crc d else pool_page crc pool q))
    \<and> bp_frames pool' = (bp_frames pool)[i := frame_unpin True ((bp_frames pool ! i)\<lparr>fr_data := d\<rparr>)]"
proof -
  define f where "f = frame_unpin True ((bp_frames pool ! i)\<lparr>fr_data := d\<rparr>)"
  note c = pool_okD(4) [OF ok i]
  have f: "fr_page_id f = Some pid" "page_ok (fr_data f)" "fr_dirty f" "fr_data f = d"
    using c d by (simp_all add: f_def frame_unpin_def Let_def)
  note s = set_frame_ok [OF ok i f(1,2) disjI1 [OF f(3)]]
  have "bind_op (set_frame_data i d) (\<lambda>_. unpin pid True) pool = (set_frame i f pool, Inr ())"
    using c i by (simp add: bind_op_def set_frame_data_def unpin_def set_frame_def f_def)
  then show ?thesis using s f(4) by (simp add: set_frame_def f_def)
qed

text \<open>
  What a client sees. It owns the data pages \<open>D\<close>, whose contents are \<open>V\<close>, and nothing else is cached; it
  works on one page at a time, so that between two operations the pool is \<open>idle\<close> and during one it is
  \<open>busy\<close> with one pinned page.
\<close>

definition holds_pages :: "(bytes \<Rightarrow> u32) \<Rightarrow> u32 set \<Rightarrow> (u32 \<Rightarrow> page) \<Rightarrow> buffer_pool \<Rightarrow> bool" where
  "holds_pages crc D V pool \<longleftrightarrow>
     pool_ok crc pool \<and> D \<subseteq> pool_used pool \<and> dom (bp_page_table pool) \<subseteq> D
     \<and> (\<forall>pid \<in> D. pool_page crc pool pid = V pid)"

definition idle :: "buffer_pool \<Rightarrow> bool" where
  "idle pool \<longleftrightarrow> bp_frames pool \<noteq> [] \<and> (\<forall>i < length (bp_frames pool). fr_pin_count (bp_frames pool ! i) = 0)"

definition busy :: "u32 \<Rightarrow> nat \<Rightarrow> buffer_pool \<Rightarrow> bool" where
  "busy pid i pool \<longleftrightarrow>
     bp_page_table pool pid = Some i \<and> bp_frames pool \<noteq> []
     \<and> (\<forall>j < length (bp_frames pool). fr_pin_count (bp_frames pool ! j) = (if j = i then 1 else 0))"

text \<open>The pages of the file outside \<open>D\<close> and the free pages stay as they are.\<close>

definition same_rest :: "u32 set \<Rightarrow> buffer_pool \<Rightarrow> buffer_pool \<Rightarrow> bool" where
  "same_rest D p q \<longleftrightarrow>
     pool_used q = pool_used p \<and> pm_room (bp_pm q) = pm_room (bp_pm p)
     \<and> (\<forall>x \<in> pool_used p - D. pm_page (bp_pm q) x = pm_page (bp_pm p) x)"

lemma same_rest_refl: "same_rest D p p"
  by (simp add: same_rest_def)

lemma idle_unpinned: "idle pool \<Longrightarrow> has_unpinned pool"
  unfolding idle_def has_unpinned_def is_pinned_def by (metis length_greater_0_conv nth_mem word_not_simps(1))

lemma holds_step:
  assumes "holds_pages crc D V p" and "pool_step crc X p q" and "X \<subseteq> D"
  shows "holds_pages crc D V q" and "same_rest D p q"
proof -
  have D: "dom (bp_page_table p) \<subseteq> D" "D \<subseteq> pool_used p" using assms(1) by (simp_all add: holds_pages_def)
  then have "dom (bp_page_table q) \<subseteq> D" using assms(2,3) unfolding pool_step_def by blast
  then show "holds_pages crc D V q" using assms(1,2) D(2) by (auto simp: holds_pages_def pool_step_def)
  have "bp_page_table p x = None" if "x \<notin> D" for x using D(1) that by auto
  then show "same_rest D p q" using assms(2) by (auto simp: same_rest_def pool_step_def)
qed

lemma fetch_busy:
  assumes h: "holds_pages crc D V p" and id: "idle p" and pid: "pid \<in> D"
  shows "\<exists>q i. fetch_page crc pid p = (q, Inr i) \<and> holds_pages crc D V q \<and> busy pid i q \<and> same_rest D p q"
proof -
  have ok: "pool_ok crc p" and used: "pid \<in> pool_used p" using h pid by (auto simp: holds_pages_def)
  from fetch_ok [OF ok used disjI2 [OF idle_unpinned [OF id]]] obtain q i where
    q: "fetch_page crc pid p = (q, Inr i)" "pool_step crc {pid} p q" "bp_page_table q pid = Some i"
      "fr_pin_count (bp_frames q ! i) = (if bp_page_table p pid = None then 0 else fr_pin_count (bp_frames p ! i)) + 1"
      "\<forall>j. j \<noteq> i \<longrightarrow> bp_frames q ! j = bp_frames p ! j" by (elim exE conjE) (rule that)
  have ok': "pool_ok crc q" and len: "length (bp_frames q) = length (bp_frames p)"
    using q(2) by (simp_all add: pool_step_def)
  have "fr_pin_count (bp_frames p ! i) = 0"
    using id pool_okD(4) [OF ok' q(3)] len by (simp add: idle_def)
  then have "busy pid i q" using id q(3-5) len by (auto simp: busy_def idle_def split: if_splits)
  then show ?thesis using q(1) holds_step [OF h q(2)] pid by blast
qed

lemma busy_frame:
  assumes "holds_pages crc D V p" and "busy pid i p"
  shows "\<exists>f. get_frame i p = (p, Inr f) \<and> page_ok (fr_data f) \<and> stamp_checksum crc (fr_data f) = V pid"
proof -
  have ok: "pool_ok crc p" and t: "bp_page_table p pid = Some i" using assms by (simp_all add: holds_pages_def busy_def)
  have "pid \<in> D" using assms(1) t by (auto simp: holds_pages_def)
  then show ?thesis
    using pool_okD(4) [OF ok t] cached_page [OF ok t] assms(1) by (simp add: get_frame_def holds_pages_def)
qed

lemma busy_unpin:
  assumes h: "holds_pages crc D V p" and b: "busy pid i p"
  shows "\<exists>q. unpin pid False p = (q, Inr ()) \<and> holds_pages crc D V q \<and> idle q \<and> bp_pm q = bp_pm p"
proof -
  have ok: "pool_ok crc p" and t: "bp_page_table p pid = Some i" using assms by (simp_all add: holds_pages_def busy_def)
  from unpin_ok [OF ok t, of False] obtain q where
    q: "unpin pid False p = (q, Inr ())" "pool_step crc {} p q" "bp_page_table q = bp_page_table p" "bp_pm q = bp_pm p"
      "bp_frames q = (bp_frames p)[i := frame_unpin False (bp_frames p ! i)]" by blast
  have "idle q" using b q(5) pool_okD(4) [OF ok t] by (auto simp: busy_def idle_def nth_list_update frame_unpin_def Let_def)
  then show ?thesis using q(1,4) holds_step(1) [OF h q(2)] by blast
qed

lemma busy_replace:
  assumes h: "holds_pages crc D V p" and b: "busy pid i p" and d: "page_ok d"
  shows "\<exists>q. bind_op (set_frame_data i d) (\<lambda>_. unpin pid True) p = (q, Inr ())
    \<and> holds_pages crc D (V(pid := stamp_checksum crc d)) q \<and> idle q \<and> bp_pm q = bp_pm p"
proof -
  have ok: "pool_ok crc p" and t: "bp_page_table p pid = Some i" using h b by (simp_all add: holds_pages_def busy_def)
  from replace_ok [OF ok t d] obtain q where
    q: "bind_op (set_frame_data i d) (\<lambda>_. unpin pid True) p = (q, Inr ())" "pool_ok crc q"
      "bp_page_table q = bp_page_table p" "bp_pm q = bp_pm p"
      "\<forall>x. pool_page crc q x = (if x = pid then stamp_checksum crc d else pool_page crc p x)"
      "bp_frames q = (bp_frames p)[i := frame_unpin True ((bp_frames p ! i)\<lparr>fr_data := d\<rparr>)]" by blast
  have "idle q" using b q(6) pool_okD(4) [OF ok t] by (auto simp: busy_def idle_def nth_list_update frame_unpin_def Let_def)
  moreover have "holds_pages crc D (V(pid := stamp_checksum crc d)) q"
    using h q by (auto simp: holds_pages_def pool_used_def)
  ultimately show ?thesis using q(1,4) by blast
qed

text \<open>The file behind the pool may change where the client has no data page.\<close>

lemma holds_file:
  assumes h: "holds_pages crc D V p" and "pm_ok crc pm'" and "D \<subseteq> pm_used pm'"
    and same: "\<forall>x \<in> D. pm_page pm' x = pm_page (bp_pm p) x"
  shows "holds_pages crc D V (p\<lparr>bp_pm := pm'\<rparr>)" and "idle (p\<lparr>bp_pm := pm'\<rparr>) = idle p"
    and "busy pid i (p\<lparr>bp_pm := pm'\<rparr>) = busy pid i p"
proof -
  have ok: "pool_ok crc p" and D: "dom (bp_page_table p) \<subseteq> D" using h by (simp_all add: holds_pages_def)
  have "frame_ok crc pm' f" if f: "f \<in> set (bp_frames p)" for f
  proof (cases "fr_page_id f")
    case None
    then show ?thesis by (simp add: frame_ok_def)
  next
    case (Some x)
    from f obtain j where "j < length (bp_frames p)" "f = bp_frames p ! j" by (auto simp: in_set_conv_nth)
    with Some have "bp_page_table p x = Some j" using pool_okD(2) [OF ok] by (simp add: table_ok_def)
    then have "x \<in> D" using D by blast
    moreover have "frame_ok crc (bp_pm p) f" using ok f by (simp add: pool_ok_def)
    ultimately show ?thesis using assms(3) same Some by (auto simp: frame_ok_def)
  qed
  then have "pool_ok crc (p\<lparr>bp_pm := pm'\<rparr>)" using ok assms(2) by (simp add: pool_ok_def)
  moreover have "pool_page crc (p\<lparr>bp_pm := pm'\<rparr>) x = pool_page crc p x" if "x \<in> D" for x
    using same that by (simp add: pool_page_def split: option.split)
  ultimately show "holds_pages crc D V (p\<lparr>bp_pm := pm'\<rparr>)"
    using h assms(3) by (simp add: holds_pages_def pool_used_def)
  show "idle (p\<lparr>bp_pm := pm'\<rparr>) = idle p" "busy pid i (p\<lparr>bp_pm := pm'\<rparr>) = busy pid i p"
    by (simp_all add: idle_def busy_def)
qed

lemma new_busy:
  assumes h: "holds_pages crc D V p" and id: "idle p" and room: "0 < pm_room (bp_pm p)"
  shows "\<exists>q pid i. new_page crc p = (q, Inr (pid, i)) \<and> pid \<notin> pool_used p
    \<and> holds_pages crc (insert pid D) (V(pid := stamp_checksum crc zero_page)) q \<and> busy pid i q
    \<and> pool_used q = insert pid (pool_used p) \<and> pm_room (bp_pm q) = pm_room (bp_pm p) - 1
    \<and> (\<forall>x \<in> pool_used p - D. pm_page (bp_pm q) x = pm_page (bp_pm p) x)"
proof -
  have ok: "pool_ok crc p" and D: "D \<subseteq> pool_used p" "dom (bp_page_table p) \<subseteq> D" using h by (simp_all add: holds_pages_def)
  from pm_device.alloc_new [OF pool_okD(1) [OF ok] room] obtain pm' pid where
    a: "allocate_page crc (bp_pm p) = (pm', Inr pid)" "pm_ok crc pm'" "pid \<notin> pm_used (bp_pm p)"
      "pm_used pm' = insert pid (pm_used (bp_pm p))" "\<forall>q \<in> pm_used (bp_pm p). pm_page pm' q = pm_page (bp_pm p) q"
      "pm_room pm' = pm_room (bp_pm p) - 1" by blast
  define p0 where "p0 = p\<lparr>bp_pm := pm'\<rparr>"
  have D': "D \<subseteq> pm_used pm'" "\<forall>x \<in> D. pm_page pm' x = pm_page (bp_pm p) x"
    using D(1) a(4,5) by (auto simp: pool_used_def)
  have h0: "holds_pages crc D V p0" and id0: "idle p0"
    using holds_file(1,2) [OF h a(2) D'] id by (simp_all add: p0_def)
  have ok0: "pool_ok crc p0" using h0 by (simp add: holds_pages_def)
  from find_free_frame_ok [OF ok0 idle_unpinned [OF id0]] obtain p1 i where
    p1: "find_free_frame crc p0 = (p1, Inr i)" "pool_step crc {} p0 p1" "i < length (bp_frames p0)"
      "fr_page_id (bp_frames p1 ! i) = None" "\<forall>j. j \<noteq> i \<longrightarrow> bp_frames p1 ! j = bp_frames p0 ! j" by blast
  note h1 = holds_step [OF h0 p1(2)]
  have ok1: "pool_ok crc p1" and len: "length (bp_frames p1) = length (bp_frames p)"
    using p1(2) by (simp_all add: pool_step_def p0_def)
  have un: "bp_page_table p1 pid = None" using h1(1) D(1) a(3) by (auto simp: holds_pages_def pool_used_def)
  have u1: "pool_used p1 = insert pid (pool_used p)" using p1(2) a(4) by (simp add: pool_step_def p0_def pool_used_def)
  define q where "q = install_page i pid zero_page True p1"
  have i1: "i < length (bp_frames p1)" using p1(3) len by (simp add: p0_def)
  have pu: "pid \<in> pool_used p1" using u1 by simp
  note inst = install_ok [OF ok1 i1 p1(4) un pu page_ok_zero, of True, simplified]
  have new: "new_page crc p = (q, Inr (pid, i))"
    using a(1) p1(1) by (simp add: new_page_def bind_op_def pool_pm_def p0_def q_def)
  have "holds_pages crc (insert pid D) (V(pid := stamp_checksum crc zero_page)) q"
    using h1(1) inst u1 D(1) a(3)
    by (auto simp: holds_pages_def q_def install_page_def Let_def pool_used_def set_frame_def)
  moreover have "busy pid i q"
    using id p1(5) i1 len by (auto simp: busy_def q_def install_page_def Let_def set_frame_def idle_def nth_list_update p0_def)
  moreover have "pool_used q = insert pid (pool_used p)" "pm_room (bp_pm q) = pm_room (bp_pm p) - 1"
    "\<forall>x \<in> pool_used p - D. pm_page (bp_pm q) x = pm_page (bp_pm p) x"
    using h1(2) u1 a(4-6) by (auto simp: same_rest_def q_def install_page_def Let_def set_frame_def pool_used_def p0_def)
  ultimately show ?thesis using new a(3) by (auto simp: pool_used_def)
qed

section \<open>The page cache contract\<close>

text \<open>
  What a client of a page cache relies on, and the two ways it uses a page: \<open>peek\<close> computes
  something from its contents, \<open>poke\<close> replaces them.
\<close>

locale page_cache =
  fixes holds :: "u32 set \<Rightarrow> (u32 \<Rightarrow> page) \<Rightarrow> 's \<Rightarrow> bool"
    and quiet :: "'s \<Rightarrow> bool"
    and pinned :: "u32 \<Rightarrow> nat \<Rightarrow> 's \<Rightarrow> bool"
    and rest :: "u32 set \<Rightarrow> 's \<Rightarrow> 's \<Rightarrow> bool"
    and stamp :: "page \<Rightarrow> page"
    and fetch :: "u32 \<Rightarrow> ('s, nat) op"
    and frame_of :: "nat \<Rightarrow> ('s, frame) op"
    and release :: "u32 \<Rightarrow> ('s, unit) op"
    and store :: "nat \<Rightarrow> page \<Rightarrow> u32 \<Rightarrow> ('s, unit) op"
  assumes fetched: "holds D V s \<Longrightarrow> quiet s \<Longrightarrow> pid \<in> D \<Longrightarrow>
      \<exists>s' i. fetch pid s = (s', Inr i) \<and> holds D V s' \<and> pinned pid i s' \<and> rest D s s'"
    and framed: "holds D V s \<Longrightarrow> pinned pid i s \<Longrightarrow>
      \<exists>f. frame_of i s = (s, Inr f) \<and> page_ok (fr_data f) \<and> stamp (fr_data f) = V pid"
    and released: "holds D V s \<Longrightarrow> pinned pid i s \<Longrightarrow>
      \<exists>s'. release pid s = (s', Inr ()) \<and> holds D V s' \<and> quiet s' \<and> rest D s s'"
    and stored: "holds D V s \<Longrightarrow> pinned pid i s \<Longrightarrow> page_ok d \<Longrightarrow>
      \<exists>s'. store i d pid s = (s', Inr ()) \<and> holds D (V(pid := stamp d)) s' \<and> quiet s' \<and> rest D s s'"
    and rest_trans: "rest D s s' \<Longrightarrow> rest D s' s'' \<Longrightarrow> rest D s s''"
begin

lemma peek_ok:
  assumes h: "holds D V s" "quiet s" "pid \<in> D" and g: "\<And>d. page_ok d \<Longrightarrow> stamp d = V pid \<Longrightarrow> g d = Inr x"
  shows "\<exists>s'. bind_op (fetch pid) (\<lambda>i. bind_op (frame_of i) (\<lambda>f. bind_op (\<lambda>s. (s, g (fr_data f)))
      (\<lambda>x. bind_op (release pid) (\<lambda>_. ret_op x)))) s = (s', Inr x) \<and> holds D V s' \<and> quiet s' \<and> rest D s s'"
proof -
  from fetched [OF h] obtain s1 i where
    s1: "fetch pid s = (s1, Inr i)" "holds D V s1" "pinned pid i s1" "rest D s s1" by blast
  from framed [OF s1(2,3)] obtain f where
    f: "frame_of i s1 = (s1, Inr f)" "page_ok (fr_data f)" "stamp (fr_data f) = V pid" by blast
  from released [OF s1(2,3)] obtain s2 where
    s2: "release pid s1 = (s2, Inr ())" "holds D V s2" "quiet s2" "rest D s1 s2" by blast
  show ?thesis using s1(1) f(1) g [OF f(2,3)] s2 rest_trans [OF s1(4) s2(4)] by (simp add: bind_op_def)
qed

lemma poke_ok:
  assumes h: "holds D V s" "quiet s" "pid \<in> D"
    and g: "\<And>d. page_ok d \<Longrightarrow> stamp d = V pid \<Longrightarrow> \<exists>d'. g d = (d', Inr x) \<and> page_ok d' \<and> stamp d' = w"
  shows "\<exists>s' d. page_ok d \<and> stamp d = V pid \<and> bind_op (fetch pid) (\<lambda>i. bind_op (frame_of i) (\<lambda>f.
      case g (fr_data f) of
        (d', Inl e) \<Rightarrow> (\<lambda>s. (s, Inl e))
      | (d', Inr x) \<Rightarrow> bind_op (store i d' pid) (\<lambda>_. ret_op (x, fr_data f, d')))) s = (s', Inr (x, d, fst (g d)))
    \<and> holds D (V(pid := w)) s' \<and> quiet s' \<and> rest D s s'"
proof -
  from fetched [OF h] obtain s1 i where
    s1: "fetch pid s = (s1, Inr i)" "holds D V s1" "pinned pid i s1" "rest D s s1" by blast
  from framed [OF s1(2,3)] obtain f where
    f: "frame_of i s1 = (s1, Inr f)" "page_ok (fr_data f)" "stamp (fr_data f) = V pid" by blast
  from g [OF f(2,3)] obtain d' where d': "g (fr_data f) = (d', Inr x)" "page_ok d'" "stamp d' = w" by blast
  from stored [OF s1(2,3) d'(2)] obtain s2 where
    s2: "store i d' pid s1 = (s2, Inr ())" "holds D (V(pid := w)) s2" "quiet s2" "rest D s1 s2" unfolding d'(3) by blast
  show ?thesis
    using s1(1) f d'(1) s2 rest_trans [OF s1(4) s2(4)]
    by (intro exI [of _ s2] exI [of _ "fr_data f"]) (simp add: bind_op_def)
qed

end

definition store_page :: "nat \<Rightarrow> page \<Rightarrow> u32 \<Rightarrow> (buffer_pool, unit) op" where
  "store_page i d pid = bind_op (set_frame_data i d) (\<lambda>_. unpin pid True)"

interpretation pool_cache: page_cache "holds_pages crc" idle busy same_rest "stamp_checksum crc" "fetch_page crc"
  get_frame "\<lambda>pid. unpin pid False" store_page
proof unfold_locales
  fix D V p pid i d and s s' s'' :: buffer_pool
  show "holds_pages crc D V p \<Longrightarrow> idle p \<Longrightarrow> pid \<in> D \<Longrightarrow>
      \<exists>s' i. fetch_page crc pid p = (s', Inr i) \<and> holds_pages crc D V s' \<and> busy pid i s' \<and> same_rest D p s'"
    by (rule fetch_busy)
  assume "same_rest D s s'" "same_rest D s' s''"
  then show "same_rest D s s''" by (simp add: same_rest_def)
next
  fix D V p pid i d
  assume h: "holds_pages crc D V p" "busy pid i p"
  show "\<exists>f. get_frame i p = (p, Inr f) \<and> page_ok (fr_data f) \<and> stamp_checksum crc (fr_data f) = V pid"
    by (rule busy_frame [OF h])
  show "\<exists>s'. unpin pid False p = (s', Inr ()) \<and> holds_pages crc D V s' \<and> idle s' \<and> same_rest D p s'"
    using busy_unpin [OF h] by (auto simp: same_rest_def pool_used_def)
  assume d: "page_ok d"
  show "\<exists>s'. store_page i d pid p = (s', Inr ()) \<and> holds_pages crc D (V(pid := stamp_checksum crc d)) s' \<and> idle s'
      \<and> same_rest D p s'"
    using busy_replace [OF h d] by (auto simp: same_rest_def pool_used_def store_page_def)
qed

section \<open>Flushing\<close>

lemma flush_page_ok:
  assumes ok: "pool_ok crc pool" and i: "bp_page_table pool pid = Some i"
  shows "\<exists>pool'. flush_page crc pid pool = (pool', Inr ()) \<and> pool_step crc {} pool pool'
    \<and> bp_page_table pool' = bp_page_table pool
    \<and> bp_frames pool' = (bp_frames pool)[i := (bp_frames pool ! i)\<lparr>fr_dirty := False\<rparr>]"
proof -
  note c = pool_okD(4) [OF ok i]
  let ?f = "bp_frames pool ! i"
  from write_back [OF ok i] obtain w where
    w: "write_page crc pid (fr_data ?f) (bp_pm pool) = (w, Inr ())" "pm_ok crc w" "pm_used w = pm_used (bp_pm pool)"
      "pm_room w = pm_room (bp_pm pool)"
      "\<forall>q \<in> pm_used (bp_pm pool). pm_page w q = (if q = pid then pool_page crc pool pid else pm_page (bp_pm pool) q)" by blast
  define p1 where "p1 = pool\<lparr>bp_pm := w, bp_write_count := bp_write_count pool + 1\<rparr>"
  have ok1: "pool_ok crc p1"
    using ok w(2) clean_frame [OF ok i w(3,2,5)] by (simp add: p1_def pool_ok_def)
  have pg: "pool_page crc p1 x = pool_page crc pool x" if "x \<in> pool_used pool" for x
    using that w(5) i by (auto simp: pool_page_def p1_def pool_used_def split: option.split)
  show ?thesis
  proof (cases "fr_dirty ?f")
    case False
    then have "?f\<lparr>fr_dirty := False\<rparr> = ?f" by simp
    then have "(bp_frames pool)[i := ?f\<lparr>fr_dirty := False\<rparr>] = bp_frames pool" by (metis list_update_id)
    then show ?thesis using False i c pool_step_refl [OF ok] by (simp add: flush_page_def Let_def)
  next
    case True
    have i1: "bp_page_table p1 pid = Some i" using i by (simp add: p1_def)
    have "stamp_checksum crc (fr_data ?f) = stamp_checksum crc (pm_page (bp_pm p1) pid)"
      using w(5) c i by (simp add: p1_def pool_used_def pool_page_def)
    then have "pool_ok crc (set_frame i (?f\<lparr>fr_dirty := False\<rparr>) p1)"
      "pool_page crc (set_frame i (?f\<lparr>fr_dirty := False\<rparr>) p1) x = pool_page crc p1 x" for x
      using set_frame_ok [OF ok1 i1, of "?f\<lparr>fr_dirty := False\<rparr>"] c cached_page [OF ok1 i1] by (simp_all add: p1_def)
    moreover have "flush_page crc pid pool = (set_frame i (?f\<lparr>fr_dirty := False\<rparr>) p1, Inr ())"
      using True i c w(1) by (simp add: flush_page_def Let_def bind_op_def pool_pm_def p1_def)
    ultimately show ?thesis
      using w i pg by (auto simp: pool_step_def pool_used_def set_frame_def p1_def)
  qed
qed

lemma flush_each_ok:
  assumes "pool_ok crc pool" and "\<forall>pid \<in> set pids. bp_page_table pool pid \<noteq> None"
  shows "\<exists>pool'. flush_each crc pids pool = (pool', Inr ()) \<and> pool_step crc {} pool pool'
    \<and> bp_page_table pool' = bp_page_table pool
    \<and> (\<forall>i < length (bp_frames pool). bp_frames pool' ! i =
        (if fr_page_id (bp_frames pool ! i) \<in> Some ` set pids then (bp_frames pool ! i)\<lparr>fr_dirty := False\<rparr>
         else bp_frames pool ! i))"
  using assms
proof (induction pids arbitrary: pool)
  case Nil
  then show ?case using pool_step_refl by simp
next
  case (Cons pid pids)
  then obtain i where i: "bp_page_table pool pid = Some i" by auto
  from flush_page_ok [OF Cons.prems(1) i] obtain p1 where
    p1: "flush_page crc pid pool = (p1, Inr ())" "pool_step crc {} pool p1" "bp_page_table p1 = bp_page_table pool"
      "bp_frames p1 = (bp_frames pool)[i := (bp_frames pool ! i)\<lparr>fr_dirty := False\<rparr>]" by blast
  from Cons.IH [of p1] Cons.prems(2) p1(2,3) obtain q where
    q: "flush_each crc pids p1 = (q, Inr ())" "pool_step crc {} p1 q" "bp_page_table q = bp_page_table p1"
      "\<forall>i < length (bp_frames p1). bp_frames q ! i =
        (if fr_page_id (bp_frames p1 ! i) \<in> Some ` set pids then (bp_frames p1 ! i)\<lparr>fr_dirty := False\<rparr>
         else bp_frames p1 ! i)" by (auto simp: pool_step_def)
  have "pool_step crc {} pool q" using pool_step_trans [OF p1(2) q(2)] by simp
  moreover have "bp_frames q ! j = (if fr_page_id (bp_frames pool ! j) \<in> Some ` set (pid # pids)
      then (bp_frames pool ! j)\<lparr>fr_dirty := False\<rparr> else bp_frames pool ! j)" if j: "j < length (bp_frames pool)" for j
  proof -
    have "fr_page_id (bp_frames pool ! j) = Some pid \<longleftrightarrow> j = i"
      using pool_okD(2) [OF Cons.prems(1)] i j by (metis table_ok_def option.inject)
    then show ?thesis using q(4) p1(4) j by (auto simp: nth_list_update)
  qed
  ultimately show ?case using p1 q by (simp add: bind_op_Inr)
qed

lemma flush_all_ok:
  assumes ok: "pool_ok crc pool" and keys: "set keys = dom (bp_page_table pool)"
  shows "\<exists>pool'. flush_all crc keys pool = (pool', Inr ()) \<and> pool_step crc {} pool pool'
    \<and> bp_page_table pool' = bp_page_table pool
    \<and> (\<forall>i < length (bp_frames pool). bp_frames pool' ! i = (bp_frames pool ! i)\<lparr>fr_dirty := False\<rparr>
         \<or> fr_page_id (bp_frames pool ! i) = None \<and> bp_frames pool' ! i = bp_frames pool ! i)
    \<and> (\<forall>pid \<in> pool_used pool. stamp_checksum crc (pm_page (bp_pm pool') pid) = pool_page crc pool pid)"
proof -
  define ds where "ds = filter (\<lambda>pid. case bp_page_table pool pid of None \<Rightarrow> False | Some i \<Rightarrow> fr_dirty (bp_frames pool ! i)) keys"
  have "\<forall>pid \<in> set ds. bp_page_table pool pid \<noteq> None" by (auto simp: ds_def split: option.splits)
  from flush_each_ok [OF ok this] obtain q where
    q: "flush_each crc ds pool = (q, Inr ())" "pool_step crc {} pool q" "bp_page_table q = bp_page_table pool"
      "\<forall>i < length (bp_frames pool). bp_frames q ! i =
        (if fr_page_id (bp_frames pool ! i) \<in> Some ` set ds then (bp_frames pool ! i)\<lparr>fr_dirty := False\<rparr>
         else bp_frames pool ! i)" by blast
  have fr: "bp_frames q ! i = (bp_frames pool ! i)\<lparr>fr_dirty := False\<rparr>"
    if "bp_page_table pool pid = Some i" for i pid
  proof -
    note c = pool_okD(4) [OF ok that]
    have "pid \<in> set ds \<longleftrightarrow> fr_dirty (bp_frames pool ! i)" using keys that by (auto simp: ds_def)
    then show ?thesis using q(4) c by (cases "fr_dirty (bp_frames pool ! i)") auto
  qed
  have "stamp_checksum crc (pm_page (bp_pm q) pid) = pool_page crc pool pid" if "pid \<in> pool_used pool" for pid
  proof (cases "bp_page_table pool pid")
    case None
    then show ?thesis using q(2) that by (simp add: pool_step_def pool_page_def)
  next
    case (Some i)
    have "pool_ok crc q" using q(2) by (simp add: pool_step_def)
    from pool_okD(3) [OF this, of i] pool_okD(4) [OF this, of pid i] have
      "stamp_checksum crc (fr_data (bp_frames q ! i)) = stamp_checksum crc (pm_page (bp_pm q) pid)"
      using fr [OF Some] q(3) Some by (simp add: frame_ok_def)
    then show ?thesis using fr [OF Some] Some by (simp add: pool_page_def)
  qed
  moreover have "bp_frames q ! i = (bp_frames pool ! i)\<lparr>fr_dirty := False\<rparr>
       \<or> fr_page_id (bp_frames pool ! i) = None \<and> bp_frames q ! i = bp_frames pool ! i"
    if "i < length (bp_frames pool)" for i
    using fr [of _ i] q(4) that pool_okD(2) [OF ok] by (cases "fr_page_id (bp_frames pool ! i)") (auto simp: table_ok_def)
  moreover have "flush_all crc keys pool = (q, Inr ())" using q(1) by (simp add: flush_all_def ds_def)
  ultimately show ?thesis using q(2,3) by blast
qed

lemma pool_new_ok:
  assumes "pm_ok crc pm"
  shows "pool_ok crc (pool_new n pm)" and "pool_used (pool_new n pm) = pm_used pm"
    and "pool_page crc (pool_new n pm) pid = stamp_checksum crc (pm_page pm pid)" and "0 < n \<Longrightarrow> idle (pool_new n pm)"
  using assms by (auto simp: pool_new_def pool_ok_def table_ok_def frame_ok_def frame_new_def pool_used_def pool_page_def idle_def)

lemma unpinned_count:
  assumes "card {i. i < capacity pool \<and> is_pinned (bp_frames pool ! i)} < capacity pool"
  shows "has_unpinned pool"
proof -
  have "{i. i < capacity pool \<and> is_pinned (bp_frames pool ! i)} \<noteq> {..<capacity pool}"
    using assms by (metis card_lessThan less_irrefl)
  then obtain i where "i < length (bp_frames pool)" "\<not> is_pinned (bp_frames pool ! i)" by (auto simp: capacity_def)
  then show ?thesis unfolding has_unpinned_def by (metis nth_mem)
qed

section \<open>Properties\<close>

text \<open>
  C24. Fetching a page. As long as fewer frames are pinned than the pool has, fetching an allocated page
  always succeeds: it returns a frame that holds the current contents of that page, whether they were
  cached, modified in the cache or only on disk. The fetch may evict another page but loses nothing: the
  contents of all pages stay the same, and pinned pages stay in their frames untouched.
\<close>

theorem fetch_progress:
  assumes "pool_ok crc pool" and "pid \<in> pool_used pool"
    and "card {i. i < capacity pool \<and> is_pinned (bp_frames pool ! i)} < capacity pool"
  shows "\<exists>pool' i. fetch_page crc pid pool = (pool', Inr i) \<and> pool_ok crc pool' \<and> i < capacity pool'
    \<and> fr_page_id (bp_frames pool' ! i) = Some pid
    \<and> stamp_checksum crc (fr_data (bp_frames pool' ! i)) = pool_page crc pool pid
    \<and> (\<forall>q \<in> pool_used pool. pool_page crc pool' q = pool_page crc pool q)
    \<and> (\<forall>q j. q \<noteq> pid \<and> bp_page_table pool q = Some j \<and> is_pinned (bp_frames pool ! j) \<longrightarrow>
          bp_page_table pool' q = Some j \<and> bp_frames pool' ! j = bp_frames pool ! j)"
proof -
  from fetch_ok [OF assms(1,2) disjI2 [OF unpinned_count [OF assms(3)]]] obtain p i where
    p: "fetch_page crc pid pool = (p, Inr i)" "pool_step crc {pid} pool p" "bp_page_table p pid = Some i"
      "\<forall>j. j \<noteq> i \<longrightarrow> bp_frames p ! j = bp_frames pool ! j"
      "bp_page_table pool pid = None \<longrightarrow> is_free (bp_frames pool ! i) \<or> \<not> is_pinned (bp_frames pool ! i)"
      "\<forall>q j. bp_page_table pool q = Some j \<and> j \<noteq> i \<longrightarrow> bp_page_table p q = Some j"
    by (elim exE conjE) (rule that)
  have ok: "pool_ok crc p" using p(2) by (simp add: pool_step_def)
  note c = pool_okD(4) [OF ok p(3)]
  have "j \<noteq> i" if "q \<noteq> pid" "bp_page_table pool q = Some j" "is_pinned (bp_frames pool ! j)" for q j
  proof (cases "bp_page_table pool pid")
    case None
    then show ?thesis using p(5) that pool_okD(4) [OF assms(1) that(2)] by (auto simp: is_free_def)
  next
    case (Some k)
    then have "k = i" using p(1) pool_okD(4) [OF assms(1) Some] by (auto simp: fetch_page_def Let_def)
    then show ?thesis using that pool_okD(4) [OF assms(1) Some] pool_okD(4) [OF assms(1) that(2)] by auto
  qed
  then show ?thesis
    using p c ok cached_page [OF ok p(3)] assms(2) by (auto simp: pool_step_def capacity_def)
qed

theorem fetch_progress_witness:
  "\<exists>pm pid pool' i. allocate_page (\<lambda>_. 5) (pm_open []) = (pm, Inr pid)
     \<and> fetch_page (\<lambda>_. 5) pid (pool_new 1 pm) = (pool', Inr i) \<and> i < capacity pool'"
proof -
  have n: "pm_ok (\<lambda>_. 5) (pm_open [])" "0 < pm_room (pm_open [])"
    using pm_ok_new [of "\<lambda>_. 5"] by simp_all
  from pm_device.alloc_new [OF n] obtain pm pid where
    a: "allocate_page (\<lambda>_. 5) (pm_open []) = (pm, Inr pid)" "pm_ok (\<lambda>_. 5) pm" "pid \<in> pm_used pm" by blast
  have "capacity (pool_new 1 pm) = 1" and z: "{i. i < capacity (pool_new 1 pm) \<and> is_pinned (bp_frames (pool_new 1 pm) ! i)} = {}"
    by (auto simp: capacity_def pool_new_def is_pinned_def frame_new_def)
  then show ?thesis
    using fetch_progress [OF pool_new_ok(1) [OF a(2)], of pid 1] pool_new_ok(2) [OF a(2), of 1] a by auto
qed

text \<open>
  C25. Flushing. Whatever order the page table is iterated in, flushing the pool succeeds and afterwards the
  file holds the current contents of every allocated page: a pool opened on that file shows the same
  contents, no frame is dirty, and what is cached and pinned does not change.
\<close>

theorem flush_all_durable:
  assumes "pool_ok crc pool" and "set keys = dom (bp_page_table pool)"
  shows "\<exists>pool'. flush_all crc keys pool = (pool', Inr ()) \<and> pool_ok crc pool'
    \<and> (\<forall>pid \<in> pool_used pool. pool_page crc (pool_new n (bp_pm pool')) pid = pool_page crc pool pid
          \<and> pool_page crc pool' pid = pool_page crc pool pid)
    \<and> bp_page_table pool' = bp_page_table pool
    \<and> (\<forall>pid i. bp_page_table pool' pid = Some i \<longrightarrow> \<not> fr_dirty (bp_frames pool' ! i)
          \<and> fr_pin_count (bp_frames pool' ! i) = fr_pin_count (bp_frames pool ! i))"
proof -
  from flush_all_ok [OF assms] obtain q where
    q: "flush_all crc keys pool = (q, Inr ())" "pool_step crc {} pool q" "bp_page_table q = bp_page_table pool"
      "\<forall>i < length (bp_frames pool). bp_frames q ! i = (bp_frames pool ! i)\<lparr>fr_dirty := False\<rparr>
         \<or> fr_page_id (bp_frames pool ! i) = None \<and> bp_frames q ! i = bp_frames pool ! i"
      "\<forall>pid \<in> pool_used pool. stamp_checksum crc (pm_page (bp_pm q) pid) = pool_page crc pool pid" by blast
  have ok: "pool_ok crc q" using q(2) by (simp add: pool_step_def)
  have "\<not> fr_dirty (bp_frames q ! i) \<and> fr_pin_count (bp_frames q ! i) = fr_pin_count (bp_frames pool ! i)"
    if "bp_page_table q pid = Some i" for pid i
    using q(3,4) that pool_okD(4) [OF assms(1), of pid i] by force
  then show ?thesis
    using q pool_new_ok(3) [OF pool_okD(1) [OF ok]] ok by (auto simp: pool_step_def)
qed

theorem flush_all_durable_witness:
  "\<exists>pool pid i pool'. new_page (\<lambda>_. 5) (pool_new 2 (pm_open [])) = (pool, Inr (pid, i))
     \<and> flush_all (\<lambda>_. 5) [pid] pool = (pool', Inr ()) \<and> \<not> fr_dirty (bp_frames pool' ! i)
     \<and> pool_page (\<lambda>_. 5) (pool_new 2 (bp_pm pool')) pid = stamp_checksum (\<lambda>_. 5) zero_page"
proof -
  define p where "p = pool_new 2 (pm_open [])"
  have n: "pm_ok (\<lambda>_. 5) (pm_open [])" "0 < pm_room (pm_open [])"
    using pm_ok_new [of "\<lambda>_. 5"] by simp_all
  have "holds_pages (\<lambda>_. 5) {} (\<lambda>_. zero_page) p" "idle p" "0 < pm_room (bp_pm p)"
    unfolding p_def using pool_new_ok(1,4) [OF n(1), of 2] n(2) by (simp_all add: holds_pages_def pool_new_def)
  from new_busy [OF this] obtain q pid i where q: "new_page (\<lambda>_. 5) p = (q, Inr (pid, i))"
      "holds_pages (\<lambda>_. 5) {pid} ((\<lambda>_. zero_page)(pid := stamp_checksum (\<lambda>_. 5) zero_page)) q" "busy pid i q"
    by blast
  then have "pool_ok (\<lambda>_. 5) q" and keys: "set [pid] = dom (bp_page_table q)" and used: "pid \<in> pool_used q"
    and page: "pool_page (\<lambda>_. 5) q pid = stamp_checksum (\<lambda>_. 5) zero_page" and i: "bp_page_table q pid = Some i"
    by (auto simp: holds_pages_def busy_def)
  from flush_all_durable [OF this(1,2), of 2] obtain q' where
      "flush_all (\<lambda>_. 5) [pid] q = (q', Inr ())" "bp_page_table q' = bp_page_table q"
      "\<forall>pid \<in> pool_used q. pool_page (\<lambda>_. 5) (pool_new 2 (bp_pm q')) pid = pool_page (\<lambda>_. 5) q pid"
      "\<forall>pid i. bp_page_table q' pid = Some i \<longrightarrow> \<not> fr_dirty (bp_frames q' ! i)"
    by blast
  then show ?thesis using q(1) used page i unfolding p_def by auto
qed

end
