(* ===== verification/Wire_Text.thy ===== *)
theory Wire_Text
  imports Grumpy_Prelude
begin

text \<open>
  What the wire protocol uses of Rust's \<^verbatim>\<open>str\<close>. A string is the list of its characters, each a
  Unicode scalar value; byte lengths and byte offsets are those of its UTF-8 encoding, and slicing
  at an offset inside a character is a panic. Decimal numbers are printed and parsed as
  \<^verbatim>\<open>Display\<close> and \<^verbatim>\<open>FromStr\<close> of the integer types do.
\<close>

named_theorems str_simps \<open>splitting, trimming and joining of strings\<close>

type_synonym rust_str = "nat list"

definition lit :: "string \<Rightarrow> rust_str" where
  "lit s = map of_char s"

text \<open>\<^verbatim>\<open>char::is_whitespace\<close>: the Unicode property White_Space.\<close>

definition is_whitespace :: "nat \<Rightarrow> bool" where
  "is_whitespace c \<longleftrightarrow> (9 \<le> c \<and> c \<le> 13) \<or> c = 32 \<or> c = 133 \<or> c = 160 \<or> c = 5760
     \<or> (8192 \<le> c \<and> c \<le> 8202) \<or> c = 8232 \<or> c = 8233 \<or> c = 8239 \<or> c = 8287 \<or> c = 12288"

definition utf8_len :: "nat \<Rightarrow> nat" where
  "utf8_len c = (if c < 128 then 1 else if c < 2048 then 2 else if c < 65536 then 3 else 4)"

definition utf8_lead :: "nat \<Rightarrow> nat" where
  "utf8_lead c =
     (if c < 128 then c else if c < 2048 then 192 + c div 64
      else if c < 65536 then 224 + c div 4096 else 240 + c div 262144)"

definition str_len :: "rust_str \<Rightarrow> nat" where
  "str_len s = sum_list (map utf8_len s)"

text \<open>\<^verbatim>\<open>&s[n..]\<close> and \<^verbatim>\<open>&s[..n]\<close> by byte offset.\<close>

fun slice_from :: "nat \<Rightarrow> rust_str \<Rightarrow> ('e, rust_str) rust" where
  "slice_from 0 s = Inr s"
| "slice_from n [] = Inl Panic"
| "slice_from n (c # s) = (if n < utf8_len c then Inl Panic else slice_from (n - utf8_len c) s)"

fun slice_to :: "nat \<Rightarrow> rust_str \<Rightarrow> ('e, rust_str) rust" where
  "slice_to 0 s = Inr []"
| "slice_to n [] = Inl Panic"
| "slice_to n (c # s) =
     (if n < utf8_len c then Inl Panic
      else bind_res (slice_to (n - utf8_len c) s) (\<lambda>r. Inr (c # r)))"

definition ascii_upper :: "nat \<Rightarrow> nat" where
  "ascii_upper c = (if 97 \<le> c \<and> c \<le> 122 then c - 32 else c)"

definition ascii_lower :: "nat \<Rightarrow> nat" where
  "ascii_lower c = (if 65 \<le> c \<and> c \<le> 90 then c + 32 else c)"

definition to_ascii_uppercase :: "rust_str \<Rightarrow> rust_str" where
  "to_ascii_uppercase s = map ascii_upper s"

definition eq_ignore_ascii_case :: "rust_str \<Rightarrow> rust_str \<Rightarrow> bool" where
  "eq_ignore_ascii_case a b \<longleftrightarrow> map ascii_lower a = map ascii_lower b"

definition trim_start :: "rust_str \<Rightarrow> rust_str" where
  "trim_start s = dropWhile is_whitespace s"

definition trim_end :: "rust_str \<Rightarrow> rust_str" where
  "trim_end s = rev (dropWhile is_whitespace (rev s))"

definition trim_str :: "rust_str \<Rightarrow> rust_str" where
  "trim_str s = trim_end (trim_start s)"

fun strip_nl_cr :: "rust_str \<Rightarrow> rust_str" where
  "strip_nl_cr (a # b # s) = (if a = 10 \<and> b = 13 then strip_nl_cr s else a # b # s)"
| "strip_nl_cr s = s"

text \<open>\<^verbatim>\<open>trim_end_matches("\r\n")\<close> and \<^verbatim>\<open>trim_end_matches('\n')\<close>.\<close>

definition trim_end_crlf :: "rust_str \<Rightarrow> rust_str" where
  "trim_end_crlf s = rev (strip_nl_cr (rev s))"

definition trim_end_lf :: "rust_str \<Rightarrow> rust_str" where
  "trim_end_lf s = rev (dropWhile (\<lambda>c. c = 10) (rev s))"

definition split_once :: "nat \<Rightarrow> rust_str \<Rightarrow> (rust_str \<times> rust_str) option" where
  "split_once d s =
     (case dropWhile (\<lambda>c. c \<noteq> d) s of
        [] \<Rightarrow> None
      | _ # r \<Rightarrow> Some (takeWhile (\<lambda>c. c \<noteq> d) s, r))"

section \<open>Decimal numbers\<close>

fun digits_value :: "nat \<Rightarrow> rust_str \<Rightarrow> nat option" where
  "digits_value acc [] = Some acc"
| "digits_value acc (c # s) =
     (if 48 \<le> c \<and> c \<le> 57 then digits_value (acc * 10 + (c - 48)) s else None)"

definition parse_digits :: "nat \<Rightarrow> rust_str \<Rightarrow> nat option" where
  "parse_digits bound s =
     (if s = [] then None
      else case digits_value 0 s of
             None \<Rightarrow> None
           | Some n \<Rightarrow> if n \<le> bound then Some n else None)"

text \<open>\<^verbatim>\<open>u16::from_str\<close>, \<^verbatim>\<open>usize::from_str\<close> (bounded by their maximum) and \<^verbatim>\<open>i64::from_str\<close>.\<close>

definition parse_unsigned :: "nat \<Rightarrow> rust_str \<Rightarrow> nat option" where
  "parse_unsigned bound s =
     (case s of c # r \<Rightarrow> parse_digits bound (if c = 43 then r else s) | [] \<Rightarrow> None)"

definition parse_i64 :: "rust_str \<Rightarrow> int option" where
  "parse_i64 s =
     (case s of
        c # r \<Rightarrow>
          if c = 45 then map_option (\<lambda>n. - int n) (parse_digits (2 ^ 63) r)
          else map_option int (parse_digits (2 ^ 63 - 1) (if c = 43 then r else s))
      | [] \<Rightarrow> None)"

fun show_nat :: "nat \<Rightarrow> rust_str" where
  "show_nat n = (if n < 10 then [48 + n] else show_nat (n div 10) @ [48 + n mod 10])"

declare show_nat.simps [simp del]

definition show_int :: "int \<Rightarrow> rust_str" where
  "show_int i = (if i < 0 then 45 # show_nat (nat (- i)) else show_nat (nat i))"

section \<open>Literals\<close>

lemma lit_Nil: "lit [] = []"
  by (simp add: lit_def)

lemma lit_Cons: "lit (c # s) = of_char c # lit s"
  by (simp add: lit_def)

lemma lit_append [str_simps]: "lit (a @ b) = lit a @ lit b"
  by (simp add: lit_def)

section \<open>Lengths and slices\<close>

lemma utf8_len_pos [simp]: "0 < utf8_len c"
  by (simp add: utf8_len_def)

lemma str_len_simps [simp]:
  "str_len [] = 0" "str_len (c # s) = utf8_len c + str_len s" "str_len (a @ b) = str_len a + str_len b"
  by (simp_all add: str_len_def)

lemma str_len_0 [simp]: "str_len s = 0 \<longleftrightarrow> s = []"
  by (cases s) (simp_all add: utf8_len_def)

lemma slice_from_Cons: "utf8_len c \<le> n \<Longrightarrow> slice_from n (c # s) = slice_from (n - utf8_len c) s"
  using utf8_len_pos [of c] by (cases n) simp_all

lemma slice_to_Cons:
  "utf8_len c \<le> n \<Longrightarrow>
   slice_to n (c # s) = bind_res (slice_to (n - utf8_len c) s) (\<lambda>r. Inr (c # r))"
  using utf8_len_pos [of c] by (cases n) simp_all

lemma slice_from_append [simp]: "slice_from (str_len a) (a @ b) = Inr b"
  by (induction a) (simp_all add: slice_from_Cons)

lemma slice_to_append [simp]: "slice_to (str_len a) (a @ b) = Inr a"
  by (induction a) (simp_all add: slice_to_Cons)

lemma slice_from_suffix: "slice_from n s = Inr r \<Longrightarrow> suffix r s"
  by (induction n s rule: slice_from.induct) (auto simp: suffix_ConsI split: if_splits)

lemma slice_from_length: "slice_from n s = Inr r \<Longrightarrow> length r \<le> length s"
  by (drule slice_from_suffix) (auto simp: suffix_def)

lemma slice_from_shorter: "slice_from n s = Inr r \<Longrightarrow> 0 < n \<Longrightarrow> length r < length s"
  by (cases n; cases s) (auto split: if_splits dest!: slice_from_length)

section \<open>Words and trimmed strings\<close>

text \<open>A word is what splitting at white space yields; a trimmed string is what \<^verbatim>\<open>trim\<close> yields.\<close>

definition word_str :: "rust_str \<Rightarrow> bool" where
  "word_str w \<longleftrightarrow> w \<noteq> [] \<and> (\<forall>c \<in> set w. \<not> is_whitespace c)"

definition trimmed :: "rust_str \<Rightarrow> bool" where
  "trimmed s \<longleftrightarrow> (s \<noteq> [] \<longrightarrow> \<not> is_whitespace (hd s) \<and> \<not> is_whitespace (last s))"

definition phrase :: "rust_str \<Rightarrow> bool" where
  "phrase s \<longleftrightarrow> s \<noteq> [] \<and> trimmed s"

lemma word_phrase: "word_str w \<Longrightarrow> phrase w"
  by (simp add: word_str_def phrase_def trimmed_def)

lemma phrase_nonempty: "phrase s \<Longrightarrow> s \<noteq> []"
  by (simp add: phrase_def)

lemma word_nonempty: "word_str s \<Longrightarrow> s \<noteq> []"
  by (simp add: word_str_def)

lemma is_whitespace_space [simp]: "is_whitespace 32"
  by (simp add: is_whitespace_def)

fun unwords :: "rust_str list \<Rightarrow> rust_str" where
  "unwords [] = []"
| "unwords [w] = w"
| "unwords (w # ws) = w @ 32 # unwords ws"

lemma unwords_Cons: "ws \<noteq> [] \<Longrightarrow> unwords (w # ws) = w @ 32 # unwords ws"
  by (cases ws) simp_all

lemma unwords_phrase: "ws \<noteq> [] \<Longrightarrow> \<forall>w \<in> set ws. phrase w \<Longrightarrow> phrase (unwords ws)"
  by (induction ws rule: unwords.induct) (auto simp: phrase_def trimmed_def)

lemma unwords_eq_Nil: "\<forall>w \<in> set ws. phrase w \<Longrightarrow> unwords ws = [] \<longleftrightarrow> ws = []"
  using unwords_phrase [of ws] by (auto simp: phrase_def)

lemma dropWhile_head: "s \<noteq> [] \<Longrightarrow> \<not> P (hd s) \<Longrightarrow> dropWhile P s = s"
  by (cases s) simp_all

lemma trim_start_phrase: "phrase s \<Longrightarrow> trim_start s = s"
  by (simp add: trim_start_def phrase_def trimmed_def dropWhile_head)

lemma trim_end_phrase: "phrase s \<Longrightarrow> trim_end s = s"
  by (simp add: trim_end_def phrase_def trimmed_def dropWhile_head hd_rev)

lemma trim_phrase: "phrase s \<Longrightarrow> trim_str s = s"
  by (simp add: trim_str_def trim_start_phrase trim_end_phrase)

lemma dropWhile_last: "dropWhile P s \<noteq> [] \<Longrightarrow> last (dropWhile P s) = last s"
  by (induction s) auto

lemma dropWhile_hd: "dropWhile P s \<noteq> [] \<Longrightarrow> \<not> P (hd (dropWhile P s))"
  by (rule hd_dropWhile)

lemma trim_trimmed: "trimmed (trim_str s)"
proof -
  define t where "t = trim_start s"
  have hd_t: "t \<noteq> [] \<Longrightarrow> \<not> is_whitespace (hd t)"
    unfolding t_def trim_start_def by (rule dropWhile_hd)
  define r where "r = dropWhile is_whitespace (rev t)"
  have r: "trim_end t = rev r" by (simp add: trim_end_def r_def)
  have *: "\<not> is_whitespace (hd r)" "last r = last (rev t)" "t \<noteq> []" if "r \<noteq> []"
    using that dropWhile_hd [of is_whitespace "rev t"] dropWhile_last [of is_whitespace "rev t"]
    by (auto simp: r_def)
  show ?thesis
    using * hd_t by (auto simp: trim_str_def trimmed_def r hd_rev last_rev simp flip: t_def)
qed

text \<open>Line endings do not touch a string that does not end in white space.\<close>

lemma phrase_rev:
  assumes "phrase s"
  obtains a t where "rev s = a # t" "\<not> is_whitespace a"
  using assms by (cases "rev s") (auto simp: phrase_def trimmed_def simp flip: hd_rev)

lemma strip_nl_cr_head: "a \<noteq> 10 \<Longrightarrow> strip_nl_cr (a # t) = a # t"
  by (cases t) simp_all

lemma trim_line_end [str_simps]:
  assumes "phrase s" "e \<in> {[], [10], [13, 10]}"
  shows "trim_end_lf (trim_end_crlf (s @ e)) = s"
proof -
  obtain a t where at: "rev s = a # t" and ws: "\<not> is_whitespace a"
    using assms(1) by (rule phrase_rev)
  have neq: "a \<noteq> 10" "a \<noteq> 13"
    using ws by (auto simp: is_whitespace_def)
  from at have s: "s = rev t @ [a]"
    by (metis rev.simps(2) rev_swap)
  show ?thesis
    using assms(2) neq by (auto simp: trim_end_lf_def trim_end_crlf_def s strip_nl_cr_head)
qed

section \<open>Printing and parsing numbers\<close>

lemma show_nat_nonempty [simp]: "show_nat n \<noteq> []"
  by (subst show_nat.simps) simp

lemma digits_value_append:
  "digits_value acc (a @ b) = Option.bind (digits_value acc a) (\<lambda>n. digits_value n b)"
  by (induction acc a rule: digits_value.induct) auto

lemma digits_value_show: "\<exists>k. \<forall>acc. digits_value acc (show_nat n) = Some (acc * k + n)"
proof (induction n rule: show_nat.induct)
  case (1 n)
  show ?case
  proof (cases "n < 10")
    case True
    then show ?thesis by (subst show_nat.simps) (auto intro!: exI [of _ 10])
  next
    case False
    with 1 obtain k where "\<forall>acc. digits_value acc (show_nat (n div 10)) = Some (acc * k + n div 10)"
      by blast
    then show ?thesis using False
      by (subst show_nat.simps) (auto simp: digits_value_append algebra_simps intro!: exI [of _ "10 * k"])
  qed
qed

lemma digits_value_show_0 [simp]: "digits_value 0 (show_nat n) = Some n"
  using digits_value_show [of n] by auto

lemma show_nat_digits: "c \<in> set (show_nat n) \<Longrightarrow> 48 \<le> c \<and> c \<le> 57"
proof (induction n rule: show_nat.induct)
  case (1 n)
  then show ?case
    by (subst (asm) (2) show_nat.simps) (auto split: if_splits)
qed

lemma parse_digits_show [simp]: "n \<le> bound \<Longrightarrow> parse_digits bound (show_nat n) = Some n"
  by (simp add: parse_digits_def)

lemma show_nat_cases:
  obtains c r where "show_nat n = c # r" "48 \<le> c" "c \<le> 57"
  using show_nat_digits [of _ n] by (cases "show_nat n") auto

lemma parse_unsigned_show [simp]: "n \<le> bound \<Longrightarrow> parse_unsigned bound (show_nat n) = Some n"
proof -
  assume n: "n \<le> bound"
  obtain c r where "show_nat n = c # r" "48 \<le> c" by (rule show_nat_cases)
  then show ?thesis using parse_digits_show [OF n] by (simp add: parse_unsigned_def)
qed

lemma parse_unsigned_bound: "parse_unsigned bound s = Some n \<Longrightarrow> n \<le> bound"
  by (auto simp: parse_unsigned_def parse_digits_def split: list.splits if_splits option.splits)

lemma parse_i64_show [simp]:
  assumes "- (2 ^ 63) \<le> i" "i < 2 ^ 63"
  shows "parse_i64 (show_int i) = Some i"
proof (cases "i < 0")
  case True
  with assms show ?thesis by (simp add: parse_i64_def show_int_def nat_le_iff)
next
  case False
  obtain c r where c: "show_nat (nat i) = c # r" "48 \<le> c" by (rule show_nat_cases)
  have "parse_digits (2 ^ 63 - 1) (show_nat (nat i)) = Some (nat i)"
    using assms by (intro parse_digits_show) (simp add: nat_le_iff)
  with False c show ?thesis by (simp add: parse_i64_def show_int_def)
qed

lemma show_nat_word [simp]: "word_str (show_nat n)"
  using show_nat_digits [of _ n] by (fastforce simp: word_str_def is_whitespace_def)

lemmas phrase_simps [simp] =
  word_phrase unwords_phrase unwords_eq_Nil trim_phrase

declare unwords.simps(3) [simp del]

section \<open>Keywords\<close>

text \<open>The keywords of the protocol are words of upper-case letters, digits and punctuation.\<close>

definition kw_str :: "string \<Rightarrow> bool" where
  "kw_str s \<longleftrightarrow> s \<noteq> [] \<and> (\<forall>c \<in> set s. 33 \<le> (of_char c :: nat) \<and> (of_char c :: nat) < 97)"

lemma lit_eq [simp]: "lit a = lit b \<longleftrightarrow> a = b"
  unfolding lit_def by (rule inj_map_eq_map) (auto intro: injI)

lemma lit_eq_Nil [simp]: "lit a = [] \<longleftrightarrow> a = []"
  by (simp add: lit_def)

lemma keyword_word [simp]: "kw_str s \<Longrightarrow> word_str (lit s)"
  by (auto simp: kw_str_def word_str_def lit_def is_whitespace_def) 

lemma keyword_upper [simp]: "kw_str s \<Longrightarrow> to_ascii_uppercase (lit s) = lit s"
  by (auto simp: kw_str_def to_ascii_uppercase_def lit_def ascii_upper_def)

lemma eq_ignore_refl [simp]: "eq_ignore_ascii_case a a"
  by (simp add: eq_ignore_ascii_case_def)

lemma ascii_lower_inj: "a < 97 \<Longrightarrow> b < 97 \<Longrightarrow> ascii_lower a = ascii_lower b \<longleftrightarrow> a = b"
  by (auto simp: ascii_lower_def)

lemma keyword_eq_ignore [simp]:
  assumes "kw_str a" "kw_str b"
  shows "eq_ignore_ascii_case (lit a) (lit b) \<longleftrightarrow> a = b"
proof
  assume "eq_ignore_ascii_case (lit a) (lit b)"
  then have "map (ascii_lower \<circ> of_char) a = map (ascii_lower \<circ> of_char) b"
    by (simp add: eq_ignore_ascii_case_def lit_def)
  then show "a = b"
    by (rule map_inj_on) (use assms in \<open>auto simp: kw_str_def inj_on_def ascii_lower_inj\<close>)
qed simp

end
