(* ===== verification/Wire_Command.thy ===== *)
theory Wire_Command
  imports Wire_Text
begin

text \<open>
  The commands of the wire protocol, \<^verbatim>\<open>src/grumpydb-protocol/src/command.rs\<close>: the \<^verbatim>\<open>Command\<close>
  enum with its fields in the order the source declares them, the action and the resource each
  command needs for the access check, and the commands a connection may send before it is
  authenticated.
\<close>

datatype command =
    WithConsistency "u16 option" "u16 option" command
  | Login rust_str rust_str rust_str
  | Token rust_str
  | Refresh rust_str
  | WhoAmI
  | Topology
  | SnapshotHlc
  | SchemaVersion
  | SchemaStatus
  | Use rust_str
  | Ping
  | Quit
  | CreateDatabase rust_str
  | DropDatabase rust_str
  | ListDatabases
  | SetDatabaseConsistency rust_str "u16 option" "u16 option"
  | ResetDatabaseConsistency rust_str
  | ShowDatabaseConsistency rust_str
  | CreateCollection rust_str
  | DropCollection rust_str
  | ListCollections
  | Insert rust_str rust_str rust_str
  | Get rust_str rust_str
  | Update rust_str rust_str rust_str
  | Delete rust_str rust_str
  | PutWithVc rust_str rust_str rust_str rust_str
  | Scan rust_str "rust_str option" "rust_str option"
  | CreateIndex rust_str rust_str rust_str
  | DropIndex rust_str rust_str
  | ListIndexes rust_str
  | Query rust_str rust_str rust_str
  | QueryRange rust_str rust_str rust_str rust_str
  | Compact rust_str
  | Flush
  | Count rust_str
  | CreateUser rust_str rust_str
  | DropUser rust_str
  | ListUsers "rust_str option"
  | Grant rust_str rust_str rust_str
  | Revoke rust_str rust_str rust_str
  | CreateTenant rust_str
  | DropTenant rust_str
  | ListTenants
  | ElectWriter rust_str rust_str "rust_str option"
  | PlanRebalanceAddNode rust_str
  | PlanRebalanceRemoveNode rust_str
  | ExecuteRebalanceAddNode rust_str rust_str
  | ExecuteRebalanceRemoveNode rust_str rust_str

datatype wire_action =
    ActRead | ActWrite | ActAdmin | ActManageUsers | ActManageDatabases | ActManageServer
  | ActManageCluster | ActSession

datatype wire_resource =
    ResServer
  | ResDatabase rust_str
  | ResCollection rust_str rust_str
  | ResNone

primrec required_action :: "command \<Rightarrow> wire_action" where
  "required_action (WithConsistency r w c) = required_action c"
| "required_action (Get coll k) = ActRead"
| "required_action (Scan coll s e) = ActRead"
| "required_action (Query coll i v) = ActRead"
| "required_action (QueryRange coll i s e) = ActRead"
| "required_action (Count coll) = ActRead"
| "required_action (Insert coll k v) = ActWrite"
| "required_action (Update coll k v) = ActWrite"
| "required_action (Delete coll k) = ActWrite"
| "required_action (PutWithVc coll k v vc) = ActWrite"
| "required_action (CreateCollection n) = ActAdmin"
| "required_action (DropCollection n) = ActAdmin"
| "required_action (CreateIndex coll i f) = ActAdmin"
| "required_action (DropIndex coll i) = ActAdmin"
| "required_action ListCollections = ActAdmin"
| "required_action (ListIndexes coll) = ActAdmin"
| "required_action (Compact coll) = ActAdmin"
| "required_action Flush = ActAdmin"
| "required_action (CreateDatabase n) = ActManageDatabases"
| "required_action (DropDatabase n) = ActManageDatabases"
| "required_action ListDatabases = ActManageDatabases"
| "required_action (SetDatabaseConsistency d r w) = ActManageDatabases"
| "required_action (ResetDatabaseConsistency d) = ActManageDatabases"
| "required_action (ShowDatabaseConsistency d) = ActManageDatabases"
| "required_action (CreateUser u p) = ActManageUsers"
| "required_action (DropUser u) = ActManageUsers"
| "required_action (ListUsers t) = ActManageUsers"
| "required_action (Grant r s u) = ActManageUsers"
| "required_action (Revoke r s u) = ActManageUsers"
| "required_action (CreateTenant n) = ActManageServer"
| "required_action (DropTenant n) = ActManageServer"
| "required_action ListTenants = ActManageServer"
| "required_action (ElectWriter n d c) = ActManageCluster"
| "required_action (PlanRebalanceAddNode n) = ActManageCluster"
| "required_action (PlanRebalanceRemoveNode n) = ActManageCluster"
| "required_action (ExecuteRebalanceAddNode n c) = ActManageCluster"
| "required_action (ExecuteRebalanceRemoveNode n c) = ActManageCluster"
| "required_action (Login t u p) = ActSession"
| "required_action (Token t) = ActSession"
| "required_action (Refresh t) = ActSession"
| "required_action WhoAmI = ActSession"
| "required_action Topology = ActSession"
| "required_action SnapshotHlc = ActSession"
| "required_action SchemaVersion = ActSession"
| "required_action SchemaStatus = ActSession"
| "required_action (Use d) = ActSession"
| "required_action Ping = ActSession"
| "required_action Quit = ActSession"

definition db_or_empty :: "rust_str option \<Rightarrow> rust_str" where
  "db_or_empty current_db = (case current_db of Some d \<Rightarrow> d | None \<Rightarrow> [])"

primrec target_resource :: "command \<Rightarrow> rust_str option \<Rightarrow> wire_resource" where
  "target_resource (WithConsistency r w c) current_db = target_resource c current_db"
| "target_resource (CreateTenant n) current_db = ResServer"
| "target_resource (DropTenant n) current_db = ResServer"
| "target_resource ListTenants current_db = ResServer"
| "target_resource (CreateDatabase n) current_db = ResDatabase n"
| "target_resource (DropDatabase n) current_db = ResDatabase n"
| "target_resource (SetDatabaseConsistency d r w) current_db = ResDatabase d"
| "target_resource (ResetDatabaseConsistency d) current_db = ResDatabase d"
| "target_resource (ShowDatabaseConsistency d) current_db = ResDatabase d"
| "target_resource ListDatabases current_db = ResNone"
| "target_resource (Insert coll k v) current_db = ResCollection (db_or_empty current_db) coll"
| "target_resource (Get coll k) current_db = ResCollection (db_or_empty current_db) coll"
| "target_resource (Update coll k v) current_db = ResCollection (db_or_empty current_db) coll"
| "target_resource (Delete coll k) current_db = ResCollection (db_or_empty current_db) coll"
| "target_resource (PutWithVc coll k v vc) current_db = ResCollection (db_or_empty current_db) coll"
| "target_resource (Scan coll s e) current_db = ResCollection (db_or_empty current_db) coll"
| "target_resource (Query coll i v) current_db = ResCollection (db_or_empty current_db) coll"
| "target_resource (QueryRange coll i s e) current_db = ResCollection (db_or_empty current_db) coll"
| "target_resource (Count coll) current_db = ResCollection (db_or_empty current_db) coll"
| "target_resource (Compact coll) current_db = ResCollection (db_or_empty current_db) coll"
| "target_resource (CreateIndex coll i f) current_db = ResCollection (db_or_empty current_db) coll"
| "target_resource (DropIndex coll i) current_db = ResCollection (db_or_empty current_db) coll"
| "target_resource (ListIndexes coll) current_db = ResCollection (db_or_empty current_db) coll"
| "target_resource (CreateCollection n) current_db = ResDatabase (db_or_empty current_db)"
| "target_resource (DropCollection n) current_db = ResDatabase (db_or_empty current_db)"
| "target_resource ListCollections current_db = ResDatabase (db_or_empty current_db)"
| "target_resource SnapshotHlc current_db = ResDatabase (db_or_empty current_db)"
| "target_resource Flush current_db = ResDatabase (db_or_empty current_db)"
| "target_resource (CreateUser u p) current_db = ResServer"
| "target_resource (DropUser u) current_db = ResServer"
| "target_resource (ListUsers t) current_db = ResServer"
| "target_resource (Grant r s u) current_db = ResServer"
| "target_resource (Revoke r s u) current_db = ResServer"
| "target_resource (ElectWriter n d c) current_db = ResServer"
| "target_resource (PlanRebalanceAddNode n) current_db = ResServer"
| "target_resource (PlanRebalanceRemoveNode n) current_db = ResServer"
| "target_resource (ExecuteRebalanceAddNode n c) current_db = ResServer"
| "target_resource (ExecuteRebalanceRemoveNode n c) current_db = ResServer"
| "target_resource (Login t u p) current_db = ResNone"
| "target_resource (Token t) current_db = ResNone"
| "target_resource (Refresh t) current_db = ResNone"
| "target_resource WhoAmI current_db = ResNone"
| "target_resource Topology current_db = ResNone"
| "target_resource SchemaVersion current_db = ResNone"
| "target_resource SchemaStatus current_db = ResNone"
| "target_resource (Use d) current_db = ResNone"
| "target_resource Ping current_db = ResNone"
| "target_resource Quit current_db = ResNone"

fun is_pre_auth :: "command \<Rightarrow> bool" where
  "is_pre_auth c =
     ((case c of WithConsistency r w command \<Rightarrow> is_pre_auth command | _ \<Rightarrow> False)
      \<or> (case c of
           Login t u p \<Rightarrow> True
         | Ping \<Rightarrow> True
         | Quit \<Rightarrow> True
         | Token t \<Rightarrow> True
         | Refresh t \<Rightarrow> True
         | _ \<Rightarrow> False))"

declare is_pre_auth.simps [simp del]

end
