(* ===== verification/Wire_Parser.thy ===== *)
theory Wire_Parser
  imports Wire_Command
begin

text \<open>
  The command parser, \<^verbatim>\<open>src/grumpydb-protocol/src/parser.rs\<close>: one definition per function of the
  source, with every error message. The two loops over \<^verbatim>\<open>READ_CONCERN\<close> and \<^verbatim>\<open>WRITE_CONCERN\<close>
  clauses have the same body, \<open>concern_clause\<close>. The results are that a parsed command has
  well-formed arguments and that the line of every command parses back to it.
\<close>

datatype protocol_error =
    Empty
  | UnknownCommand rust_str
  | MissingArgument rust_str
  | LineTooLong nat

definition MAX_LINE_LENGTH :: nat where
  "MAX_LINE_LENGTH = 1048576"

section \<open>Helpers\<close>

definition split_first_word :: "rust_str \<Rightarrow> rust_str \<times> rust_str" where
  "split_first_word s =
     (takeWhile (\<lambda>c. \<not> is_whitespace c) s, trim_start (dropWhile (\<lambda>c. \<not> is_whitespace c) s))"

definition split_last_word :: "rust_str \<Rightarrow> rust_str \<times> rust_str" where
  "split_last_word s =
     (let word = rev (takeWhile (\<lambda>c. \<not> is_whitespace c) (rev s));
          left = rev (dropWhile (\<lambda>c. \<not> is_whitespace c) (rev s))
      in if left = [] then ([], s)
         else (trim_end (butlast left), trim_start (last left # word)))"

definition require_arg :: "rust_str \<Rightarrow> rust_str \<Rightarrow> rust_str \<Rightarrow> protocol_error + rust_str" where
  "require_arg rest command arg_name =
     (if rest = []
      then Inl (MissingArgument (command @ lit '' requires <'' @ arg_name @ lit ''>''))
      else Inr rest)"

definition parse_concern_token :: "rust_str \<Rightarrow> nat \<Rightarrow> rust_str \<Rightarrow> protocol_error + u16" where
  "parse_concern_token token expected keyword =
     (let e = Inl (MissingArgument (keyword @ lit '' requires '' @ [expected] @ lit ''=<n>''))
      in case split_once (of_char (CHR ''='')) token of
           None \<Rightarrow> e
         | Some (k, v) \<Rightarrow>
             if \<not> eq_ignore_ascii_case k [expected] then e
             else (case parse_unsigned 65535 v of
                     None \<Rightarrow> e
                   | Some n \<Rightarrow> Inr (of_nat n)))"

text \<open>
  The body of the two clause loops. \<open>None\<close> is an input that starts with neither keyword.
\<close>

definition concern_clause ::
  "rust_str \<Rightarrow> u16 option \<Rightarrow> u16 option
     \<Rightarrow> protocol_error + (rust_str \<times> u16 option \<times> u16 option) option" where
  "concern_clause input read_concern write_concern =
     (let (word, rest) = split_first_word input
      in if eq_ignore_ascii_case word (lit ''READ_CONCERN'') then
           (if read_concern \<noteq> None
            then Inl (MissingArgument (lit ''READ_CONCERN specified more than once''))
            else let (token, remainder) = split_first_word rest
                 in if token = []
                    then Inl (MissingArgument (lit ''READ_CONCERN requires R=<n>''))
                    else bind_res (parse_concern_token token (of_char (CHR ''R'')) (lit ''READ_CONCERN''))
                           (\<lambda>n. Inr (Some (remainder, Some n, write_concern))))
         else if eq_ignore_ascii_case word (lit ''WRITE_CONCERN'') then
           (if write_concern \<noteq> None
            then Inl (MissingArgument (lit ''WRITE_CONCERN specified more than once''))
            else let (token, remainder) = split_first_word rest
                 in if token = []
                    then Inl (MissingArgument (lit ''WRITE_CONCERN requires W=<n>''))
                    else bind_res (parse_concern_token token (of_char (CHR ''W'')) (lit ''WRITE_CONCERN''))
                           (\<lambda>n. Inr (Some (remainder, read_concern, Some n))))
         else Inr None)"

fun consistency_prefix_loop ::
  "nat \<Rightarrow> rust_str \<Rightarrow> u16 option \<Rightarrow> u16 option
     \<Rightarrow> protocol_error + rust_str \<times> u16 option \<times> u16 option" where
  "consistency_prefix_loop 0 input r w = Inr (input, r, w)"
| "consistency_prefix_loop (Suc n) input r w =
     bind_res (concern_clause input r w)
       (\<lambda>step. case step of
          Some (input', r', w') \<Rightarrow> consistency_prefix_loop n input' r' w'
        | None \<Rightarrow> Inr (input, r, w))"

definition parse_consistency_prefix ::
  "rust_str \<Rightarrow> protocol_error + rust_str \<times> u16 option \<times> u16 option" where
  "parse_consistency_prefix input = consistency_prefix_loop 2 input None None"

lemma split_first_word_shorter:
  "split_first_word s = (w, r) \<Longrightarrow> w \<noteq> [] \<Longrightarrow> length r < length s"
  using length_dropWhile_le [of is_whitespace "dropWhile (\<lambda>c. \<not> is_whitespace c) s"]
  by (cases s) (auto simp: split_first_word_def trim_start_def less_Suc_eq_le
      intro: order_trans length_dropWhile_le split: if_splits)

lemma split_first_word_le: "length (snd (split_first_word s)) \<le> length s"
  by (simp add: split_first_word_def trim_start_def)
    (meson length_dropWhile_le order_trans)

lemma concern_clause_shorter:
  assumes "concern_clause input r w = Inr (Some (input', r', w'))"
  shows "length input' < length input"
proof -
  obtain wd rest where s1: "split_first_word input = (wd, rest)" by fastforce
  obtain t rem where s2: "split_first_word rest = (t, rem)" by fastforce
  have "input' = rem" "t \<noteq> []"
    using assms by (auto simp: concern_clause_def s1 s2 bind_res_eq_Inr split: if_splits)
  then show ?thesis
    using split_first_word_shorter [OF s2] split_first_word_le [of input] by (simp add: s1)
qed

function consistency_settings_loop ::
  "rust_str \<Rightarrow> u16 option \<Rightarrow> u16 option \<Rightarrow> protocol_error + u16 option \<times> u16 option" where
  "consistency_settings_loop input r w =
     (if input = [] then Inr (r, w)
      else bind_res (concern_clause input r w)
             (\<lambda>step. case step of
                Some (input', r', w') \<Rightarrow> consistency_settings_loop input' r' w'
              | None \<Rightarrow> Inl (MissingArgument
                  (lit ''SET CONSISTENCY expects READ_CONCERN and/or WRITE_CONCERN''))))"
  by pat_completeness auto
termination
  by (relation "measure (\<lambda>(input, r, w). length input)") (auto dest: concern_clause_shorter)

declare consistency_settings_loop.simps [simp del]

definition parse_database_consistency_settings ::
  "rust_str \<Rightarrow> protocol_error + u16 option \<times> u16 option" where
  "parse_database_consistency_settings rest =
     bind_res (consistency_settings_loop rest None None)
       (\<lambda>(r, w). if r = None \<and> w = None
          then Inl (MissingArgument (lit ''ALTER DATABASE <name> SET CONSISTENCY requires READ_CONCERN and/or WRITE_CONCERN''))
          else Inr (r, w))"

section \<open>The parsers of the verbs\<close>

definition parse_login :: "rust_str \<Rightarrow> protocol_error + command" where
  "parse_login rest =
     (let (tenant, rest) = split_first_word rest
      in if tenant = []
         then Inl (MissingArgument (lit ''LOGIN requires <tenant> <username> <password>''))
         else let (username, rest) = split_first_word rest
              in if username = [] then Inl (MissingArgument (lit ''LOGIN requires <username>''))
                 else if rest = [] then Inl (MissingArgument (lit ''LOGIN requires <password>''))
                 else Inr (Login tenant username rest))"

definition parse_create_index :: "rust_str \<Rightarrow> protocol_error + command" where
  "parse_create_index rest =
     (let (collection, rest) = split_first_word rest
      in if collection = []
         then Inl (MissingArgument (lit ''CREATE INDEX requires <collection> <index_name> <field_path>''))
         else let (index_name, rest) = split_first_word rest
              in if index_name = []
                 then Inl (MissingArgument (lit ''CREATE INDEX requires <index_name>''))
                 else bind_res (require_arg rest (lit ''CREATE INDEX'') (lit ''field_path''))
                        (\<lambda>field_path. Inr (CreateIndex collection index_name field_path)))"

definition parse_create_user :: "rust_str \<Rightarrow> protocol_error + command" where
  "parse_create_user rest =
     (let (username, rest) = split_first_word rest
      in if username = []
         then Inl (MissingArgument (lit ''CREATE USER requires <username> <password>''))
         else if rest = [] then Inl (MissingArgument (lit ''CREATE USER requires <password>''))
         else Inr (CreateUser username rest))"

definition parse_create :: "rust_str \<Rightarrow> protocol_error + command" where
  "parse_create rest =
     (let (sub, rest) = split_first_word rest;
          upper = to_ascii_uppercase sub
      in if upper = lit ''DATABASE'' then
           bind_res (require_arg rest (lit ''CREATE DATABASE'') (lit ''name''))
             (\<lambda>name. Inr (CreateDatabase name))
         else if upper = lit ''COLLECTION'' then
           bind_res (require_arg rest (lit ''CREATE COLLECTION'') (lit ''name''))
             (\<lambda>name. Inr (CreateCollection name))
         else if upper = lit ''INDEX'' then parse_create_index rest
         else if upper = lit ''USER'' then parse_create_user rest
         else if upper = lit ''TENANT'' then
           bind_res (require_arg rest (lit ''CREATE TENANT'') (lit ''name''))
             (\<lambda>name. Inr (CreateTenant name))
         else if upper = [] then
           Inl (MissingArgument (lit ''CREATE requires DATABASE|COLLECTION|INDEX|USER|TENANT''))
         else Inl (UnknownCommand (lit ''CREATE '' @ sub)))"

definition parse_drop :: "rust_str \<Rightarrow> protocol_error + command" where
  "parse_drop rest =
     (let (sub, rest) = split_first_word rest;
          upper = to_ascii_uppercase sub
      in if upper = lit ''DATABASE'' then
           bind_res (require_arg rest (lit ''DROP DATABASE'') (lit ''name''))
             (\<lambda>name. Inr (DropDatabase name))
         else if upper = lit ''COLLECTION'' then
           bind_res (require_arg rest (lit ''DROP COLLECTION'') (lit ''name''))
             (\<lambda>name. Inr (DropCollection name))
         else if upper = lit ''INDEX'' then
           (let (collection, rest) = split_first_word rest
            in if collection = []
               then Inl (MissingArgument (lit ''DROP INDEX requires <collection> <index_name>''))
               else bind_res (require_arg rest (lit ''DROP INDEX'') (lit ''index_name''))
                      (\<lambda>index_name. Inr (DropIndex collection index_name)))
         else if upper = lit ''USER'' then
           bind_res (require_arg rest (lit ''DROP USER'') (lit ''username''))
             (\<lambda>name. Inr (DropUser name))
         else if upper = lit ''TENANT'' then
           bind_res (require_arg rest (lit ''DROP TENANT'') (lit ''name''))
             (\<lambda>name. Inr (DropTenant name))
         else if upper = [] then
           Inl (MissingArgument (lit ''DROP requires DATABASE|COLLECTION|INDEX|USER|TENANT''))
         else Inl (UnknownCommand (lit ''DROP '' @ sub)))"

definition parse_list :: "rust_str \<Rightarrow> protocol_error + command" where
  "parse_list rest =
     (let (sub, rest) = split_first_word rest;
          upper = to_ascii_uppercase sub
      in if upper = lit ''DATABASES'' then Inr ListDatabases
         else if upper = lit ''COLLECTIONS'' then Inr ListCollections
         else if upper = lit ''INDEXES'' then
           bind_res (require_arg rest (lit ''LIST INDEXES'') (lit ''collection''))
             (\<lambda>coll. Inr (ListIndexes coll))
         else if upper = lit ''USERS'' then
           (if rest = [] then Inr (ListUsers None) else Inr (ListUsers (Some rest)))
         else if upper = lit ''TENANTS'' then Inr ListTenants
         else if upper = [] then
           Inl (MissingArgument (lit ''LIST requires DATABASES|COLLECTIONS|INDEXES|USERS|TENANTS''))
         else Inl (UnknownCommand (lit ''LIST '' @ sub)))"

definition parse_alter :: "rust_str \<Rightarrow> protocol_error + command" where
  "parse_alter rest =
     (let (sub, rest) = split_first_word rest
      in if \<not> eq_ignore_ascii_case sub (lit ''DATABASE'') then
           (if sub = [] then Inl (MissingArgument (lit ''ALTER requires DATABASE''))
            else Inl (UnknownCommand (lit ''ALTER '' @ sub)))
         else let (database, rest) = split_first_word rest
              in if database = []
                 then Inl (MissingArgument (lit ''ALTER DATABASE requires <name> SET|RESET CONSISTENCY''))
                 else let (action, rest) = split_first_word rest
                      in if eq_ignore_ascii_case action (lit ''SET'') then
                           (let (target, rest) = split_first_word rest
                            in if \<not> eq_ignore_ascii_case target (lit ''CONSISTENCY'')
                               then Inl (MissingArgument (lit ''ALTER DATABASE <name> SET requires CONSISTENCY''))
                               else bind_res (parse_database_consistency_settings rest)
                                      (\<lambda>(r, w). Inr (SetDatabaseConsistency database r w)))
                         else if eq_ignore_ascii_case action (lit ''RESET'') then
                           bind_res (require_arg rest (lit ''ALTER DATABASE <name> RESET'') (lit ''CONSISTENCY''))
                             (\<lambda>target. if \<not> eq_ignore_ascii_case target (lit ''CONSISTENCY'')
                                then Inl (MissingArgument (lit ''ALTER DATABASE <name> RESET requires CONSISTENCY''))
                                else Inr (ResetDatabaseConsistency database))
                         else Inl (MissingArgument (lit ''ALTER DATABASE <name> requires SET|RESET CONSISTENCY'')))"

definition parse_show :: "rust_str \<Rightarrow> protocol_error + command" where
  "parse_show rest =
     (let (sub, rest) = split_first_word rest
      in if \<not> eq_ignore_ascii_case sub (lit ''DATABASE'') then
           (if sub = [] then Inl (MissingArgument (lit ''SHOW requires DATABASE''))
            else Inl (UnknownCommand (lit ''SHOW '' @ sub)))
         else let (database, rest) = split_first_word rest
              in if database = []
                 then Inl (MissingArgument (lit ''SHOW DATABASE requires <name> CONSISTENCY''))
                 else bind_res (require_arg rest (lit ''SHOW DATABASE <name>'') (lit ''CONSISTENCY''))
                        (\<lambda>target. if \<not> eq_ignore_ascii_case target (lit ''CONSISTENCY'')
                           then Inl (MissingArgument (lit ''SHOW DATABASE <name> requires CONSISTENCY''))
                           else Inr (ShowDatabaseConsistency database)))"

definition parse_schema :: "rust_str \<Rightarrow> protocol_error + command" where
  "parse_schema rest =
     (let (sub, _) = split_first_word rest;
          upper = to_ascii_uppercase sub
      in if upper = lit ''VERSION'' then Inr SchemaVersion
         else if upper = lit ''STATUS'' then Inr SchemaStatus
         else if upper = [] then Inl (MissingArgument (lit ''SCHEMA requires VERSION|STATUS''))
         else Inl (UnknownCommand (lit ''SCHEMA '' @ sub)))"

definition parse_insert :: "rust_str \<Rightarrow> protocol_error + command" where
  "parse_insert rest =
     (let (collection, rest) = split_first_word rest
      in if collection = []
         then Inl (MissingArgument (lit ''INSERT requires <collection> <uuid> <json>''))
         else let (key, rest) = split_first_word rest
              in if key = [] then Inl (MissingArgument (lit ''INSERT requires <uuid>''))
                 else if rest = [] then Inl (MissingArgument (lit ''INSERT requires <json>''))
                 else Inr (Insert collection key rest))"

definition parse_get :: "rust_str \<Rightarrow> protocol_error + command" where
  "parse_get rest =
     (let (collection, rest) = split_first_word rest
      in if collection = []
         then Inl (MissingArgument (lit ''GET requires <collection> <uuid>''))
         else bind_res (require_arg rest (lit ''GET'') (lit ''uuid''))
                (\<lambda>key. Inr (Get collection (fst (split_first_word key)))))"

definition parse_update :: "rust_str \<Rightarrow> protocol_error + command" where
  "parse_update rest =
     (let (collection, rest) = split_first_word rest
      in if collection = []
         then Inl (MissingArgument (lit ''UPDATE requires <collection> <uuid> <json>''))
         else let (key, rest) = split_first_word rest
              in if key = [] then Inl (MissingArgument (lit ''UPDATE requires <uuid>''))
                 else if rest = [] then Inl (MissingArgument (lit ''UPDATE requires <json>''))
                 else Inr (Update collection key rest))"

definition parse_delete :: "rust_str \<Rightarrow> protocol_error + command" where
  "parse_delete rest =
     (let (collection, rest) = split_first_word rest
      in if collection = []
         then Inl (MissingArgument (lit ''DELETE requires <collection> <uuid>''))
         else bind_res (require_arg rest (lit ''DELETE'') (lit ''uuid''))
                (\<lambda>key. Inr (Delete collection (fst (split_first_word key)))))"

definition parse_put_with_vc :: "rust_str \<Rightarrow> protocol_error + command" where
  "parse_put_with_vc rest =
     (let (collection, rest) = split_first_word rest
      in if collection = []
         then Inl (MissingArgument (lit ''PUT_WITH_VC requires <collection> <uuid> <json> <vector_clock>''))
         else let (key, rest) = split_first_word rest
              in if key = [] then Inl (MissingArgument (lit ''PUT_WITH_VC requires <uuid>''))
                 else if rest = []
                 then Inl (MissingArgument (lit ''PUT_WITH_VC requires <json> <vector_clock>''))
                 else let (val, vector_clock) = split_last_word rest
                      in if val = [] \<or> vector_clock = []
                         then Inl (MissingArgument (lit ''PUT_WITH_VC requires <json> <vector_clock>''))
                         else Inr (PutWithVc collection key val vector_clock))"

definition parse_elect_writer :: "rust_str \<Rightarrow> protocol_error + command" where
  "parse_elect_writer rest =
     (let (node_id, rest) = split_first_word rest
      in if node_id = []
         then Inl (MissingArgument (lit ''ELECT-WRITER requires <node_id> <database> [collection]''))
         else let (database, rest) = split_first_word rest
              in if database = [] then Inl (MissingArgument (lit ''ELECT-WRITER requires <database>''))
                 else Inr (ElectWriter node_id database
                        (if rest = [] then None else Some (fst (split_first_word rest)))))"

definition parse_rebalance :: "rust_str \<Rightarrow> protocol_error + command" where
  "parse_rebalance rest =
     (let (mode, rest) = split_first_word rest;
          (target, rest) = split_first_word rest;
          mode_upper = to_ascii_uppercase mode;
          target_upper = to_ascii_uppercase target
      in if mode_upper = lit ''PLAN'' \<and> target_upper \<in> {lit ''ADD-NODE'', lit ''ADD_NODE''} then
           bind_res (require_arg rest (lit ''REBALANCE PLAN ADD-NODE'') (lit ''node_id''))
             (\<lambda>node_id. Inr (PlanRebalanceAddNode (fst (split_first_word node_id))))
         else if mode_upper = lit ''PLAN'' \<and> target_upper \<in> {lit ''REMOVE-NODE'', lit ''REMOVE_NODE''} then
           bind_res (require_arg rest (lit ''REBALANCE PLAN REMOVE-NODE'') (lit ''node_id''))
             (\<lambda>node_id. Inr (PlanRebalanceRemoveNode (fst (split_first_word node_id))))
         else if mode_upper = lit ''EXECUTE'' \<and> target_upper \<in> {lit ''ADD-NODE'', lit ''ADD_NODE''} then
           (let (node_id, rest) = split_first_word rest
            in if node_id = []
               then Inl (MissingArgument (lit ''REBALANCE EXECUTE ADD-NODE requires <node_id> <collection>''))
               else bind_res (require_arg rest (lit ''REBALANCE EXECUTE ADD-NODE'') (lit ''collection''))
                      (\<lambda>coll. Inr (ExecuteRebalanceAddNode node_id (fst (split_first_word coll)))))
         else if mode_upper = lit ''EXECUTE'' \<and> target_upper \<in> {lit ''REMOVE-NODE'', lit ''REMOVE_NODE''} then
           (let (node_id, rest) = split_first_word rest
            in if node_id = []
               then Inl (MissingArgument (lit ''REBALANCE EXECUTE REMOVE-NODE requires <node_id> <collection>''))
               else bind_res (require_arg rest (lit ''REBALANCE EXECUTE REMOVE-NODE'') (lit ''collection''))
                      (\<lambda>coll. Inr (ExecuteRebalanceRemoveNode node_id (fst (split_first_word coll)))))
         else Inl (MissingArgument (lit ''REBALANCE requires PLAN|EXECUTE and ADD-NODE|REMOVE-NODE'')))"

definition parse_scan :: "rust_str \<Rightarrow> protocol_error + command" where
  "parse_scan rest =
     (let (collection, rest) = split_first_word rest
      in if collection = [] then Inl (MissingArgument (lit ''SCAN requires <collection>''))
         else if rest = [] then Inr (Scan collection None None)
         else let (start, rest) = split_first_word rest
              in if rest = []
                 then Inl (MissingArgument (lit ''SCAN range requires both <start_uuid> <end_uuid>''))
                 else Inr (Scan collection (Some start) (Some (fst (split_first_word rest)))))"

definition parse_query :: "rust_str \<Rightarrow> protocol_error + command" where
  "parse_query rest =
     (let (collection, rest) = split_first_word rest
      in if collection = []
         then Inl (MissingArgument (lit ''QUERY requires <collection> <index_name> <json_value>''))
         else let (index_name, rest) = split_first_word rest
              in if index_name = [] then Inl (MissingArgument (lit ''QUERY requires <index_name>''))
                 else if rest = [] then Inl (MissingArgument (lit ''QUERY requires <json_value>''))
                 else Inr (Query collection index_name rest))"

definition parse_queryrange :: "rust_str \<Rightarrow> protocol_error + command" where
  "parse_queryrange rest =
     (let (collection, rest) = split_first_word rest
      in if collection = []
         then Inl (MissingArgument (lit ''QUERYRANGE requires <collection> <index_name> <start> <end>''))
         else let (index_name, rest) = split_first_word rest
              in if index_name = []
                 then Inl (MissingArgument (lit ''QUERYRANGE requires <index_name>''))
                 else let (start, rest) = split_first_word rest
                      in if start = [] then Inl (MissingArgument (lit ''QUERYRANGE requires <start>''))
                         else if rest = [] then Inl (MissingArgument (lit ''QUERYRANGE requires <end>''))
                         else Inr (QueryRange collection index_name start rest))"

definition parse_grant :: "rust_str \<Rightarrow> protocol_error + command" where
  "parse_grant rest =
     (let (role, rest) = split_first_word rest
      in if role = []
         then Inl (MissingArgument (lit ''GRANT requires <role> ON <resource> TO <username>''))
         else let (on_kw, rest) = split_first_word rest
              in if \<not> eq_ignore_ascii_case on_kw (lit ''ON'')
                 then Inl (MissingArgument (lit ''GRANT syntax: GRANT <role> ON <resource> TO <username>''))
                 else let (resource, rest) = split_first_word rest
                      in if resource = [] then Inl (MissingArgument (lit ''GRANT requires <resource>''))
                         else let (to_kw, rest) = split_first_word rest
                              in if \<not> eq_ignore_ascii_case to_kw (lit ''TO'')
                                 then Inl (MissingArgument (lit ''GRANT syntax: GRANT <role> ON <resource> TO <username>''))
                                 else bind_res (require_arg rest (lit ''GRANT'') (lit ''username''))
                                        (\<lambda>username. Inr (Grant role resource (fst (split_first_word username)))))"

definition parse_revoke :: "rust_str \<Rightarrow> protocol_error + command" where
  "parse_revoke rest =
     (let (role, rest) = split_first_word rest
      in if role = []
         then Inl (MissingArgument (lit ''REVOKE requires <role> ON <resource> FROM <username>''))
         else let (on_kw, rest) = split_first_word rest
              in if \<not> eq_ignore_ascii_case on_kw (lit ''ON'')
                 then Inl (MissingArgument (lit ''REVOKE syntax: REVOKE <role> ON <resource> FROM <username>''))
                 else let (resource, rest) = split_first_word rest
                      in if resource = [] then Inl (MissingArgument (lit ''REVOKE requires <resource>''))
                         else let (from_kw, rest) = split_first_word rest
                              in if \<not> eq_ignore_ascii_case from_kw (lit ''FROM'')
                                 then Inl (MissingArgument (lit ''REVOKE syntax: REVOKE <role> ON <resource> FROM <username>''))
                                 else bind_res (require_arg rest (lit ''REVOKE'') (lit ''username''))
                                        (\<lambda>username. Inr (Revoke role resource (fst (split_first_word username)))))"

section \<open>The dispatch on the verb\<close>

definition parse_verb :: "rust_str \<Rightarrow> rust_str \<Rightarrow> protocol_error + command" where
  "parse_verb verb rest =
     (let u = to_ascii_uppercase verb
      in if u = lit ''LOGIN'' then parse_login rest
         else if u = lit ''TOKEN'' then
           bind_res (require_arg rest (lit ''TOKEN'') (lit ''jwt'')) (\<lambda>token. Inr (Token token))
         else if u = lit ''REFRESH'' then
           bind_res (require_arg rest (lit ''REFRESH'') (lit ''refresh_token'')) (\<lambda>token. Inr (Refresh token))
         else if u = lit ''WHOAMI'' then Inr WhoAmI
         else if u = lit ''TOPOLOGY'' then Inr Topology
         else if u = lit ''SNAPSHOT_HLC'' \<or> u = lit ''SNAPSHOT-HLC'' then Inr SnapshotHlc
         else if u = lit ''USE'' then
           bind_res (require_arg rest (lit ''USE'') (lit ''database'')) (\<lambda>db. Inr (Use db))
         else if u = lit ''PING'' then Inr Ping
         else if u = lit ''QUIT'' then Inr Quit
         else if u = lit ''CREATE'' then parse_create rest
         else if u = lit ''DROP'' then parse_drop rest
         else if u = lit ''LIST'' then parse_list rest
         else if u = lit ''ALTER'' then parse_alter rest
         else if u = lit ''SHOW'' then parse_show rest
         else if u = lit ''SCHEMA'' then parse_schema rest
         else if u = lit ''GRANT'' then parse_grant rest
         else if u = lit ''REVOKE'' then parse_revoke rest
         else if u = lit ''ELECT-WRITER'' \<or> u = lit ''ELECT_WRITER'' then parse_elect_writer rest
         else if u = lit ''REBALANCE'' then parse_rebalance rest
         else if u = lit ''INSERT'' then parse_insert rest
         else if u = lit ''GET'' then parse_get rest
         else if u = lit ''UPDATE'' then parse_update rest
         else if u = lit ''DELETE'' then parse_delete rest
         else if u = lit ''PUT_WITH_VC'' then parse_put_with_vc rest
         else if u = lit ''SCAN'' then parse_scan rest
         else if u = lit ''QUERY'' then parse_query rest
         else if u = lit ''QUERYRANGE'' then parse_queryrange rest
         else if u = lit ''COMPACT'' then
           bind_res (require_arg rest (lit ''COMPACT'') (lit ''collection'')) (\<lambda>coll. Inr (Compact coll))
         else if u = lit ''FLUSH'' then Inr Flush
         else if u = lit ''COUNT'' then
           bind_res (require_arg rest (lit ''COUNT'') (lit ''collection'')) (\<lambda>coll. Inr (Count coll))
         else Inl (UnknownCommand verb))"

definition parse_command :: "rust_str \<Rightarrow> protocol_error + command" where
  "parse_command line0 =
     (let line = trim_end_lf (trim_end_crlf line0)
      in if str_len line > MAX_LINE_LENGTH then Inl (LineTooLong (str_len line))
         else let trimmed_line = trim_str line
              in if trimmed_line = [] then Inl Empty
                 else bind_res (parse_consistency_prefix trimmed_line)
                        (\<lambda>(input, r, w).
                           let (verb, rest) = split_first_word input
                           in bind_res (parse_verb verb rest)
                                (\<lambda>base. if r \<noteq> None \<or> w \<noteq> None then Inr (WithConsistency r w base)
                                        else Inr base)))"

section \<open>Well-formed commands\<close>

text \<open>
  What the handlers may assume of a parsed command: a name that is followed by another argument is
  one word, the last argument is a non-empty string without white space at its ends.
\<close>

definition opt_holds :: "('a \<Rightarrow> bool) \<Rightarrow> 'a option \<Rightarrow> bool" where
  "opt_holds P x \<longleftrightarrow> (case x of None \<Rightarrow> True | Some y \<Rightarrow> P y)"

lemma opt_holds_simps [simp]: "opt_holds P None" "opt_holds P (Some y) = P y"
  by (simp_all add: opt_holds_def)

primrec wf_base :: "command \<Rightarrow> bool" where
  "wf_base (WithConsistency r w c) = False"
| "wf_base (Get coll k) = (word_str coll \<and> word_str k)"
| "wf_base (Scan coll s e) = (word_str coll \<and> (s = None \<longleftrightarrow> e = None) \<and> opt_holds word_str s \<and> opt_holds word_str e)"
| "wf_base (Query coll i v) = (word_str coll \<and> word_str i \<and> phrase v)"
| "wf_base (QueryRange coll i s e) = (word_str coll \<and> word_str i \<and> word_str s \<and> phrase e)"
| "wf_base (Count coll) = phrase coll"
| "wf_base (Insert coll k v) = (word_str coll \<and> word_str k \<and> phrase v)"
| "wf_base (Update coll k v) = (word_str coll \<and> word_str k \<and> phrase v)"
| "wf_base (Delete coll k) = (word_str coll \<and> word_str k)"
| "wf_base (PutWithVc coll k v vc) = (word_str coll \<and> word_str k \<and> phrase v \<and> word_str vc)"
| "wf_base (CreateCollection n) = phrase n"
| "wf_base (DropCollection n) = phrase n"
| "wf_base (CreateIndex coll i f) = (word_str coll \<and> word_str i \<and> phrase f)"
| "wf_base (DropIndex coll i) = (word_str coll \<and> phrase i)"
| "wf_base ListCollections = True"
| "wf_base (ListIndexes coll) = phrase coll"
| "wf_base (Compact coll) = phrase coll"
| "wf_base Flush = True"
| "wf_base (CreateDatabase n) = phrase n"
| "wf_base (DropDatabase n) = phrase n"
| "wf_base ListDatabases = True"
| "wf_base (SetDatabaseConsistency d r w) = (word_str d \<and> (r \<noteq> None \<or> w \<noteq> None))"
| "wf_base (ResetDatabaseConsistency d) = word_str d"
| "wf_base (ShowDatabaseConsistency d) = word_str d"
| "wf_base (CreateUser u p) = (word_str u \<and> phrase p)"
| "wf_base (DropUser u) = phrase u"
| "wf_base (ListUsers t) = opt_holds phrase t"
| "wf_base (Grant r s u) = (word_str r \<and> word_str s \<and> word_str u)"
| "wf_base (Revoke r s u) = (word_str r \<and> word_str s \<and> word_str u)"
| "wf_base (CreateTenant n) = phrase n"
| "wf_base (DropTenant n) = phrase n"
| "wf_base ListTenants = True"
| "wf_base (ElectWriter n d c) = (word_str n \<and> word_str d \<and> opt_holds word_str c)"
| "wf_base (PlanRebalanceAddNode n) = word_str n"
| "wf_base (PlanRebalanceRemoveNode n) = word_str n"
| "wf_base (ExecuteRebalanceAddNode n c) = (word_str n \<and> word_str c)"
| "wf_base (ExecuteRebalanceRemoveNode n c) = (word_str n \<and> word_str c)"
| "wf_base (Login t u p) = (word_str t \<and> word_str u \<and> phrase p)"
| "wf_base (Token t) = phrase t"
| "wf_base (Refresh t) = phrase t"
| "wf_base WhoAmI = True"
| "wf_base Topology = True"
| "wf_base SnapshotHlc = True"
| "wf_base SchemaVersion = True"
| "wf_base SchemaStatus = True"
| "wf_base (Use d) = phrase d"
| "wf_base Ping = True"
| "wf_base Quit = True"

fun wf_command :: "command \<Rightarrow> bool" where
  "wf_command (WithConsistency r w c) = ((r \<noteq> None \<or> w \<noteq> None) \<and> wf_base c)"
| "wf_command c = wf_base c"

section \<open>Parsed commands are well formed\<close>

lemma first_word [simp]: "word_str (fst (split_first_word s)) \<longleftrightarrow> fst (split_first_word s) \<noteq> []"
  by (auto simp: split_first_word_def word_str_def dest: set_takeWhileD)

lemma last_dropWhile2: "dropWhile P (dropWhile Q s) \<noteq> [] \<Longrightarrow> last (dropWhile P (dropWhile Q s)) = last s"
  by (metis dropWhile.simps(1) dropWhile_last)

lemma rest_trimmed [simp]: "trimmed s \<Longrightarrow> trimmed (snd (split_first_word s))"
  by (cases "s = []")
    (auto simp: split_first_word_def trimmed_def trim_start_def last_dropWhile2 hd_dropWhile)

lemma rest_phrase [simp]:
  "trimmed s \<Longrightarrow> phrase (snd (split_first_word s)) \<longleftrightarrow> snd (split_first_word s) \<noteq> []"
  by (simp add: phrase_def)

lemma first_word_Nil [simp]: "trimmed s \<Longrightarrow> fst (split_first_word s) = [] \<longleftrightarrow> s = []"
  by (cases s) (auto simp: split_first_word_def trimmed_def)

lemma last_word_eq: "snd (split_last_word s) = rev (takeWhile (\<lambda>c. \<not> is_whitespace c) (rev s))"
proof -
  define l where "l = dropWhile (\<lambda>c. \<not> is_whitespace c) (rev s)"
  define w where "w = takeWhile (\<lambda>c. \<not> is_whitespace c) (rev s)"
  have s: "rev s = w @ l" by (simp add: l_def w_def)
  have "l \<noteq> [] \<Longrightarrow> is_whitespace (hd l)"
    using hd_dropWhile [of "\<lambda>c. \<not> is_whitespace c" "rev s"] by (auto simp: l_def)
  moreover have "dropWhile is_whitespace (rev w) = rev w"
  proof -
    have "\<forall>c \<in> set (rev w). \<not> is_whitespace c"
      by (auto simp: w_def dest: set_takeWhileD)
    then show ?thesis by (cases "rev w") auto
  qed
  moreover have "s = rev w" if "l = []"
    using s that by (metis append_Nil2 rev_rev_ident)
  ultimately show ?thesis
    by (simp add: split_last_word_def trim_start_def last_rev Let_def flip: l_def w_def)
qed

lemma last_word_word [simp]: "word_str (snd (split_last_word s)) \<longleftrightarrow> snd (split_last_word s) \<noteq> []"
  by (auto simp: last_word_eq word_str_def dest: set_takeWhileD)

lemma trim_end_phrase_iff: "s \<noteq> [] \<Longrightarrow> \<not> is_whitespace (hd s) \<Longrightarrow> phrase (trim_end s)"
  using trim_trimmed [of s]
  by (cases s) (auto simp: trim_str_def trim_start_def phrase_def trim_end_def dropWhile_append)

lemma last_word_left [simp]:
  assumes "trimmed s"
  shows "phrase (fst (split_last_word s)) \<longleftrightarrow> fst (split_last_word s) \<noteq> []"
proof -
  define l where "l = rev (dropWhile (\<lambda>c. \<not> is_whitespace c) (rev s))"
  have l: "prefix l s"
    unfolding l_def by (metis suffix_dropWhile rev_rev_ident suffix_to_prefix)
  have "fst (split_last_word s) = (if l = [] then [] else trim_end (butlast l))"
    by (simp add: split_last_word_def Let_def flip: l_def)
  moreover have "phrase (trim_end (butlast l))" if "butlast l \<noteq> []"
  proof (rule trim_end_phrase_iff [OF that])
    have "hd (butlast l) = hd s"
      using that l by (cases l) (auto simp: prefix_def split: if_splits)
    then show "\<not> is_whitespace (hd (butlast l))"
      using assms that l by (auto simp: trimmed_def)
  qed
  ultimately show ?thesis
    by (cases "butlast l = []") (auto simp: trim_end_def phrase_def)
qed

lemmas parser_simps = Let_def case_prod_beta require_arg_def

lemma verb_parsers_wf:
  assumes "trimmed rest"
  shows "parse_login rest = Inr c \<Longrightarrow> wf_base c"
    and "parse_create_index rest = Inr c \<Longrightarrow> wf_base c"
    and "parse_create_user rest = Inr c \<Longrightarrow> wf_base c"
    and "parse_list rest = Inr c \<Longrightarrow> wf_base c"
    and "parse_show rest = Inr c \<Longrightarrow> wf_base c"
    and "parse_schema rest = Inr c \<Longrightarrow> wf_base c"
  using assms
  unfolding parse_login_def parse_create_index_def parse_create_user_def parse_list_def parse_show_def
    parse_schema_def parser_simps
  by (auto simp: bind_res_eq_Inr split: if_splits)

lemma crud_parsers_wf:
  assumes "trimmed rest"
  shows "parse_insert rest = Inr c \<Longrightarrow> wf_base c"
    and "parse_get rest = Inr c \<Longrightarrow> wf_base c"
    and "parse_update rest = Inr c \<Longrightarrow> wf_base c"
    and "parse_delete rest = Inr c \<Longrightarrow> wf_base c"
    and "parse_put_with_vc rest = Inr c \<Longrightarrow> wf_base c"
    and "parse_scan rest = Inr c \<Longrightarrow> wf_base c"
    and "parse_query rest = Inr c \<Longrightarrow> wf_base c"
    and "parse_queryrange rest = Inr c \<Longrightarrow> wf_base c"
  using assms
  unfolding parse_insert_def parse_get_def parse_update_def parse_delete_def parse_put_with_vc_def
    parse_scan_def parse_query_def parse_queryrange_def parser_simps
  by (auto simp: bind_res_eq_Inr last_word_word last_word_left split: if_splits)

lemma admin_parsers_wf:
  assumes "trimmed rest"
  shows "parse_grant rest = Inr c \<Longrightarrow> wf_base c"
    and "parse_revoke rest = Inr c \<Longrightarrow> wf_base c"
    and "parse_elect_writer rest = Inr c \<Longrightarrow> wf_base c"
    and "parse_rebalance rest = Inr c \<Longrightarrow> wf_base c"
  using assms
  unfolding parse_grant_def parse_revoke_def parse_elect_writer_def parse_rebalance_def parser_simps
  by (auto simp: bind_res_eq_Inr split: if_splits)

lemma parse_alter_wf: "trimmed rest \<Longrightarrow> parse_alter rest = Inr c \<Longrightarrow> wf_base c"
  unfolding parse_alter_def parse_database_consistency_settings_def parser_simps
  by (auto simp: bind_res_eq_Inr split: if_splits)

lemma parse_create_drop_wf:
  assumes "trimmed rest"
  shows "parse_create rest = Inr c \<Longrightarrow> wf_base c" and "parse_drop rest = Inr c \<Longrightarrow> wf_base c"
  using assms unfolding parse_create_def parse_drop_def parser_simps
  by (auto simp: bind_res_eq_Inr split: if_splits dest: verb_parsers_wf(2,3) [rotated])

lemma parse_verb_wf: "trimmed rest \<Longrightarrow> parse_verb verb rest = Inr c \<Longrightarrow> wf_base c"
  unfolding parse_verb_def parser_simps
  by (auto simp: bind_res_eq_Inr phrase_def split: if_splits
      dest: verb_parsers_wf [rotated] crud_parsers_wf [rotated] admin_parsers_wf [rotated]
        parse_alter_wf [rotated] parse_create_drop_wf [rotated])

lemma concern_clause_trimmed:
  "trimmed input \<Longrightarrow> concern_clause input r w = Inr (Some (input', r', w')) \<Longrightarrow> trimmed input'"
  by (auto simp: concern_clause_def parser_simps bind_res_eq_Inr split: if_splits)

lemma prefix_loop_trimmed:
  "trimmed input \<Longrightarrow> consistency_prefix_loop n input r w = Inr (input', r', w') \<Longrightarrow> trimmed input'"
  by (induction n input r w rule: consistency_prefix_loop.induct)
    (auto simp: bind_res_eq_Inr split: option.splits dest: concern_clause_trimmed)

lemma wf_base_command: "wf_base c \<Longrightarrow> wf_command c"
  by (cases c) simp_all

text \<open>
  C26. The parser hands only well-formed commands to the handlers: for every line, every argument of
  the command it returns is non-empty and has no white space at its ends, every argument that is
  followed by another one is a single word, a range scan has both bounds or none, and a consistency
  wrapper carries at least one concern and is never nested.
\<close>

theorem parsed_command_wf:
  assumes "parse_command line = Inr c"
  shows "wf_command c"
proof -
  obtain input r w base where
    pre: "consistency_prefix_loop 2 (trim_str (trim_end_lf (trim_end_crlf line))) None None = Inr (input, r, w)"
    and verb: "parse_verb (fst (split_first_word input)) (snd (split_first_word input)) = Inr base"
    and c: "c = (if r \<noteq> None \<or> w \<noteq> None then WithConsistency r w base else base)"
    using assms
    by (fastforce simp: parse_command_def parse_consistency_prefix_def Let_def case_prod_beta
        bind_res_eq_Inr split: if_splits)
  have "trimmed input"
    by (rule prefix_loop_trimmed [OF trim_trimmed pre])
  then have "wf_base base"
    by (rule parse_verb_wf [OF rest_trimmed verb])
  then show ?thesis
    using wf_base_command by (auto simp: c)
qed

section \<open>Command lines\<close>

text \<open>
  The line of a command, as the protocol documents it and as the client sends it: the words of the
  command with one space between them.
\<close>

definition concern_words :: "u16 option \<Rightarrow> u16 option \<Rightarrow> rust_str list" where
  "concern_words r w =
     (case r of None \<Rightarrow> [] | Some n \<Rightarrow> [lit ''READ_CONCERN'', lit ''R='' @ show_nat (unat n)])
     @ (case w of None \<Rightarrow> [] | Some n \<Rightarrow> [lit ''WRITE_CONCERN'', lit ''W='' @ show_nat (unat n)])"

definition opt_words :: "rust_str option \<Rightarrow> rust_str list" where
  "opt_words x = (case x of None \<Rightarrow> [] | Some y \<Rightarrow> [y])"

primrec command_words :: "command \<Rightarrow> rust_str list" where
  "command_words (WithConsistency r w c) = concern_words r w @ command_words c"
| "command_words (Get coll k) = [lit ''GET'', coll, k]"
| "command_words (Scan coll s e) = lit ''SCAN'' # coll # opt_words s @ opt_words e"
| "command_words (Query coll i v) = [lit ''QUERY'', coll, i, v]"
| "command_words (QueryRange coll i s e) = [lit ''QUERYRANGE'', coll, i, s, e]"
| "command_words (Count coll) = [lit ''COUNT'', coll]"
| "command_words (Insert coll k v) = [lit ''INSERT'', coll, k, v]"
| "command_words (Update coll k v) = [lit ''UPDATE'', coll, k, v]"
| "command_words (Delete coll k) = [lit ''DELETE'', coll, k]"
| "command_words (PutWithVc coll k v vc) = [lit ''PUT_WITH_VC'', coll, k, v, vc]"
| "command_words (CreateCollection n) = [lit ''CREATE'', lit ''COLLECTION'', n]"
| "command_words (DropCollection n) = [lit ''DROP'', lit ''COLLECTION'', n]"
| "command_words (CreateIndex coll i f) = [lit ''CREATE'', lit ''INDEX'', coll, i, f]"
| "command_words (DropIndex coll i) = [lit ''DROP'', lit ''INDEX'', coll, i]"
| "command_words ListCollections = [lit ''LIST'', lit ''COLLECTIONS'']"
| "command_words (ListIndexes coll) = [lit ''LIST'', lit ''INDEXES'', coll]"
| "command_words (Compact coll) = [lit ''COMPACT'', coll]"
| "command_words Flush = [lit ''FLUSH'']"
| "command_words (CreateDatabase n) = [lit ''CREATE'', lit ''DATABASE'', n]"
| "command_words (DropDatabase n) = [lit ''DROP'', lit ''DATABASE'', n]"
| "command_words ListDatabases = [lit ''LIST'', lit ''DATABASES'']"
| "command_words (SetDatabaseConsistency d r w) =
     [lit ''ALTER'', lit ''DATABASE'', d, lit ''SET'', lit ''CONSISTENCY''] @ concern_words r w"
| "command_words (ResetDatabaseConsistency d) =
     [lit ''ALTER'', lit ''DATABASE'', d, lit ''RESET'', lit ''CONSISTENCY'']"
| "command_words (ShowDatabaseConsistency d) = [lit ''SHOW'', lit ''DATABASE'', d, lit ''CONSISTENCY'']"
| "command_words (CreateUser u p) = [lit ''CREATE'', lit ''USER'', u, p]"
| "command_words (DropUser u) = [lit ''DROP'', lit ''USER'', u]"
| "command_words (ListUsers t) = lit ''LIST'' # lit ''USERS'' # opt_words t"
| "command_words (Grant r s u) = [lit ''GRANT'', r, lit ''ON'', s, lit ''TO'', u]"
| "command_words (Revoke r s u) = [lit ''REVOKE'', r, lit ''ON'', s, lit ''FROM'', u]"
| "command_words (CreateTenant n) = [lit ''CREATE'', lit ''TENANT'', n]"
| "command_words (DropTenant n) = [lit ''DROP'', lit ''TENANT'', n]"
| "command_words ListTenants = [lit ''LIST'', lit ''TENANTS'']"
| "command_words (ElectWriter n d c) = lit ''ELECT-WRITER'' # n # d # opt_words c"
| "command_words (PlanRebalanceAddNode n) = [lit ''REBALANCE'', lit ''PLAN'', lit ''ADD-NODE'', n]"
| "command_words (PlanRebalanceRemoveNode n) = [lit ''REBALANCE'', lit ''PLAN'', lit ''REMOVE-NODE'', n]"
| "command_words (ExecuteRebalanceAddNode n c) =
     [lit ''REBALANCE'', lit ''EXECUTE'', lit ''ADD-NODE'', n, c]"
| "command_words (ExecuteRebalanceRemoveNode n c) =
     [lit ''REBALANCE'', lit ''EXECUTE'', lit ''REMOVE-NODE'', n, c]"
| "command_words (Login t u p) = [lit ''LOGIN'', t, u, p]"
| "command_words (Token t) = [lit ''TOKEN'', t]"
| "command_words (Refresh t) = [lit ''REFRESH'', t]"
| "command_words WhoAmI = [lit ''WHOAMI'']"
| "command_words Topology = [lit ''TOPOLOGY'']"
| "command_words SnapshotHlc = [lit ''SNAPSHOT_HLC'']"
| "command_words SchemaVersion = [lit ''SCHEMA'', lit ''VERSION'']"
| "command_words SchemaStatus = [lit ''SCHEMA'', lit ''STATUS'']"
| "command_words (Use d) = [lit ''USE'', d]"
| "command_words Ping = [lit ''PING'']"
| "command_words Quit = [lit ''QUIT'']"

definition command_line :: "command \<Rightarrow> rust_str" where
  "command_line c = unwords (command_words c)"

lemma space_split:
  assumes "\<forall>c \<in> set w. \<not> is_whitespace c"
  shows "takeWhile (\<lambda>c. \<not> is_whitespace c) (w @ 32 # r) = w"
    and "dropWhile (\<lambda>c. \<not> is_whitespace c) (w @ 32 # r) = 32 # r"
  using assms by (induction w) simp_all

lemma split_first_word_space: "word_str w \<Longrightarrow> phrase r \<Longrightarrow> split_first_word (w @ 32 # r) = (w, r)"
  using trim_start_phrase [of r]
  by (simp add: split_first_word_def word_str_def space_split trim_start_def)

lemma split_first_word_unwords [simp]:
  "word_str w \<Longrightarrow> phrase (unwords (v # ws)) \<Longrightarrow>
   split_first_word (unwords (w # v # ws)) = (w, unwords (v # ws))"
  by (simp add: unwords.simps(3) split_first_word_space)

lemma split_first_word_word [simp]: "word_str w \<Longrightarrow> split_first_word w = (w, [])"
proof -
  assume "word_str w"
  then have "takeWhile (\<lambda>c. \<not> is_whitespace c) w = w" "dropWhile (\<lambda>c. \<not> is_whitespace c) w = []"
    by (simp_all add: word_str_def)
  then show ?thesis by (simp only: split_first_word_def trim_start_def dropWhile.simps)
qed

lemma split_first_word_Nil [simp]: "split_first_word [] = ([], [])"
  by (simp add: split_first_word_def trim_start_def)

lemma split_last_word_unwords [simp]:
  assumes "phrase v" "word_str w"
  shows "split_last_word (unwords [v, w]) = (v, w)"
proof -
  have "\<forall>c \<in> set (rev w). \<not> is_whitespace c" using assms(2) by (simp add: word_str_def)
  then show ?thesis
    using trim_end_phrase [OF assms(1)] trim_start_phrase [OF word_phrase [OF assms(2)]]
    by (simp add: split_last_word_def unwords.simps(3) trim_start_def space_split)
qed

lemma concern_token_show [simp]:
  "parse_concern_token (lit [e, CHR ''=''] @ show_nat (unat (n :: u16))) (of_char e) kw = Inr n"
  if "(of_char e :: nat) \<noteq> 61"
proof -
  have "unat n < 2 ^ 16" using unsigned_less [of n, where ?'a = nat] by simp
  then have "unat n \<le> 65535" by simp
  with that show ?thesis
    by (simp add: parse_concern_token_def split_once_def lit_def)
qed

lemma word_append: "word_str (a @ b)" if "word_str a" "word_str b"
  using that by (auto simp: word_str_def)

lemma keyword_concern [simp]:
  "word_str (lit ''R='' @ show_nat n)" "word_str (lit ''W='' @ show_nat n)"
  by (rule word_append; simp add: kw_str_def)+

lemma concern_words_phrase [simp]: "x \<in> set (concern_words r w) \<Longrightarrow> word_str x"
  by (auto simp: concern_words_def kw_str_def split: option.splits)

text \<open>A printed command starts with a verb that is no concern keyword, and its verb parses back.\<close>

definition reparses :: "command \<Rightarrow> string \<Rightarrow> rust_str list \<Rightarrow> bool" where
  "reparses c kw ws \<longleftrightarrow>
     command_words c = lit kw # ws \<and> kw_str kw \<and> kw \<noteq> ''READ_CONCERN'' \<and> kw \<noteq> ''WRITE_CONCERN''
     \<and> (\<forall>x \<in> set ws. phrase x) \<and> parse_verb (lit kw) (unwords ws) = Inr c"

lemma settings_words:
  assumes "r \<noteq> None \<or> w \<noteq> None"
  shows "parse_database_consistency_settings (unwords (concern_words r w)) = Inr (r, w)"
  using assms concern_token_show [of "CHR ''R''"] concern_token_show [of "CHR ''W''"]
  by (cases r; cases w)
    (simp_all add: parse_database_consistency_settings_def concern_words_def concern_clause_def
      consistency_settings_loop.simps kw_str_def)

lemmas verb_defs = parse_verb_def parse_login_def parse_create_def parse_create_index_def
  parse_create_user_def parse_drop_def parse_list_def parse_alter_def parse_show_def parse_schema_def
  parse_insert_def parse_get_def parse_update_def parse_delete_def parse_put_with_vc_def
  parse_elect_writer_def parse_rebalance_def parse_scan_def parse_query_def parse_queryrange_def
  parse_grant_def parse_revoke_def require_arg_def

lemma base_reparses:
  assumes "wf_base c"
  shows "\<exists>kw ws. reparses c kw ws"
proof (cases c)
  case (SetDatabaseConsistency d r w)
  with assms have "concern_words r w \<noteq> []"
    by (auto simp: concern_words_def split: option.splits)
  then obtain x xs where cw: "concern_words r w = x # xs"
    by (cases "concern_words r w") auto
  have "\<forall>y \<in> set (x # xs). phrase y"
    using concern_words_phrase [of _ r w] cw by (metis word_phrase)
  then show ?thesis
    using assms settings_words [of r w] SetDatabaseConsistency cw
    by (auto simp: reparses_def verb_defs kw_str_def word_nonempty)
qed (use assms in \<open>auto simp: reparses_def verb_defs kw_str_def opt_words_def
    phrase_nonempty word_nonempty split: option.splits\<close>)

lemma no_concern_clause:
  assumes "reparses c kw ws"
  shows "concern_clause (unwords (lit kw # ws)) r w = Inr None"
    and "split_first_word (unwords (lit kw # ws)) = (lit kw, unwords ws)"
proof -
  show sfw: "split_first_word (unwords (lit kw # ws)) = (lit kw, unwords ws)"
    using assms by (cases ws) (simp_all add: reparses_def)
  show "concern_clause (unwords (lit kw # ws)) r w = Inr None"
    using assms unfolding concern_clause_def sfw by (simp add: reparses_def kw_str_def)
qed

lemma concern_clause_words:
  assumes "\<forall>x \<in> set (v # ws). phrase x"
  shows "concern_clause (unwords (lit ''READ_CONCERN'' # (lit ''R='' @ show_nat (unat n)) # v # ws)) None w
      = Inr (Some (unwords (v # ws), Some n, w))"
    and "concern_clause (unwords (lit ''WRITE_CONCERN'' # (lit ''W='' @ show_nat (unat n)) # v # ws)) r None
      = Inr (Some (unwords (v # ws), r, Some n))"
  using assms concern_token_show [of "CHR ''R''"] concern_token_show [of "CHR ''W''"]
  by (simp_all add: concern_clause_def kw_str_def)

lemma prefix_words:
  assumes "reparses c kw ws"
  shows "parse_consistency_prefix (unwords (concern_words r w @ lit kw # ws)) = Inr (unwords (lit kw # ws), r, w)"
proof -
  have ph: "\<forall>x \<in> set (lit kw # ws). phrase x"
    using assms by (simp add: reparses_def)
  have ph': "\<forall>x \<in> set (lit ''WRITE_CONCERN'' # (lit ''W='' @ show_nat (unat n)) # lit kw # ws). phrase x"
    for n :: u16
    using ph by (simp add: kw_str_def)
  show ?thesis
    using concern_clause_words [OF ph] concern_clause_words(1) [OF ph'] no_concern_clause(1) [OF assms]
    by (cases r; cases w)
      (simp_all add: parse_consistency_prefix_def concern_words_def numeral_2_eq_2)
qed

lemma printed_line_parses:
  assumes "reparses c kw ws" "e \<in> {[], [10], [13, 10]}"
    and len: "str_len (unwords (concern_words r w @ command_words c)) \<le> MAX_LINE_LENGTH"
  shows "parse_command (unwords (concern_words r w @ command_words c) @ e)
    = Inr (if r \<noteq> None \<or> w \<noteq> None then WithConsistency r w c else c)"
proof -
  have cw: "command_words c = lit kw # ws" and v: "parse_verb (lit kw) (unwords ws) = Inr c"
    using assms(1) by (simp_all add: reparses_def)
  have ph: "phrase (unwords (concern_words r w @ lit kw # ws))"
    using assms(1) concern_words_phrase [of _ r w] by (auto simp: reparses_def intro!: unwords_phrase)
  show ?thesis
    using len ph v
    by (simp add: parse_command_def cw Let_def phrase_nonempty [OF ph] trim_line_end [OF ph assms(2)] prefix_words [OF assms(1)]
        no_concern_clause(2) [OF assms(1)])
qed

text \<open>
  C27. Every well-formed command has a line that parses back to it: printing the command with one
  space between its words, with or without a line ending, and parsing the line returns the command,
  for every command of the protocol, with every combination of read and write concerns, as long as
  the line is within the protocol's length limit.
\<close>

theorem command_line_roundtrip:
  assumes "wf_command c" "e \<in> {[], [10], [13, 10]}"
    and "str_len (command_line c) \<le> MAX_LINE_LENGTH"
  shows "parse_command (command_line c @ e) = Inr c"
proof (cases "wf_base c")
  case True
  then obtain kw ws where "reparses c kw ws" by (blast dest: base_reparses)
  from printed_line_parses [OF this assms(2), of None None] assms(3) show ?thesis
    by (simp add: command_line_def concern_words_def)
next
  case False
  with assms(1) obtain r w b where c: "c = WithConsistency r w b" "r \<noteq> None \<or> w \<noteq> None" "wf_base b"
    by (cases c) auto
  then obtain kw ws where "reparses b kw ws" by (blast dest: base_reparses)
  from printed_line_parses [OF this assms(2), of r w] assms(3) c show ?thesis
    by (simp add: command_line_def)
qed

lemmas str_eval = lit_def trim_end_crlf_def trim_end_lf_def trim_str_def trim_start_def trim_end_def
  is_whitespace_def split_first_word_def eq_ignore_ascii_case_def ascii_lower_def
  to_ascii_uppercase_def ascii_upper_def utf8_len_def

theorem parsed_command_wf_witness:
  "parse_command (lit '' count  u '') = Inr (Count (lit ''u''))
   \<and> wf_command (Count (lit ''u''))"
proof -
  have "parse_command (lit '' count  u '') = Inr (Count (lit ''u''))"
    by (simp add: parse_command_def parse_consistency_prefix_def concern_clause_def parse_verb_def
        require_arg_def numeral_2_eq_2 MAX_LINE_LENGTH_def str_eval)
  then show ?thesis using parsed_command_wf by blast
qed

theorem command_line_roundtrip_witness:
  "parse_command (command_line (WithConsistency (Some 1) None (Get (lit ''users'') (lit ''k1''))) @ [13, 10])
   = Inr (WithConsistency (Some 1) None (Get (lit ''users'') (lit ''k1'')))
   \<and> command_line (WithConsistency (Some 1) None (Get (lit ''users'') (lit ''k1'')))
     = lit ''READ_CONCERN R=1 GET users k1''"
proof -
  have wf: "wf_command (WithConsistency (Some 1) None (Get (lit ''users'') (lit ''k1'')))"
    and len: "str_len (command_line (WithConsistency (Some 1) None (Get (lit ''users'') (lit ''k1''))))
      \<le> MAX_LINE_LENGTH"
    and line: "command_line (WithConsistency (Some 1) None (Get (lit ''users'') (lit ''k1'')))
      = lit ''READ_CONCERN R=1 GET users k1''"
    by (simp_all add: command_line_def concern_words_def unwords.simps MAX_LINE_LENGTH_def word_str_def
        show_nat.simps [of "Suc 0"] str_eval)
  show ?thesis
    using command_line_roundtrip [OF wf _ len, of "[13, 10]"] line by simp
qed

end
