(* ===== verification/Rate_Limits.thy ===== *)
theory Rate_Limits
  imports Grumpy_Prelude
begin

text \<open>
  Connection caps, command buckets and login backoff, \<^verbatim>\<open>src/grumpydb-server/src/limits.rs\<close>.
  Acquiring and releasing a connection slot are two atomic sections each, one on the global counter
  and one under the lock of the per-address counters; the acceptor tasks interleave between them, so
  the slots are a step relation. The token buckets are those of the crate \<^verbatim>\<open>governor\<close>, a parameter.
  Instants are nanoseconds.
\<close>

datatype ip_addr = V4 u32 | V6 u128

primrec is_loopback :: "ip_addr \<Rightarrow> bool" where
  "is_loopback (V4 a) = (drop_bit 24 a = 127)"
| "is_loopback (V6 a) = (a = 1)"

record limits_config =
  commands_per_sec_per_ip :: u32
  commands_burst_per_ip :: u32
  failed_logins_per_min_per_ip :: u32
  max_conns_per_ip :: nat
  max_conns_global :: nat
  bypass_loopback :: bool

definition default_limits :: limits_config where
  "default_limits =
     \<lparr>commands_per_sec_per_ip = 100, commands_burst_per_ip = 200, failed_logins_per_min_per_ip = 5,
      max_conns_per_ip = 100, max_conns_global = 10000, bypass_loopback = True\<rparr>"

record failed_login_state =
  fl_count :: u32
  fl_blocked_until :: "nat option"

datatype acquire_conn_error = CapGlobal | CapPerIp

record 'b governor =
  gov_direct :: "u32 \<Rightarrow> u32 \<Rightarrow> 'b"
  gov_check :: "nat \<Rightarrow> 'b \<Rightarrow> bool \<times> 'b"

record 'b limits =
  li_cfg :: limits_config
  li_buckets :: "ip_addr \<Rightarrow> 'b option"
  li_conns :: "ip_addr \<Rightarrow> nat option"
  li_global :: nat
  li_failed :: "ip_addr \<Rightarrow> failed_login_state option"

definition limits_new :: "limits_config \<Rightarrow> 'b limits" where
  "limits_new cfg =
     \<lparr>li_cfg = cfg, li_buckets = (\<lambda>_. None), li_conns = (\<lambda>_. None), li_global = 0, li_failed = (\<lambda>_. None)\<rparr>"

definition is_loopback_bypass :: "'b limits \<Rightarrow> ip_addr \<Rightarrow> bool" where
  "is_loopback_bypass l addr \<longleftrightarrow> bypass_loopback (li_cfg l) \<and> is_loopback addr"

section \<open>Connection slots\<close>

text \<open>The compare-and-swap loop on the global counter: it takes a slot unless the cap is reached.\<close>

definition reserve_global :: "'b limits \<Rightarrow> acquire_conn_error + 'b limits" where
  "reserve_global l =
     (if li_global l \<ge> max_conns_global (li_cfg l) then Inl CapGlobal
      else Inr (l\<lparr>li_global := li_global l + 1\<rparr>))"

text \<open>The section under the lock: \<^verbatim>\<open>entry(addr).or_insert(0)\<close>, the check and the increment.\<close>

definition reserve_per_ip :: "ip_addr \<Rightarrow> 'b limits \<Rightarrow> 'b limits \<times> bool" where
  "reserve_per_ip addr l =
     (let n = (case li_conns l addr of None \<Rightarrow> 0 | Some n \<Rightarrow> n)
      in if n \<ge> max_conns_per_ip (li_cfg l)
         then (l\<lparr>li_conns := (li_conns l)(addr \<mapsto> n)\<rparr>, False)
         else (l\<lparr>li_conns := (li_conns l)(addr \<mapsto> n + 1)\<rparr>, True))"

text \<open>\<^verbatim>\<open>fetch_sub\<close> wraps around at zero.\<close>

definition rollback_global :: "'b limits \<Rightarrow> 'b limits" where
  "rollback_global l =
     l\<lparr>li_global := (if li_global l = 0 then 2 ^ 64 - 1 else li_global l - 1)\<rparr>"

definition try_acquire_conn_with_reason ::
  "ip_addr \<Rightarrow> 'b limits \<Rightarrow> 'b limits \<times> (acquire_conn_error + unit)" where
  "try_acquire_conn_with_reason addr l =
     (if is_loopback_bypass l addr then (l, Inr ())
      else case reserve_global l of
        Inl e \<Rightarrow> (l, Inl e)
      | Inr l1 \<Rightarrow>
          (case reserve_per_ip addr l1 of
             (l2, True) \<Rightarrow> (l2, Inr ())
           | (l2, False) \<Rightarrow> (rollback_global l2, Inl CapPerIp)))"

definition try_acquire_conn :: "ip_addr \<Rightarrow> 'b limits \<Rightarrow> 'b limits \<times> bool" where
  "try_acquire_conn addr l =
     (case try_acquire_conn_with_reason addr l of (l', Inr _) \<Rightarrow> (l', True) | (l', Inl _) \<Rightarrow> (l', False))"

definition release_per_ip :: "ip_addr \<Rightarrow> 'b limits \<Rightarrow> 'b limits" where
  "release_per_ip addr l =
     (case li_conns l addr of
        None \<Rightarrow> l
      | Some c \<Rightarrow>
          let c' = (if c > 0 then c - 1 else c)
          in l\<lparr>li_conns := (li_conns l)(addr := (if c' = 0 then None else Some c'))\<rparr>)"

definition release_global :: "'b limits \<Rightarrow> 'b limits" where
  "release_global l = (if li_global l = 0 then l else l\<lparr>li_global := li_global l - 1\<rparr>)"

definition release_conn :: "ip_addr \<Rightarrow> 'b limits \<Rightarrow> 'b limits" where
  "release_conn addr l = release_global (release_per_ip addr l)"

text \<open>
  The acceptor tasks: a task that has taken a global slot and not yet looked at the per-address
  counter, one that has to give the slot back, one that is closing, and the open connections.
\<close>

datatype task_phase = Reserved | RollingBack | Releasing

record 'b conn_state =
  cs_limits :: "'b limits"
  cs_tasks :: "(ip_addr \<times> task_phase) multiset"
  cs_open :: "ip_addr multiset"

inductive conn_step :: "'b conn_state \<Rightarrow> 'b conn_state \<Rightarrow> bool" where
  bypass: "is_loopback_bypass (cs_limits s) addr \<Longrightarrow>
    conn_step s (s\<lparr>cs_open := add_mset addr (cs_open s)\<rparr>)"
| reserve: "\<not> is_loopback_bypass (cs_limits s) addr \<Longrightarrow> reserve_global (cs_limits s) = Inr l \<Longrightarrow>
    conn_step s (s\<lparr>cs_limits := l, cs_tasks := add_mset (addr, Reserved) (cs_tasks s)\<rparr>)"
| commit: "(addr, Reserved) \<in># cs_tasks s \<Longrightarrow> reserve_per_ip addr (cs_limits s) = (l, True) \<Longrightarrow>
    conn_step s (s\<lparr>cs_limits := l, cs_tasks := cs_tasks s - {#(addr, Reserved)#},
      cs_open := add_mset addr (cs_open s)\<rparr>)"
| refuse: "(addr, Reserved) \<in># cs_tasks s \<Longrightarrow> reserve_per_ip addr (cs_limits s) = (l, False) \<Longrightarrow>
    conn_step s (s\<lparr>cs_limits := l,
      cs_tasks := add_mset (addr, RollingBack) (cs_tasks s - {#(addr, Reserved)#})\<rparr>)"
| rollback: "(addr, RollingBack) \<in># cs_tasks s \<Longrightarrow>
    conn_step s (s\<lparr>cs_limits := rollback_global (cs_limits s),
      cs_tasks := cs_tasks s - {#(addr, RollingBack)#}\<rparr>)"
| closing: "addr \<in># cs_open s \<Longrightarrow>
    conn_step s (s\<lparr>cs_limits := release_per_ip addr (cs_limits s),
      cs_tasks := add_mset (addr, Releasing) (cs_tasks s), cs_open := cs_open s - {#addr#}\<rparr>)"
| closed: "(addr, Releasing) \<in># cs_tasks s \<Longrightarrow>
    conn_step s (s\<lparr>cs_limits := release_global (cs_limits s),
      cs_tasks := cs_tasks s - {#(addr, Releasing)#}\<rparr>)"

definition conn_init :: "limits_config \<Rightarrow> 'b conn_state" where
  "conn_init cfg = \<lparr>cs_limits = limits_new cfg, cs_tasks = {#}, cs_open = {#}\<rparr>"

abbreviation conn_steps :: "'b conn_state \<Rightarrow> 'b conn_state \<Rightarrow> bool" where
  "conn_steps \<equiv> conn_step\<^sup>*\<^sup>*"

section \<open>Command buckets and login backoff\<close>

definition try_take_command ::
  "'b governor \<Rightarrow> nat \<Rightarrow> ip_addr \<Rightarrow> 'b limits \<Rightarrow> 'b limits \<times> bool" where
  "try_take_command gov now addr l =
     (if is_loopback_bypass l addr then (l, True)
      else let b = (case li_buckets l addr of
                      Some b \<Rightarrow> b
                    | None \<Rightarrow> gov_direct gov (max (commands_per_sec_per_ip (li_cfg l)) 1)
                                (max (commands_burst_per_ip (li_cfg l)) 1));
               (ok, b') = gov_check gov now b
           in (l\<lparr>li_buckets := (li_buckets l)(addr \<mapsto> b')\<rparr>, ok))"

definition login_backoff :: "nat \<Rightarrow> ip_addr \<Rightarrow> 'b limits \<Rightarrow> 'b limits \<times> nat option" where
  "login_backoff now addr l =
     (if is_loopback_bypass l addr then (l, None)
      else case li_failed l addr of
        None \<Rightarrow> (l, None)
      | Some st \<Rightarrow>
          (case fl_blocked_until st of
             None \<Rightarrow> (l, None)
           | Some deadline \<Rightarrow>
               if now < deadline then (l, Some (deadline - now))
               else (l\<lparr>li_failed := (li_failed l)(addr \<mapsto> st\<lparr>fl_blocked_until := None\<rparr>)\<rparr>, None)))"

definition NANOS :: nat where
  "NANOS = 1000000000"

definition record_failed_login :: "nat \<Rightarrow> ip_addr \<Rightarrow> 'b limits \<Rightarrow> 'b limits" where
  "record_failed_login now addr l =
     (if is_loopback_bypass l addr then l
      else let st = (case li_failed l addr of
                       Some st \<Rightarrow> st
                     | None \<Rightarrow> \<lparr>fl_count = 0, fl_blocked_until = None\<rparr>);
               c = (if fl_count st = - 1 then - 1 else fl_count st + 1);
               st' = (if c \<ge> failed_logins_per_min_per_ip (li_cfg l)
                      then let over = c - failed_logins_per_min_per_ip (li_cfg l);
                               secs = min (2 ^ min (unat over) 6) 60
                           in st\<lparr>fl_count := c, fl_blocked_until := Some (now + secs * NANOS)\<rparr>
                      else st\<lparr>fl_count := c\<rparr>)
           in l\<lparr>li_failed := (li_failed l)(addr \<mapsto> st')\<rparr>)"

definition record_successful_login :: "ip_addr \<Rightarrow> 'b limits \<Rightarrow> 'b limits" where
  "record_successful_login addr l = l\<lparr>li_failed := (li_failed l)(addr := None)\<rparr>"

section \<open>The caps hold under every interleaving\<close>

definition conns_of :: "'b limits \<Rightarrow> ip_addr \<Rightarrow> nat" where
  "conns_of l addr = (case li_conns l addr of None \<Rightarrow> 0 | Some n \<Rightarrow> n)"

definition slots_ok :: "limits_config \<Rightarrow> 'b conn_state \<Rightarrow> bool" where
  "slots_ok cfg s \<longleftrightarrow>
     li_cfg (cs_limits s) = cfg \<and>
     li_global (cs_limits s) = size (cs_open s) + size (cs_tasks s) \<and>
     li_global (cs_limits s) \<le> max_conns_global cfg \<and>
     (\<forall>addr. conns_of (cs_limits s) addr = Multiset.count (cs_open s) addr) \<and>
     (\<forall>addr. Multiset.count (cs_open s) addr \<le> max_conns_per_ip cfg)"

lemma slots_init: "slots_ok cfg (conn_init cfg)"
  by (simp add: slots_ok_def conn_init_def limits_new_def conns_of_def)

lemma reserve_per_ip_simps:
  assumes "reserve_per_ip addr l = (l', ok)"
  shows "li_cfg l' = li_cfg l" "li_global l' = li_global l"
    "conns_of l' a = conns_of l a + (if ok \<and> a = addr then 1 else 0)"
    "ok \<longleftrightarrow> conns_of l addr < max_conns_per_ip (li_cfg l)"
  using assms by (auto simp: reserve_per_ip_def conns_of_def Let_def split: if_splits option.splits)

lemma release_per_ip_simps:
  "li_cfg (release_per_ip addr l) = li_cfg l" "li_global (release_per_ip addr l) = li_global l"
  "conns_of (release_per_ip addr l) a = conns_of l a - (if a = addr then 1 else 0)"
  by (auto simp: release_per_ip_def conns_of_def Let_def split: option.splits)

lemma slots_step:
  assumes "conn_step s s'" "slots_ok cfg s" "\<not> bypass_loopback cfg"
  shows "slots_ok cfg s'"
  using assms
proof (cases rule: conn_step.cases)
  case (bypass addr)
  then show ?thesis using assms by (simp add: is_loopback_bypass_def slots_ok_def)
next
  case (reserve addr l)
  then show ?thesis using assms(2)
    by (auto simp: slots_ok_def reserve_global_def conns_of_def split: if_splits)
next
  case (commit addr l)
  note per = reserve_per_ip_simps [OF commit(3)]
  have "size (cs_tasks s) = Suc (size (cs_tasks s - {#(addr, Reserved)#}))"
    using commit(2) by (simp add: size_Suc_Diff1)
  then show ?thesis using assms(2) commit per
    by (auto simp: slots_ok_def)
next
  case (refuse addr l)
  note per = reserve_per_ip_simps [OF refuse(3)]
  have "size (cs_tasks s) = Suc (size (cs_tasks s - {#(addr, Reserved)#}))"
    using refuse(2) by (simp add: size_Suc_Diff1)
  then show ?thesis using assms(2) refuse per by (auto simp: slots_ok_def)
next
  case (rollback addr)
  have "size (cs_tasks s) = Suc (size (cs_tasks s - {#(addr, RollingBack)#}))"
    using rollback(2) by (simp add: size_Suc_Diff1)
  then show ?thesis using assms(2) rollback
    by (auto simp: slots_ok_def rollback_global_def conns_of_def)
next
  case (closing addr)
  have "size (cs_open s) = Suc (size (cs_open s - {#addr#}))"
    using closing(2) by (simp add: size_Suc_Diff1)
  then show ?thesis using assms(2) closing
    by (auto simp: slots_ok_def release_per_ip_simps le_diff_conv le_SucI)
next
  case (closed addr)
  have "size (cs_tasks s) = Suc (size (cs_tasks s - {#(addr, Releasing)#}))"
    using closed(2) by (simp add: size_Suc_Diff1)
  then show ?thesis using assms(2) closed
    by (auto simp: slots_ok_def release_global_def conns_of_def)
qed

text \<open>
  C38. Without the loopback bypass the connection caps hold under every interleaving of the acceptor
  and connection tasks: at no moment are more connections open than the global cap allows, or more
  from one address than the per-address cap allows, and whenever no task is between its two counter
  updates the global counter is exactly the number of open connections. The counter of an address is
  at all times the number of its open connections. So no slot leaks.
\<close>

theorem connection_caps:
  assumes "conn_steps (conn_init cfg) s" "\<not> bypass_loopback cfg"
  shows "size (cs_open s) \<le> max_conns_global cfg
    \<and> (\<forall>addr. Multiset.count (cs_open s) addr \<le> max_conns_per_ip cfg)
    \<and> (cs_tasks s = {#} \<longrightarrow> li_global (cs_limits s) = size (cs_open s))
    \<and> (\<forall>addr. conns_of (cs_limits s) addr = Multiset.count (cs_open s) addr)"
proof -
  from assms(1) have "slots_ok cfg s"
  proof (induction rule: rtranclp_induct)
    case base
    show ?case by (rule slots_init)
  next
    case (step s s')
    then show ?case using slots_step assms(2) by blast
  qed
  then show ?thesis by (auto simp: slots_ok_def)
qed

text \<open>A state with the open connections \<open>M\<close>, no task under way and the global counter at \<open>g\<close>.\<close>

definition filled :: "limits_config \<Rightarrow> ip_addr multiset \<Rightarrow> nat \<Rightarrow> 'b conn_state \<Rightarrow> bool" where
  "filled cfg M g s \<longleftrightarrow>
     conn_steps (conn_init cfg) s \<and> li_cfg (cs_limits s) = cfg \<and> cs_tasks s = {#} \<and>
     cs_open s = M \<and> li_global (cs_limits s) = g \<and> (\<forall>a. conns_of (cs_limits s) a = Multiset.count M a)"

lemma filled_open:
  assumes "filled cfg M g (s :: 'b conn_state)" "\<not> is_loopback a" "g < max_conns_global cfg"
    and "Multiset.count M a < max_conns_per_ip cfg"
  shows "\<exists>s' :: 'b conn_state. filled cfg (add_mset a M) (Suc g) s'"
proof -
  define l1 where "l1 = (cs_limits s)\<lparr>li_global := g + 1\<rparr>"
  define s1 where "s1 = s\<lparr>cs_limits := l1, cs_tasks := add_mset (a, Reserved) (cs_tasks s)\<rparr>"
  obtain l2 ok where l2: "reserve_per_ip a l1 = (l2, ok)" by fastforce
  have l1: "conns_of l1 x = Multiset.count M x" "li_cfg l1 = cfg" "li_global l1 = Suc g" for x
    using assms(1) by (auto simp: l1_def filled_def conns_of_def)
  have ok: "ok" "li_cfg l2 = cfg" "li_global l2 = Suc g" "\<forall>x. conns_of l2 x = Multiset.count (add_mset a M) x"
    using reserve_per_ip_simps [OF l2] assms(4) by (auto simp: l1)
  have "conn_step s s1"
    unfolding s1_def using assms
    by (intro conn_step.reserve) (auto simp: is_loopback_bypass_def reserve_global_def filled_def l1_def)
  moreover define s2 where "s2 = s1\<lparr>cs_limits := l2, cs_tasks := cs_tasks s1 - {#(a, Reserved)#},
      cs_open := add_mset a (cs_open s1)\<rparr>"
  have "conn_step s1 s2"
    unfolding s2_def using l2 ok(1) by (intro conn_step.commit) (auto simp: s1_def)
  ultimately have "conn_steps (conn_init cfg) s2"
    using assms(1) by (auto simp: filled_def intro: rtranclp.rtrancl_into_rtrancl)
  moreover have "cs_limits s2 = l2" "cs_tasks s2 = {#}" "cs_open s2 = add_mset a M"
    using assms(1) by (simp_all add: s2_def s1_def filled_def)
  ultimately show ?thesis
    using ok by (intro exI [of _ s2]) (simp add: filled_def)
qed

text \<open>Remote addresses, one for each of the first connections.\<close>

definition remote_addr :: "nat \<Rightarrow> ip_addr" where
  "remote_addr i = V6 (of_nat (i + 2))"

definition remotes :: "nat \<Rightarrow> ip_addr multiset" where
  "remotes n = mset (map remote_addr [0..<n])"

lemma remotes_simps [simp]: "remotes 0 = {#}" "remotes (Suc n) = add_mset (remote_addr n) (remotes n)"
  by (simp_all add: remotes_def)

definition few :: "nat \<Rightarrow> bool" where
  "few n \<longleftrightarrow> n \<le> 2 ^ 64"

lemma few_less: "few n \<Longrightarrow> m \<le> n \<Longrightarrow> few m"
  by (simp only: few_def)

lemma remote_addr_number: "few i \<Longrightarrow> unat (of_nat (i + 2) :: u128) = i + 2"
  by (rule unat_of_nat_small) (simp add: few_def)

lemma remote_addr_inj:
  assumes "few i" "few j" "remote_addr i = remote_addr j"
  shows "i = j"
proof -
  have "(of_nat (i + 2) :: u128) = of_nat (j + 2)"
    using assms(3) unfolding remote_addr_def by (rule ip_addr.inject(2) [THEN iffD1])
  then have "i + 2 = j + 2"
    using remote_addr_number [OF assms(1)] remote_addr_number [OF assms(2)] by metis
  then show ?thesis by simp
qed

lemma remote_addr_not_loopback:
  assumes "few i"
  shows "\<not> is_loopback (remote_addr i)"
proof
  assume "is_loopback (remote_addr i)"
  then have "(of_nat (i + 2) :: u128) = 1" unfolding remote_addr_def is_loopback.simps .
  then have "i + 2 = 1" using remote_addr_number [OF assms] unat_1 by metis
  then show False by simp
qed

lemma remote_fresh:
  assumes "few n"
  shows "Multiset.count (remotes n) (remote_addr n) = 0"
proof -
  have "remote_addr i \<noteq> remote_addr n" if "i < n" for i
    using remote_addr_inj [OF few_less [OF assms less_imp_le [OF that]] assms] that by blast
  then have "remote_addr n \<notin> remote_addr ` {0..<n}" by force
  then show ?thesis by (simp add: remotes_def count_eq_zero_iff)
qed

lemma remotes_not_loopback: "few n \<Longrightarrow> filter_mset (\<lambda>a. \<not> is_loopback a) (remotes n) = remotes n"
  by (induction n) (simp_all add: remote_addr_not_loopback few_less)

lemma filled_remote:
  assumes "filled cfg (remotes n) g (s :: 'b conn_state)" "few n" "g < max_conns_global cfg" "0 < max_conns_per_ip cfg"
  shows "\<exists>s' :: 'b conn_state. filled cfg (remotes (Suc n)) (Suc g) s'"
  using filled_open [OF assms(1) remote_addr_not_loopback [OF assms(2)] assms(3)] assms(4)
  by (simp add: remote_fresh [OF assms(2)])

lemma filled_n:
  assumes "n \<le> max_conns_global cfg" "few n" "0 < max_conns_per_ip cfg"
  shows "\<exists>s :: 'b conn_state. filled cfg (remotes n) n s"
  using assms
proof (induction n)
  case 0
  show ?case
    by (rule exI [of _ "conn_init cfg"]) (simp add: filled_def conn_init_def limits_new_def conns_of_def)
next
  case (Suc n)
  moreover have few: "few n" using few_less [OF Suc.prems(2)] by simp
  ultimately obtain s :: "'b conn_state" where "filled cfg (remotes n) n s" by auto
  then show ?case using Suc.prems few by (intro filled_remote) auto
qed

lemma filled_loopback_close:
  assumes "filled cfg M (Suc g) (s :: 'b conn_state)" "bypass_loopback cfg" "is_loopback b" "b \<notin># M"
  shows "\<exists>s' :: 'b conn_state. filled cfg M g s'"
proof -
  define s1 where "s1 = s\<lparr>cs_open := add_mset b (cs_open s)\<rparr>"
  define s2 where "s2 = s1\<lparr>cs_limits := release_per_ip b (cs_limits s1),
      cs_tasks := add_mset (b, Releasing) (cs_tasks s1), cs_open := cs_open s1 - {#b#}\<rparr>"
  define s3 where "s3 = s2\<lparr>cs_limits := release_global (cs_limits s2),
      cs_tasks := cs_tasks s2 - {#(b, Releasing)#}\<rparr>"
  have "conn_step s s1"
    unfolding s1_def using assms by (intro conn_step.bypass) (auto simp: is_loopback_bypass_def filled_def)
  moreover have "conn_step s1 s2" unfolding s2_def by (rule conn_step.closing) (simp add: s1_def)
  moreover have "conn_step s2 s3" unfolding s3_def by (rule conn_step.closed) (simp add: s2_def)
  ultimately have "conn_steps (conn_init cfg) s3"
    using assms(1) by (auto simp: filled_def intro: rtranclp.rtrancl_into_rtrancl)
  moreover have "conns_of (release_global l) x = conns_of l x" "li_cfg (release_global l) = li_cfg l"
    for l :: "'b limits" and x
    by (simp_all add: conns_of_def release_global_def)
  moreover have "li_global (release_global l) = li_global l - 1" for l :: "'b limits"
    by (simp add: release_global_def)
  moreover have "cs_limits s3 = release_global (release_per_ip b (cs_limits s))" "cs_tasks s3 = {#}"
    "cs_open s3 = cs_open s"
    using assms(1) by (simp_all add: s3_def s2_def s1_def filled_def)
  ultimately show ?thesis
    using assms(1,4) by (intro exI [of _ s3]) (auto simp: filled_def release_per_ip_simps not_in_iff)
qed

text \<open>
  C39. With the loopback bypass, which is the default, the global cap does not hold: closing a
  loopback connection gives back a slot that opening it never took, so that from a server filled up
  to the cap by remote connections one loopback connect and disconnect admits one more. This is so
  for every configuration with the bypass that admits connections at all (both caps positive, the
  global one a 64-bit number), the default configuration included.
\<close>

theorem loopback_close_breaks_global_cap:
  assumes "bypass_loopback cfg" "0 < max_conns_global cfg" "0 < max_conns_per_ip cfg" "max_conns_global cfg < 2 ^ 64"
  shows "\<exists>s :: 'b conn_state. conn_steps (conn_init cfg) s
    \<and> size (filter_mset (\<lambda>a. \<not> is_loopback a) (cs_open s)) > max_conns_global cfg"
proof -
  define g where "g = max_conns_global cfg - 1"
  have g: "max_conns_global cfg = Suc g" using assms(2) by (simp add: g_def)
  have few: "few (Suc (Suc g))" using assms(4) g by (simp only: few_def)
  obtain s1 :: "'b conn_state" where "filled cfg (remotes (Suc g)) (Suc g) s1"
    using filled_n [of "Suc g" cfg] assms(3) g few_less [OF few, of "Suc g"] by auto
  moreover have "V6 1 \<notin># remotes (Suc g)"
    using remotes_not_loopback [OF few_less [OF few, of "Suc g"]] by (metis filter_mset_eq_conv is_loopback.simps(2) le_SucI le_refl)
  ultimately obtain s2 :: "'b conn_state" where "filled cfg (remotes (Suc g)) g s2"
    using filled_loopback_close [OF _ assms(1), of _ _ _ "V6 1"] by (metis is_loopback.simps(2))
  then obtain s3 :: "'b conn_state" where s3: "filled cfg (remotes (Suc (Suc g))) (Suc g) s3"
    using filled_remote [of cfg "Suc g" g s2] assms(3) g few_less [OF few, of "Suc g"] by auto
  then have "filter_mset (\<lambda>a. \<not> is_loopback a) (cs_open s3) = remotes (Suc (Suc g))"
    using remotes_not_loopback [OF few] by (simp add: filled_def)
  moreover have "size (remotes n) = n" for n by (induction n) simp_all
  ultimately show ?thesis using s3 by (intro exI [of _ s3]) (simp add: filled_def g del: remotes_simps)
qed

definition small_limits :: limits_config where
  "small_limits = default_limits\<lparr>max_conns_global := 2, max_conns_per_ip := 1, bypass_loopback := False\<rparr>"

theorem connection_caps_witness:
  "\<exists>s :: unit conn_state. conn_steps (conn_init small_limits) s \<and> size (cs_open s) = 2
     \<and> li_global (cs_limits s) = 2 \<and> conns_of (cs_limits s) (remote_addr 1) = Multiset.count (cs_open s) (remote_addr 1)"
proof -
  obtain s :: "unit conn_state" where s: "filled small_limits (remotes 2) 2 s"
    using filled_n [of 2 small_limits] by (auto simp: small_limits_def few_def)
  then have steps: "conn_steps (conn_init small_limits) s" and open_s: "size (cs_open s) = 2"
    and "cs_tasks s = {#}"
    by (simp_all add: filled_def numeral_2_eq_2)
  with connection_caps [OF steps] show ?thesis by (auto simp: small_limits_def)
qed

theorem loopback_close_breaks_global_cap_witness:
  "\<exists>s :: unit conn_state. conn_steps (conn_init default_limits) s
     \<and> size (filter_mset (\<lambda>a. \<not> is_loopback a) (cs_open s)) > 10000"
  using loopback_close_breaks_global_cap [of default_limits] by (simp add: default_limits_def)

section \<open>Login backoff\<close>

text \<open>The events of a server that touch the failed-login table, with the instant of each.\<close>

datatype login_event = FailedLogin nat ip_addr | SuccessfulLogin nat ip_addr | BackoffCheck nat ip_addr

primrec event_time :: "login_event \<Rightarrow> nat" where
  "event_time (FailedLogin t a) = t"
| "event_time (SuccessfulLogin t a) = t"
| "event_time (BackoffCheck t a) = t"

primrec apply_event :: "login_event \<Rightarrow> 'b limits \<Rightarrow> 'b limits" where
  "apply_event (FailedLogin t a) l = record_failed_login t a l"
| "apply_event (SuccessfulLogin t a) l = record_successful_login a l"
| "apply_event (BackoffCheck t a) l = fst (login_backoff t a l)"

text \<open>
  Seen from one address: its consecutive failures so far and the instant of the last one, with the
  newest event first.
\<close>

fun failures :: "ip_addr \<Rightarrow> login_event list \<Rightarrow> nat" where
  "failures a [] = 0"
| "failures a (FailedLogin t b # es) = failures a es + (if a = b then 1 else 0)"
| "failures a (SuccessfulLogin t b # es) = (if a = b then 0 else failures a es)"
| "failures a (BackoffCheck t b # es) = failures a es"

fun last_failure :: "ip_addr \<Rightarrow> login_event list \<Rightarrow> nat" where
  "last_failure a [] = 0"
| "last_failure a (FailedLogin t b # es) = (if a = b then t else last_failure a es)"
| "last_failure a (SuccessfulLogin t b # es) = last_failure a es"
| "last_failure a (BackoffCheck t b # es) = last_failure a es"

definition backoff_secs :: "nat \<Rightarrow> nat \<Rightarrow> nat" where
  "backoff_secs threshold n = min (2 ^ min (n - threshold) 6) 60"

definition run_events :: "limits_config \<Rightarrow> login_event list \<Rightarrow> 'b limits" where
  "run_events cfg es = foldr apply_event es (limits_new cfg)"

text \<open>
  The table row of an address after a history: the count is the number of failures; a block that
  has not elapsed at the last event of the history is still in place.
\<close>

definition row_ok :: "limits_config \<Rightarrow> ip_addr \<Rightarrow> login_event list \<Rightarrow> 'b limits \<Rightarrow> bool" where
  "row_ok cfg a es l \<longleftrightarrow>
     (let n = failures a es; T = unat (failed_logins_per_min_per_ip cfg);
          deadline = last_failure a es + backoff_secs T n * NANOS
      in case li_failed l a of
           None \<Rightarrow> n = 0
         | Some st \<Rightarrow>
             0 < n \<and> unat (fl_count st) = n \<and>
             (case fl_blocked_until st of
                None \<Rightarrow> n < T \<or> (\<exists>e \<in> set es. deadline \<le> event_time e)
              | Some d \<Rightarrow> T \<le> n \<and> d = deadline))"

lemma failures_le: "failures a es \<le> length es"
  by (induction a es rule: failures.induct) auto

lemma unat_succ: "unat (c :: u32) + 1 < 2 ^ 32 \<Longrightarrow> c \<noteq> - 1 \<and> unat (c + 1) = unat c + 1"
proof -
  assume c: "unat c + 1 < 2 ^ 32"
  have "unat (- 1 :: u32) = 2 ^ 32 - 1" by (simp add: unsigned_minus_1_eq_mask mask_eq_exp_minus_1)
  with c have "c \<noteq> - 1" by auto
  moreover have "unat (c + 1) = unat c + 1" using c by (simp add: unat_word_ariths)
  ultimately show ?thesis by simp
qed

lemma row_failed:
  assumes "row_ok cfg a es l" "li_cfg l = cfg" "\<not> is_loopback_bypass l a" "length es < 2 ^ 32 - 1"
  shows "row_ok cfg a (FailedLogin t a # es) (record_failed_login t a l)"
proof -
  define st where "st = (case li_failed l a of
      Some st \<Rightarrow> st | None \<Rightarrow> \<lparr>fl_count = 0, fl_blocked_until = None\<rparr>)"
  define T where "T = failed_logins_per_min_per_ip cfg"
  define c where "c = fl_count st + 1"
  have n: "unat (fl_count st) = failures a es"
    using assms(1) by (auto simp: row_ok_def st_def Let_def split: option.splits)
  then have c: "fl_count st \<noteq> - 1" "unat c = failures a es + 1"
    using unat_succ [of "fl_count st"] failures_le [of a es] assms(4) by (auto simp: c_def)
  have cmp: "T \<le> c \<longleftrightarrow> unat T \<le> failures a es + 1"
    by (simp add: word_le_nat_alt c(2))
  have over: "unat (c - T) = failures a es + 1 - unat T" if "T \<le> c"
    using that by (simp add: unat_sub c(2))
  have none: "fl_blocked_until st = None" if "\<not> unat T \<le> failures a es + 1"
    using assms(1) that by (auto simp: row_ok_def st_def Let_def T_def split: option.splits)
  have rec: "record_failed_login t a l = l\<lparr>li_failed := (li_failed l)(a \<mapsto>
      (if T \<le> c then st\<lparr>fl_count := c, fl_blocked_until := Some (t + min (2 ^ min (unat (c - T)) 6) 60 * NANOS)\<rparr>
       else st\<lparr>fl_count := c\<rparr>))\<rparr>"
    using assms(2,3) c(1) by (simp add: record_failed_login_def Let_def T_def c_def flip: st_def)
  show ?thesis
    unfolding rec row_ok_def Let_def
    using c(2) cmp over none by (auto simp: backoff_secs_def simp flip: T_def)
qed

lemma row_event:
  assumes "row_ok cfg a es l" "li_cfg l = cfg" "\<not> is_loopback_bypass l a" "length es < 2 ^ 32 - 1"
  shows "row_ok cfg a (e # es) (apply_event e l)"
proof (cases e)
  case (FailedLogin t b)
  then show ?thesis
  proof (cases "a = b")
    case False
    then show ?thesis using assms(1) FailedLogin
      by (auto simp: row_ok_def record_failed_login_def Let_def split: option.splits)
  qed (use row_failed [OF assms] FailedLogin in simp)
next
  case (SuccessfulLogin t b)
  then show ?thesis using assms(1)
    by (auto simp: row_ok_def record_successful_login_def Let_def split: option.splits)
next
  case (BackoffCheck t b)
  then show ?thesis using assms(1)
    by (auto simp: row_ok_def login_backoff_def Let_def split: option.splits if_splits)
qed

lemma event_cfg [simp]: "li_cfg (apply_event e l) = li_cfg l"
  by (cases e) (auto simp: record_failed_login_def record_successful_login_def login_backoff_def Let_def
      split: option.splits)

lemma run_events_cfg [simp]: "li_cfg (run_events cfg es) = cfg"
  by (induction es) (simp_all add: run_events_def limits_new_def)

lemma run_events_row:
  assumes "\<not> (bypass_loopback cfg \<and> is_loopback a)" "length es < 2 ^ 32"
  shows "row_ok cfg a es (run_events cfg es :: 'b limits)"
  using assms(2)
proof (induction es)
  case Nil
  show ?case by (simp add: row_ok_def run_events_def limits_new_def)
next
  case (Cons e es)
  have "row_ok cfg a (e # es) (apply_event e (run_events cfg es :: 'b limits))"
    by (rule row_event) (use Cons assms(1) in \<open>auto simp: is_loopback_bypass_def\<close>)
  then show ?case by (simp add: run_events_def)
qed



end
