(* ===== verification/Access_Control.thy ===== *)
theory Access_Control
  imports Wire_Command
begin

text \<open>
  Role-based access control, \<^verbatim>\<open>src/grumpydb-server/src/auth/role.rs\<close> and
  \<^verbatim>\<open>src/grumpydb-server/src/session/mod.rs\<close>: the roles and the actions they permit, the scopes and
  what they cover, and the check every command of a session passes through. Scopes are ordered by
  what they cover; the order is a partial order, which the proofs about \<open>authorize\<close> use.
\<close>

named_theorems rbac_simps \<open>roles, scopes and permissions\<close>

section \<open>Roles and scopes\<close>

datatype role_name = ServerAdmin | TenantAdmin | DbAdmin | ReadWrite | ReadOnly | ClusterPeer

datatype auth_action =
  Read | Write | Admin | ManageUsers | ManageDatabases | ManageServer | ReplicationPeer

primrec role_display :: "role_name \<Rightarrow> rust_str" where
  "role_display ServerAdmin = lit ''server_admin''"
| "role_display TenantAdmin = lit ''tenant_admin''"
| "role_display DbAdmin = lit ''db_admin''"
| "role_display ReadWrite = lit ''read_write''"
| "role_display ReadOnly = lit ''read_only''"
| "role_display ClusterPeer = lit ''cluster_peer''"

definition from_str_name :: "rust_str \<Rightarrow> role_name option" where
  "from_str_name s =
     (if s = lit ''server_admin'' then Some ServerAdmin
      else if s = lit ''tenant_admin'' then Some TenantAdmin
      else if s = lit ''db_admin'' then Some DbAdmin
      else if s = lit ''read_write'' then Some ReadWrite
      else if s = lit ''read_only'' then Some ReadOnly
      else if s = lit ''cluster_peer'' then Some ClusterPeer
      else None)"

primrec permits_action :: "role_name \<Rightarrow> auth_action \<Rightarrow> bool" where
  "permits_action ServerAdmin a = (a \<noteq> ReplicationPeer)"
| "permits_action TenantAdmin a = (a \<notin> {ManageServer, ReplicationPeer})"
| "permits_action DbAdmin a = (a \<in> {Read, Write, Admin})"
| "permits_action ReadWrite a = (a \<in> {Read, Write})"
| "permits_action ReadOnly a = (a = Read)"
| "permits_action ClusterPeer a = (a = ReplicationPeer)"

definition is_cluster_peer_only :: "auth_action \<Rightarrow> bool" where
  "is_cluster_peer_only a \<longleftrightarrow> a = ReplicationPeer"

datatype resource_scope =
    Server
  | Tenant
  | AllDatabases
  | Database rust_str
  | AllCollections rust_str
  | Collection rust_str rust_str

fun scope_covers :: "resource_scope \<Rightarrow> resource_scope \<Rightarrow> bool" where
  "scope_covers Server target = True"
| "scope_covers Tenant target = (target \<noteq> Server)"
| "scope_covers AllDatabases target =
     (case target of AllDatabases \<Rightarrow> True | Database _ \<Rightarrow> True | AllCollections _ \<Rightarrow> True
      | Collection _ _ \<Rightarrow> True | _ \<Rightarrow> False)"
| "scope_covers (Database name) target =
     (case target of Database t \<Rightarrow> name = t | AllCollections database \<Rightarrow> name = database
      | Collection database _ \<Rightarrow> name = database | _ \<Rightarrow> False)"
| "scope_covers (AllCollections database) target =
     (case target of AllCollections t \<Rightarrow> database = t | Collection td _ \<Rightarrow> database = td | _ \<Rightarrow> False)"
| "scope_covers (Collection database collection) target =
     (case target of Collection td tc \<Rightarrow> database = td \<and> collection = tc | _ \<Rightarrow> False)"

record role_assignment =
  ra_role :: role_name
  ra_scope :: resource_scope

definition permits :: "role_assignment \<Rightarrow> auth_action \<Rightarrow> resource_scope \<Rightarrow> bool" where
  "permits ra a target \<longleftrightarrow> permits_action (ra_role ra) a \<and> scope_covers (ra_scope ra) target"

text \<open>Scopes are ordered by coverage.\<close>

instantiation resource_scope :: order
begin

definition less_eq_resource_scope :: "resource_scope \<Rightarrow> resource_scope \<Rightarrow> bool" where
  "less_eq_resource_scope a b \<longleftrightarrow> scope_covers b a"

definition less_resource_scope :: "resource_scope \<Rightarrow> resource_scope \<Rightarrow> bool" where
  "less_resource_scope a b \<longleftrightarrow> scope_covers b a \<and> \<not> scope_covers a b"

instance
proof
  fix x y z :: resource_scope
  show "x < y \<longleftrightarrow> x \<le> y \<and> \<not> y \<le> x"
    by (simp add: less_eq_resource_scope_def less_resource_scope_def)
  show "x \<le> x"
    by (cases x) (simp_all add: less_eq_resource_scope_def)
  show "x \<le> z" if "x \<le> y" "y \<le> z"
    using that unfolding less_eq_resource_scope_def
    by (cases z; cases y; cases x) simp_all
  show "x = y" if "x \<le> y" "y \<le> x"
    using that unfolding less_eq_resource_scope_def
    by (cases x; cases y) simp_all
qed

end

section \<open>Sessions\<close>

text \<open>
  The claims of a token, and the errors of the authentication code. \<^verbatim>\<open>AccessDenied\<close> carries the
  values its message prints.
\<close>

record claims =
  cl_sub :: rust_str
  cl_tenant :: rust_str
  cl_roles :: "role_assignment list"
  cl_iat :: u64
  cl_exp :: u64
  cl_token_type :: rust_str

datatype auth_error =
    HashError rust_str
  | InvalidCredentials
  | UserNotFound rust_str
  | UserAlreadyExists rust_str
  | JwtError rust_str
  | TokenExpired
  | InvalidToken rust_str
  | AccessDenied auth_action resource_scope rust_str
  | NotAuthenticated
  | AuthIo rust_str
  | ClockError rust_str
  | AuthReadOnly
  | PasswordChangeRequired
  | BootstrapRefused rust_str

record session_context =
  se_claims :: "claims option"
  se_current_db :: "rust_str option"

definition session_new :: session_context where
  "session_new = \<lparr>se_claims = None, se_current_db = None\<rparr>"

definition set_claims :: "claims \<Rightarrow> session_context \<Rightarrow> session_context" where
  "set_claims c s = s\<lparr>se_claims := Some c\<rparr>"

definition set_database :: "rust_str \<Rightarrow> session_context \<Rightarrow> session_context" where
  "set_database name s = s\<lparr>se_current_db := Some name\<rparr>"

definition is_authenticated :: "session_context \<Rightarrow> bool" where
  "is_authenticated s \<longleftrightarrow> se_claims s \<noteq> None"

definition session_tenant :: "session_context \<Rightarrow> auth_error + rust_str" where
  "session_tenant s = (case se_claims s of Some c \<Rightarrow> Inr (cl_tenant c) | None \<Rightarrow> Inl NotAuthenticated)"

definition session_username :: "session_context \<Rightarrow> auth_error + rust_str" where
  "session_username s = (case se_claims s of Some c \<Rightarrow> Inr (cl_sub c) | None \<Rightarrow> Inl NotAuthenticated)"

text \<open>
  The two mappings of \<^verbatim>\<open>authorize\<close>. \<open>None\<close> is the early return that lets the command through.
\<close>

primrec to_auth_action :: "wire_action \<Rightarrow> auth_action option" where
  "to_auth_action ActRead = Some Read"
| "to_auth_action ActWrite = Some Write"
| "to_auth_action ActAdmin = Some Admin"
| "to_auth_action ActManageUsers = Some ManageUsers"
| "to_auth_action ActManageDatabases = Some ManageDatabases"
| "to_auth_action ActManageServer = Some ManageServer"
| "to_auth_action ActManageCluster = Some ManageServer"
| "to_auth_action ActSession = None"

primrec to_auth_resource :: "wire_resource \<Rightarrow> resource_scope option" where
  "to_auth_resource ResServer = Some Server"
| "to_auth_resource (ResDatabase name) = Some (Database name)"
| "to_auth_resource (ResCollection db coll) = Some (Collection db coll)"
| "to_auth_resource ResNone = None"

definition authorize :: "session_context \<Rightarrow> command \<Rightarrow> auth_error + unit" where
  "authorize s c =
     (if is_pre_auth c then Inr ()
      else case se_claims s of
        None \<Rightarrow> Inl NotAuthenticated
      | Some cl \<Rightarrow>
          (case to_auth_action (required_action c) of
             None \<Rightarrow> Inr ()
           | Some a \<Rightarrow>
               (case to_auth_resource (target_resource c (se_current_db s)) of
                  None \<Rightarrow> Inr ()
                | Some r \<Rightarrow>
                    if list_ex (\<lambda>ra. permits ra a r) (cl_roles cl) then Inr ()
                    else Inl (AccessDenied a r (cl_sub cl)))))"

section \<open>What the check lets through\<close>

text \<open>The command inside the consistency wrappers, and the commands that need no permission.\<close>

fun base_command :: "command \<Rightarrow> command" where
  "base_command c = (case c of WithConsistency r w b \<Rightarrow> base_command b | _ \<Rightarrow> c)"

declare base_command.simps [simp del]

definition unguarded :: "command \<Rightarrow> bool" where
  "unguarded c =
     (case base_command c of
        Login _ _ _ \<Rightarrow> True | Token _ \<Rightarrow> True | Refresh _ \<Rightarrow> True | Ping \<Rightarrow> True | Quit \<Rightarrow> True
      | WhoAmI \<Rightarrow> True | Topology \<Rightarrow> True | SnapshotHlc \<Rightarrow> True | SchemaVersion \<Rightarrow> True
      | SchemaStatus \<Rightarrow> True | Use _ \<Rightarrow> True | ListDatabases \<Rightarrow> True
      | _ \<Rightarrow> False)"

lemma base_wrapper [simp]: "base_command (WithConsistency r w b) = base_command b"
  by (simp add: base_command.simps [of "WithConsistency r w b"])

lemma wrapper_transparent:
  "required_action (base_command c) = required_action c"
  "target_resource (base_command c) db = target_resource c db"
  "is_pre_auth (base_command c) = is_pre_auth c"
  by (induction c) (simp_all add: base_command.simps is_pre_auth.simps)

lemma unguarded_iff:
  "unguarded c \<longleftrightarrow>
     to_auth_action (required_action c) = None \<or> to_auth_resource (target_resource c db) = None"
  unfolding unguarded_def
  by (induction c) (simp_all add: base_command.simps)

lemma pre_auth_unguarded: "is_pre_auth c \<Longrightarrow> unguarded c"
  unfolding unguarded_def
  by (induction c) (simp_all add: base_command.simps is_pre_auth.simps)

lemma authorize_cases:
  assumes "authorize s c = Inr ()"
  obtains "unguarded c"
  | cl a r ra where "se_claims s = Some cl" "to_auth_action (required_action c) = Some a"
      "to_auth_resource (target_resource c (se_current_db s)) = Some r"
      "ra \<in> set (cl_roles cl)" "permits ra a r"
proof (cases "unguarded c")
  case False
  then have "\<not> is_pre_auth c" using pre_auth_unguarded by blast
  with assms False that(2) show thesis
    by (auto simp: authorize_def list_ex_iff unguarded_iff [of c "se_current_db s"]
        split: option.splits if_splits)
qed (rule that(1))

section \<open>The permission matrix\<close>

text \<open>
  The matrix of \<^verbatim>\<open>docs/IMPLEMENTATION_PLAN_V3.md\<close>, one row per command and continued for the commands
  added since: who may run a command. A row names the roles of the matrix and the scopes on which
  they must be assigned, given the session's current database; the rows of the session commands ask
  for an authenticated session, those of the login commands for nothing.
\<close>

datatype access_row = Anyone | Authenticated | Needs "role_name set" "resource_scope set"

definition server_wide :: "resource_scope set" where
  "server_wide = {Server}"

definition on_database :: "rust_str \<Rightarrow> resource_scope set" where
  "on_database d = {Server, Tenant, AllDatabases, Database d}"

definition on_collection :: "rust_str \<Rightarrow> rust_str \<Rightarrow> resource_scope set" where
  "on_collection d c = {Server, Tenant, AllDatabases, Database d, AllCollections d, Collection d c}"

primrec access_matrix :: "command \<Rightarrow> rust_str \<Rightarrow> access_row" where
  "access_matrix (Login t u p) d = Anyone"
| "access_matrix (Token t) d = Anyone"
| "access_matrix (Refresh t) d = Anyone"
| "access_matrix Ping d = Anyone"
| "access_matrix Quit d = Anyone"
| "access_matrix WhoAmI d = Authenticated"
| "access_matrix Topology d = Authenticated"
| "access_matrix SnapshotHlc d = Authenticated"
| "access_matrix SchemaVersion d = Authenticated"
| "access_matrix SchemaStatus d = Authenticated"
| "access_matrix (Use n) d = Authenticated"
| "access_matrix ListDatabases d = Authenticated"
| "access_matrix (Get c k) d = Needs {ReadOnly, ReadWrite, DbAdmin, TenantAdmin, ServerAdmin} (on_collection d c)"
| "access_matrix (Scan c lo hi) d = Needs {ReadOnly, ReadWrite, DbAdmin, TenantAdmin, ServerAdmin} (on_collection d c)"
| "access_matrix (Query c i v) d = Needs {ReadOnly, ReadWrite, DbAdmin, TenantAdmin, ServerAdmin} (on_collection d c)"
| "access_matrix (QueryRange c i lo hi) d = Needs {ReadOnly, ReadWrite, DbAdmin, TenantAdmin, ServerAdmin} (on_collection d c)"
| "access_matrix (Count c) d = Needs {ReadOnly, ReadWrite, DbAdmin, TenantAdmin, ServerAdmin} (on_collection d c)"
| "access_matrix (Insert c k v) d = Needs {ReadWrite, DbAdmin, TenantAdmin, ServerAdmin} (on_collection d c)"
| "access_matrix (Update c k v) d = Needs {ReadWrite, DbAdmin, TenantAdmin, ServerAdmin} (on_collection d c)"
| "access_matrix (Delete c k) d = Needs {ReadWrite, DbAdmin, TenantAdmin, ServerAdmin} (on_collection d c)"
| "access_matrix (PutWithVc c k v vc) d = Needs {ReadWrite, DbAdmin, TenantAdmin, ServerAdmin} (on_collection d c)"
| "access_matrix (CreateIndex c i f) d = Needs {DbAdmin, TenantAdmin, ServerAdmin} (on_collection d c)"
| "access_matrix (DropIndex c i) d = Needs {DbAdmin, TenantAdmin, ServerAdmin} (on_collection d c)"
| "access_matrix (ListIndexes c) d = Needs {DbAdmin, TenantAdmin, ServerAdmin} (on_collection d c)"
| "access_matrix (Compact c) d = Needs {DbAdmin, TenantAdmin, ServerAdmin} (on_collection d c)"
| "access_matrix (CreateCollection c) d = Needs {DbAdmin, TenantAdmin, ServerAdmin} (on_database d)"
| "access_matrix (DropCollection c) d = Needs {DbAdmin, TenantAdmin, ServerAdmin} (on_database d)"
| "access_matrix ListCollections d = Needs {DbAdmin, TenantAdmin, ServerAdmin} (on_database d)"
| "access_matrix Flush d = Needs {DbAdmin, TenantAdmin, ServerAdmin} (on_database d)"
| "access_matrix (CreateDatabase n) d = Needs {TenantAdmin, ServerAdmin} (on_database n)"
| "access_matrix (DropDatabase n) d = Needs {TenantAdmin, ServerAdmin} (on_database n)"
| "access_matrix (SetDatabaseConsistency n r w) d = Needs {TenantAdmin, ServerAdmin} (on_database n)"
| "access_matrix (ResetDatabaseConsistency n) d = Needs {TenantAdmin, ServerAdmin} (on_database n)"
| "access_matrix (ShowDatabaseConsistency n) d = Needs {TenantAdmin, ServerAdmin} (on_database n)"
| "access_matrix (CreateUser u p) d = Needs {TenantAdmin, ServerAdmin} server_wide"
| "access_matrix (DropUser u) d = Needs {TenantAdmin, ServerAdmin} server_wide"
| "access_matrix (ListUsers t) d = Needs {TenantAdmin, ServerAdmin} server_wide"
| "access_matrix (Grant r x u) d = Needs {TenantAdmin, ServerAdmin} server_wide"
| "access_matrix (Revoke r x u) d = Needs {TenantAdmin, ServerAdmin} server_wide"
| "access_matrix (CreateTenant n) d = Needs {ServerAdmin} server_wide"
| "access_matrix (DropTenant n) d = Needs {ServerAdmin} server_wide"
| "access_matrix ListTenants d = Needs {ServerAdmin} server_wide"
| "access_matrix (ElectWriter n db c) d = Needs {ServerAdmin} server_wide"
| "access_matrix (PlanRebalanceAddNode n) d = Needs {ServerAdmin} server_wide"
| "access_matrix (PlanRebalanceRemoveNode n) d = Needs {ServerAdmin} server_wide"
| "access_matrix (ExecuteRebalanceAddNode n c) d = Needs {ServerAdmin} server_wide"
| "access_matrix (ExecuteRebalanceRemoveNode n c) d = Needs {ServerAdmin} server_wide"
| "access_matrix (WithConsistency r w b) d = access_matrix b d"

text \<open>The sessions a row admits.\<close>

fun admits :: "access_row \<Rightarrow> session_context \<Rightarrow> bool" where
  "admits Anyone s \<longleftrightarrow> True"
| "admits Authenticated s \<longleftrightarrow> is_authenticated s"
| "admits (Needs roles scopes) s \<longleftrightarrow>
     (\<exists>cl. se_claims s = Some cl \<and> (\<exists>ra \<in> set (cl_roles cl). ra_role ra \<in> roles \<and> ra_scope ra \<in> scopes))"

lemma scope_columns:
  "scope_covers x Server \<longleftrightarrow> x \<in> server_wide"
  "scope_covers x (Database d) \<longleftrightarrow> x \<in> on_database d"
  "scope_covers x (Collection d c) \<longleftrightarrow> x \<in> on_collection d c"
  by (cases x; auto simp: server_wide_def on_database_def on_collection_def)+

lemma role_columns:
  "permits_action r Read \<longleftrightarrow> r \<in> {ReadOnly, ReadWrite, DbAdmin, TenantAdmin, ServerAdmin}"
  "permits_action r Write \<longleftrightarrow> r \<in> {ReadWrite, DbAdmin, TenantAdmin, ServerAdmin}"
  "permits_action r Admin \<longleftrightarrow> r \<in> {DbAdmin, TenantAdmin, ServerAdmin}"
  "permits_action r ManageDatabases \<longleftrightarrow> r \<in> {TenantAdmin, ServerAdmin}"
  "permits_action r ManageUsers \<longleftrightarrow> r \<in> {TenantAdmin, ServerAdmin}"
  "permits_action r ManageServer \<longleftrightarrow> r \<in> {ServerAdmin}"
  by (cases r; simp)+

lemma authorize_guarded:
  assumes "\<not> is_pre_auth c" "to_auth_action (required_action c) = Some a"
    and "to_auth_resource (target_resource c (se_current_db s)) = Some r"
  shows "authorize s c = Inr () \<longleftrightarrow>
    (\<exists>cl. se_claims s = Some cl \<and> (\<exists>ra \<in> set (cl_roles cl). permits_action (ra_role ra) a \<and> scope_covers (ra_scope ra) r))"
  using assms by (auto simp: authorize_def list_ex_iff permits_def split: option.split)

lemma authorize_wrapper: "authorize s (WithConsistency r w b) = authorize s b"
proof -
  have "is_pre_auth (WithConsistency r w b) = is_pre_auth b"
    using wrapper_transparent(3) [of "WithConsistency r w b"] wrapper_transparent(3) [of b] by simp
  moreover have "required_action (WithConsistency r w b) = required_action b"
    "target_resource (WithConsistency r w b) db = target_resource b db" for db
    by simp_all
  ultimately show ?thesis by (simp only: authorize_def)
qed

lemma authorize_open: "is_pre_auth c \<Longrightarrow> authorize s c = Inr ()"
  by (simp add: authorize_def)

lemma authorize_session:
  assumes "\<not> is_pre_auth c" "to_auth_action (required_action c) = None \<or> to_auth_resource (target_resource c (se_current_db s)) = None"
  shows "authorize s c = Inr () \<longleftrightarrow> is_authenticated s"
  using assms by (auto simp: authorize_def is_authenticated_def split: option.split)


definition read_only_session :: session_context where
  "read_only_session =
     set_database (lit ''shop'')
       (set_claims \<lparr>cl_sub = lit ''alice'', cl_tenant = lit ''acme'',
          cl_roles = [\<lparr>ra_role = ReadOnly, ra_scope = Database (lit ''shop'')\<rparr>],
          cl_iat = 0, cl_exp = 1, cl_token_type = lit ''access''\<rparr> session_new)"

lemmas session_simps = read_only_session_def set_database_def set_claims_def session_new_def


text \<open>
  C31. A stolen inter-node token opens no tenant data: a session that holds only \<^verbatim>\<open>cluster_peer\<close>
  assignments, whatever their scopes, passes the check for no command that reads, writes or
  administers anything; what remains are the login and session commands and \<^verbatim>\<open>LIST DATABASES\<close>.
\<close>

theorem cluster_peer_confined:
  assumes "se_claims s = Some cl" "\<forall>ra \<in> set (cl_roles cl). ra_role ra = ClusterPeer"
    and "authorize s c = Inr ()"
  shows "unguarded c"
  using assms(3)
proof (cases rule: authorize_cases)
  case (2 cl' a r ra)
  then have "ra_role ra = ClusterPeer" using assms by simp
  with 2 have "a = ReplicationPeer" by (simp add: permits_def)
  with 2 show ?thesis by (cases "required_action c") simp_all
qed

definition peer_session :: session_context where
  "peer_session =
     set_claims \<lparr>cl_sub = lit ''_cluster/n1'', cl_tenant = lit ''_system'',
        cl_roles = [\<lparr>ra_role = ClusterPeer, ra_scope = Server\<rparr>],
        cl_iat = 0, cl_exp = 1, cl_token_type = lit ''access''\<rparr> session_new"

theorem cluster_peer_confined_witness:
  "authorize peer_session WhoAmI = Inr () \<and> unguarded WhoAmI
   \<and> authorize peer_session Flush = Inl (AccessDenied Admin (Database []) (lit ''_cluster/n1''))"
proof -
  have "authorize peer_session WhoAmI = Inr ()"
    and deny: "authorize peer_session Flush = Inl (AccessDenied Admin (Database []) (lit ''_cluster/n1''))"
    by (simp_all add: peer_session_def set_claims_def session_new_def authorize_def is_pre_auth.simps
        permits_def db_or_empty_def)
  moreover from this(1) have "unguarded WhoAmI"
    using cluster_peer_confined [of peer_session "the (se_claims peer_session)" WhoAmI]
    by (simp add: peer_session_def set_claims_def session_new_def)
  ultimately show ?thesis by blast
qed

text \<open>
  C32. User management needs a server-wide assignment: every \<^verbatim>\<open>CREATE USER\<close>, \<^verbatim>\<open>DROP USER\<close>,
  \<^verbatim>\<open>LIST USERS\<close>, \<^verbatim>\<open>GRANT\<close> and \<^verbatim>\<open>REVOKE\<close> is refused to a session none of whose assignments has the
  scope \<^verbatim>\<open>Server\<close>, a tenant administrator on the scope \<^verbatim>\<open>Tenant\<close> included, because the command's
  resource is the server.
\<close>

theorem user_management_needs_server_scope:
  assumes "required_action c = ActManageUsers" "se_claims s = Some cl"
    and "\<forall>ra \<in> set (cl_roles cl). ra_scope ra \<noteq> Server"
  shows "authorize s c = Inl (AccessDenied ManageUsers Server (cl_sub cl))"
proof -
  have res: "target_resource c db = ResServer" for db
    using assms(1) by (induction c) simp_all
  have "\<not> is_pre_auth c"
    using assms(1) by (induction c) (simp_all add: is_pre_auth.simps)
  moreover have "\<not> scope_covers x Server" if "x \<noteq> Server" for x
    using that by (cases x) simp_all
  ultimately show ?thesis
    using assms by (auto simp: authorize_def res list_ex_iff permits_def)
qed

definition tenant_admin_session :: session_context where
  "tenant_admin_session =
     set_claims \<lparr>cl_sub = lit ''root'', cl_tenant = lit ''acme'',
        cl_roles = [\<lparr>ra_role = TenantAdmin, ra_scope = Tenant\<rparr>],
        cl_iat = 0, cl_exp = 1, cl_token_type = lit ''access''\<rparr> session_new"

theorem user_management_needs_server_scope_witness:
  "authorize tenant_admin_session (CreateUser (lit ''bob'') (lit ''pw''))
   = Inl (AccessDenied ManageUsers Server (lit ''root''))"
  using user_management_needs_server_scope
    [of "CreateUser (lit ''bob'') (lit ''pw'')" tenant_admin_session]
  by (simp add: tenant_admin_session_def set_claims_def session_new_def)

lemma role_names: "from_str_name (role_display r) = Some r"
  by (cases r) (simp_all add: from_str_name_def)

end
