(* ===== verification/Auth_Disk.thy ===== *)
theory Auth_Disk
  imports Wire_Text
begin

text \<open>
  The part of the standard library the user files of \<^verbatim>\<open>src/grumpydb-server/src/auth/store.rs\<close> rest on:
  \<^verbatim>\<open>PathBuf::join\<close>, \<^verbatim>\<open>fs::write\<close>, \<^verbatim>\<open>fs::remove_file\<close>, \<^verbatim>\<open>Path::exists\<close>, \<^verbatim>\<open>fs::create_dir_all\<close> on a
  Unix disk without symbolic links. A path is the string the program builds; the operating system
  resolves it component by component against the directories that exist, \<^verbatim>\<open>..\<close> included. A file holds
  the JSON text of a value, another text, or bytes that are not UTF-8. The system may refuse a path
  as such (a NUL character, a name that is too long); writes to the others succeed.
\<close>

section \<open>Paths\<close>

type_synonym location = "rust_str list"

definition is_absolute :: "rust_str \<Rightarrow> bool" where
  "is_absolute p \<longleftrightarrow> p \<noteq> [] \<and> hd p = of_char (CHR ''/'')"

text \<open>\<^verbatim>\<open>PathBuf::join\<close>: an absolute path replaces the base.\<close>

definition path_join :: "rust_str \<Rightarrow> rust_str \<Rightarrow> rust_str" where
  "path_join a b =
     (if is_absolute b then b
      else if a = [] \<or> last a = of_char (CHR ''/'') then a @ b
      else a @ of_char (CHR ''/'') # b)"

fun split_slash :: "rust_str \<Rightarrow> rust_str list" where
  "split_slash [] = [[]]"
| "split_slash (c # s) =
     (let words = split_slash s in if c = of_char (CHR ''/'') then [] # words else (c # hd words) # tl words)"

section \<open>The disk\<close>

datatype 'c file_content = JsonOf 'c | OtherText | NotText

record 'c disk =
  fd_dirs :: "location \<Rightarrow> bool"
  fd_files :: "location \<Rightarrow> 'c file_content option"
  fd_cwd :: location
  fd_refuse :: "rust_str \<Rightarrow> bool"
  fd_error :: "rust_str \<Rightarrow> rust_str"

fun walk :: "(location \<Rightarrow> bool) \<Rightarrow> location \<Rightarrow> rust_str list \<Rightarrow> location option" where
  "walk dirs here [] = Some here"
| "walk dirs here (c # cs) =
     (if c = [] \<or> c = lit ''.'' then walk dirs here cs
      else if c = lit ''..'' then walk dirs (butlast here) cs
      else if dirs (here @ [c]) then walk dirs (here @ [c]) cs
      else None)"

definition walk_start :: "'c disk \<Rightarrow> rust_str \<Rightarrow> location" where
  "walk_start d p = (if is_absolute p then [] else fd_cwd d)"

definition resolve_dir :: "'c disk \<Rightarrow> rust_str \<Rightarrow> location option" where
  "resolve_dir d p = (if fd_refuse d p then None else walk (fd_dirs d) (walk_start d p) (split_slash p))"

text \<open>A path whose last component is a proper file name.\<close>

definition resolve_file :: "'c disk \<Rightarrow> rust_str \<Rightarrow> location option" where
  "resolve_file d p =
     (if fd_refuse d p then None
      else map_option (\<lambda>dir. dir @ [last (split_slash p)])
             (walk (fd_dirs d) (walk_start d p) (butlast (split_slash p))))"

definition fs_write :: "rust_str \<Rightarrow> 'c \<Rightarrow> 'c disk \<Rightarrow> 'c disk \<times> (rust_str + unit)" where
  "fs_write p x d =
     (case resolve_file d p of
        None \<Rightarrow> (d, Inl (fd_error d p))
      | Some l \<Rightarrow> (if fd_dirs d l then (d, Inl (fd_error d p))
                  else (d\<lparr>fd_files := (fd_files d)(l \<mapsto> JsonOf x)\<rparr>, Inr ())))"

definition fs_exists :: "rust_str \<Rightarrow> 'c disk \<Rightarrow> bool" where
  "fs_exists p d =
     (case resolve_file d p of None \<Rightarrow> False | Some l \<Rightarrow> fd_dirs d l \<or> fd_files d l \<noteq> None)"

definition fs_remove_file :: "rust_str \<Rightarrow> 'c disk \<Rightarrow> 'c disk \<times> (rust_str + unit)" where
  "fs_remove_file p d =
     (case resolve_file d p of
        None \<Rightarrow> (d, Inl (fd_error d p))
      | Some l \<Rightarrow> (if fd_dirs d l \<or> fd_files d l = None then (d, Inl (fd_error d p))
                  else (d\<lparr>fd_files := (fd_files d)(l := None)\<rparr>, Inr ())))"

fun make_dirs :: "location \<Rightarrow> rust_str list \<Rightarrow> 'c disk \<Rightarrow> 'c disk \<times> bool" where
  "make_dirs here [] d = (d, True)"
| "make_dirs here (c # cs) d =
     (if c = [] \<or> c = lit ''.'' then make_dirs here cs d
      else if c = lit ''..'' then make_dirs (butlast here) cs d
      else if fd_files d (here @ [c]) \<noteq> None then (d, False)
      else make_dirs (here @ [c]) cs (d\<lparr>fd_dirs := (fd_dirs d)(here @ [c] := True)\<rparr>))"

definition fs_create_dir_all :: "rust_str \<Rightarrow> 'c disk \<Rightarrow> 'c disk \<times> (rust_str + unit)" where
  "fs_create_dir_all p d =
     (if fd_refuse d p then (d, Inl (fd_error d p))
      else case make_dirs (walk_start d p) (split_slash p) d of
        (d', ok) \<Rightarrow> (d', if ok then Inr () else Inl (fd_error d p)))"

text \<open>The names \<^verbatim>\<open>fs::read_dir\<close> lists, and the extension test of the loader.\<close>

definition entries :: "'c disk \<Rightarrow> location \<Rightarrow> rust_str set" where
  "entries d dir = {n. fd_dirs d (dir @ [n]) \<or> fd_files d (dir @ [n]) \<noteq> None}"

definition json_file :: "rust_str \<Rightarrow> bool" where
  "json_file n \<longleftrightarrow> suffix (lit ''.json'') n \<and> length n > 5"

section \<open>Resolution of joined paths\<close>

lemma split_slash_nonempty [simp]: "split_slash s \<noteq> []"
  by (cases s) (auto simp: Let_def)

lemma split_slash_append: "split_slash (a @ of_char (CHR ''/'') # b) = split_slash a @ split_slash b"
  by (induction a) (auto simp: neq_Nil_conv Let_def)

lemma split_slash_plain: "of_char (CHR ''/'') \<notin> set s \<Longrightarrow> split_slash s = [s]"
  by (induction s) (auto simp: Let_def)

lemma walk_append: "walk dirs here (a @ b) = Option.bind (walk dirs here a) (\<lambda>here. walk dirs here b)"
  by (induction dirs here a rule: walk.induct) auto

lemma split_slash_last_slash:
  "a \<noteq> [] \<Longrightarrow> last a = of_char (CHR ''/'') \<Longrightarrow> split_slash (a @ b) = butlast (split_slash a) @ split_slash b
    \<and> last (split_slash a) = []"
  using split_slash_append [of "butlast a" b] split_slash_append [of "butlast a" "[]"]
  by (metis append.assoc append_Cons append_Nil append_butlast_last_id butlast_snoc last_snoc split_slash.simps(1))

lemma walk_butlast: "last cs = [] \<Longrightarrow> cs \<noteq> [] \<Longrightarrow> walk dirs here (butlast cs) = walk dirs here cs"
  by (induction cs rule: rev_induct) (simp_all add: walk_append bind_eq_Some_conv)

lemma walk_start_join: "\<not> is_absolute b \<Longrightarrow> walk_start d (path_join a b) = walk_start d a"
  by (cases a) (auto simp: walk_start_def path_join_def is_absolute_def)

text \<open>Resolving a joined relative path resolves the base and goes on from there.\<close>

lemma split_join:
  assumes "\<not> is_absolute b"
  obtains pre where "split_slash (path_join a b) = pre @ split_slash b"
    "\<And>dirs here. walk dirs here pre = walk dirs here (split_slash a)"
proof (cases "a = [] \<or> last a = of_char (CHR ''/'')")
  case True
  show ?thesis
  proof (cases "a = []")
    case True
    with assms show ?thesis by (intro that [of "[]"]) (simp_all add: path_join_def)
  next
    case False
    with True assms split_slash_last_slash [of a b] show ?thesis
      by (intro that [of "butlast (split_slash a)"]) (simp_all add: path_join_def walk_butlast)
  qed
next
  case False
  with assms show ?thesis by (intro that [of "split_slash a"]) (simp_all add: path_join_def split_slash_append [simplified])
qed

lemma resolve_file_join:
  assumes "resolve_dir d a = Some dir" "\<not> is_absolute b"
  shows "resolve_file d (path_join a b) =
    (if fd_refuse d (path_join a b) then None
     else map_option (\<lambda>l. l @ [last (split_slash b)]) (walk (fd_dirs d) dir (butlast (split_slash b))))"
proof -
  obtain pre where "split_slash (path_join a b) = pre @ split_slash b"
    "\<And>dirs here. walk dirs here pre = walk dirs here (split_slash a)"
    using split_join [OF assms(2)] by blast
  with assms show ?thesis
    by (simp add: resolve_file_def resolve_dir_def walk_start_join butlast_append walk_append split: if_splits)
qed

lemma resolve_files [simp]:
  "resolve_dir (d\<lparr>fd_files := f\<rparr>) = resolve_dir d" "resolve_file (d\<lparr>fd_files := f\<rparr>) = resolve_file d"
  by (simp_all add: resolve_dir_def resolve_file_def walk_start_def fun_eq_iff)

lemma resolve_dir_join_name:
  assumes "resolve_dir d (path_join a n) = Some dir" "split_slash n = [n]" "n \<notin> {[], lit ''.'', lit ''..''}"
  shows "\<exists>parent. dir = parent @ [n]"
proof -
  have "\<not> is_absolute n" using assms(2) by (cases n) (auto simp: is_absolute_def)
  then obtain pre where "split_slash (path_join a n) = pre @ split_slash n"
    using split_join by blast
  with assms show ?thesis
    by (auto simp: resolve_dir_def walk_append bind_eq_Some_conv split: if_splits)
qed

end
