(* ===== verification/Auth_Store.thy ===== *)
theory Auth_Store
  imports Access_Control Auth_Disk
begin

text \<open>
  Users and tokens, \<^verbatim>\<open>src/grumpydb-server/src/auth/user.rs\<close>, \<^verbatim>\<open>jwt.rs\<close> and \<^verbatim>\<open>store.rs\<close>: the user
  records with their files on disk, passwords, the signing configuration with its two-key ring,
  issuing, verifying and refreshing tokens. The crates \<^verbatim>\<open>argon2\<close> and \<^verbatim>\<open>jsonwebtoken\<close> are the
  record \<open>crypto\<close>, a parameter of the definitions; the random salt of a call and each of its clock
  readings are its arguments. The user files lie on the disk of \<open>Auth_Disk\<close>: an operation returns the
  store it leaves behind together with its result, since some operations fail after they have
  changed the users in memory.
\<close>

section \<open>Parameters\<close>

datatype jwt_failure = ExpiredSignature | OtherJwtError rust_str

record ('k, 'h) crypto =
  argon2_hash :: "nat \<Rightarrow> rust_str \<Rightarrow> rust_str + rust_str"
  argon2_parse :: "rust_str \<Rightarrow> rust_str + 'h"
  argon2_verify :: "rust_str \<Rightarrow> 'h \<Rightarrow> bool"
  jwt_encode :: "rust_str option \<Rightarrow> 'k \<Rightarrow> claims \<Rightarrow> rust_str + rust_str"
  jwt_header_kid :: "rust_str \<Rightarrow> rust_str + rust_str option"
  jwt_decode :: "u64 \<Rightarrow> 'k \<Rightarrow> rust_str \<Rightarrow> jwt_failure + claims"

text \<open>
  What the code relies on of \<^verbatim>\<open>jsonwebtoken\<close>: a token carries the \<^verbatim>\<open>kid\<close> it was encoded with, and
  decoding it with the key of the signature returns its claims until they expire.
\<close>

definition jwt_crate_ok :: "('k, 'h) crypto \<Rightarrow> bool" where
  "jwt_crate_ok cr \<longleftrightarrow>
     (\<forall>kid k cl t. jwt_encode cr kid k cl = Inr t \<longrightarrow>
        jwt_header_kid cr t = Inr kid \<and>
        (\<forall>now. jwt_decode cr now k t = (if cl_exp cl < now then Inl ExpiredSignature else Inr cl)))"

section \<open>Users and passwords\<close>

record user =
  us_username :: rust_str
  us_tenant :: rust_str
  us_password_hash :: rust_str
  us_roles :: "role_assignment list"
  us_created_at :: u64

definition map_err :: "('e \<Rightarrow> 'f) \<Rightarrow> 'e + 'a \<Rightarrow> 'f + 'a" where
  "map_err f r = (case r of Inl e \<Rightarrow> Inl (f e) | Inr x \<Rightarrow> Inr x)"

definition ok_or :: "'e \<Rightarrow> 'a option \<Rightarrow> 'e + 'a" where
  "ok_or e x = (case x of None \<Rightarrow> Inl e | Some y \<Rightarrow> Inr y)"

definition hash_password :: "('k, 'h) crypto \<Rightarrow> nat \<Rightarrow> rust_str \<Rightarrow> auth_error + rust_str" where
  "hash_password cr salt password = map_err HashError (argon2_hash cr salt password)"

definition verify_password :: "('k, 'h) crypto \<Rightarrow> rust_str \<Rightarrow> rust_str \<Rightarrow> auth_error + bool" where
  "verify_password cr password hash =
     bind_res (map_err HashError (argon2_parse cr hash)) (\<lambda>parsed. Inr (argon2_verify cr password parsed))"

section \<open>Signing configuration\<close>

datatype jwt_algorithm = Hs256 | Rs256

record 'k rs_key =
  rk_kid :: rust_str
  rk_key :: 'k

record 'k rs_key_ring =
  rr_current :: "'k rs_key"
  rr_next :: "'k rs_key"

definition ring_find :: "'k rs_key_ring \<Rightarrow> rust_str \<Rightarrow> 'k rs_key option" where
  "ring_find ring kid =
     (if rk_kid (rr_current ring) = kid then Some (rr_current ring)
      else if rk_kid (rr_next ring) = kid then Some (rr_next ring)
      else None)"

record 'k jwt_config =
  jc_algorithm :: jwt_algorithm
  jc_access_ttl :: u64
  jc_refresh_ttl :: u64
  jc_hs_secret :: "'k option"
  jc_rs_keys :: "'k rs_key_ring option"

definition new_hs256 :: "'k \<Rightarrow> u64 \<Rightarrow> u64 \<Rightarrow> 'k jwt_config" where
  "new_hs256 secret access_ttl refresh_ttl =
     \<lparr>jc_algorithm = Hs256, jc_access_ttl = access_ttl, jc_refresh_ttl = refresh_ttl,
      jc_hs_secret = Some secret, jc_rs_keys = None\<rparr>"

definition new_rs256 :: "'k rs_key_ring \<Rightarrow> u64 \<Rightarrow> u64 \<Rightarrow> 'k jwt_config" where
  "new_rs256 ring access_ttl refresh_ttl =
     \<lparr>jc_algorithm = Rs256, jc_access_ttl = access_ttl, jc_refresh_ttl = refresh_ttl,
      jc_hs_secret = None, jc_rs_keys = Some ring\<rparr>"

text \<open>\<^verbatim>\<open>rotate\<close>: the freshly generated key is the argument.\<close>

definition rotate_keys :: "auth_error + 'k rs_key \<Rightarrow> 'k jwt_config \<Rightarrow> auth_error + 'k jwt_config" where
  "rotate_keys generated config =
     bind_res (ok_or (JwtError (lit ''rotate() requires RS256 algorithm'')) (jc_rs_keys config)) (\<lambda>ring.
     bind_res generated (\<lambda>new_next.
     Inr (config\<lparr>jc_rs_keys := Some \<lparr>rr_current = rr_next ring, rr_next = new_next\<rparr>\<rparr>)))"

section \<open>Tokens\<close>

text \<open>The clock: the seconds since the epoch, or the error of a clock before it.\<close>

type_synonym clock = "rust_str + u64"

definition claims_for :: "user \<Rightarrow> u64 \<Rightarrow> u64 \<Rightarrow> rust_str \<Rightarrow> claims" where
  "claims_for u now ttl token_type =
     \<lparr>cl_sub = us_username u, cl_tenant = us_tenant u, cl_roles = us_roles u,
      cl_iat = now, cl_exp = now + ttl, cl_token_type = token_type\<rparr>"

definition generate_token ::
  "('k, 'h) crypto \<Rightarrow> clock \<Rightarrow> user \<Rightarrow> 'k jwt_config \<Rightarrow> u64 \<Rightarrow> rust_str \<Rightarrow> auth_error + rust_str" where
  "generate_token cr clk u config ttl token_type =
     bind_res (map_err ClockError clk) (\<lambda>now.
     case jc_algorithm config of
       Hs256 \<Rightarrow>
         bind_res (ok_or (JwtError (lit ''HS256 config missing secret'')) (jc_hs_secret config)) (\<lambda>secret.
         map_err JwtError (jwt_encode cr None secret (claims_for u now ttl token_type)))
     | Rs256 \<Rightarrow>
         bind_res (ok_or (JwtError (lit ''RS256 config missing keyring'')) (jc_rs_keys config)) (\<lambda>ring.
         map_err JwtError (jwt_encode cr (Some (rk_kid (rr_current ring))) (rk_key (rr_current ring))
           (claims_for u now ttl token_type))))"

definition generate_access_token ::
  "('k, 'h) crypto \<Rightarrow> clock \<Rightarrow> user \<Rightarrow> 'k jwt_config \<Rightarrow> auth_error + rust_str" where
  "generate_access_token cr clk u config =
     generate_token cr clk u config (jc_access_ttl config) (lit ''access'')"

definition generate_refresh_token ::
  "('k, 'h) crypto \<Rightarrow> clock \<Rightarrow> user \<Rightarrow> 'k jwt_config \<Rightarrow> auth_error + rust_str" where
  "generate_refresh_token cr clk u config =
     generate_token cr clk u config (jc_refresh_ttl config) (lit ''refresh'')"

primrec token_error :: "jwt_failure \<Rightarrow> auth_error" where
  "token_error ExpiredSignature = TokenExpired"
| "token_error (OtherJwtError e) = InvalidToken e"

definition verify_token ::
  "('k, 'h) crypto \<Rightarrow> u64 \<Rightarrow> rust_str \<Rightarrow> 'k jwt_config \<Rightarrow> auth_error + claims" where
  "verify_token cr now token config =
     (case jc_algorithm config of
        Hs256 \<Rightarrow>
          bind_res (ok_or (JwtError (lit ''HS256 config missing secret'')) (jc_hs_secret config)) (\<lambda>secret.
          map_err token_error (jwt_decode cr now secret token))
      | Rs256 \<Rightarrow>
          bind_res (ok_or (JwtError (lit ''RS256 config missing keyring'')) (jc_rs_keys config)) (\<lambda>ring.
          bind_res (map_err (\<lambda>e. InvalidToken (lit ''bad header: '' @ e)) (jwt_header_kid cr token)) (\<lambda>kid_opt.
          bind_res (ok_or (InvalidToken (lit ''missing kid in header'')) kid_opt) (\<lambda>kid.
          bind_res (ok_or (InvalidToken (lit ''kid not found in keyring: '' @ kid)) (ring_find ring kid)) (\<lambda>k.
          map_err token_error (jwt_decode cr now (rk_key k) token))))))"

section \<open>The store\<close>

record 'k auth_store =
  as_auth_dir :: rust_str
  as_config :: "'k jwt_config"
  as_users :: "user list"
  as_disk :: "user disk"
  as_peer_token :: "rust_str option"

type_synonym 'k store_result = "'k auth_store \<times> (auth_error + unit)"

definition same_user :: "rust_str \<Rightarrow> rust_str \<Rightarrow> user \<Rightarrow> bool" where
  "same_user tenant username u \<longleftrightarrow> us_tenant u = tenant \<and> us_username u = username"

definition sanitise_for_filename :: "rust_str \<Rightarrow> rust_str" where
  "sanitise_for_filename s = concat (map (\<lambda>c. if c = 47 \<or> c = 92 then lit ''__'' else [c]) s)"

definition users_dir :: "'k auth_store \<Rightarrow> rust_str" where
  "users_dir s = path_join (as_auth_dir s) (lit ''users'')"

definition user_file_name :: "rust_str \<Rightarrow> rust_str \<Rightarrow> rust_str" where
  "user_file_name tenant username =
     tenant @ lit ''__'' @ sanitise_for_filename username @ lit ''.json''"

definition user_file_path :: "'k auth_store \<Rightarrow> rust_str \<Rightarrow> rust_str \<Rightarrow> rust_str" where
  "user_file_path s tenant username = path_join (users_dir s) (user_file_name tenant username)"

text \<open>A call on the disk inside an operation of the store; \<^verbatim>\<open>?\<close> turns its error into \<^verbatim>\<open>AuthError::Io\<close>.\<close>

definition on_disk :: "(user disk \<Rightarrow> user disk \<times> (rust_str + unit)) \<Rightarrow> 'k auth_store \<Rightarrow> 'k store_result" where
  "on_disk f s = (case f (as_disk s) of (d, r) \<Rightarrow> (s\<lparr>as_disk := d\<rparr>, map_err AuthIo r))"

text \<open>The rest of an operation after a call that may have failed.\<close>

definition and_then :: "'k store_result \<Rightarrow> ('k auth_store \<Rightarrow> 'k store_result) \<Rightarrow> 'k store_result" where
  "and_then r f = (case r of (s, Inl e) \<Rightarrow> (s, Inl e) | (s, Inr _) \<Rightarrow> f s)"

definition save_user :: "user \<Rightarrow> 'k auth_store \<Rightarrow> 'k store_result" where
  "save_user u s = on_disk (fs_write (user_file_path s (us_tenant u) (us_username u)) u) s"

definition create_user ::
  "('k, 'h) crypto \<Rightarrow> nat \<Rightarrow> clock \<Rightarrow> rust_str \<Rightarrow> rust_str \<Rightarrow> rust_str \<Rightarrow> role_assignment list
     \<Rightarrow> 'k auth_store \<Rightarrow> 'k store_result" where
  "create_user cr salt clk tenant username password roles s =
     (if list_ex (same_user tenant username) (as_users s)
      then (s, Inl (UserAlreadyExists (tenant @ lit ''/'' @ username)))
      else case hash_password cr salt password of
        Inl e \<Rightarrow> (s, Inl e)
      | Inr password_hash \<Rightarrow>
          (case map_err ClockError clk of
             Inl e \<Rightarrow> (s, Inl e)
           | Inr now \<Rightarrow>
               let new_user = \<lparr>us_username = username, us_tenant = tenant, us_password_hash = password_hash,
                               us_roles = roles, us_created_at = now\<rparr>
               in and_then (save_user new_user s) (\<lambda>s. (s\<lparr>as_users := as_users s @ [new_user]\<rparr>, Inr ()))))"

text \<open>\<^verbatim>\<open>Vec::remove\<close> at the first position that satisfies a predicate.\<close>

fun remove_first :: "('a \<Rightarrow> bool) \<Rightarrow> 'a list \<Rightarrow> 'a list" where
  "remove_first P [] = []"
| "remove_first P (x # xs) = (if P x then xs else x # remove_first P xs)"

definition delete_user :: "rust_str \<Rightarrow> rust_str \<Rightarrow> 'k auth_store \<Rightarrow> 'k store_result" where
  "delete_user tenant username s =
     (if \<not> list_ex (same_user tenant username) (as_users s)
      then (s, Inl (UserNotFound (tenant @ lit ''/'' @ username)))
      else
        let s1 = s\<lparr>as_users := remove_first (same_user tenant username) (as_users s)\<rparr>;
            file_path = user_file_path s1 tenant username
        in if fs_exists file_path (as_disk s1) then on_disk (fs_remove_file file_path) s1 else (s1, Inr ()))"

definition get_user :: "rust_str \<Rightarrow> rust_str \<Rightarrow> 'k auth_store \<Rightarrow> user option" where
  "get_user tenant username s = find (same_user tenant username) (as_users s)"

definition list_users :: "rust_str \<Rightarrow> 'k auth_store \<Rightarrow> user list" where
  "list_users tenant s = filter (\<lambda>u. us_tenant u = tenant) (as_users s)"

fun update_first :: "('a \<Rightarrow> bool) \<Rightarrow> ('a \<Rightarrow> 'a) \<Rightarrow> 'a list \<Rightarrow> 'a list" where
  "update_first P f [] = []"
| "update_first P f (x # xs) = (if P x then f x # xs else x # update_first P f xs)"

definition update_roles ::
  "rust_str \<Rightarrow> rust_str \<Rightarrow> role_assignment list \<Rightarrow> 'k auth_store \<Rightarrow> 'k store_result" where
  "update_roles tenant username roles s =
     (case find (same_user tenant username) (as_users s) of
        None \<Rightarrow> (s, Inl (UserNotFound (tenant @ lit ''/'' @ username)))
      | Some u \<Rightarrow>
          save_user (u\<lparr>us_roles := roles\<rparr>)
            (s\<lparr>as_users := update_first (same_user tenant username) (\<lambda>u. u\<lparr>us_roles := roles\<rparr>) (as_users s)\<rparr>))"

text \<open>\<open>clk\<close> and \<open>clk'\<close> are the clock readings of the two calls that make a token.\<close>

definition authenticate ::
  "('k, 'h) crypto \<Rightarrow> clock \<Rightarrow> clock \<Rightarrow> rust_str \<Rightarrow> rust_str \<Rightarrow> rust_str \<Rightarrow> 'k auth_store
     \<Rightarrow> auth_error + rust_str \<times> rust_str" where
  "authenticate cr clk clk' tenant username password s =
     bind_res (ok_or InvalidCredentials (get_user tenant username s)) (\<lambda>u.
     bind_res (verify_password cr password (us_password_hash u)) (\<lambda>valid.
     if \<not> valid then Inl InvalidCredentials
     else bind_res (generate_access_token cr clk u (as_config s)) (\<lambda>access.
          bind_res (generate_refresh_token cr clk' u (as_config s)) (\<lambda>refresh.
          Inr (access, refresh)))))"

definition store_verify_token ::
  "('k, 'h) crypto \<Rightarrow> u64 \<Rightarrow> rust_str \<Rightarrow> 'k auth_store \<Rightarrow> auth_error + claims" where
  "store_verify_token cr now token s = verify_token cr now token (as_config s)"

text \<open>\<open>now\<close> is the time of the verification, \<open>clk\<close> the later clock reading of the new token.\<close>

definition refresh_access_token ::
  "('k, 'h) crypto \<Rightarrow> u64 \<Rightarrow> clock \<Rightarrow> rust_str \<Rightarrow> 'k auth_store \<Rightarrow> auth_error + rust_str" where
  "refresh_access_token cr now clk refresh_token s =
     bind_res (store_verify_token cr now refresh_token s) (\<lambda>cl.
     if cl_token_type cl \<noteq> lit ''refresh''
     then Inl (InvalidToken (lit ''expected refresh token''))
     else bind_res (ok_or InvalidCredentials (get_user (cl_tenant cl) (cl_sub cl) s)) (\<lambda>u.
          generate_access_token cr clk u (as_config s)))"

section \<open>Opening the store\<close>

definition SYSTEM_TENANT :: rust_str where
  "SYSTEM_TENANT = lit ''_system''"

definition CLUSTER_PEER_USERNAME :: rust_str where
  "CLUSTER_PEER_USERNAME = lit ''_cluster/local-bootstrap''"

definition CLUSTER_PEER_TTL_SECS :: u64 where
  "CLUSTER_PEER_TTL_SECS = 31536000"

text \<open>
  The directory loop: \<open>names\<close> is the order in which the file system lists the entries. A file that
  is not the JSON of a user is skipped, an entry that cannot be read as text ends the start-up.
\<close>

fun read_users :: "user disk \<Rightarrow> location \<Rightarrow> rust_str list \<Rightarrow> auth_error + user list" where
  "read_users d dir [] = Inr []"
| "read_users d dir (n # names) =
     (if \<not> json_file n then read_users d dir names
      else case fd_files d (dir @ [n]) of
        Some (JsonOf u) \<Rightarrow> bind_res (read_users d dir names) (\<lambda>us. Inr (u # us))
      | Some OtherText \<Rightarrow> read_users d dir names
      | _ \<Rightarrow> Inl (AuthIo (fd_error d n)))"

definition load_users :: "rust_str \<Rightarrow> rust_str list \<Rightarrow> user disk \<Rightarrow> auth_error + user list" where
  "load_users path names d =
     (case resolve_dir d path of None \<Rightarrow> Inr [] | Some dir \<Rightarrow> read_users d dir names)"

definition has_admin :: "'k auth_store \<Rightarrow> bool" where
  "has_admin s \<longleftrightarrow> list_ex (\<lambda>u. list_ex (\<lambda>r. ra_role r = ServerAdmin) (us_roles u)) (as_users s)"

text \<open>\<open>clk\<close> is read when the user is created, \<open>clk'\<close> when the token is issued.\<close>

definition bootstrap_cluster_peer ::
  "('k, 'h) crypto \<Rightarrow> nat \<Rightarrow> rust_str \<Rightarrow> clock \<Rightarrow> clock \<Rightarrow> 'k auth_store \<Rightarrow> 'k store_result" where
  "bootstrap_cluster_peer cr salt random_password clk clk' s =
     and_then
       (if get_user SYSTEM_TENANT CLUSTER_PEER_USERNAME s = None
        then create_user cr salt clk SYSTEM_TENANT CLUSTER_PEER_USERNAME random_password
               [\<lparr>ra_role = ClusterPeer, ra_scope = Server\<rparr>] s
        else (s, Inr ()))
       (\<lambda>s. case get_user SYSTEM_TENANT CLUSTER_PEER_USERNAME s of
          None \<Rightarrow> (s, Inr ())
        | Some u \<Rightarrow>
            (case generate_token cr clk' u (as_config s) CLUSTER_PEER_TTL_SECS (lit ''access'') of
               Inl e \<Rightarrow> (s, Inl e)
             | Inr token \<Rightarrow>
                 and_then (on_disk (fs_create_dir_all (path_join (as_auth_dir s) (lit ''jwt''))) s)
                   (\<lambda>s. (s\<lparr>as_peer_token := Some token\<rparr>, Inr ()))))"

definition bootstrap_admin ::
  "('k, 'h) crypto \<Rightarrow> nat \<Rightarrow> clock \<Rightarrow> rust_str option \<Rightarrow> 'k auth_store \<Rightarrow> 'k store_result" where
  "bootstrap_admin cr salt clk bootstrap_password s =
     (if has_admin s then (s, Inr ())
      else case bootstrap_password of
        None \<Rightarrow> (s, Inl (BootstrapRefused (lit ''no users on disk; pass --bootstrap-password <pw> (or set GRUMPYDB_BOOTSTRAP_PASSWORD) on first start to create the initial _system/admin account'')))
      | Some pwd \<Rightarrow>
          create_user cr salt clk SYSTEM_TENANT (lit ''admin'') pwd
            [\<lparr>ra_role = ServerAdmin, ra_scope = Server\<rparr>] s)"

text \<open>
  \<open>load_config\<close> is \<open>load_or_create_jwt_config\<close>. After an error the store is dropped and what it left
  on the disk remains.
\<close>

definition open_store ::
  "('k, 'h) crypto \<Rightarrow> nat \<Rightarrow> nat \<Rightarrow> rust_str \<Rightarrow> clock \<Rightarrow> clock \<Rightarrow> clock
     \<Rightarrow> (user disk \<Rightarrow> user disk \<times> (auth_error + 'k jwt_config)) \<Rightarrow> rust_str list \<Rightarrow> rust_str
     \<Rightarrow> rust_str option \<Rightarrow> user disk \<Rightarrow> user disk \<times> (auth_error + 'k auth_store)" where
  "open_store cr salt salt' random_password clk1 clk2 clk3 load_config names auth_dir bootstrap_password d0 =
     (case fs_create_dir_all auth_dir d0 of
        (d1, Inl e) \<Rightarrow> (d1, Inl (AuthIo e))
      | (d1, Inr _) \<Rightarrow>
     (case fs_create_dir_all (path_join auth_dir (lit ''users'')) d1 of
        (d2, Inl e) \<Rightarrow> (d2, Inl (AuthIo e))
      | (d2, Inr _) \<Rightarrow>
     (case load_config d2 of
        (d3, Inl e) \<Rightarrow> (d3, Inl e)
      | (d3, Inr config) \<Rightarrow>
     (case load_users (path_join auth_dir (lit ''users'')) names d3 of
        Inl e \<Rightarrow> (d3, Inl e)
      | Inr users \<Rightarrow>
     (case and_then
             (bootstrap_admin cr salt clk1 bootstrap_password
                \<lparr>as_auth_dir = auth_dir, as_config = config, as_users = users, as_disk = d3, as_peer_token = None\<rparr>)
             (bootstrap_cluster_peer cr salt' random_password clk2 clk3) of
        (s, Inl e) \<Rightarrow> (as_disk s, Inl e)
      | (s, Inr _) \<Rightarrow> (as_disk s, Inr s))))))"

section \<open>The life of a token\<close>

lemma map_err_Inr [simp]: "map_err f r = Inr x \<longleftrightarrow> r = Inr x"
  by (cases r) (simp_all add: map_err_def)

lemma map_err_simps [simp]: "map_err f (Inl e) = Inl (f e)" "map_err f (Inr x) = Inr x"
  by (simp_all add: map_err_def)

lemma ok_or_simps [simp]: "ok_or e None = Inl e" "ok_or e (Some x) = Inr x"
  by (simp_all add: ok_or_def)

lemma ok_or_Inr [simp]: "ok_or e x = Inr y \<longleftrightarrow> x = Some y"
  by (cases x) simp_all

lemma token_verifies:
  assumes "jwt_crate_ok cr" "generate_token cr (Inr t0) u config ttl tt = Inr token"
  shows "verify_token cr now token config =
    (if t0 + ttl < now then Inl TokenExpired else Inr (claims_for u t0 ttl tt))"
proof (cases "jc_algorithm config")
  case Hs256
  with assms obtain secret where "jc_hs_secret config = Some secret"
    "jwt_encode cr None secret (claims_for u t0 ttl tt) = Inr token"
    by (auto simp: generate_token_def bind_res_eq_Inr)
  with assms(1) Hs256 show ?thesis
    by (simp add: verify_token_def jwt_crate_ok_def claims_for_def)
next
  case Rs256
  with assms obtain ring where "jc_rs_keys config = Some ring"
    "jwt_encode cr (Some (rk_kid (rr_current ring))) (rk_key (rr_current ring)) (claims_for u t0 ttl tt)
      = Inr token"
    by (auto simp: generate_token_def bind_res_eq_Inr)
  with assms(1) Rs256 show ?thesis
    by (simp add: verify_token_def jwt_crate_ok_def claims_for_def ring_find_def)
qed

text \<open>
  C33. What a login hands out: if a login succeeds, with its access token made at time \<open>t0\<close> and its
  refresh token at time \<open>t1\<close>, the user exists and the password matches the stored hash; until it
  expires the access token verifies to exactly the user's name, tenant and roles at the time of the
  login, and afterwards it is refused as expired; the access token is never accepted for a refresh;
  and the refresh token, until it expires, yields an access token for the user as stored at the
  time of the refresh.
\<close>

theorem login_tokens:
  assumes "jwt_crate_ok cr"
    and "authenticate cr (Inr t0) (Inr t1) tenant username password s = Inr (access, refresh)"
  shows "\<exists>u. get_user tenant username s = Some u
    \<and> verify_password cr password (us_password_hash u) = Inr True
    \<and> (\<forall>now. store_verify_token cr now access s =
         (if t0 + jc_access_ttl (as_config s) < now then Inl TokenExpired
          else Inr (claims_for u t0 (jc_access_ttl (as_config s)) (lit ''access''))))
    \<and> (\<forall>now clk. \<exists>e. refresh_access_token cr now clk access s = Inl e)
    \<and> (\<forall>now clk s'. as_config s' = as_config s \<longrightarrow> \<not> t1 + jc_refresh_ttl (as_config s) < now \<longrightarrow>
         refresh_access_token cr now clk refresh s' =
         (case get_user (us_tenant u) (us_username u) s' of
            None \<Rightarrow> Inl InvalidCredentials
          | Some u' \<Rightarrow> generate_access_token cr clk u' (as_config s')))"
proof -
  obtain u where u: "get_user tenant username s = Some u"
      "verify_password cr password (us_password_hash u) = Inr True"
    and acc: "generate_token cr (Inr t0) u (as_config s) (jc_access_ttl (as_config s)) (lit ''access'') = Inr access"
    and ref: "generate_token cr (Inr t1) u (as_config s) (jc_refresh_ttl (as_config s)) (lit ''refresh'') = Inr refresh"
    using assms(2)
    by (auto simp: authenticate_def generate_access_token_def generate_refresh_token_def bind_res_eq_Inr
        split: if_splits)
  note va = token_verifies [OF assms(1) acc] and vr = token_verifies [OF assms(1) ref]
  have "\<exists>e. refresh_access_token cr now clk access s = Inl e" for now clk
    by (simp add: refresh_access_token_def store_verify_token_def va claims_for_def)
  moreover have "refresh_access_token cr now clk refresh s' =
      (case get_user (us_tenant u) (us_username u) s' of
         None \<Rightarrow> Inl InvalidCredentials
       | Some u' \<Rightarrow> generate_access_token cr clk u' (as_config s'))"
    if "as_config s' = as_config s" "\<not> t1 + jc_refresh_ttl (as_config s) < now" for now clk s'
    using that by (simp add: refresh_access_token_def store_verify_token_def vr claims_for_def
        split: option.split)
  ultimately show ?thesis
    using u by (auto simp: store_verify_token_def va)
qed

text \<open>
  C34. Rotating the signing keys ends every outstanding token at once: a token issued before
  \<^verbatim>\<open>rotate\<close> carries the \<^verbatim>\<open>kid\<close> of the key that leaves the ring, and verifying it afterwards fails
  with an unknown \<^verbatim>\<open>kid\<close>, however long it still had to live.
\<close>

theorem rotation_invalidates_tokens:
  assumes "jwt_crate_ok cr" "jc_algorithm config = Rs256" "jc_rs_keys config = Some ring"
    and "generate_token cr (Inr t0) u config ttl tt = Inr token"
    and "rotate_keys (Inr k) config = Inr config'"
    and "rk_kid (rr_current ring) \<noteq> rk_kid (rr_next ring)" "rk_kid k \<noteq> rk_kid (rr_current ring)"
  shows "verify_token cr now token config' =
    Inl (InvalidToken (lit ''kid not found in keyring: '' @ rk_kid (rr_current ring)))"
  using assms
  by (auto simp: generate_token_def verify_token_def rotate_keys_def bind_res_eq_Inr jwt_crate_ok_def
      ring_find_def)

section \<open>Users on disk\<close>

definition user_id :: "user \<Rightarrow> rust_str \<times> rust_str" where
  "user_id u = (us_tenant u, us_username u)"

definition id_name :: "rust_str \<times> rust_str \<Rightarrow> rust_str" where
  "id_name i = user_file_name (fst i) (snd i)"

text \<open>The users in memory and the user files are in step.\<close>

definition in_step :: "(rust_str \<times> rust_str) set \<Rightarrow> user list \<Rightarrow> (rust_str \<Rightarrow> user option) \<Rightarrow> bool" where
  "in_step N us fs \<longleftrightarrow>
     distinct (map user_id us) \<and> user_id ` set us \<subseteq> N \<and>
     (\<forall>n u. fs n = Some u \<longleftrightarrow> u \<in> set us \<and> n = id_name (user_id u))"

lemma same_user_id: "same_user t n u \<longleftrightarrow> user_id u = (t, n)"
  by (auto simp: same_user_def user_id_def)

lemma user_id_unique: "distinct (map user_id (u # us)) \<Longrightarrow> v \<in> set us \<Longrightarrow> user_id v \<noteq> user_id u"
  by (auto simp: image_iff)

lemma remove_first_filter:
  "distinct (map user_id us) \<Longrightarrow>
   remove_first (same_user t n) us = filter (\<lambda>u. user_id u \<noteq> (t, n)) us"
proof (induction us)
  case (Cons u us)
  show ?case
  proof (cases "user_id u = (t, n)")
    case True
    with user_id_unique [OF Cons.prems] have "filter (\<lambda>u. user_id u \<noteq> (t, n)) us = us"
      by (auto simp: filter_id_conv)
    with True show ?thesis by (simp add: same_user_id)
  qed (use Cons in \<open>simp add: same_user_id\<close>)
qed simp

lemma update_first_map:
  "distinct (map user_id us) \<Longrightarrow>
   update_first (same_user t n) f us = map (\<lambda>u. if user_id u = (t, n) then f u else u) us"
proof (induction us)
  case (Cons u us)
  show ?case
  proof (cases "user_id u = (t, n)")
    case True
    with user_id_unique [OF Cons.prems]
    have "map (\<lambda>u. if user_id u = (t, n) then f u else u) us = us"
      by (auto intro!: map_idI)
    with True show ?thesis by (simp add: same_user_id)
  qed (use Cons in \<open>simp add: same_user_id\<close>)
qed simp

lemma in_step_add:
  assumes "in_step N us fs" "inj_on id_name N" "user_id u \<in> N" "user_id u \<notin> user_id ` set us"
  shows "in_step N (us @ [u]) (fs(id_name (user_id u) \<mapsto> u))"
proof -
  have neq: "id_name (user_id v) \<noteq> id_name (user_id u)" if "v \<in> set us" for v
    using assms that by (auto simp: in_step_def dest!: inj_onD) (metis imageI)
  then show ?thesis
    using assms(1,3,4) by (auto simp: in_step_def) metis+
qed

lemma in_step_remove:
  assumes "in_step N us fs" "inj_on id_name N" "i \<in> N"
  shows "in_step N (filter (\<lambda>u. user_id u \<noteq> i) us) (fs(id_name i := None))"
proof -
  have "id_name (user_id v) \<noteq> id_name i" if "v \<in> set us" "user_id v \<noteq> i" for v
    using assms that by (auto simp: in_step_def dest!: inj_onD)
  then show ?thesis
    using assms(1) by (auto simp: in_step_def distinct_map_filter) metis+
qed

lemma in_step_unique:
  "in_step N us fs \<Longrightarrow> u \<in> set us \<Longrightarrow> v \<in> set us \<Longrightarrow> user_id v = user_id u \<Longrightarrow> v = u"
  using inj_onD [of user_id "set us" v u] by (simp add: in_step_def distinct_map)

lemma in_step_update:
  assumes step: "in_step N us fs" and inj: "inj_on id_name N" and u: "u \<in> set us" and w: "user_id w = user_id u"
  shows "in_step N (map (\<lambda>v. if user_id v = user_id u then w else v) us) (fs(id_name (user_id u) \<mapsto> w))"
proof -
  define f where "f = (\<lambda>v. if user_id v = user_id u then w else v)"
  have id [simp]: "user_id (f v) = user_id v" for v using w by (simp add: f_def)
  have neq: "id_name (user_id v) \<noteq> id_name (user_id u)" if "v \<in> set us" "user_id v \<noteq> user_id u" for v
    using step inj u that by (auto simp: in_step_def dest!: inj_onD)
  have mem: "v \<in> f ` set us \<longleftrightarrow> (if user_id v = user_id u then v = w else v \<in> set us)" for v
    using u w by (auto simp: f_def)
  have "(fs(id_name (user_id u) \<mapsto> w)) n = Some v \<longleftrightarrow> v \<in> f ` set us \<and> n = id_name (user_id v)" for n v
  proof (cases "user_id v = user_id u")
    case True
    then have "fs n = Some v \<Longrightarrow> n = id_name (user_id u)" using step by (auto simp: in_step_def)
    with True show ?thesis by (auto simp: mem w)
  next
    case False
    then have "fs n = Some v \<longleftrightarrow> v \<in> set us \<and> n = id_name (user_id v)" using step by (simp add: in_step_def)
    moreover have "w \<noteq> v" using False w by auto
    ultimately show ?thesis using False by (auto simp: mem dest: neq)
  qed
  moreover have "map user_id (map f us) = map user_id us" by simp
  then have "distinct (map user_id (map f us))" using step unfolding in_step_def by argo
  ultimately show ?thesis
    using step unfolding f_def [symmetric] by (auto simp: in_step_def)
qed

text \<open>What a directory of the disk holds of user files.\<close>

definition users_at :: "location \<Rightarrow> 'k auth_store \<Rightarrow> rust_str \<Rightarrow> user option" where
  "users_at dir s n = (case fd_files (as_disk s) (dir @ [n]) of Some (JsonOf u) \<Rightarrow> Some u | _ \<Rightarrow> None)"

text \<open>The directory of the user files exists, and all its entries are user files.\<close>

definition users_only :: "location \<Rightarrow> 'k auth_store \<Rightarrow> bool" where
  "users_only dir s \<longleftrightarrow>
     resolve_dir (as_disk s) (users_dir s) = Some dir \<and> (\<forall>n. \<not> fd_dirs (as_disk s) (dir @ [n]))
     \<and> (\<forall>n c. fd_files (as_disk s) (dir @ [n]) = Some c \<longrightarrow> (\<exists>u. c = JsonOf u))"

definition put_file :: "location \<Rightarrow> user option \<Rightarrow> 'k auth_store \<Rightarrow> 'k auth_store" where
  "put_file l v s =
     s\<lparr>as_disk := (as_disk s)\<lparr>fd_files := (fd_files (as_disk s))(l := map_option JsonOf v)\<rparr>\<rparr>"

lemma put_file_simps [simp]:
  "users_dir (put_file l v s) = users_dir s" "as_users (put_file l v s) = as_users s"
  "user_file_path (put_file l v s) = user_file_path s" "as_users (s\<lparr>as_users := us\<rparr>) = us"
  "users_dir (s\<lparr>as_users := us\<rparr>) = users_dir s" "user_file_path (s\<lparr>as_users := us\<rparr>) = user_file_path s"
  "fd_dirs (as_disk (put_file l v s)) = fd_dirs (as_disk s)"
  "fd_refuse (as_disk (put_file l v s)) = fd_refuse (as_disk s)"
  "fd_files (as_disk (put_file l v s)) = (fd_files (as_disk s))(l := map_option JsonOf v)"
  "resolve_dir (as_disk (put_file l v s)) = resolve_dir (as_disk s)"
  "resolve_file (as_disk (put_file l v s)) = resolve_file (as_disk s)"
  by (auto simp: put_file_def users_dir_def user_file_path_def fun_eq_iff)

lemma users_at_put [simp]: "users_at dir (put_file (dir @ [n]) v s) = (users_at dir s)(n := v)"
  by (cases v) (auto simp: users_at_def)

lemma users_at_users [simp]: "users_at dir (s\<lparr>as_users := us\<rparr>) = users_at dir s"
  by (simp add: users_at_def fun_eq_iff)

lemma users_only_put [simp]: "users_only dir s \<Longrightarrow> users_only dir (put_file (dir @ [n]) v s)"
  by (cases v) (auto simp: users_only_def)

lemma users_only_users [simp]: "users_only dir (s\<lparr>as_users := us\<rparr>) \<longleftrightarrow> users_only dir s"
  by (simp add: users_only_def)

lemma user_file_name_plain: "of_char (CHR ''/'') \<notin> set t \<Longrightarrow> of_char (CHR ''/'') \<notin> set (user_file_name t n)"
  by (induction n) (auto simp: user_file_name_def sanitise_for_filename_def lit_def)

lemma resolve_user_file:
  assumes "resolve_dir (as_disk s) (users_dir s) = Some dir" "of_char (CHR ''/'') \<notin> set t"
  shows "resolve_file (as_disk s) (user_file_path s t n) =
    (if fd_refuse (as_disk s) (user_file_path s t n) then None else Some (dir @ [user_file_name t n]))"
proof -
  have "split_slash (user_file_name t n) = [user_file_name t n]"
    by (rule split_slash_plain [OF user_file_name_plain [OF assms(2)]])
  moreover have "\<not> is_absolute (user_file_name t n)"
    using user_file_name_plain [OF assms(2), of n] by (cases "user_file_name t n") (auto simp: is_absolute_def)
  ultimately show ?thesis using resolve_file_join [OF assms(1)] by (simp add: user_file_path_def)
qed

lemma save_user_cases:
  "save_user u s =
    (case resolve_file (as_disk s) (user_file_path s (us_tenant u) (us_username u)) of
       None \<Rightarrow> (s, Inl (AuthIo (fd_error (as_disk s) (user_file_path s (us_tenant u) (us_username u)))))
     | Some l \<Rightarrow>
         if fd_dirs (as_disk s) l
         then (s, Inl (AuthIo (fd_error (as_disk s) (user_file_path s (us_tenant u) (us_username u)))))
         else (put_file l (Some u) s, Inr ()))"
  by (simp add: save_user_def on_disk_def fs_write_def put_file_def split: option.split)

text \<open>Creating a user either changes nothing or writes one file and lists one user.\<close>

lemma create_user_cases:
  obtains e where "create_user cr salt clk t n pw roles s = (s, Inl e)"
  | u l where "create_user cr salt clk t n pw roles s = ((put_file l (Some u) s)\<lparr>as_users := as_users s @ [u]\<rparr>, Inr ())"
    "user_id u = (t, n)" "(t, n) \<notin> user_id ` set (as_users s)"
    "resolve_file (as_disk s) (user_file_path s t n) = Some l" "us_username u = n" "us_tenant u = t"
proof (cases "list_ex (same_user t n) (as_users s)")
  case True
  then show ?thesis using that(1) by (auto simp: create_user_def)
next
  case fresh: False
  then have new: "(t, n) \<notin> user_id ` set (as_users s)" by (auto simp: list_ex_iff same_user_id image_iff)
  show ?thesis
  proof (cases "hash_password cr salt pw")
    case (Inl e) then show ?thesis using fresh that(1) by (simp add: create_user_def)
  next
    case hash: (Inr h)
    show ?thesis
    proof (cases clk)
      case (Inl e) then show ?thesis using fresh hash that(1) by (simp add: create_user_def)
    next
      case (Inr now)
      define u where
        "u = \<lparr>us_username = n, us_tenant = t, us_password_hash = h, us_roles = roles, us_created_at = now\<rparr>"
      have u: "user_id u = (t, n)" "us_username u = n" "us_tenant u = t" by (simp_all add: u_def user_id_def)
      have "create_user cr salt clk t n pw roles s =
          and_then (save_user u s) (\<lambda>s. (s\<lparr>as_users := as_users s @ [u]\<rparr>, Inr ()))"
        using fresh hash Inr by (simp add: create_user_def u_def Let_def)
      also have "save_user u s = (case resolve_file (as_disk s) (user_file_path s t n) of
          None \<Rightarrow> (s, Inl (AuthIo (fd_error (as_disk s) (user_file_path s t n))))
        | Some l \<Rightarrow>
            if fd_dirs (as_disk s) l then (s, Inl (AuthIo (fd_error (as_disk s) (user_file_path s t n))))
            else (put_file l (Some u) s, Inr ()))"
        by (simp only: save_user_cases u)
      finally show ?thesis
        using that(1) that(2) [OF _ u(1) new _ u(2,3)]
        by (auto simp: and_then_def split: option.splits if_splits)
    qed
  qed
qed

text \<open>The store and its disk are in step, and no stored user has a file name the system refuses.\<close>

definition persisted :: "location \<Rightarrow> (rust_str \<times> rust_str) set \<Rightarrow> 'k auth_store \<Rightarrow> bool" where
  "persisted dir N s \<longleftrightarrow>
     users_only dir s \<and> in_step N (as_users s) (users_at dir s)
     \<and> (\<forall>i \<in> user_id ` set (as_users s). \<not> fd_refuse (as_disk s) (user_file_path s (fst i) (snd i)))"

text \<open>Users whose files lie in the directory and have different names.\<close>

definition separate :: "(rust_str \<times> rust_str) set \<Rightarrow> bool" where
  "separate N \<longleftrightarrow> inj_on id_name N \<and> (\<forall>i \<in> N. of_char (CHR ''/'') \<notin> set (fst i))"

lemma create_user_persisted:
  assumes p: "persisted dir N s" and N: "separate N" "(t, n) \<in> N"
  shows "persisted dir N (fst (create_user cr salt clk t n pw roles s))"
proof (cases rule: create_user_cases [of cr salt clk t n pw roles s])
  case (1 e)
  then show ?thesis using p by simp
next
  case (2 u l)
  have "of_char (CHR ''/'') \<notin> set t" using N by (auto simp: separate_def)
  then have l: "l = dir @ [id_name (user_id u)]" "\<not> fd_refuse (as_disk s) (user_file_path s t n)"
    using resolve_user_file [of s dir t n] p 2(2,4)
    by (auto simp: persisted_def users_only_def id_name_def split: if_splits)
  have "in_step N (as_users s @ [u]) ((users_at dir s)(id_name (user_id u) \<mapsto> u))"
    by (rule in_step_add) (use p N 2(2,3) in \<open>simp_all add: persisted_def separate_def\<close>)
  then show ?thesis
    using p 2 l by (simp add: persisted_def)
qed

lemma find_mem: "find P xs = Some x \<Longrightarrow> x \<in> set xs \<and> P x"
  by (induction xs) (auto split: if_splits)

lemma persisted_file:
  assumes "persisted dir N s" "separate N" "u \<in> set (as_users s)" "user_id u = (t, n)"
  shows "resolve_file (as_disk s) (user_file_path s t n) = Some (dir @ [id_name (t, n)])"
    "fd_files (as_disk s) (dir @ [id_name (t, n)]) = Some (JsonOf u)"
    "\<not> fd_dirs (as_disk s) (dir @ [id_name (t, n)])"
proof -
  have "(t, n) \<in> N" using assms by (force simp: persisted_def in_step_def)
  then have "of_char (CHR ''/'') \<notin> set t" using assms(2) by (auto simp: separate_def)
  moreover have "\<not> fd_refuse (as_disk s) (user_file_path s t n)" using assms by (force simp: persisted_def)
  ultimately show "resolve_file (as_disk s) (user_file_path s t n) = Some (dir @ [id_name (t, n)])"
    using resolve_user_file [of s dir t n] assms(1) by (simp add: persisted_def users_only_def id_name_def)
  have "users_at dir s (id_name (t, n)) = Some u" using assms by (simp add: persisted_def in_step_def)
  then show "fd_files (as_disk s) (dir @ [id_name (t, n)]) = Some (JsonOf u)"
    by (auto simp: users_at_def split: option.splits file_content.splits)
  show "\<not> fd_dirs (as_disk s) (dir @ [id_name (t, n)])" using assms(1) by (simp add: persisted_def users_only_def)
qed

lemma delete_user_persisted:
  assumes p: "persisted dir N s" and N: "separate N" "(t, n) \<in> N"
  shows "persisted dir N (fst (delete_user t n s))"
proof (cases "list_ex (same_user t n) (as_users s)")
  case False
  then show ?thesis using p by (simp add: delete_user_def)
next
  case True
  then obtain u where u: "u \<in> set (as_users s)" "user_id u = (t, n)" by (auto simp: list_ex_iff same_user_id)
  note stored = persisted_file [OF p N(1) u]
  have "remove_first (same_user t n) (as_users s) = filter (\<lambda>u. user_id u \<noteq> (t, n)) (as_users s)"
    using p by (intro remove_first_filter) (simp add: persisted_def in_step_def)
  then have "fst (delete_user t n s) =
      (put_file (dir @ [id_name (t, n)]) None s)\<lparr>as_users := filter (\<lambda>u. user_id u \<noteq> (t, n)) (as_users s)\<rparr>"
    using True stored
    by (simp add: delete_user_def Let_def fs_exists_def on_disk_def fs_remove_file_def put_file_def)
  moreover have "in_step N (filter (\<lambda>u. user_id u \<noteq> (t, n)) (as_users s)) ((users_at dir s)(id_name (t, n) := None))"
    by (rule in_step_remove) (use p N in \<open>simp_all add: persisted_def separate_def\<close>)
  ultimately show ?thesis using p by (auto simp: persisted_def)
qed

lemma user_id_roles [simp]: "user_id (u\<lparr>us_roles := r\<rparr>) = user_id u"
  by (simp add: user_id_def)

lemma update_roles_persisted:
  assumes p: "persisted dir N s" and N: "separate N"
  shows "persisted dir N (fst (update_roles t n roles s))"
proof (cases "find (same_user t n) (as_users s)")
  case None
  then show ?thesis using p by (simp add: update_roles_def)
next
  case (Some u)
  then have u: "u \<in> set (as_users s)" "user_id u = (t, n)" by (auto dest!: find_mem simp: same_user_id)
  have tn: "us_tenant u = t" "us_username u = n" using u(2) by (simp_all add: user_id_def)
  have step: "in_step N (as_users s) (users_at dir s)" using p by (simp add: persisted_def)
  let ?w = "u\<lparr>us_roles := roles\<rparr>"
  let ?us = "map (\<lambda>v. if user_id v = user_id u then ?w else v) (as_users s)"
  have "update_first (same_user t n) (\<lambda>u. u\<lparr>us_roles := roles\<rparr>) (as_users s)
      = map (\<lambda>v. if user_id v = (t, n) then v\<lparr>us_roles := roles\<rparr> else v) (as_users s)"
    using step by (intro update_first_map) (simp add: in_step_def)
  also have "\<dots> = ?us"
    using in_step_unique [OF step u(1)] u(2) by (intro map_cong) auto
  finally have "fst (update_roles t n roles s) = (put_file (dir @ [id_name (t, n)]) (Some ?w) s)\<lparr>as_users := ?us\<rparr>"
    using Some persisted_file [OF p N u]
    by (simp add: update_roles_def save_user_cases tn) (simp add: put_file_def)
  moreover have "in_step N ?us ((users_at dir s)(id_name (user_id u) \<mapsto> ?w))"
    by (rule in_step_update [OF step _ u(1)]) (use N in \<open>simp_all add: separate_def\<close>)
  moreover have "map user_id ?us = map user_id (as_users s)" by simp
  then have "user_id ` set ?us = user_id ` set (as_users s)"
    unfolding list.set_map [symmetric] by (rule arg_cong)
  ultimately show ?thesis using p u(2) by (simp add: persisted_def)
qed

text \<open>A run of calls on the store.\<close>

datatype store_call =
    CallCreate nat clock rust_str rust_str rust_str "role_assignment list"
  | CallDelete rust_str rust_str
  | CallUpdateRoles rust_str rust_str "role_assignment list"

primrec do_store_call :: "('k, 'h) crypto \<Rightarrow> store_call \<Rightarrow> 'k auth_store \<Rightarrow> 'k store_result" where
  "do_store_call cr (CallCreate salt clk t n pw roles) s = create_user cr salt clk t n pw roles s"
| "do_store_call cr (CallDelete t n) s = delete_user t n s"
| "do_store_call cr (CallUpdateRoles t n roles) s = update_roles t n roles s"

primrec call_id :: "store_call \<Rightarrow> rust_str \<times> rust_str" where
  "call_id (CallCreate salt clk t n pw roles) = (t, n)"
| "call_id (CallDelete t n) = (t, n)"
| "call_id (CallUpdateRoles t n roles) = (t, n)"

definition run_store :: "('k, 'h) crypto \<Rightarrow> store_call list \<Rightarrow> 'k auth_store \<Rightarrow> 'k auth_store" where
  "run_store cr calls s = fold (\<lambda>c s. fst (do_store_call cr c s)) calls s"

lemma run_store_persisted:
  assumes "separate N" "call_id ` set calls \<subseteq> N" "persisted dir N s"
  shows "persisted dir N (run_store cr calls s)"
  using assms(2,3) unfolding run_store_def
proof (induction calls arbitrary: s)
  case (Cons c calls)
  have "persisted dir N (fst (do_store_call cr c s))"
    using Cons.prems assms(1)
    by (cases c) (auto intro: create_user_persisted delete_user_persisted update_roles_persisted)
  then show ?case using Cons by simp
qed simp

lemma user_name_json: "json_file (id_name i)"
  by (auto simp: json_file_def id_name_def user_file_name_def lit_def suffix_def)

lemma map_filter_set: "set (List.map_filter f xs) = {y. \<exists>x \<in> set xs. f x = Some y}"
  by (induction xs) (auto simp: List.map_filter_simps split: option.split)

lemma map_filter_distinct:
  assumes "distinct xs" "\<And>x y v. f x = Some v \<Longrightarrow> f y = Some v \<Longrightarrow> x = y"
  shows "distinct (List.map_filter f xs)"
  using assms(1)
proof (induction xs)
  case (Cons x xs)
  then show ?case
    using assms(2) by (auto simp: List.map_filter_simps map_filter_set split: option.split)
qed (simp add: List.map_filter_simps)

lemma users_only_entry: "users_only dir s \<Longrightarrow> n \<in> entries (as_disk s) dir \<Longrightarrow> \<exists>u. fd_files (as_disk s) (dir @ [n]) = Some (JsonOf u)"
  unfolding entries_def users_only_def by blast

lemma entries_users:
  assumes "users_only dir s"
  shows "entries (as_disk s) dir = dom (users_at dir s)"
proof (intro equalityI subsetI)
  fix n
  assume "n \<in> entries (as_disk s) dir"
  from users_only_entry [OF assms this] show "n \<in> dom (users_at dir s)" by (auto simp: users_at_def dom_def)
next
  fix n
  assume "n \<in> dom (users_at dir s)"
  then show "n \<in> entries (as_disk s) dir" by (auto simp: entries_def users_at_def split: option.splits)
qed

lemma read_users_at:
  assumes "users_only dir s" "set names \<subseteq> entries (as_disk s) dir"
  shows "read_users (as_disk s) dir names = Inr (List.map_filter (users_at dir s) (filter json_file names))"
  using assms(2)
proof (induction names)
  case (Cons n names)
  then obtain u where "fd_files (as_disk s) (dir @ [n]) = Some (JsonOf u)"
    using assms(1) users_only_entry [of dir s n] by auto
  then show ?case using Cons by (simp add: List.map_filter_simps users_at_def)
qed (simp add: List.map_filter_simps)

lemma persisted_load:
  assumes "persisted dir N s" "distinct names" "set names = entries (as_disk s) dir"
  shows "\<exists>us. load_users (users_dir s) names (as_disk s) = Inr us \<and> mset us = mset (as_users s)"
proof -
  let ?us = "List.map_filter (users_at dir s) names"
  have old: "users_at dir s m = Some v \<longleftrightarrow> v \<in> set (as_users s) \<and> m = id_name (user_id v)" for m v
    using assms(1) by (simp add: persisted_def in_step_def)
  have names: "set names = dom (users_at dir s)"
    using assms(1,3) entries_users [of dir s] by (simp add: persisted_def)
  then have "json_file n" if "n \<in> set names" for n
    using that by (auto simp: dom_def old user_name_json)
  then have "filter json_file names = names" by (simp add: filter_id_conv)
  then have "load_users (users_dir s) names (as_disk s) = Inr ?us"
    using assms(1,3) read_users_at [of dir s names] by (simp add: load_users_def persisted_def users_only_def)
  moreover have "set ?us = set (as_users s)"
    using names by (auto simp: map_filter_set dom_def old)
  moreover have "distinct ?us" by (rule map_filter_distinct [OF assms(2)]) (simp add: old)
  moreover have "distinct (as_users s)"
    using assms(1) by (auto simp: persisted_def in_step_def distinct_map)
  ultimately show ?thesis by (simp add: set_eq_iff_mset_eq_distinct)
qed

text \<open>A store without users whose directory of user files exists and is empty.\<close>

definition fresh_store :: "location \<Rightarrow> 'k auth_store \<Rightarrow> bool" where
  "fresh_store dir s \<longleftrightarrow>
     as_users s = [] \<and> resolve_dir (as_disk s) (users_dir s) = Some dir \<and> entries (as_disk s) dir = {}"

lemma fresh_users_only: "fresh_store dir s \<Longrightarrow> users_only dir s"
  by (auto simp: fresh_store_def users_only_def entries_def)

text \<open>
  C35. Users survive a restart: after any run of creations, deletions and role changes on a fresh
  store, failing calls included, no two users have the same tenant and name, and reading the user
  files back, in whatever order the directory lists them, succeeds and yields exactly the users in
  memory with their current roles and password hashes. This holds as long as no tenant contains a
  \<^verbatim>\<open>/\<close> and the users involved have different file names; the rest of the disk may hold anything.
\<close>

theorem users_survive_restart:
  assumes "fresh_store dir s0" "separate (call_id ` set calls)" "s = run_store cr calls s0"
    and "distinct names" "set names = entries (as_disk s) dir"
  shows "(\<exists>us. load_users (users_dir s) names (as_disk s) = Inr us \<and> mset us = mset (as_users s))
    \<and> distinct (map user_id (as_users s))"
proof -
  have "users_at dir s0 = (\<lambda>_. None)"
    using assms(1) entries_users [OF fresh_users_only [OF assms(1)]] by (simp add: fresh_store_def fun_eq_iff dom_def)
  then have "persisted dir (call_id ` set calls) s0"
    using assms(1) fresh_users_only [OF assms(1)] by (simp add: persisted_def in_step_def fresh_store_def)
  then have "persisted dir (call_id ` set calls) s"
    unfolding assms(3) by (rule run_store_persisted [OF assms(2) subset_refl])
  with persisted_load [OF this assms(4,5)] show ?thesis by (simp add: persisted_def in_step_def)
qed

text \<open>Names without underscores and path separators have different files.\<close>

definition plain_name :: "rust_str \<Rightarrow> bool" where
  "plain_name s \<longleftrightarrow> (\<forall>c \<in> set s. c \<noteq> 47 \<and> c \<noteq> 92 \<and> c \<noteq> 95)"

lemma sanitise_plain: "plain_name s \<Longrightarrow> sanitise_for_filename s = s"
  by (induction s) (auto simp: plain_name_def sanitise_for_filename_def)

lemma split_at_underscore:
  assumes "\<forall>c \<in> set a. c \<noteq> (95 :: nat)" "\<forall>c \<in> set b. c \<noteq> 95" "a @ 95 # x = b @ 95 # y"
  shows "a = b \<and> x = y"
  using assms
proof (induction a arbitrary: b)
  case Nil then show ?case by (cases b) auto
next
  case (Cons c a) then show ?case by (cases b) auto
qed

lemma plain_names_separate: "separate {(t, n). plain_name t \<and> plain_name n}"
proof -
  have "inj_on id_name {(t, n). plain_name t \<and> plain_name n}"
  proof (rule inj_onI, clarify)
    fix t n t' n'
    assume plain: "plain_name t" "plain_name n" "plain_name t'" "plain_name n'"
      and eq: "id_name (t, n) = id_name (t', n')"
    then have "t @ 95 # 95 # n @ lit ''.json'' = t' @ 95 # 95 # n' @ lit ''.json''"
      by (simp add: id_name_def user_file_name_def sanitise_plain lit_def)
    with plain have "t = t' \<and> 95 # n @ lit ''.json'' = 95 # n' @ lit ''.json''"
      by (intro split_at_underscore) (auto simp: plain_name_def)
    then show "t = t' \<and> n = n'" by simp
  qed
  then show ?thesis by (auto simp: separate_def plain_name_def)
qed

text \<open>
  C36. Two users can share a file: creating \<open>x/y\<close> and then \<open>x__y\<close> in one tenant succeeds and leaves
  both in memory, but the second file overwrites the first, so that after a restart the first user
  is gone and, if the tenant contains no \<^verbatim>\<open>/\<close>, exactly the second user is left.
\<close>

theorem user_file_collision:
  assumes "fresh_store dir s0"
    and "create_user cr salt clk tenant (x @ lit ''/'' @ y) pw roles s0 = (s1, Inr ())"
    and "create_user cr salt' clk' tenant (x @ lit ''__'' @ y) pw' roles' s1 = (s2, Inr ())"
    and "distinct names" "set names = entries (as_disk s2) dir"
  shows "\<exists>u v us. as_users s2 = [u, v] \<and> user_id u \<noteq> user_id v
    \<and> load_users (users_dir s2) names (as_disk s2) = Inr us
    \<and> set us \<subseteq> {v} \<and> (of_char (CHR ''/'') \<notin> set tenant \<longrightarrow> us = [v])"
proof -
  define p where "p = user_file_name tenant (x @ lit ''__'' @ y)"
  have p: "user_file_name tenant (x @ lit ''/'' @ y) = p"
    by (simp add: p_def user_file_name_def sanitise_for_filename_def lit_def)
  have s0: "as_users s0 = []" "users_only dir s0" "resolve_dir (as_disk s0) (users_dir s0) = Some dir"
    and none: "\<And>n. \<not> fd_dirs (as_disk s0) (dir @ [n])" "\<And>n. fd_files (as_disk s0) (dir @ [n]) = None"
    using assms(1) fresh_users_only by (auto simp: fresh_store_def entries_def)
  obtain u l where u: "s1 = (put_file l (Some u) s0)\<lparr>as_users := [u]\<rparr>" "user_id u = (tenant, x @ lit ''/'' @ y)"
      "resolve_file (as_disk s0) (path_join (users_dir s0) p) = Some l"
    by (rule create_user_cases [of cr salt clk tenant "x @ lit ''/'' @ y" pw roles s0])
      (use assms(2) s0(1) p in \<open>auto simp: user_file_path_def\<close>)
  obtain v l' where v: "s2 = (put_file l' (Some v) s1)\<lparr>as_users := [u, v]\<rparr>" "user_id v = (tenant, x @ lit ''__'' @ y)"
      "resolve_file (as_disk s1) (path_join (users_dir s1) p) = Some l'"
    by (rule create_user_cases [of cr salt' clk' tenant "x @ lit ''__'' @ y" pw' roles' s1])
      (use assms(3) u(1) in \<open>auto simp: user_file_path_def p_def\<close>)
  have "l' = l" using u v(3) by simp
  then have files: "fd_files (as_disk s2) = (fd_files (as_disk s0))(l \<mapsto> JsonOf v)"
    and dirs: "fd_dirs (as_disk s2) = fd_dirs (as_disk s0)" using u(1) v(1) by (simp_all add: fun_upd_def fun_eq_iff)
  have only: "users_only dir s2"
    using s0(2) files dirs u(1) v(1) by (auto simp: users_only_def split: if_splits)
  have at: "users_at dir s2 n = (if dir @ [n] = l then Some v else None)" for n
    by (simp add: users_at_def files none)
  define us where "us = List.map_filter (users_at dir s2) (filter json_file names)"
  have load: "load_users (users_dir s2) names (as_disk s2) = Inr us"
    using read_users_at [OF only] assms(5) only by (simp add: load_users_def us_def users_only_def)
  have "set us \<subseteq> {v}" by (auto simp: us_def map_filter_set at split: if_splits)
  moreover have "us = [v]" if plain: "of_char (CHR ''/'') \<notin> set tenant"
  proof -
    have l: "l = dir @ [p]"
      using resolve_user_file [OF s0(3) plain, of "x @ lit ''__'' @ y"] u(3)
      by (simp add: user_file_path_def p_def split: if_splits)
    have "set names = {p}" using assms(5) by (auto simp: entries_def files dirs none l)
    then have "names = [p]" using assms(4) by (cases names; cases "tl names") (auto simp: insert_ident split: if_splits)
    moreover have "json_file p" using user_name_json [of "(tenant, x @ lit ''__'' @ y)"] by (simp add: id_name_def p_def)
    ultimately show ?thesis by (simp add: us_def at l List.map_filter_simps)
  qed
  moreover have "as_users s2 = [u, v]" by (simp add: v(1))
  moreover have "user_id u \<noteq> user_id v" by (simp add: u(2) v(2) lit_def)
  ultimately show ?thesis using load by blast
qed

lemma resolve_escaping:
  assumes "resolve_dir (as_disk s) (users_dir s) = Some dir" "of_char (CHR ''/'') \<notin> set x"
  shows "resolve_file (as_disk s) (user_file_path s (lit ''../'' @ x) n) =
    (if fd_refuse (as_disk s) (user_file_path s (lit ''../'' @ x) n) then None
     else Some (butlast dir @ [user_file_name x n]))"
proof -
  have name: "user_file_name (lit ''../'' @ x) n = lit ''..'' @ of_char (CHR ''/'') # user_file_name x n"
    by (simp add: user_file_name_def lit_def)
  have words: "split_slash (lit ''..'' @ of_char (CHR ''/'') # user_file_name x n) = [lit ''..'', user_file_name x n]"
    unfolding split_slash_append split_slash_plain [OF user_file_name_plain [OF assms(2)]]
    by (subst split_slash_plain) (simp_all add: lit_def)
  have "\<not> is_absolute (lit ''..'' @ of_char (CHR ''/'') # user_file_name x n)"
    by (simp add: is_absolute_def lit_def)
  from resolve_file_join [OF assms(1) this] show ?thesis
    unfolding user_file_path_def name words by (simp add: lit_def)
qed

text \<open>
  C37. A tenant name leads out of the directory of user files: unlike the user name, the tenant is
  put into the path as it is. When a user of the tenant \<^verbatim>\<open>../x\<close> is created, the user is there in
  memory, but the file is written next to the directory, not into it, and a restart reads exactly
  the users it would have read before: the new user is lost.
\<close>

theorem tenant_escapes_users_dir:
  assumes "resolve_dir (as_disk s) (users_dir s) = Some dir" "of_char (CHR ''/'') \<notin> set x"
    and "create_user cr salt clk (lit ''../'' @ x) username pw roles s = (s', Inr ())"
  shows "\<exists>u parent. user_id u = (lit ''../'' @ x, username) \<and> as_users s' = as_users s @ [u]
    \<and> dir = parent @ [lit ''users'']
    \<and> fd_files (as_disk s') (parent @ [user_file_name x username]) = Some (JsonOf u)
    \<and> (\<forall>names. load_users (users_dir s') names (as_disk s') = load_users (users_dir s) names (as_disk s))"
proof -
  obtain parent where dir: "dir = parent @ [lit ''users'']"
    using resolve_dir_join_name [of "as_disk s" "as_auth_dir s" "lit ''users''" dir] assms(1)
    by (auto simp: users_dir_def lit_def)
  obtain u l where u: "s' = (put_file l (Some u) s)\<lparr>as_users := as_users s @ [u]\<rparr>"
      "user_id u = (lit ''../'' @ x, username)"
      "resolve_file (as_disk s) (user_file_path s (lit ''../'' @ x) username) = Some l"
    by (rule create_user_cases [of cr salt clk "lit ''../'' @ x" username pw roles s]) (use assms(3) in auto)
  then have l: "l = parent @ [user_file_name x username]"
    using resolve_escaping [OF assms(1,2)] by (simp add: dir split: if_splits)
  have "read_users (as_disk s') dir names = read_users (as_disk s) dir names" for names
    by (induction names) (simp_all add: u(1) l dir put_file_def split: option.split file_content.split)
  then have "load_users (users_dir s') names (as_disk s') = load_users (users_dir s) names (as_disk s)" for names
    using assms(1) by (simp add: load_users_def u(1))
  then show ?thesis using u dir l by auto
qed

section \<open>Examples\<close>

definition demo_user :: user where
  "demo_user = \<lparr>us_username = lit ''alice'', us_tenant = lit ''acme'', us_password_hash = lit ''pw'',
     us_roles = [\<lparr>ra_role = ReadOnly, ra_scope = Database (lit ''shop'')\<rparr>], us_created_at = 0\<rparr>"

definition demo_claims :: "nat \<Rightarrow> claims" where
  "demo_claims i =
     (if i = 2 then claims_for demo_user 1 10 (lit ''access'') else claims_for demo_user 1 20 (lit ''refresh''))"

definition demo_crypto :: "(unit, rust_str) crypto" where
  "demo_crypto =
     \<lparr>argon2_hash = (\<lambda>salt pw. Inr pw), argon2_parse = Inr, argon2_verify = (=),
      jwt_encode = (\<lambda>kid k cl.
        if cl = demo_claims 2 \<or> cl = demo_claims 3
        then Inr ((if cl = demo_claims 2 then 2 else 3) # (case kid of None \<Rightarrow> [] | Some s \<Rightarrow> 1 # s))
        else Inl []),
      jwt_header_kid = (\<lambda>t. Inr (case t of _ # _ # s \<Rightarrow> Some s | _ \<Rightarrow> None)),
      jwt_decode = (\<lambda>now k t.
        if cl_exp (demo_claims (hd t)) < now then Inl ExpiredSignature else Inr (demo_claims (hd t)))\<rparr>"

text \<open>A disk with the two directories of an authentication store and no file.\<close>

definition demo_disk :: "user disk" where
  "demo_disk = \<lparr>fd_dirs = (\<lambda>l. l \<in> set [[], [lit ''auth''], [lit ''auth'', lit ''users'']]), fd_files = (\<lambda>_. None),
     fd_cwd = [], fd_refuse = (\<lambda>_. False), fd_error = (\<lambda>_. [])\<rparr>"

definition demo_dir :: location where
  "demo_dir = [lit ''auth'', lit ''users'']"

definition empty_store :: "unit auth_store" where
  "empty_store = \<lparr>as_auth_dir = lit ''/auth'', as_config = new_hs256 () 10 20, as_users = [], as_disk = demo_disk,
     as_peer_token = None\<rparr>"

definition demo_store :: "unit auth_store" where
  "demo_store = empty_store\<lparr>as_users := [demo_user]\<rparr>"

lemma demo_resolve: "resolve_dir (as_disk empty_store) (users_dir empty_store) = Some demo_dir"
  by (simp add: resolve_dir_def users_dir_def empty_store_def demo_disk_def demo_dir_def path_join_def is_absolute_def
      walk_start_def lit_def)

lemma demo_fresh: "fresh_store demo_dir empty_store"
  unfolding fresh_store_def
  by (intro conjI demo_resolve) (simp_all add: empty_store_def entries_def demo_disk_def demo_dir_def)

lemma demo_crate: "jwt_crate_ok demo_crypto"
  by (auto simp: jwt_crate_ok_def demo_crypto_def split: option.splits if_splits)

lemma demo_claims_simps: "claims_for demo_user 1 10 (lit ''access'') = demo_claims 2"
  "claims_for demo_user 1 20 (lit ''refresh'') = demo_claims 3" "demo_claims 3 \<noteq> demo_claims 2"
  by (simp_all add: demo_claims_def claims_for_def)

lemma demo_get: "get_user (lit ''acme'') (lit ''alice'') demo_store = Some demo_user"
  by (simp add: get_user_def demo_store_def empty_store_def same_user_def demo_user_def)

lemma demo_password: "verify_password demo_crypto (lit ''pw'') (us_password_hash demo_user) = Inr True"
  by (simp add: verify_password_def demo_crypto_def demo_user_def)

lemma demo_tokens:
  "generate_access_token demo_crypto (Inr 1) demo_user (as_config demo_store) = Inr [2]"
  "generate_refresh_token demo_crypto (Inr 1) demo_user (as_config demo_store) = Inr [3]"
  by (simp_all add: generate_access_token_def generate_refresh_token_def generate_token_def demo_store_def
      empty_store_def new_hs256_def demo_claims_simps)
    (simp_all add: demo_crypto_def demo_claims_simps)

lemma demo_login: "authenticate demo_crypto (Inr 1) (Inr 1) (lit ''acme'') (lit ''alice'') (lit ''pw'') demo_store = Inr ([2], [3])"
  by (simp add: authenticate_def demo_get demo_password demo_tokens)

theorem login_tokens_witness:
  "store_verify_token demo_crypto 5 [2] demo_store = Inr (claims_for demo_user 1 10 (lit ''access''))
   \<and> store_verify_token demo_crypto 12 [2] demo_store = Inl TokenExpired"
proof -
  have "jc_access_ttl (as_config demo_store) = 10"
    by (simp add: demo_store_def empty_store_def new_hs256_def)
  then show ?thesis
    using login_tokens [OF demo_crate demo_login] by (auto simp: demo_get)
qed

definition demo_ring :: "unit rs_key_ring" where
  "demo_ring = \<lparr>rr_current = \<lparr>rk_kid = lit ''k1'', rk_key = ()\<rparr>, rr_next = \<lparr>rk_kid = lit ''k2'', rk_key = ()\<rparr>\<rparr>"

theorem rotation_invalidates_tokens_witness:
  "\<exists>token config'. generate_token demo_crypto (Inr 1) demo_user (new_rs256 demo_ring 10 20) 10 (lit ''access'') = Inr token
   \<and> rotate_keys (Inr \<lparr>rk_kid = lit ''k3'', rk_key = ()\<rparr>) (new_rs256 demo_ring 10 20) = Inr config'
   \<and> verify_token demo_crypto 2 token config' =
       Inl (InvalidToken (lit ''kid not found in keyring: '' @ lit ''k1''))"
proof -
  obtain token where token:
    "generate_token demo_crypto (Inr 1) demo_user (new_rs256 demo_ring 10 20) 10 (lit ''access'') = Inr token"
    by (simp add: generate_token_def new_rs256_def demo_claims_simps) (simp add: demo_crypto_def)
  obtain config' where config':
    "rotate_keys (Inr \<lparr>rk_kid = lit ''k3'', rk_key = ()\<rparr>) (new_rs256 demo_ring 10 20) = Inr config'"
    by (simp add: rotate_keys_def new_rs256_def)
  have "verify_token demo_crypto 2 token config' =
      Inl (InvalidToken (lit ''kid not found in keyring: '' @ rk_kid (rr_current demo_ring)))"
    by (rule rotation_invalidates_tokens [OF demo_crate _ _ token config'])
      (simp_all add: new_rs256_def demo_ring_def)
  with token config' show ?thesis by (auto simp: demo_ring_def)
qed

text \<open>On a store with the demo directories a user of \<^verbatim>\<open>acme\<close> whose name is not taken can be created.\<close>

definition demo_like :: "unit auth_store \<Rightarrow> bool" where
  "demo_like s \<longleftrightarrow> as_auth_dir s = lit ''/auth'' \<and> (\<exists>f. as_disk s = demo_disk\<lparr>fd_files := f\<rparr>)"

definition new_user :: "rust_str \<Rightarrow> rust_str \<Rightarrow> rust_str \<Rightarrow> user" where
  "new_user t n pw = \<lparr>us_username = n, us_tenant = t, us_password_hash = pw, us_roles = [], us_created_at = 1\<rparr>"

lemma demo_like_simps [simp]: "demo_like empty_store" "demo_like s \<Longrightarrow> demo_like (s\<lparr>as_users := us\<rparr>)"
  "demo_like s \<Longrightarrow> demo_like (put_file l v s)"
  by (auto simp: demo_like_def empty_store_def demo_disk_def put_file_def)

lemma demo_like_resolve:
  assumes "demo_like s"
  shows "resolve_dir (as_disk s) (users_dir s) = Some demo_dir"
    "\<not> fd_refuse (as_disk s) q" "\<not> fd_dirs (as_disk s) (demo_dir @ [m])" "\<not> fd_dirs (as_disk s) [lit ''auth'', x @ 95 # y]"
proof -
  have "resolve_dir demo_disk (path_join (lit ''/auth'') (lit ''users'')) = Some demo_dir"
    using demo_resolve by (simp add: empty_store_def users_dir_def)
  then show "resolve_dir (as_disk s) (users_dir s) = Some demo_dir"
    using assms by (auto simp: demo_like_def users_dir_def)
  show "\<not> fd_refuse (as_disk s) q" using assms by (auto simp: demo_like_def demo_disk_def)
  show "\<not> fd_dirs (as_disk s) (demo_dir @ [m])" using assms by (auto simp: demo_like_def demo_disk_def demo_dir_def)
  have "x @ 95 # y \<noteq> lit ''users''" by (rule notI, drule arg_cong [of _ _ "\<lambda>l. 95 \<in> set l"]) (simp add: lit_def)
  then show "\<not> fd_dirs (as_disk s) [lit ''auth'', x @ 95 # y]" using assms by (auto simp: demo_like_def demo_disk_def)
qed

lemma demo_create_at:
  assumes "resolve_file (as_disk s) (user_file_path s t n) = Some l" "\<not> fd_dirs (as_disk s) l"
    and "(t, n) \<notin> user_id ` set (as_users s)"
  shows "create_user demo_crypto 0 (Inr 1) t n pw [] s =
    ((put_file l (Some (new_user t n pw)) s)\<lparr>as_users := as_users s @ [new_user t n pw]\<rparr>, Inr ())"
proof -
  have "\<not> list_ex (same_user t n) (as_users s)"
    using assms(3) by (auto simp: list_ex_iff same_user_id image_iff)
  then show ?thesis
    using assms(1,2)
    by (simp add: create_user_def hash_password_def demo_crypto_def save_user_cases and_then_def Let_def new_user_def)
qed

lemma demo_file:
  "demo_like s \<Longrightarrow> resolve_file (as_disk s) (user_file_path s (lit ''acme'') n)
     = Some (demo_dir @ [user_file_name (lit ''acme'') n])"
  by (simp add: resolve_user_file [OF demo_like_resolve(1)] demo_like_resolve(2) lit_def)

lemma demo_create:
  "demo_like s \<Longrightarrow> (lit ''acme'', n) \<notin> user_id ` set (as_users s) \<Longrightarrow>
   create_user demo_crypto 0 (Inr 1) (lit ''acme'') n pw [] s =
    ((put_file (demo_dir @ [user_file_name (lit ''acme'') n]) (Some (new_user (lit ''acme'') n pw)) s)
       \<lparr>as_users := as_users s @ [new_user (lit ''acme'') n pw]\<rparr>, Inr ())"
  by (rule demo_create_at) (simp_all add: demo_file demo_like_resolve)

lemma demo_entries: "entries (as_disk empty_store) demo_dir = {}" "as_users empty_store = []"
  using demo_fresh by (simp_all add: fresh_store_def)

lemma entries_put [simp]:
  "entries (as_disk (s\<lparr>as_users := us\<rparr>)) dir = entries (as_disk s) dir"
  "entries (as_disk (put_file (dir @ [n]) (Some u) s)) dir = insert n (entries (as_disk s) dir)"
  by (auto simp: entries_def)

theorem users_survive_restart_witness:
  "\<exists>s us. s = run_store demo_crypto
       [CallCreate 0 (Inr 1) (lit ''acme'') (lit ''alice'') (lit ''pw'') [],
        CallUpdateRoles (lit ''acme'') (lit ''alice'') [\<lparr>ra_role = ReadOnly, ra_scope = Tenant\<rparr>]]
       empty_store
     \<and> length (as_users s) = 1
     \<and> load_users (users_dir s) [user_file_name (lit ''acme'') (lit ''alice'')] (as_disk s) = Inr us
     \<and> mset us = mset (as_users s)"
proof -
  let ?n = "user_file_name (lit ''acme'') (lit ''alice'')" and ?u = "new_user (lit ''acme'') (lit ''alice'') (lit ''pw'')"
  let ?r = "[\<lparr>ra_role = ReadOnly, ra_scope = Tenant\<rparr>]"
  define calls where "calls =
    [CallCreate 0 (Inr 1) (lit ''acme'') (lit ''alice'') (lit ''pw'') [],
     CallUpdateRoles (lit ''acme'') (lit ''alice'') ?r]"
  define s where "s = run_store demo_crypto calls empty_store"
  have sep: "separate (call_id ` set calls)" by (simp add: calls_def separate_def lit_def)
  define s1 where "s1 = (put_file (demo_dir @ [?n]) (Some ?u) empty_store)\<lparr>as_users := [?u]\<rparr>"
  have u: "same_user (lit ''acme'') (lit ''alice'') ?u" "us_tenant ?u = lit ''acme''" "us_username ?u = lit ''alice''"
    by (simp_all add: same_user_def new_user_def)
  have like: "demo_like (s1\<lparr>as_users := us\<rparr>)" for us by (simp add: s1_def)
  have "s = fst (update_roles (lit ''acme'') (lit ''alice'') ?r s1)"
    by (simp add: s_def calls_def run_store_def demo_create demo_entries s1_def)
  also have "\<dots> = (put_file (demo_dir @ [?n]) (Some (?u\<lparr>us_roles := ?r\<rparr>)) (s1\<lparr>as_users := [?u\<lparr>us_roles := ?r\<rparr>]\<rparr>))"
    using demo_file [OF like] demo_like_resolve(3) [OF like] u by (simp add: update_roles_def save_user_cases s1_def)
  finally have s: "length (as_users s) = 1" "entries (as_disk s) demo_dir = {?n}"
    by (simp_all add: s1_def demo_entries)
  have "\<exists>us. load_users (users_dir s) [?n] (as_disk s) = Inr us \<and> mset us = mset (as_users s)"
    using users_survive_restart [OF demo_fresh sep s_def, of "[?n]"] s(2) by simp
  with s(1) show ?thesis unfolding s_def calls_def by blast
qed

theorem user_file_collision_witness:
  "\<exists>s1 s2 u v. create_user demo_crypto 0 (Inr 1) (lit ''acme'') (lit ''a'' @ lit ''/'' @ lit ''b'') (lit ''pw'') [] empty_store
       = (s1, Inr ())
     \<and> create_user demo_crypto 0 (Inr 1) (lit ''acme'') (lit ''a'' @ lit ''__'' @ lit ''b'') (lit ''pw'') [] s1 = (s2, Inr ())
     \<and> as_users s2 = [u, v] \<and> user_id u \<noteq> user_id v
     \<and> load_users (users_dir s2) [user_file_name (lit ''acme'') (lit ''a__b'')] (as_disk s2) = Inr [v]"
proof -
  let ?x = "lit ''a'' @ lit ''/'' @ lit ''b''" and ?y = "lit ''a'' @ lit ''__'' @ lit ''b''"
  let ?n = "user_file_name (lit ''acme'') (lit ''a__b'')"
  have n: "user_file_name (lit ''acme'') ?x = ?n" "user_file_name (lit ''acme'') ?y = ?n"
    by (simp_all add: user_file_name_def sanitise_for_filename_def lit_def)
  define s1 where "s1 = (put_file (demo_dir @ [?n]) (Some (new_user (lit ''acme'') ?x (lit ''pw''))) empty_store)
    \<lparr>as_users := [new_user (lit ''acme'') ?x (lit ''pw'')]\<rparr>"
  define s2 where "s2 = (put_file (demo_dir @ [?n]) (Some (new_user (lit ''acme'') ?y (lit ''pw''))) s1)
    \<lparr>as_users := as_users s1 @ [new_user (lit ''acme'') ?y (lit ''pw'')]\<rparr>"
  have c1: "create_user demo_crypto 0 (Inr 1) (lit ''acme'') ?x (lit ''pw'') [] empty_store = (s1, Inr ())"
    using demo_create [OF demo_like_simps(1), of ?x "lit ''pw''"] unfolding n demo_entries s1_def by simp
  have other: "(lit ''acme'', ?y) \<notin> user_id ` set (as_users s1)"
    by (simp add: s1_def user_id_def new_user_def lit_def)
  have like: "demo_like s1" by (simp add: s1_def)
  have c2: "create_user demo_crypto 0 (Inr 1) (lit ''acme'') ?y (lit ''pw'') [] s1 = (s2, Inr ())"
    unfolding demo_create [OF like other] n s2_def by (rule refl)
  have "set [?n] = entries (as_disk s2) demo_dir" by (simp add: s2_def s1_def demo_entries)
  moreover have "of_char (CHR ''/'') \<notin> set (lit ''acme'')" by (simp add: lit_def)
  ultimately have "\<exists>u v. as_users s2 = [u, v] \<and> user_id u \<noteq> user_id v
      \<and> load_users (users_dir s2) [?n] (as_disk s2) = Inr [v]"
    using user_file_collision [OF demo_fresh c1 c2, of "[?n]"] by fastforce
  with c1 c2 show ?thesis by blast
qed

theorem tenant_escapes_users_dir_witness:
  "\<exists>s' u. create_user demo_crypto 0 (Inr 1) (lit ''../'' @ lit ''x'') (lit ''bob'') (lit ''pw'') [] empty_store = (s', Inr ())
     \<and> as_users s' = [u]
     \<and> fd_files (as_disk s') [lit ''auth'', user_file_name (lit ''x'') (lit ''bob'')] = Some (JsonOf u)
     \<and> load_users (users_dir s') [] (as_disk s') = Inr []"
proof -
  let ?t = "lit ''../'' @ lit ''x''" and ?l = "[lit ''auth'', user_file_name (lit ''x'') (lit ''bob'')]"
  have "resolve_file (as_disk empty_store) (user_file_path empty_store ?t (lit ''bob'')) = Some ?l"
    using resolve_escaping [OF demo_resolve, of "lit ''x''" "lit ''bob''"]
    by (simp add: demo_like_resolve(2) demo_dir_def) (simp add: lit_def)
  moreover have "\<not> fd_dirs (as_disk empty_store) ?l"
    by (simp add: empty_store_def demo_disk_def user_file_name_def lit_def)
  ultimately obtain s' where s': "create_user demo_crypto 0 (Inr 1) ?t (lit ''bob'') (lit ''pw'') [] empty_store = (s', Inr ())"
    using demo_create_at [of empty_store ?t "lit ''bob''" ?l] by (simp add: demo_entries)
  have "of_char (CHR ''/'') \<notin> set (lit ''x'')" by (simp add: lit_def)
  then obtain u parent where u: "as_users s' = as_users empty_store @ [u]" "demo_dir = parent @ [lit ''users'']"
      "fd_files (as_disk s') (parent @ [user_file_name (lit ''x'') (lit ''bob'')]) = Some (JsonOf u)"
      "load_users (users_dir s') [] (as_disk s') = load_users (users_dir empty_store) [] (as_disk empty_store)"
    using tenant_escapes_users_dir [OF demo_resolve _ s'] by blast
  moreover have "load_users (users_dir empty_store) [] (as_disk empty_store) = Inr []"
    using demo_resolve by (simp add: load_users_def)
  ultimately show ?thesis using s' by (auto simp: demo_dir_def demo_entries)
qed

end
