(* ===== verification/Wire_Response.thy ===== *)
theory Wire_Response
  imports Wire_Text
begin

text \<open>
  The responses of the wire protocol, \<^verbatim>\<open>src/grumpydb-protocol/src/response.rs\<close>: the RESP-like
  serialisation and the parser, which reports how many bytes it consumed so that a client can read a
  stream of responses. A slice outside the string or inside a character and an allocation beyond
  \<^verbatim>\<open>isize::MAX\<close> bytes are panics. The size of a \<^verbatim>\<open>Response\<close> in memory is the parameter \<open>sz\<close>.
\<close>

datatype response =
    RespOk rust_str
  | RespError rust_str
  | RespInteger u64
  | RespBulk "rust_str option"
  | RespArray "response list"

datatype response_parse_error =
    Incomplete
  | InvalidPrefix nat
  | InvalidInteger rust_str
  | InvalidBulkLength rust_str

definition CRLF :: rust_str where
  "CRLF = [13, 10]"

primrec serialize :: "response \<Rightarrow> rust_str" where
  "serialize (RespOk msg) = lit ''+'' @ msg @ CRLF"
| "serialize (RespError msg) = lit ''-ERR '' @ msg @ CRLF"
| "serialize (RespInteger n) = lit '':'' @ show_int (sint n) @ CRLF"
| "serialize (RespBulk data) =
     (case data of
        None \<Rightarrow> lit ''$-1'' @ CRLF
      | Some d \<Rightarrow> lit ''$'' @ show_nat (str_len d) @ CRLF @ d @ CRLF)"
| "serialize (RespArray items) =
     lit ''*'' @ show_nat (length items) @ CRLF @ concat (map serialize items)"

fun find_crlf :: "rust_str \<Rightarrow> nat option" where
  "find_crlf [] = None"
| "find_crlf (c # s) =
     (if c = 13 \<and> s \<noteq> [] \<and> hd s = 10 then Some 0
      else map_option (\<lambda>k. utf8_len c + k) (find_crlf s))"

definition slice_range :: "nat \<Rightarrow> nat \<Rightarrow> rust_str \<Rightarrow> ('e, rust_str) rust" where
  "slice_range a b s = bind_res (slice_to b s) (slice_from a)"

definition crlf_or_incomplete :: "rust_str \<Rightarrow> (response_parse_error, nat) rust" where
  "crlf_or_incomplete input =
     (case find_crlf input of None \<Rightarrow> Inl (Err Incomplete) | Some crlf \<Rightarrow> Inr crlf)"

definition strip_prefix_or :: "rust_str \<Rightarrow> rust_str \<Rightarrow> rust_str" where
  "strip_prefix_or pre s = (if prefix pre s then drop (length pre) s else s)"

definition parse_simple_string :: "rust_str \<Rightarrow> (response_parse_error, response \<times> nat) rust" where
  "parse_simple_string input =
     bind_res (crlf_or_incomplete input) (\<lambda>crlf.
     bind_res (slice_range 1 crlf input) (\<lambda>msg.
     Inr (RespOk msg, crlf + 2)))"

definition parse_error_response :: "rust_str \<Rightarrow> (response_parse_error, response \<times> nat) rust" where
  "parse_error_response input =
     bind_res (crlf_or_incomplete input) (\<lambda>crlf.
     bind_res (slice_range 1 crlf input) (\<lambda>msg.
     Inr (RespError (strip_prefix_or (lit ''ERR '') msg), crlf + 2)))"

definition parse_integer :: "rust_str \<Rightarrow> (response_parse_error, response \<times> nat) rust" where
  "parse_integer input =
     bind_res (crlf_or_incomplete input) (\<lambda>crlf.
     bind_res (slice_range 1 crlf input) (\<lambda>num_str.
     case parse_i64 num_str of
       None \<Rightarrow> Inl (Err (InvalidInteger num_str))
     | Some n \<Rightarrow> Inr (RespInteger (word_of_int n), crlf + 2)))"

definition parse_bulk :: "rust_str \<Rightarrow> (response_parse_error, response \<times> nat) rust" where
  "parse_bulk input =
     bind_res (crlf_or_incomplete input) (\<lambda>crlf.
     bind_res (slice_range 1 crlf input) (\<lambda>len_str.
     case parse_i64 len_str of
       None \<Rightarrow> Inl (Err (InvalidBulkLength len_str))
     | Some len \<Rightarrow>
         if len < 0 then Inr (RespBulk None, crlf + 2)
         else let data_start = crlf + 2;
                  data_end = data_start + nat len;
                  total = data_end + 2
              in if str_len input < total then Inl (Err Incomplete)
                 else bind_res (slice_range data_start data_end input) (\<lambda>data.
                      Inr (RespBulk (Some data), total))))"

text \<open>
  The header of an array: the number of elements, the offset of the first one and the text from
  there on. \<^verbatim>\<open>Vec::with_capacity(count)\<close> panics when the allocation would exceed \<^verbatim>\<open>isize::MAX\<close>.
\<close>

definition array_header ::
  "nat \<Rightarrow> rust_str \<Rightarrow> (response_parse_error, nat \<times> nat \<times> rust_str) rust" where
  "array_header sz input =
     bind_res (crlf_or_incomplete input) (\<lambda>crlf.
     bind_res (slice_range 1 crlf input) (\<lambda>count_str.
     case parse_unsigned (2 ^ 64 - 1) count_str of
       None \<Rightarrow> Inl (Err (InvalidBulkLength count_str))
     | Some cnt \<Rightarrow>
         if cnt * sz > 2 ^ 63 - 1 then Inl Panic
         else bind_res (slice_from (crlf + 2) input) (\<lambda>body. Inr (cnt, crlf + 2, body))))"

lemma array_header_shorter: "array_header sz input = Inr (n, off, body) \<Longrightarrow> length body < length input"
  by (auto simp: array_header_def bind_res_eq_Inr split: option.splits if_splits
      dest: slice_from_shorter)

text \<open>
  \<open>parse_items\<close> is the loop of \<^verbatim>\<open>parse_array\<close> over the elements: \<open>rel\<close> is the offset relative to
  the first element.
\<close>

function (sequential)
  parse_response :: "nat \<Rightarrow> rust_str \<Rightarrow> (response_parse_error, response \<times> nat) rust"
  and parse_items ::
    "nat \<Rightarrow> rust_str \<Rightarrow> nat \<Rightarrow> nat \<Rightarrow> (response_parse_error, response list \<times> nat) rust"
where
  "parse_response sz input =
     (if input = [] then Inl (Err Incomplete)
      else let first = utf8_lead (hd input)
           in if first = of_char (CHR ''+'') then parse_simple_string input
              else if first = of_char (CHR ''-'') then parse_error_response input
              else if first = of_char (CHR '':'') then parse_integer input
              else if first = of_char (CHR ''$'') then parse_bulk input
              else if first = of_char (CHR ''*'') then
                bind_res (array_header sz input) (\<lambda>(cnt, offset, body).
                bind_res (parse_items sz body 0 cnt) (\<lambda>(items, rel).
                Inr (RespArray items, offset + rel)))
              else Inl (Err (InvalidPrefix first)))"
| "parse_items sz body rel 0 = Inr ([], rel)"
| "parse_items sz body rel (Suc n) =
     (if rel \<ge> str_len body then Inl (Err Incomplete)
      else bind_res (slice_from rel body) (\<lambda>rest.
           bind_res (parse_response sz rest) (\<lambda>(item, consumed).
           bind_res (parse_items sz body (rel + consumed) n) (\<lambda>(items, rel').
           Inr (item # items, rel')))))"
  by pat_completeness auto
termination
proof (relation "measures [\<lambda>x. (case x of Inl (sz, s) \<Rightarrow> length s | Inr (sz, b, r, n) \<Rightarrow> length b),
    \<lambda>x. (case x of Inl _ \<Rightarrow> 0 | Inr (sz, b, r, n) \<Rightarrow> Suc n)]", goal_cases)
qed (auto dest: array_header_shorter slice_from_length simp: le_less)

declare parse_response.simps [simp del]

section \<open>Responses that survive the wire\<close>

text \<open>
  A message must not contain a line break; lengths must fit the integer types of the header.
\<close>

fun wf_response :: "nat \<Rightarrow> response \<Rightarrow> bool" where
  "wf_response sz (RespOk msg) = (find_crlf msg = None)"
| "wf_response sz (RespError msg) = (find_crlf msg = None)"
| "wf_response sz (RespInteger n) = True"
| "wf_response sz (RespBulk data) = (case data of None \<Rightarrow> True | Some d \<Rightarrow> str_len d < 2 ^ 63)"
| "wf_response sz (RespArray items) =
     (length items * sz < 2 ^ 63 \<and> length items < 2 ^ 64 \<and> (\<forall>r \<in> set items. wf_response sz r))"

lemma find_crlf_append: "find_crlf s = None \<Longrightarrow> find_crlf (s @ 13 # 10 # t) = Some (str_len s)"
proof (induction s)
  case (Cons c s)
  then show ?case by (cases s) (auto split: if_splits)
qed simp

lemma find_crlf_CRLF: "find_crlf s = None \<Longrightarrow> find_crlf (s @ CRLF @ t) = Some (str_len s)"
  by (simp add: CRLF_def find_crlf_append)

lemma find_crlf_no_cr: "13 \<notin> set s \<Longrightarrow> find_crlf s = None"
  by (induction s) auto

lemma find_crlf_no_cr_append: "13 \<notin> set a \<Longrightarrow> find_crlf s = None \<Longrightarrow> find_crlf (a @ s) = None"
  by (induction a) auto

lemma show_nat_no_cr [simp]: "13 \<notin> set (show_nat n)"
  using show_nat_digits [of 13 n] by auto

lemma show_int_no_cr [simp]: "13 \<notin> set (show_int i)"
  by (simp add: show_int_def)

lemma str_len_CRLF [simp]: "str_len CRLF = 2"
  by (simp add: CRLF_def utf8_len_def)

lemma utf8_ascii [simp]: "c < 128 \<Longrightarrow> utf8_lead c = c" "c < 128 \<Longrightarrow> utf8_len c = 1"
  by (simp_all add: utf8_lead_def utf8_len_def)

text \<open>The payload of a line: prefix character, text without a line break, line break.\<close>

lemma header_line:
  assumes "find_crlf s = None" "c < 128" "c \<noteq> 13"
  shows "crlf_or_incomplete (c # s @ CRLF @ t) = Inr (Suc (str_len s))"
    and "slice_range 1 (Suc (str_len s)) (c # s @ CRLF @ t) = (Inr s :: (response_parse_error, rust_str) rust)"
    and "slice_from (Suc (str_len s) + 2) (c # s @ CRLF @ t) = (Inr t :: (response_parse_error, rust_str) rust)"
proof -
  have c: "utf8_len c = 1" using assms(2) by (simp add: utf8_len_def)
  show "crlf_or_incomplete (c # s @ CRLF @ t) = Inr (Suc (str_len s))"
    using assms(3) by (simp add: crlf_or_incomplete_def find_crlf_CRLF [OF assms(1)] c)
  have "slice_to (Suc (str_len s)) (c # s @ CRLF @ t) = (Inr (c # s) :: (response_parse_error, rust_str) rust)"
    by (simp add: slice_to_Cons c)
  then show "slice_range 1 (Suc (str_len s)) (c # s @ CRLF @ t) = (Inr s :: (response_parse_error, rust_str) rust)"
    by (simp add: slice_range_def c)
  have "slice_from (str_len (c # s @ CRLF)) ((c # s @ CRLF) @ t) = (Inr t :: (response_parse_error, rust_str) rust)"
    by (rule slice_from_append)
  moreover have "str_len (c # s @ CRLF) = Suc (str_len s) + 2" by (simp add: c)
  ultimately show "slice_from (Suc (str_len s) + 2) (c # s @ CRLF @ t) = (Inr t :: (response_parse_error, rust_str) rust)"
    by simp
qed

text \<open>What the parser does on the serialisation of a response, whatever follows it.\<close>

definition reads_back :: "nat \<Rightarrow> response \<Rightarrow> bool" where
  "reads_back sz r \<longleftrightarrow> serialize r \<noteq> [] \<and>
     (\<forall>tail. parse_response sz (serialize r @ tail) = Inr (r, str_len (serialize r)))"

lemma ok_reads_back: "find_crlf msg = None \<Longrightarrow> reads_back sz (RespOk msg)"
  using header_line [of msg 43]
  by (simp add: reads_back_def parse_response.simps parse_simple_string_def lit_def)

lemma error_reads_back: "find_crlf msg = None \<Longrightarrow> reads_back sz (RespError msg)"
  using header_line [OF find_crlf_no_cr_append, of "lit ''ERR ''" msg 45]
  by (simp add: reads_back_def parse_response.simps parse_error_response_def lit_def strip_prefix_or_def)

lemma integer_reads_back: "reads_back sz (RespInteger n)"
proof -
  have "- (2 ^ 63) \<le> sint n" "sint n < 2 ^ 63"
    using sint_greater_eq [of n] sint_less [of n] by simp_all
  then show ?thesis
    using header_line [OF find_crlf_no_cr, of "show_int (sint n)" 58]
    by (simp add: reads_back_def parse_response.simps parse_integer_def lit_def)
qed

lemma slice_range_mid:
  "slice_range (str_len a) (str_len a + str_len d) (a @ d @ t) = (Inr d :: (response_parse_error, rust_str) rust)"
proof -
  have "slice_to (str_len (a @ d)) ((a @ d) @ t) = (Inr (a @ d) :: (response_parse_error, rust_str) rust)"
    by (rule slice_to_append)
  then show ?thesis by (simp add: slice_range_def)
qed

lemma bulk_reads_back:
  assumes "case data of None \<Rightarrow> True | Some d \<Rightarrow> str_len d < 2 ^ 63"
  shows "reads_back sz (RespBulk data)"
proof (cases data)
  case None
  have "find_crlf [45, 49] = None" "parse_i64 [45, 49] = Some (-1)"
    by (simp_all add: parse_i64_def parse_digits_def)
  with None show ?thesis
    using header_line [of "[45, 49]" 36]
    by (simp add: reads_back_def parse_response.simps parse_bulk_def lit_def)
next
  case (Some d)
  define n where "n = show_nat (str_len d)"
  define a where "a = 36 # n @ CRLF"
  have len: "Suc (str_len n) + 2 = str_len a" by (simp add: a_def)
  have digits: "parse_i64 n = Some (int (str_len d))"
    using parse_i64_show [of "int (str_len d)"] assms Some by (simp add: show_int_def n_def)
  have line: "crlf_or_incomplete (a @ r) = Inr (Suc (str_len n))"
    "slice_range 1 (Suc (str_len n)) (a @ r) = (Inr n :: (response_parse_error, rust_str) rust)" for r
    using header_line [OF find_crlf_no_cr, of n 36] by (simp_all add: a_def n_def)
  have "parse_bulk (a @ d @ CRLF @ tail) = Inr (RespBulk (Some d), str_len a + str_len d + 2)" for tail
    unfolding parse_bulk_def line bind_res.simps digits option.case Let_def len nat_int
    by (simp add: slice_range_mid)
  moreover have ser: "serialize (RespBulk data) = a @ d @ CRLF"
    by (simp add: Some lit_def a_def n_def)
  moreover have "parse_response sz (a @ r) = parse_bulk (a @ r)" for r
    by (simp add: parse_response.simps a_def)
  moreover have "a \<noteq> []" by (simp add: a_def)
  ultimately show ?thesis
    unfolding reads_back_def ser by (simp add: Some)
qed

lemma items_read_back:
  assumes "\<forall>r \<in> set items. reads_back sz r"
  shows "parse_items sz (pre @ concat (map serialize items) @ tail) (str_len pre) (length items)
    = Inr (items, str_len pre + str_len (concat (map serialize items)))"
  using assms
proof (induction items arbitrary: pre)
  case (Cons r items)
  define s where "s = serialize r"
  have r: "s \<noteq> []" "\<And>tail. parse_response sz (s @ tail) = Inr (r, str_len s)"
    using Cons.prems by (simp_all add: reads_back_def s_def)
  have "parse_items sz ((pre @ s) @ concat (map serialize items) @ tail) (str_len (pre @ s)) (length items)
    = Inr (items, str_len (pre @ s) + str_len (concat (map serialize items)))"
    by (rule Cons.IH) (use Cons.prems in simp)
  then show ?case
    using r by (simp add: add.assoc flip: s_def)
qed simp

text \<open>The header line of an array with \<open>n\<close> elements.\<close>

definition array_line :: "nat \<Rightarrow> rust_str" where
  "array_line n = 42 # show_nat n @ CRLF"

lemma serialize_array: "serialize (RespArray items) = array_line (length items) @ concat (map serialize items)"
  by (simp add: array_line_def lit_def)

lemma array_header_line:
  assumes "n < 2 ^ 64"
  shows "array_header sz (array_line n @ body) =
    (if n * sz > 2 ^ 63 - 1 then Inl Panic else Inr (n, str_len (array_line n), body))"
proof -
  have line: "crlf_or_incomplete (array_line n @ body) = Inr (Suc (str_len (show_nat n)))"
    "slice_range 1 (Suc (str_len (show_nat n))) (array_line n @ body)
      = (Inr (show_nat n) :: (response_parse_error, rust_str) rust)"
    "slice_from (Suc (str_len (show_nat n)) + 2) (array_line n @ body)
      = (Inr body :: (response_parse_error, rust_str) rust)"
    using header_line [OF find_crlf_no_cr, of "show_nat n" 42] by (simp_all add: array_line_def)
  have "parse_unsigned (2 ^ 64 - 1) (show_nat n) = Some n"
    using assms by (intro parse_unsigned_show) simp
  then show ?thesis
    unfolding array_header_def line bind_res.simps by (simp add: array_line_def)
qed

lemma parse_array_line:
  assumes "n < 2 ^ 64" "n * sz < 2 ^ 63"
  shows "parse_response sz (array_line n @ body) =
    bind_res (parse_items sz body 0 n) (\<lambda>(items, rel). Inr (RespArray items, str_len (array_line n) + rel))"
proof -
  have "array_line n \<noteq> []" "hd (array_line n @ body) = 42"
    by (simp_all add: array_line_def)
  then show ?thesis
    using assms by (simp add: parse_response.simps [of _ "array_line n @ body"] array_header_line)
qed

lemma array_reads_back:
  assumes "length items * sz < 2 ^ 63" "length items < 2 ^ 64" "\<forall>r \<in> set items. reads_back sz r"
  shows "reads_back sz (RespArray items)"
  unfolding reads_back_def serialize_array
  using assms items_read_back [OF assms(3), of "[]"]
  by (simp add: parse_array_line) (simp add: array_line_def)

lemma wf_reads_back: "wf_response sz r \<Longrightarrow> reads_back sz r"
proof (induction r)
  case (RespArray items)
  then show ?case by (intro array_reads_back) auto
qed (simp_all add: ok_reads_back error_reads_back integer_reads_back bulk_reads_back)

section \<open>Partial responses\<close>

definition waits :: "nat \<Rightarrow> response \<Rightarrow> bool" where
  "waits sz r \<longleftrightarrow> (\<forall>p. strict_prefix p (serialize r) \<longrightarrow> parse_response sz p = Inl (Err Incomplete))"

lemma strict_prefix_append_cases:
  assumes "strict_prefix p (x @ y)"
  obtains "strict_prefix p x" | q where "p = x @ q" "strict_prefix q y"
proof -
  have "prefix p x \<or> (\<exists>q. p = x @ q \<and> prefix q y)"
    using assms by (simp add: strict_prefix_def prefix_append)
  then show thesis
    using assms that by (cases "p = x") (auto simp: strict_prefix_def)
qed

lemma find_crlf_prefix: "prefix p s \<Longrightarrow> find_crlf s = None \<Longrightarrow> find_crlf p = None"
proof (induction p arbitrary: s)
  case (Cons c p)
  then obtain s' where s: "s = c # s'" "prefix p s'" by (cases s) auto
  with Cons.prems have n: "find_crlf s' = None" "\<not> (c = 13 \<and> s' \<noteq> [] \<and> hd s' = 10)"
    by (auto split: if_splits)
  have "find_crlf p = None" by (rule Cons.IH [OF s(2) n(1)])
  moreover have "p \<noteq> [] \<Longrightarrow> s' \<noteq> [] \<and> hd s' = hd p" using s(2) by (auto simp: prefix_def)
  ultimately show ?case using n(2) by auto
qed simp

lemma find_crlf_cr: "find_crlf s = None \<Longrightarrow> find_crlf (s @ [13]) = None"
proof (induction s)
  case (Cons c s)
  then show ?case by (cases s) (auto split: if_splits)
qed simp

lemma line_waits:
  assumes "find_crlf s = None" "c \<noteq> 13" "strict_prefix p (c # s @ CRLF)"
  shows "crlf_or_incomplete p = Inl (Err Incomplete)"
proof (cases p)
  case (Cons d q)
  with assms(3) have q: "d = c" "strict_prefix q ((s @ [13]) @ [10])" by (auto simp: CRLF_def)
  from q(2) have "prefix q (s @ [13])"
    by (rule strict_prefix_append_cases) (auto simp: strict_prefix_def prefix_Cons)
  then have "find_crlf q = None"
    using find_crlf_prefix find_crlf_cr assms(1) by blast
  with Cons q(1) assms(2) show ?thesis by (simp add: crlf_or_incomplete_def)
qed (simp add: crlf_or_incomplete_def)

lemma incomplete_line:
  assumes "crlf_or_incomplete p = Inl (Err Incomplete)" "p = [] \<or> hd p \<in> {43, 45, 58, 36, 42}"
  shows "parse_response sz p = Inl (Err Incomplete)"
  using assms
  by (cases p) (auto simp: parse_response.simps parse_simple_string_def parse_error_response_def
      parse_integer_def parse_bulk_def array_header_def)

lemma line_response_waits:
  assumes "find_crlf s = None" "c \<in> {43, 45, 58, 36, 42}" "strict_prefix p (c # s @ CRLF)"
  shows "parse_response sz p = Inl (Err Incomplete)"
proof (rule incomplete_line)
  show "crlf_or_incomplete p = Inl (Err Incomplete)"
    using assms by (intro line_waits [of s c]) auto
  show "p = [] \<or> hd p \<in> {43, 45, 58, 36, 42}"
    using assms(2,3) by (cases p) auto
qed

lemma simple_waits:
  "find_crlf msg = None \<Longrightarrow> waits sz (RespOk msg)"
  "find_crlf msg = None \<Longrightarrow> waits sz (RespError msg)"
  "waits sz (RespInteger n)"
  "waits sz (RespBulk None)"
  using line_response_waits [of msg 43] line_response_waits [OF find_crlf_no_cr_append, of "lit ''ERR ''" msg 45]
    line_response_waits [OF find_crlf_no_cr, of "show_int (sint n)" 58] line_response_waits [of "[45, 49]" 36]
  by (simp_all add: waits_def lit_def)

lemma str_len_strict_prefix: "strict_prefix p s \<Longrightarrow> str_len p < str_len s"
  by (auto simp: strict_prefix_def prefix_def)

lemma bulk_waits:
  assumes "str_len d < 2 ^ 63"
  shows "waits sz (RespBulk (Some d))"
  unfolding waits_def
proof (intro allI impI)
  fix p assume p: "strict_prefix p (serialize (RespBulk (Some d)))"
  define n where "n = show_nat (str_len d)"
  define a where "a = 36 # n @ CRLF"
  have "strict_prefix p (a @ d @ CRLF)"
    using p by (simp add: a_def n_def lit_def)
  then show "parse_response sz p = Inl (Err Incomplete)"
  proof (cases rule: strict_prefix_append_cases)
    case 1
    then show ?thesis
      using line_response_waits [OF find_crlf_no_cr, of n 36] by (simp add: a_def n_def)
  next
    case (2 q)
    have len: "Suc (str_len n) + 2 = str_len a" by (simp add: a_def)
    have digits: "parse_i64 n = Some (int (str_len d))"
      using parse_i64_show [of "int (str_len d)"] assms by (simp add: show_int_def n_def)
    have line: "crlf_or_incomplete (a @ r) = Inr (Suc (str_len n))"
      "slice_range 1 (Suc (str_len n)) (a @ r) = (Inr n :: (response_parse_error, rust_str) rust)" for r
      using header_line [OF find_crlf_no_cr, of n 36] by (simp_all add: a_def n_def)
    have "str_len (a @ q) < str_len a + str_len d + 2"
      using str_len_strict_prefix [OF 2(2)] by simp
    then have "parse_bulk (a @ q) = Inl (Err Incomplete)"
      unfolding parse_bulk_def line bind_res.simps digits option.case Let_def len nat_int by simp
    moreover have "parse_response sz (a @ q) = parse_bulk (a @ q)"
      by (simp add: parse_response.simps a_def)
    ultimately show ?thesis using 2 by simp
  qed
qed

lemma items_wait:
  assumes "\<forall>r \<in> set items. reads_back sz r \<and> waits sz r"
    and "strict_prefix q (concat (map serialize items))"
  shows "parse_items sz (pre @ q) (str_len pre) (length items) = Inl (Err Incomplete)"
  using assms
proof (induction items arbitrary: pre q)
  case (Cons r items)
  define s where "s = serialize r"
  have r: "\<And>tail. parse_response sz (s @ tail) = Inr (r, str_len s)"
    "\<And>p. strict_prefix p s \<Longrightarrow> parse_response sz p = Inl (Err Incomplete)"
    using Cons.prems(1) by (simp_all add: reads_back_def waits_def s_def)
  from Cons.prems(2) have "strict_prefix q (s @ concat (map serialize items))" by (simp add: s_def)
  then show ?case
  proof (cases rule: strict_prefix_append_cases)
    case 1
    then show ?thesis using r(2) by (cases "q = []") simp_all
  next
    case (2 q')
    have "parse_items sz ((pre @ s) @ q') (str_len (pre @ s)) (length items) = Inl (Err Incomplete)"
      by (rule Cons.IH) (use Cons.prems 2 in auto)
    then show ?thesis using r(1) 2 by (cases "s @ q' = []") (simp_all add: add.assoc)
  qed
qed simp

lemma array_waits:
  assumes "length items * sz < 2 ^ 63" "length items < 2 ^ 64"
    and "\<forall>r \<in> set items. reads_back sz r \<and> waits sz r"
  shows "waits sz (RespArray items)"
  unfolding waits_def serialize_array
proof (intro allI impI)
  fix p assume "strict_prefix p (array_line (length items) @ concat (map serialize items))"
  then show "parse_response sz p = Inl (Err Incomplete)"
  proof (cases rule: strict_prefix_append_cases)
    case 1
    then show ?thesis
      using line_response_waits [OF find_crlf_no_cr, of "show_nat (length items)" 42]
      by (simp add: array_line_def)
  next
    case (2 q)
    then show ?thesis
      using assms items_wait [OF assms(3) 2(2), of "[]"] by (simp add: parse_array_line)
  qed
qed

lemma wf_waits: "wf_response sz r \<Longrightarrow> waits sz r"
proof (induction r)
  case (RespArray items)
  then show ?case by (intro array_waits) (auto intro: wf_reads_back)
next
  case (RespBulk data)
  then show ?case by (cases data) (simp_all add: simple_waits bulk_waits)
qed (simp_all add: simple_waits)

text \<open>
  C28. Responses survive the wire and are framed correctly: for every response whose messages contain
  no line break, parsing its serialisation returns the response and consumes exactly its bytes,
  whatever data follows, so a stream of responses is read back one by one; and every proper prefix
  of the serialisation is reported as incomplete, never as an error or as a different response.
\<close>

theorem response_framing:
  assumes "wf_response sz r"
  shows "parse_response sz (serialize r @ tail) = Inr (r, str_len (serialize r)) \<and>
    (\<forall>p. strict_prefix p (serialize r) \<longrightarrow> parse_response sz p = Inl (Err Incomplete))"
  using wf_reads_back [OF assms] wf_waits [OF assms] by (simp add: reads_back_def waits_def)

definition example_response :: response where
  "example_response = RespArray [RespBulk (Some (lit ''a'')), RespBulk None, RespInteger (- 5), RespOk (lit ''OK'')]"

theorem response_framing_witness:
  "parse_response 32 (serialize example_response @ lit ''+PONG'') =
     Inr (example_response, str_len (serialize example_response))
   \<and> parse_response 32 (take 12 (serialize example_response)) = Inl (Err Incomplete)"
proof -
  have wf: "wf_response 32 example_response"
    by (simp add: example_response_def lit_def)
  have "strict_prefix (take 12 (serialize example_response)) (serialize example_response)"
    by (simp add: strict_prefix_def take_is_prefix)
      (simp add: example_response_def CRLF_def lit_def show_nat.simps [of 4] show_nat.simps [of "Suc 0"])
  with response_framing [OF wf] show ?thesis by blast
qed

text \<open>
  C29. A header decides over the client's memory before any element arrives: an array header whose
  element count times the size of a response exceeds \<^verbatim>\<open>isize::MAX\<close> makes the parser panic in
  \<^verbatim>\<open>Vec::with_capacity\<close> instead of returning an error, whatever follows the header.
\<close>

theorem array_header_panics:
  assumes "n < 2 ^ 64" "n * sz \<ge> 2 ^ 63"
  shows "parse_response sz (lit ''*'' @ show_nat n @ CRLF @ body) = Inl Panic"
proof -
  have "array_line n @ body \<noteq> []" "hd (array_line n @ body) = 42"
    by (simp_all add: array_line_def)
  then have "parse_response sz (array_line n @ body) = Inl Panic"
    using assms by (simp add: parse_response.simps [of _ "array_line n @ body"] array_header_line)
  then show ?thesis by (simp add: array_line_def lit_def)
qed

theorem array_header_panics_witness:
  "parse_response 32 (lit ''*'' @ show_nat (2 ^ 60) @ CRLF @ []) = Inl Panic"
  by (rule array_header_panics) simp_all

end
