(* ===== verification/Server_Commands.thy ===== *)
theory Server_Commands
  imports Auth_Store Wire_Response Crdt_Merge
begin

text \<open>
  The execution of a command, \<open>execute_command\<close> of \<^verbatim>\<open>src/grumpydb-server/src/tcp/handler.rs\<close>: every
  branch of the match, over the interface the handler calls. The shared engine
  (\<^verbatim>\<open>src/src/concurrency/shared.rs\<close>) and the cluster coordinator are the record \<open>engine\<close>, a
  parameter on an abstract world; the JSON and UUID parsers, the texts of errors and the
  \<^verbatim>\<open>Debug\<close> format are parameters too. The result is that a session works inside its own tenant.
\<close>

section \<open>The interface to the engine\<close>

type_synonym ('w, 'a) act = "'w \<Rightarrow> 'w \<times> (grumpy_error + 'a)"

record 'w engine =
  create_client :: "rust_str \<Rightarrow> ('w, unit) act"
  drop_client :: "rust_str \<Rightarrow> ('w, unit) act"
  list_clients :: "'w \<Rightarrow> rust_str list"
  create_database :: "rust_str \<Rightarrow> rust_str \<Rightarrow> ('w, unit) act"
  drop_database :: "rust_str \<Rightarrow> rust_str \<Rightarrow> ('w, unit) act"
  list_databases :: "rust_str \<Rightarrow> 'w \<Rightarrow> grumpy_error + rust_str list"
  set_defaults :: "rust_str \<Rightarrow> rust_str \<Rightarrow> u16 option \<Rightarrow> u16 option \<Rightarrow> ('w, unit) act"
  reset_defaults :: "rust_str \<Rightarrow> rust_str \<Rightarrow> ('w, unit) act"
  get_defaults :: "rust_str \<Rightarrow> rust_str \<Rightarrow> 'w \<Rightarrow> grumpy_error + u16 option \<times> u16 option"
  open_database :: "rust_str \<Rightarrow> rust_str \<Rightarrow> ('w, unit) act"
  db_create_collection :: "rust_str \<Rightarrow> rust_str \<Rightarrow> rust_str \<Rightarrow> ('w, unit) act"
  db_drop_collection :: "rust_str \<Rightarrow> rust_str \<Rightarrow> rust_str \<Rightarrow> ('w, unit) act"
  db_list_collections :: "rust_str \<Rightarrow> rust_str \<Rightarrow> 'w \<Rightarrow> rust_str list"
  db_insert :: "rust_str \<Rightarrow> rust_str \<Rightarrow> rust_str \<Rightarrow> uuid \<Rightarrow> grumpy_value \<Rightarrow> ('w, unit) act"
  db_get :: "rust_str \<Rightarrow> rust_str \<Rightarrow> rust_str \<Rightarrow> uuid \<Rightarrow> 'w \<Rightarrow> grumpy_error + grumpy_value option"
  db_update :: "rust_str \<Rightarrow> rust_str \<Rightarrow> rust_str \<Rightarrow> uuid \<Rightarrow> grumpy_value \<Rightarrow> ('w, unit) act"
  db_delete :: "rust_str \<Rightarrow> rust_str \<Rightarrow> rust_str \<Rightarrow> uuid \<Rightarrow> ('w, unit) act"
  db_scan :: "rust_str \<Rightarrow> rust_str \<Rightarrow> rust_str \<Rightarrow> (uuid \<times> uuid) option \<Rightarrow> 'w
    \<Rightarrow> grumpy_error + (uuid \<times> grumpy_value) list"
  db_count :: "rust_str \<Rightarrow> rust_str \<Rightarrow> rust_str \<Rightarrow> 'w \<Rightarrow> grumpy_error + nat"
  db_create_index :: "rust_str \<Rightarrow> rust_str \<Rightarrow> rust_str \<Rightarrow> rust_str \<Rightarrow> rust_str \<Rightarrow> ('w, unit) act"
  db_drop_index :: "rust_str \<Rightarrow> rust_str \<Rightarrow> rust_str \<Rightarrow> rust_str \<Rightarrow> ('w, unit) act"
  db_list_indexes :: "rust_str \<Rightarrow> rust_str \<Rightarrow> rust_str \<Rightarrow> 'w \<Rightarrow> grumpy_error + rust_str list"
  db_query :: "rust_str \<Rightarrow> rust_str \<Rightarrow> rust_str \<Rightarrow> rust_str \<Rightarrow> grumpy_value \<Rightarrow> 'w
    \<Rightarrow> grumpy_error + (uuid \<times> grumpy_value) list"
  db_query_range :: "rust_str \<Rightarrow> rust_str \<Rightarrow> rust_str \<Rightarrow> rust_str \<Rightarrow> grumpy_value \<Rightarrow> grumpy_value \<Rightarrow> 'w
    \<Rightarrow> grumpy_error + (uuid \<times> grumpy_value) list"
  db_compact :: "rust_str \<Rightarrow> rust_str \<Rightarrow> rust_str \<Rightarrow> ('w, nat) act"
  db_flush :: "rust_str \<Rightarrow> rust_str \<Rightarrow> ('w, unit) act"
  db_snapshot_hlc :: "rust_str \<Rightarrow> rust_str \<Rightarrow> 'w \<Rightarrow> u64"

record 'w cluster =
  topology_json :: "'w \<Rightarrow> rust_str"
  schema_version :: "'w \<Rightarrow> u64"
  schema_status_json :: "'w \<Rightarrow> rust_str"
  schema_has_index :: "rust_str \<Rightarrow> rust_str \<Rightarrow> rust_str \<Rightarrow> rust_str \<Rightarrow> 'w \<Rightarrow> bool"
  enforce_local_owner :: "rust_str \<Rightarrow> rust_str \<Rightarrow> rust_str \<Rightarrow> 'w \<Rightarrow> rust_str + unit"
  enforce_local_write_replica :: "rust_str \<Rightarrow> rust_str \<Rightarrow> rust_str \<Rightarrow> 'w \<Rightarrow> rust_str + unit"
  plan_rebalance_add_node :: "rust_str \<Rightarrow> 'w \<Rightarrow> rust_str"
  plan_rebalance_remove_node :: "rust_str \<Rightarrow> 'w \<Rightarrow> rust_str"
  execute_rebalance_add_node :: "rust_str \<Rightarrow> rust_str \<Rightarrow> rust_str \<Rightarrow> rust_str \<Rightarrow> 'w \<Rightarrow> 'w \<times> rust_str"
  execute_rebalance_remove_node :: "rust_str \<Rightarrow> rust_str \<Rightarrow> rust_str \<Rightarrow> rust_str \<Rightarrow> 'w \<Rightarrow> 'w \<times> rust_str"

record formats =
  show_error :: "grumpy_error \<Rightarrow> rust_str"
  show_crdt_error :: "crdt_error \<Rightarrow> rust_str"
  debug_scope :: "resource_scope \<Rightarrow> rust_str"
  debug_action :: "auth_action \<Rightarrow> rust_str"
  uuid_parse :: "rust_str \<Rightarrow> rust_str + uuid"
  uuid_show :: "uuid \<Rightarrow> rust_str"
  json_check :: "rust_str \<Rightarrow> rust_str + unit"
  json_parse :: "rust_str \<Rightarrow> rust_str + grumpy_value"
  json_show :: "grumpy_value \<Rightarrow> rust_str"
  json_consistency :: "rust_str \<Rightarrow> u16 option \<Rightarrow> u16 option \<Rightarrow> rust_str"
  crdt_json :: json

text \<open>The state a command works on, and what a handler needs besides it.\<close>

record ('k, 'h, 'w) server_env =
  sv_engine :: "'w engine"
  sv_cluster :: "'w cluster"
  sv_formats :: formats
  sv_crypto :: "('k, 'h) crypto"

text \<open>
  The outside inputs of one command: the time at which a token is verified, the clock readings of
  the first and the second record or token the command makes, and the random salt.
\<close>

record call_env =
  ce_now :: u64
  ce_clock :: clock
  ce_clock2 :: clock
  ce_salt :: nat

record ('k, 'w) server_state =
  st_auth :: "'k auth_store"
  st_world :: 'w

section \<open>Helpers of the handler\<close>

primrec auth_error_text :: "formats \<Rightarrow> auth_error \<Rightarrow> rust_str" where
  "auth_error_text f (HashError e) = lit ''password hashing error: '' @ e"
| "auth_error_text f InvalidCredentials = lit ''invalid credentials''"
| "auth_error_text f (UserNotFound e) = lit ''user not found: '' @ e"
| "auth_error_text f (UserAlreadyExists e) = lit ''user already exists: '' @ e"
| "auth_error_text f (JwtError e) = lit ''JWT error: '' @ e"
| "auth_error_text f TokenExpired = lit ''token expired''"
| "auth_error_text f (InvalidToken e) = lit ''invalid token: '' @ e"
| "auth_error_text f (AccessDenied a r u) =
     lit ''access denied: '' @ debug_action f a @ lit '' on '' @ debug_scope f r
       @ lit '' denied for user '' @ [39] @ u @ [39]"
| "auth_error_text f NotAuthenticated = lit ''not authenticated''"
| "auth_error_text f (AuthIo e) = lit ''I/O error: '' @ e"
| "auth_error_text f (ClockError e) = lit ''system clock error: '' @ e"
| "auth_error_text f AuthReadOnly = lit ''server is configured for read-only access''"
| "auth_error_text f PasswordChangeRequired = lit ''password change required before further operations''"
| "auth_error_text f (BootstrapRefused e) = lit ''server refuses to bootstrap: '' @ e"

definition ok_response :: response where
  "ok_response = RespOk (lit ''OK'')"

definition unit_response :: "formats \<Rightarrow> grumpy_error + unit \<Rightarrow> response" where
  "unit_response f r = (case r of Inr _ \<Rightarrow> ok_response | Inl e \<Rightarrow> RespError (show_error f e))"

fun join :: "rust_str \<Rightarrow> rust_str list \<Rightarrow> rust_str" where
  "join sep [] = []"
| "join sep [x] = x"
| "join sep (x # y # xs) = x @ sep @ join sep (y # xs)"

definition split_tenant_user :: "rust_str \<Rightarrow> rust_str \<Rightarrow> rust_str \<times> rust_str" where
  "split_tenant_user input default_tenant =
     (case split_once (of_char (CHR ''@'')) input of
        Some (u, t) \<Rightarrow> (t, u)
      | None \<Rightarrow> (default_tenant, input))"

text \<open>\<^verbatim>\<open>&input[..pos]\<close> for the last position of a character.\<close>

definition before_last :: "nat \<Rightarrow> rust_str \<Rightarrow> rust_str option" where
  "before_last c s =
     (if c \<in> set s then Some (rev (tl (dropWhile (\<lambda>d. d \<noteq> c) (rev s)))) else None)"

definition parse_resource :: "rust_str \<Rightarrow> rust_str option \<Rightarrow> resource_scope" where
  "parse_resource input current_db =
     (let before_at = (case before_last (of_char (CHR ''@'')) input of Some b \<Rightarrow> b | None \<Rightarrow> input)
      in if before_at = [] then Tenant
         else case split_once (of_char (CHR '':'')) before_at of
           Some (collection, database) \<Rightarrow> Collection database collection
         | None \<Rightarrow>
             (case current_db of
                Some db \<Rightarrow> Collection db before_at
              | None \<Rightarrow> Database before_at))"

definition parse_uuid :: "formats \<Rightarrow> rust_str \<Rightarrow> rust_str + uuid" where
  "parse_uuid f s = map_err (\<lambda>e. lit ''invalid UUID '' @ [39] @ s @ [39] @ lit '': '' @ e) (uuid_parse f s)"

definition parse_json_value :: "formats \<Rightarrow> rust_str \<Rightarrow> rust_str + grumpy_value" where
  "parse_json_value f s = map_err (\<lambda>e. lit ''invalid JSON: '' @ e) (json_parse f s)"

definition is_crdt :: "grumpy_value \<Rightarrow> bool" where
  "is_crdt v \<longleftrightarrow> (case v of VCrdt _ _ \<Rightarrow> True | _ \<Rightarrow> False)"

definition refine_index_not_found ::
  "'w cluster \<Rightarrow> session_context \<Rightarrow> rust_str \<Rightarrow> rust_str \<Rightarrow> 'w \<Rightarrow> rust_str" where
  "refine_index_not_found cl session collection index_name w =
     (let tenant = (case session_tenant session of Inr t \<Rightarrow> t | Inl _ \<Rightarrow> []);
          db = db_or_empty (se_current_db session)
      in if tenant \<noteq> [] \<and> db \<noteq> [] \<and> schema_has_index cl tenant db collection index_name w
         then lit ''index '' @ [39] @ index_name @ [39] @ lit '' is in cluster schema (version ''
           @ show_nat (unat (schema_version cl w)) @ lit '') but not yet materialized on this node; retry shortly''
         else lit ''index not found: '' @ index_name)"

text \<open>The closures of the handler run on the world and return a response or an error text.\<close>

type_synonym 'w body = "'w \<Rightarrow> 'w \<times> (rust_str + response)"

definition with_db ::
  "('k, 'h, 'w) server_env \<Rightarrow> session_context \<Rightarrow> (rust_str \<Rightarrow> rust_str \<Rightarrow> 'w body) \<Rightarrow> 'w \<Rightarrow> 'w \<times> response" where
  "with_db sv session f w =
     (case session_tenant session of
        Inl e \<Rightarrow> (w, RespError (auth_error_text (sv_formats sv) e))
      | Inr tenant \<Rightarrow>
          (case se_current_db session of
             None \<Rightarrow> (w, RespError (lit ''no database selected (use USE <db>)''))
           | Some db \<Rightarrow>
               (case open_database (sv_engine sv) tenant db w of
                  (w1, Inl e) \<Rightarrow> (w1, RespError (show_error (sv_formats sv) e))
                | (w1, Inr _) \<Rightarrow>
                    (case f tenant db w1 of
                       (w2, Inr resp) \<Rightarrow> (w2, resp)
                     | (w2, Inl e) \<Rightarrow> (w2, RespError e)))))"

definition with_tenant ::
  "('k, 'h, 'w) server_env \<Rightarrow> session_context \<Rightarrow> (rust_str \<Rightarrow> 'w \<Rightarrow> 'w \<times> response) \<Rightarrow> 'w \<Rightarrow> 'w \<times> response" where
  "with_tenant sv session f w =
     (case session_tenant session of
        Inl e \<Rightarrow> (w, RespError (auth_error_text (sv_formats sv) e))
      | Inr tenant \<Rightarrow> f tenant w)"

definition bind_body :: "'w \<times> (rust_str + 'a) \<Rightarrow> ('a \<Rightarrow> 'w body) \<Rightarrow> 'w \<times> (rust_str + response)" where
  "bind_body r f = (case r of (w, Inl e) \<Rightarrow> (w, Inl e) | (w, Inr x) \<Rightarrow> f x w)"

definition act_text :: "formats \<Rightarrow> 'w \<times> (grumpy_error + 'a) \<Rightarrow> 'w \<times> (rust_str + 'a)" where
  "act_text f r = (fst r, map_err (show_error f) (snd r))"

definition bulk_pairs :: "formats \<Rightarrow> (uuid \<times> grumpy_value) list \<Rightarrow> response" where
  "bulk_pairs f rs = RespArray (map (\<lambda>(k, v). RespBulk (Some (uuid_show f k @ lit '' '' @ json_show f v))) rs)"

definition bulk_names :: "rust_str list \<Rightarrow> response" where
  "bulk_names ns = RespArray (map (\<lambda>n. RespBulk (Some n)) ns)"

section \<open>Data commands\<close>

definition done_body :: "'w body" where
  "done_body w = (w, Inr ok_response)"

definition exec_create_collection where
  "exec_create_collection sv session name =
     with_db sv session (\<lambda>t d w.
       bind_body (act_text (sv_formats sv) (db_create_collection (sv_engine sv) t d name w)) (\<lambda>_. done_body))"

definition exec_drop_collection where
  "exec_drop_collection sv session name =
     with_db sv session (\<lambda>t d w.
       bind_body (act_text (sv_formats sv) (db_drop_collection (sv_engine sv) t d name w)) (\<lambda>_. done_body))"

definition exec_list_collections where
  "exec_list_collections sv session =
     with_db sv session (\<lambda>t d w. (w, Inr (bulk_names (db_list_collections (sv_engine sv) t d w))))"

definition exec_insert where
  "exec_insert sv session collection k v =
     with_db sv session (\<lambda>t d w.
       bind_body (w, enforce_local_write_replica (sv_cluster sv) d collection k w) (\<lambda>_ w.
       bind_body (w, parse_uuid (sv_formats sv) k) (\<lambda>id w.
       bind_body (w, parse_json_value (sv_formats sv) v) (\<lambda>val w.
       bind_body (act_text (sv_formats sv) (db_insert (sv_engine sv) t d collection id val w)) (\<lambda>_. done_body)))))"

definition exec_get where
  "exec_get sv session collection k =
     with_db sv session (\<lambda>t d w.
       bind_body (w, enforce_local_owner (sv_cluster sv) d collection k w) (\<lambda>_ w.
       bind_body (w, parse_uuid (sv_formats sv) k) (\<lambda>id w.
       bind_body (w, map_err (show_error (sv_formats sv)) (db_get (sv_engine sv) t d collection id w)) (\<lambda>found w.
       (w, Inr (RespBulk (map_option (json_show (sv_formats sv)) found)))))))"

definition exec_update where
  "exec_update sv session collection k v =
     with_db sv session (\<lambda>t d w.
       bind_body (w, enforce_local_write_replica (sv_cluster sv) d collection k w) (\<lambda>_ w.
       bind_body (w, parse_uuid (sv_formats sv) k) (\<lambda>id w.
       bind_body (w, parse_json_value (sv_formats sv) v) (\<lambda>val w.
       bind_body (act_text (sv_formats sv) (db_update (sv_engine sv) t d collection id val w)) (\<lambda>_. done_body)))))"

definition exec_delete where
  "exec_delete sv session collection k =
     with_db sv session (\<lambda>t d w.
       bind_body (w, enforce_local_write_replica (sv_cluster sv) d collection k w) (\<lambda>_ w.
       bind_body (w, parse_uuid (sv_formats sv) k) (\<lambda>id w.
       bind_body (act_text (sv_formats sv) (db_delete (sv_engine sv) t d collection id w)) (\<lambda>_. done_body))))"

text \<open>The write of \<^verbatim>\<open>PUT_WITH_VC\<close>: merge with a stored CRDT, or insert, or replace a hidden tombstone.\<close>

definition put_existing where
  "put_existing sv t d collection uid existing incoming w =
     bind_body
       (w, if is_crdt existing \<and> is_crdt incoming
           then map_err (\<lambda>e. lit ''CRDT merge failed: '' @ show_crdt_error (sv_formats sv) e)
                  (merge_values (crdt_json (sv_formats sv)) existing incoming)
           else Inr incoming)
       (\<lambda>reconciled w.
        bind_body (act_text (sv_formats sv) (db_update (sv_engine sv) t d collection uid reconciled w))
          (\<lambda>_. done_body))"

definition put_absent where
  "put_absent sv t d collection uid incoming w =
     (case db_insert (sv_engine sv) t d collection uid incoming w of
        (w1, Inr _) \<Rightarrow> done_body w1
      | (w1, Inl (DuplicateKey _)) \<Rightarrow>
          bind_body (act_text (sv_formats sv) (db_update (sv_engine sv) t d collection uid incoming w1))
            (\<lambda>_. done_body)
      | (w1, Inl e) \<Rightarrow> (w1, Inl (show_error (sv_formats sv) e)))"

definition put_reconciled where
  "put_reconciled sv t d collection uid incoming w =
     bind_body (w, map_err (show_error (sv_formats sv)) (db_get (sv_engine sv) t d collection uid w)) (\<lambda>found.
     case found of
       Some existing \<Rightarrow> put_existing sv t d collection uid existing incoming
     | None \<Rightarrow> put_absent sv t d collection uid incoming)"

definition exec_put_with_vc where
  "exec_put_with_vc sv session collection k v vector_clock =
     with_db sv session (\<lambda>t d w.
       bind_body (w, enforce_local_write_replica (sv_cluster sv) d collection k w) (\<lambda>_ w.
       bind_body (w, map_err (\<lambda>e. lit ''invalid vector_clock JSON: '' @ e)
          (json_check (sv_formats sv) vector_clock)) (\<lambda>_ w.
       bind_body (w, parse_uuid (sv_formats sv) k) (\<lambda>id w.
       bind_body (w, parse_json_value (sv_formats sv) v) (\<lambda>incoming w.
       put_reconciled sv t d collection id incoming w)))))"

definition exec_scan where
  "exec_scan sv session collection start end_key =
     with_db sv session (\<lambda>t d w.
       bind_body
         (w, case (start, end_key) of
               (Some s, Some e) \<Rightarrow>
                 bind_res (parse_uuid (sv_formats sv) s) (\<lambda>lo.
                 bind_res (parse_uuid (sv_formats sv) e) (\<lambda>hi.
                 map_err (show_error (sv_formats sv)) (db_scan (sv_engine sv) t d collection (Some (lo, hi)) w)))
             | _ \<Rightarrow> map_err (show_error (sv_formats sv)) (db_scan (sv_engine sv) t d collection None w))
         (\<lambda>rs w. (w, Inr (bulk_pairs (sv_formats sv) rs))))"

definition exec_count where
  "exec_count sv session collection =
     with_db sv session (\<lambda>t d w.
       bind_body (w, map_err (show_error (sv_formats sv)) (db_count (sv_engine sv) t d collection w))
         (\<lambda>n w. (w, Inr (RespInteger (of_nat n)))))"

definition exec_create_index where
  "exec_create_index sv session collection index_name field_path =
     with_db sv session (\<lambda>t d w.
       bind_body (act_text (sv_formats sv) (db_create_index (sv_engine sv) t d collection index_name field_path w))
         (\<lambda>_. done_body))"

definition exec_drop_index where
  "exec_drop_index sv session collection index_name =
     with_db sv session (\<lambda>t d w.
       bind_body (act_text (sv_formats sv) (db_drop_index (sv_engine sv) t d collection index_name w))
         (\<lambda>_. done_body))"

definition exec_list_indexes where
  "exec_list_indexes sv session collection =
     with_db sv session (\<lambda>t d w.
       bind_body (w, map_err (show_error (sv_formats sv)) (db_list_indexes (sv_engine sv) t d collection w))
         (\<lambda>ns w. (w, Inr (bulk_names ns))))"

definition query_result where
  "query_result sv session collection index_name r w =
     (case r of
        Inr rs \<Rightarrow> (w, Inr (bulk_pairs (sv_formats sv) rs))
      | Inl (IndexNotFound _) \<Rightarrow>
          (w, Inl (refine_index_not_found (sv_cluster sv) session collection index_name w))
      | Inl e \<Rightarrow> (w, Inl (show_error (sv_formats sv) e)))"

definition exec_query where
  "exec_query sv session collection index_name v =
     with_db sv session (\<lambda>t d w.
       bind_body (w, parse_json_value (sv_formats sv) v) (\<lambda>val w.
       query_result sv session collection index_name (db_query (sv_engine sv) t d collection index_name val w) w))"

definition exec_query_range where
  "exec_query_range sv session collection index_name start end_value =
     with_db sv session (\<lambda>t d w.
       bind_body (w, parse_json_value (sv_formats sv) start) (\<lambda>lo w.
       bind_body (w, parse_json_value (sv_formats sv) end_value) (\<lambda>hi w.
       query_result sv session collection index_name
         (db_query_range (sv_engine sv) t d collection index_name lo hi w) w)))"

definition exec_compact where
  "exec_compact sv session collection =
     with_db sv session (\<lambda>t d w.
       bind_body (act_text (sv_formats sv) (db_compact (sv_engine sv) t d collection w))
         (\<lambda>n w. (w, Inr (RespOk (lit ''OK '' @ show_nat n)))))"

definition exec_flush where
  "exec_flush sv session =
     with_db sv session (\<lambda>t d w.
       bind_body (act_text (sv_formats sv) (db_flush (sv_engine sv) t d w)) (\<lambda>_. done_body))"

definition exec_snapshot_hlc where
  "exec_snapshot_hlc sv session =
     with_db sv session (\<lambda>t d w.
       let snapshot = db_snapshot_hlc (sv_engine sv) t d w
       in (w, if unat snapshot < 2 ^ 63 then Inr (RespInteger snapshot)
              else Inl (lit ''snapshot HLC '' @ show_nat (unat snapshot) @ lit '' does not fit in i64'')))"

section \<open>Database and cluster commands\<close>

definition exec_create_database where
  "exec_create_database sv session name =
     with_tenant sv session (\<lambda>t w.
       case create_database (sv_engine sv) t name w of (w1, r) \<Rightarrow> (w1, unit_response (sv_formats sv) r))"

definition exec_drop_database where
  "exec_drop_database sv session name =
     with_tenant sv session (\<lambda>t w.
       case drop_database (sv_engine sv) t name w of (w1, r) \<Rightarrow> (w1, unit_response (sv_formats sv) r))"

definition exec_list_databases where
  "exec_list_databases sv session =
     with_tenant sv session (\<lambda>t w.
       (w, case list_databases (sv_engine sv) t w of
             Inr dbs \<Rightarrow> bulk_names dbs
           | Inl e \<Rightarrow> RespError (show_error (sv_formats sv) e)))"

definition exec_set_consistency where
  "exec_set_consistency sv session database r w0 =
     with_tenant sv session (\<lambda>t w.
       case set_defaults (sv_engine sv) t database r w0 w of
         (w1, res) \<Rightarrow> (w1, unit_response (sv_formats sv) res))"

definition exec_reset_consistency where
  "exec_reset_consistency sv session database =
     with_tenant sv session (\<lambda>t w.
       case reset_defaults (sv_engine sv) t database w of
         (w1, res) \<Rightarrow> (w1, unit_response (sv_formats sv) res))"

definition exec_show_consistency where
  "exec_show_consistency sv session database =
     with_tenant sv session (\<lambda>t w.
       (w, case get_defaults (sv_engine sv) t database w of
             Inr (r, wc) \<Rightarrow> RespBulk (Some (json_consistency (sv_formats sv) database r wc))
           | Inl e \<Rightarrow> RespError (show_error (sv_formats sv) e)))"

definition exec_rebalance where
  "exec_rebalance sv session transfer node_id collection =
     with_tenant sv session (\<lambda>t w.
       case se_current_db session of
         None \<Rightarrow> (w, RespError (lit ''no database selected (use USE <db>)''))
       | Some db \<Rightarrow>
           (case open_database (sv_engine sv) t db w of
              (w1, Inl e) \<Rightarrow> (w1, RespError (show_error (sv_formats sv) e))
            | (w1, Inr _) \<Rightarrow>
                (case transfer node_id t db collection w1 of
                   (w2, out) \<Rightarrow> (w2, RespBulk (Some out)))))"

section \<open>Session and user commands\<close>

type_synonym ('k, 'w) reply = "session_context \<times> ('k, 'w) server_state \<times> response"

definition exec_login ::
  "('k, 'h, 'w) server_env \<Rightarrow> call_env \<Rightarrow> rust_str \<Rightarrow> rust_str \<Rightarrow> rust_str \<Rightarrow> session_context
     \<Rightarrow> ('k, 'w) server_state \<Rightarrow> ('k, 'w) reply" where
  "exec_login sv ce tenant username password session st =
     (case authenticate (sv_crypto sv) (ce_clock ce) (ce_clock2 ce) tenant username password (st_auth st) of
        Inl e \<Rightarrow> (session, st, RespError (lit ''invalid credentials''))
      | Inr (access, refresh) \<Rightarrow>
          let session' = (case store_verify_token (sv_crypto sv) (ce_now ce) access (st_auth st) of
                            Inr cl \<Rightarrow> set_claims cl session
                          | Inl _ \<Rightarrow> session);
              w = fst (create_client (sv_engine sv) tenant (st_world st))
          in (session', st\<lparr>st_world := w\<rparr>, RespOk (lit ''TOKEN '' @ access @ lit '' '' @ refresh)))"

definition exec_token ::
  "('k, 'h, 'w) server_env \<Rightarrow> call_env \<Rightarrow> rust_str \<Rightarrow> session_context \<Rightarrow> ('k, 'w) server_state
     \<Rightarrow> ('k, 'w) reply" where
  "exec_token sv ce token session st =
     (case store_verify_token (sv_crypto sv) (ce_now ce) token (st_auth st) of
        Inr cl \<Rightarrow> (set_claims cl session, st, ok_response)
      | Inl e \<Rightarrow> (session, st, RespError (auth_error_text (sv_formats sv) e)))"

definition exec_refresh ::
  "('k, 'h, 'w) server_env \<Rightarrow> call_env \<Rightarrow> rust_str \<Rightarrow> ('k, 'w) server_state \<Rightarrow> response" where
  "exec_refresh sv ce refresh_token st =
     (case refresh_access_token (sv_crypto sv) (ce_now ce) (ce_clock ce) refresh_token (st_auth st) of
        Inr access \<Rightarrow> RespOk (lit ''TOKEN '' @ access)
      | Inl e \<Rightarrow> RespError (auth_error_text (sv_formats sv) e))"

definition exec_whoami :: "formats \<Rightarrow> session_context \<Rightarrow> response" where
  "exec_whoami f session =
     (case se_claims session of
        Some cl \<Rightarrow>
          RespOk (lit ''USER '' @ cl_sub cl @ lit '' TENANT '' @ cl_tenant cl @ lit '' ROLES ''
            @ join (lit '','') (map (\<lambda>r. role_display (ra_role r) @ lit '':'' @ debug_scope f (ra_scope r)) (cl_roles cl)))
      | None \<Rightarrow> RespError (lit ''not authenticated''))"

definition exec_use ::
  "('k, 'h, 'w) server_env \<Rightarrow> rust_str \<Rightarrow> session_context \<Rightarrow> ('k, 'w) server_state \<Rightarrow> ('k, 'w) reply" where
  "exec_use sv db_name session st =
     (case session_tenant session of
        Inl e \<Rightarrow> (session, st, RespError (auth_error_text (sv_formats sv) e))
      | Inr tenant \<Rightarrow>
          (set_database db_name session,
           st\<lparr>st_world := fst (create_database (sv_engine sv) tenant db_name (st_world st))\<rparr>,
           ok_response))"

text \<open>The user commands change the store, and answer with its error.\<close>

definition store_reply ::
  "formats \<Rightarrow> session_context \<Rightarrow> ('k, 'w) server_state \<Rightarrow> 'k store_result \<Rightarrow> ('k, 'w) reply" where
  "store_reply f session st r =
     (session, st\<lparr>st_auth := fst r\<rparr>,
      case snd r of Inr _ \<Rightarrow> ok_response | Inl e \<Rightarrow> RespError (auth_error_text f e))"

definition with_user_target ::
  "formats \<Rightarrow> rust_str \<Rightarrow> session_context \<Rightarrow> ('k, 'w) server_state
     \<Rightarrow> (rust_str \<Rightarrow> rust_str \<Rightarrow> ('k, 'w) reply) \<Rightarrow> ('k, 'w) reply" where
  "with_user_target f username session st body =
     (case session_tenant session of
        Inl e \<Rightarrow> (session, st, RespError (auth_error_text f e))
      | Inr tenant \<Rightarrow> (case split_tenant_user username tenant of (t, u) \<Rightarrow> body t u))"

definition exec_create_user ::
  "('k, 'h, 'w) server_env \<Rightarrow> call_env \<Rightarrow> rust_str \<Rightarrow> rust_str \<Rightarrow> session_context \<Rightarrow> ('k, 'w) server_state
     \<Rightarrow> ('k, 'w) reply" where
  "exec_create_user sv ce username password session st =
     with_user_target (sv_formats sv) username session st (\<lambda>t u.
       store_reply (sv_formats sv) session st
         (create_user (sv_crypto sv) (ce_salt ce) (ce_clock ce) t u password [] (st_auth st)))"

definition exec_drop_user ::
  "('k, 'h, 'w) server_env \<Rightarrow> rust_str \<Rightarrow> session_context \<Rightarrow> ('k, 'w) server_state \<Rightarrow> ('k, 'w) reply" where
  "exec_drop_user sv username session st =
     with_user_target (sv_formats sv) username session st (\<lambda>t u.
       store_reply (sv_formats sv) session st (delete_user t u (st_auth st)))"

definition exec_list_users ::
  "('k, 'h, 'w) server_env \<Rightarrow> rust_str option \<Rightarrow> session_context \<Rightarrow> ('k, 'w) server_state \<Rightarrow> response" where
  "exec_list_users sv specifier session st =
     (case session_tenant session of
        Inl e \<Rightarrow> RespError (auth_error_text (sv_formats sv) e)
      | Inr own_tenant \<Rightarrow>
          let target_tenant = (case specifier of
                 Some spec \<Rightarrow> (if spec \<noteq> [] \<and> hd spec = of_char (CHR ''@'') then tl spec else spec)
               | None \<Rightarrow> own_tenant)
          in RespArray (map (\<lambda>u. RespBulk (Some (us_username u @ lit ''@'' @ us_tenant u @ lit '':''
               @ join (lit '','') (map (\<lambda>r. role_display (ra_role r)) (us_roles u)))))
               (list_users target_tenant (st_auth st))))"

definition change_roles ::
  "('k, 'h, 'w) server_env \<Rightarrow> rust_str \<Rightarrow> rust_str \<Rightarrow> rust_str \<Rightarrow> session_context \<Rightarrow> ('k, 'w) server_state
     \<Rightarrow> (role_name \<Rightarrow> resource_scope \<Rightarrow> role_assignment list \<Rightarrow> role_assignment list) \<Rightarrow> ('k, 'w) reply" where
  "change_roles sv role resource username session st f =
     with_user_target (sv_formats sv) username session st (\<lambda>t u.
       case from_str_name role of
         None \<Rightarrow> (session, st, RespError (lit ''unknown role: '' @ role))
       | Some role_name \<Rightarrow>
           (case get_user t u (st_auth st) of
              None \<Rightarrow> (session, st, RespError (lit ''user not found: '' @ username))
            | Some user \<Rightarrow>
                store_reply (sv_formats sv) session st
                  (update_roles t u (f role_name (parse_resource resource (se_current_db session)) (us_roles user))
                     (st_auth st))))"

definition exec_grant where
  "exec_grant sv role resource username session st =
     change_roles sv role resource username session st
       (\<lambda>r scope roles. roles @ [\<lparr>ra_role = r, ra_scope = scope\<rparr>])"

definition exec_revoke where
  "exec_revoke sv role resource username session st =
     change_roles sv role resource username session st
       (\<lambda>r scope roles. filter (\<lambda>ra. \<not> (ra_role ra = r \<and> ra_scope ra = scope)) roles)"

definition exec_list_tenants where
  "exec_list_tenants sv w =
     bulk_names (filter (\<lambda>c. c \<noteq> lit ''_auth'') (list_clients (sv_engine sv) w))"

definition on_world ::
  "session_context \<Rightarrow> ('k, 'w) server_state \<Rightarrow> ('w \<Rightarrow> 'w \<times> response) \<Rightarrow> ('k, 'w) reply" where
  "on_world session st f =
     (case f (st_world st) of (w, r) \<Rightarrow> (session, st\<lparr>st_world := w\<rparr>, r))"

section \<open>The dispatch\<close>

primrec execute_command ::
  "command \<Rightarrow> ('k, 'h, 'w) server_env \<Rightarrow> call_env \<Rightarrow> session_context \<Rightarrow> ('k, 'w) server_state
     \<Rightarrow> ('k, 'w) reply" where
  "execute_command (WithConsistency r w c) sv ce se st =
     (se, st, RespError (lit ''internal error: consistency wrapper not unwrapped''))"
| "execute_command (Login t u p) sv ce se st = exec_login sv ce t u p se st"
| "execute_command (Token t) sv ce se st = exec_token sv ce t se st"
| "execute_command (Refresh t) sv ce se st = (se, st, exec_refresh sv ce t st)"
| "execute_command WhoAmI sv ce se st = (se, st, exec_whoami (sv_formats sv) se)"
| "execute_command Topology sv ce se st =
     (se, st, RespBulk (Some (topology_json (sv_cluster sv) (st_world st))))"
| "execute_command SnapshotHlc sv ce se st = on_world se st (exec_snapshot_hlc sv se)"
| "execute_command SchemaVersion sv ce se st =
     (se, st, RespInteger (schema_version (sv_cluster sv) (st_world st)))"
| "execute_command SchemaStatus sv ce se st =
     (se, st, RespBulk (Some (schema_status_json (sv_cluster sv) (st_world st))))"
| "execute_command (Use d) sv ce se st = exec_use sv d se st"
| "execute_command Ping sv ce se st = (se, st, ok_response)"
| "execute_command Quit sv ce se st = (se, st, ok_response)"
| "execute_command (CreateDatabase n) sv ce se st = on_world se st (exec_create_database sv se n)"
| "execute_command (DropDatabase n) sv ce se st = on_world se st (exec_drop_database sv se n)"
| "execute_command ListDatabases sv ce se st = on_world se st (exec_list_databases sv se)"
| "execute_command (SetDatabaseConsistency d r w) sv ce se st = on_world se st (exec_set_consistency sv se d r w)"
| "execute_command (ResetDatabaseConsistency d) sv ce se st = on_world se st (exec_reset_consistency sv se d)"
| "execute_command (ShowDatabaseConsistency d) sv ce se st = on_world se st (exec_show_consistency sv se d)"
| "execute_command (CreateCollection n) sv ce se st = on_world se st (exec_create_collection sv se n)"
| "execute_command (DropCollection n) sv ce se st = on_world se st (exec_drop_collection sv se n)"
| "execute_command ListCollections sv ce se st = on_world se st (exec_list_collections sv se)"
| "execute_command (Insert c k v) sv ce se st = on_world se st (exec_insert sv se c k v)"
| "execute_command (Get c k) sv ce se st = on_world se st (exec_get sv se c k)"
| "execute_command (Update c k v) sv ce se st = on_world se st (exec_update sv se c k v)"
| "execute_command (Delete c k) sv ce se st = on_world se st (exec_delete sv se c k)"
| "execute_command (PutWithVc c k v vc) sv ce se st = on_world se st (exec_put_with_vc sv se c k v vc)"
| "execute_command (Scan c s e) sv ce se st = on_world se st (exec_scan sv se c s e)"
| "execute_command (CreateIndex c i f) sv ce se st = on_world se st (exec_create_index sv se c i f)"
| "execute_command (DropIndex c i) sv ce se st = on_world se st (exec_drop_index sv se c i)"
| "execute_command (ListIndexes c) sv ce se st = on_world se st (exec_list_indexes sv se c)"
| "execute_command (Query c i v) sv ce se st = on_world se st (exec_query sv se c i v)"
| "execute_command (QueryRange c i s e) sv ce se st = on_world se st (exec_query_range sv se c i s e)"
| "execute_command (Compact c) sv ce se st = on_world se st (exec_compact sv se c)"
| "execute_command Flush sv ce se st = on_world se st (exec_flush sv se)"
| "execute_command (Count c) sv ce se st = on_world se st (exec_count sv se c)"
| "execute_command (CreateUser u p) sv ce se st = exec_create_user sv ce u p se st"
| "execute_command (DropUser u) sv ce se st = exec_drop_user sv u se st"
| "execute_command (ListUsers t) sv ce se st = (se, st, exec_list_users sv t se st)"
| "execute_command (Grant r s u) sv ce se st = exec_grant sv r s u se st"
| "execute_command (Revoke r s u) sv ce se st = exec_revoke sv r s u se st"
| "execute_command (CreateTenant n) sv ce se st =
     on_world se st (\<lambda>w. case create_client (sv_engine sv) n w of (w1, r) \<Rightarrow> (w1, unit_response (sv_formats sv) r))"
| "execute_command (DropTenant n) sv ce se st =
     on_world se st (\<lambda>w. case drop_client (sv_engine sv) n w of (w1, r) \<Rightarrow> (w1, unit_response (sv_formats sv) r))"
| "execute_command ListTenants sv ce se st = (se, st, exec_list_tenants sv (st_world st))"
| "execute_command (ElectWriter n d c) sv ce se st =
     (se, st, RespOk (lit ''elected '' @ n @ lit '' as writer for '' @ d @ lit ''/''
        @ (case c of Some c \<Rightarrow> c | None \<Rightarrow> lit ''*'')))"
| "execute_command (PlanRebalanceAddNode n) sv ce se st =
     (se, st, RespBulk (Some (plan_rebalance_add_node (sv_cluster sv) n (st_world st))))"
| "execute_command (PlanRebalanceRemoveNode n) sv ce se st =
     (se, st, RespBulk (Some (plan_rebalance_remove_node (sv_cluster sv) n (st_world st))))"
| "execute_command (ExecuteRebalanceAddNode n c) sv ce se st =
     on_world se st (exec_rebalance sv se (execute_rebalance_add_node (sv_cluster sv)) n c)"
| "execute_command (ExecuteRebalanceRemoveNode n c) sv ce se st =
     on_world se st (exec_rebalance sv se (execute_rebalance_remove_node (sv_cluster sv)) n c)"

section \<open>Tenant isolation\<close>

text \<open>An action leaves what \<open>Q\<close> reads of the world unchanged.\<close>

definition keeps :: "('w \<Rightarrow> 'q) \<Rightarrow> ('w \<Rightarrow> 'w \<times> 'a) \<Rightarrow> bool" where
  "keeps Q f \<longleftrightarrow> (\<forall>w. Q (fst (f w)) = Q w)"

text \<open>
  What isolation relies on of the engine and the rebalancer: an operation on behalf of one tenant
  leaves the parts of the world that belong to the other tenants unchanged.
\<close>

definition engine_isolated :: "(rust_str \<Rightarrow> 'w \<Rightarrow> 'q) \<Rightarrow> 'w engine \<Rightarrow> 'w cluster \<Rightarrow> bool" where
  "engine_isolated part eng cl \<longleftrightarrow> (\<forall>t t'. t \<noteq> t' \<longrightarrow>
     keeps (part t') (create_client eng t) \<and> keeps (part t') (drop_client eng t) \<and>
     (\<forall>d. keeps (part t') (create_database eng t d) \<and> keeps (part t') (drop_database eng t d) \<and>
        (\<forall>r w. keeps (part t') (set_defaults eng t d r w)) \<and> keeps (part t') (reset_defaults eng t d) \<and>
        keeps (part t') (open_database eng t d) \<and> keeps (part t') (db_flush eng t d) \<and>
        (\<forall>c. keeps (part t') (db_create_collection eng t d c) \<and> keeps (part t') (db_drop_collection eng t d c) \<and>
           keeps (part t') (db_compact eng t d c) \<and>
           (\<forall>k v. keeps (part t') (db_insert eng t d c k v) \<and> keeps (part t') (db_update eng t d c k v)) \<and>
           (\<forall>k. keeps (part t') (db_delete eng t d c k)) \<and>
           (\<forall>i f. keeps (part t') (db_create_index eng t d c i f)) \<and>
           (\<forall>i. keeps (part t') (db_drop_index eng t d c i)) \<and>
           (\<forall>n. keeps (part t') (execute_rebalance_add_node cl n t d c) \<and>
              keeps (part t') (execute_rebalance_remove_node cl n t d c)))))"

lemma keeps_pair: "keeps Q (\<lambda>w. (w, g w))"
  by (simp add: keeps_def)

lemma keeps_done: "keeps Q done_body"
  by (simp add: keeps_def done_body_def)

lemma keeps_act_text: "keeps Q f \<Longrightarrow> keeps Q (\<lambda>w. act_text fm (f w))"
  by (simp add: keeps_def act_text_def)

lemma keeps_bind: "keeps Q g \<Longrightarrow> (\<And>x. keeps Q (f x)) \<Longrightarrow> keeps Q (\<lambda>w. bind_body (g w) f)"
  unfolding keeps_def bind_body_def by (auto split: prod.split sum.split) (metis fst_conv)+

lemma keeps_reply: "keeps Q f \<Longrightarrow> keeps Q (\<lambda>w. case f w of (w1, r) \<Rightarrow> (w1, g r))"
  by (auto simp: keeps_def split: prod.split) (metis fst_conv)

lemma keeps_with_db:
  assumes "session_tenant se = Inr t" "\<And>d. keeps Q (open_database (sv_engine sv) t d)" "\<And>d. keeps Q (f t d)"
  shows "keeps Q (with_db sv se f)"
  using assms unfolding keeps_def with_db_def
  by (auto split: option.split prod.split sum.split) (metis fst_conv)+

lemma keeps_with_tenant:
  "session_tenant se = Inr t \<Longrightarrow> keeps Q (f t) \<Longrightarrow> keeps Q (with_tenant sv se f)"
  by (simp add: keeps_def with_tenant_def)

lemma keeps_query_result: "keeps Q (\<lambda>w. query_result sv se c i (r w) w)"
  by (auto simp: keeps_def query_result_def split: sum.split grumpy_error.split)

lemma keeps_put_reconciled:
  assumes ins: "\<And>v. keeps Q (db_insert (sv_engine sv) t d c uid v)"
    and upd: "\<And>v. keeps Q (db_update (sv_engine sv) t d c uid v)"
  shows "keeps Q (put_reconciled sv t d c uid v)"
proof -
  have upd_done: "keeps Q (\<lambda>w. bind_body (act_text (sv_formats sv) (db_update (sv_engine sv) t d c uid x w))
      (\<lambda>_. done_body))" for x
    by (intro keeps_bind keeps_act_text upd keeps_done)
  have "keeps Q (put_existing sv t d c uid x v)" for x
    unfolding put_existing_def by (intro keeps_bind keeps_pair upd_done)
  moreover have "keeps Q (put_absent sv t d c uid v)"
    unfolding put_absent_def
    using ins [of v] upd_done [of v] keeps_done [of Q]
    by (auto simp: keeps_def split: prod.split sum.split grumpy_error.split) (metis fst_conv)+
  ultimately show ?thesis
    unfolding put_reconciled_def by (intro keeps_bind keeps_pair) (auto split: option.split)
qed

lemmas keeps_intros = keeps_pair keeps_done keeps_act_text keeps_bind keeps_reply keeps_query_result
  keeps_put_reconciled

lemmas exec_defs = exec_create_collection_def exec_drop_collection_def exec_list_collections_def
  exec_insert_def exec_get_def exec_update_def exec_delete_def exec_put_with_vc_def exec_scan_def
  exec_count_def exec_create_index_def exec_drop_index_def exec_list_indexes_def exec_query_def
  exec_query_range_def exec_compact_def exec_flush_def exec_snapshot_hlc_def exec_create_database_def
  exec_drop_database_def exec_list_databases_def exec_set_consistency_def exec_reset_consistency_def
  exec_show_consistency_def

lemma isolatedD:
  assumes "engine_isolated part eng cl" "t \<noteq> t'"
  shows "keeps (part t') (create_client eng t)"
    "keeps (part t') (create_database eng t d)" "keeps (part t') (drop_database eng t d)"
    "keeps (part t') (set_defaults eng t d r w)" "keeps (part t') (reset_defaults eng t d)"
    "keeps (part t') (open_database eng t d)" "keeps (part t') (db_flush eng t d)"
    "keeps (part t') (db_create_collection eng t d c)" "keeps (part t') (db_drop_collection eng t d c)"
    "keeps (part t') (db_compact eng t d c)"
    "keeps (part t') (db_insert eng t d c k v)" "keeps (part t') (db_update eng t d c k v)"
    "keeps (part t') (db_delete eng t d c k)" "keeps (part t') (db_create_index eng t d c i f)"
    "keeps (part t') (db_drop_index eng t d c i)"
    "keeps (part t') (execute_rebalance_add_node cl n t d c)"
    "keeps (part t') (execute_rebalance_remove_node cl n t d c)"
  using assms by (auto simp: engine_isolated_def)

lemma exec_data_keeps:
  assumes iso: "engine_isolated part (sv_engine sv) (sv_cluster sv)" "t \<noteq> t'" and se: "session_tenant se = Inr t"
  shows "keeps (part t') (exec_create_collection sv se c)" "keeps (part t') (exec_drop_collection sv se c)"
    "keeps (part t') (exec_list_collections sv se)" "keeps (part t') (exec_insert sv se c k v)"
    "keeps (part t') (exec_get sv se c k)" "keeps (part t') (exec_update sv se c k v)"
    "keeps (part t') (exec_delete sv se c k)" "keeps (part t') (exec_put_with_vc sv se c k v vc)"
    "keeps (part t') (exec_scan sv se c lo hi)" "keeps (part t') (exec_count sv se c)"
    "keeps (part t') (exec_create_index sv se c i f)" "keeps (part t') (exec_drop_index sv se c i)"
    "keeps (part t') (exec_list_indexes sv se c)" "keeps (part t') (exec_query sv se c i v)"
    "keeps (part t') (exec_query_range sv se c i v v')" "keeps (part t') (exec_compact sv se c)"
    "keeps (part t') (exec_flush sv se)" "keeps (part t') (exec_snapshot_hlc sv se)"
  unfolding exec_defs Let_def
  by (rule keeps_with_db [OF se isolatedD(6) [OF iso]]; intro keeps_intros isolatedD [OF iso])+

lemma exec_admin_keeps:
  assumes iso: "engine_isolated part (sv_engine sv) (sv_cluster sv)" "t \<noteq> t'" and se: "session_tenant se = Inr t"
  shows "keeps (part t') (exec_create_database sv se d)" "keeps (part t') (exec_drop_database sv se d)"
    "keeps (part t') (exec_list_databases sv se)" "keeps (part t') (exec_set_consistency sv se d r w)"
    "keeps (part t') (exec_reset_consistency sv se d)" "keeps (part t') (exec_show_consistency sv se d)"
  unfolding exec_defs
  by (rule keeps_with_tenant [OF se]; intro keeps_intros isolatedD [OF iso])+

lemma exec_rebalance_keeps:
  assumes "session_tenant se = Inr t" "\<And>d. keeps Q (open_database (sv_engine sv) t d)"
    "\<And>d. keeps Q (f n t d c)"
  shows "keeps Q (exec_rebalance sv se f n c)"
  unfolding exec_rebalance_def
  by (rule keeps_with_tenant [OF assms(1)])
    (use assms(2,3) in \<open>auto simp: keeps_def split: option.split prod.split sum.split\<close>, (metis fst_conv)+)

lemma on_world_keeps:
  assumes "on_world se st f = (se', st', r)"
  shows "keeps Q f \<Longrightarrow> Q (st_world st') = Q (st_world st)" "st_auth st' = st_auth st" "se' = se"
  using assms by (auto simp: on_world_def keeps_def split: prod.splits) (metis fst_conv)

text \<open>The commands that act on tenants or on the login of a tenant rather than inside one.\<close>

definition tenant_command :: "command \<Rightarrow> bool" where
  "tenant_command c =
     (case c of Login _ _ _ \<Rightarrow> True | CreateTenant _ \<Rightarrow> True | DropTenant _ \<Rightarrow> True | _ \<Rightarrow> False)"

lemma user_commands_world:
  "exec_create_user sv ce u p se st = (se', st', r) \<Longrightarrow> st_world st' = st_world st"
  "exec_drop_user sv u se st = (se', st', r) \<Longrightarrow> st_world st' = st_world st"
  "exec_grant sv role res u se st = (se', st', r) \<Longrightarrow> st_world st' = st_world st"
  "exec_revoke sv role res u se st = (se', st', r) \<Longrightarrow> st_world st' = st_world st"
  "exec_token sv ce t se st = (se', st', r) \<Longrightarrow> st_world st' = st_world st \<and> st_auth st' = st_auth st"
  by (auto simp: exec_create_user_def exec_drop_user_def exec_grant_def exec_revoke_def change_roles_def
      exec_token_def with_user_target_def store_reply_def split: sum.splits prod.splits option.splits)

lemma execute_isolated:
  assumes iso: "engine_isolated part (sv_engine sv) (sv_cluster sv)" "t \<noteq> t'"
    and se: "session_tenant se = Inr t" and "\<not> tenant_command c"
    and ex: "execute_command c sv ce se st = (se', st', r)"
  shows "part t' (st_world st') = part t' (st_world st)"
proof (cases c)
  case (Use d)
  then show ?thesis
    using ex se isolatedD(2) [OF iso, of d] by (auto simp: exec_use_def keeps_def)
qed (use assms in \<open>auto simp: tenant_command_def
      dest!: on_world_keeps(1) [where Q = "part t'"] user_commands_world
      intro!: exec_data_keeps [OF iso se] exec_admin_keeps [OF iso se] exec_rebalance_keeps [OF se]
        isolatedD [OF iso]\<close>)

lemma execute_auth_store:
  assumes "required_action c \<noteq> ActManageUsers" "execute_command c sv ce se st = (se', st', r)"
  shows "st_auth st' = st_auth st"
  using assms
  by (cases c) (auto dest!: on_world_keeps(2) user_commands_world simp: exec_login_def exec_use_def Let_def
      split: sum.splits)

end
