(* ===== verification/Spec2Isabelle.thy ===== *)
theory Spec2Isabelle
  imports Crdt_Merge Wal_Recovery Secondary_Index Buffer_Pool Wire_Parser Rate_Limits Server_Commands
begin

text \<open>
  GrumpyDB: a document database in Rust. This development models its storage engine (\<^verbatim>\<open>src/src/\<close>), its
  wire protocol (\<^verbatim>\<open>src/grumpydb-protocol/\<close>) and the parts of its server that decide who may do what
  (\<^verbatim>\<open>src/grumpydb-server/\<close>) as pure functions over bytes, words and lists, and proves the properties the
  code relies on.

  \<^bold>\<open>The program.\<close> The engine stores documents encoded as bytes in slotted pages of a page file, caches
  pages in a buffer pool, finds documents through a B+tree over their ids and through secondary indexes
  over encoded field values, protects page writes with a write-ahead log, and orders and merges
  replicated writes with hybrid logical clocks, vector clocks and CRDT payloads. A client sends one
  command per line. The server parses it, checks the roles of the session, limits connections and
  logins, executes the command on the engine and serialises the response. Users, their password hashes
  and roles lie in one file each, and sessions are opened with signed tokens.

  \<^bold>\<open>Conventions.\<close> Unsigned integers of the code are words of their width with wrap-around, as in a release
  build; \<^verbatim>\<open>usize\<close> is \<open>nat\<close>; \<^verbatim>\<open>i64\<close> and \<^verbatim>\<open>f64\<close> are kept as their 64 bits in documents. Byte strings and
  pages are lists of bytes. Strings of the engine are their UTF-8 bytes; strings of the protocol and the
  server are lists of Unicode scalar values with the byte offsets of their UTF-8 form (\<open>Wire_Text\<close>). A
  fallible function returns a sum: an error of the code's own error type, a panic where the code can
  panic (index out of range, slice inside a character, \<^verbatim>\<open>unwrap\<close> of nothing), or a value, so a theorem
  that a call returns \<open>Inr\<close> says that it does not panic. A method on \<^verbatim>\<open>&mut self\<close> maps a state to the new
  state and the result. Loops over data are recursive functions; loops that can run forever on a damaged
  file are \<open>partial_function (option)\<close>, and \<open>None\<close> is not returning. Nothing uses fuel. Code outside the
  sources is a parameter: CRC-32, murmur, serde's JSON, UUID texts, the wall clock, \<^verbatim>\<open>argon2\<close>,
  \<^verbatim>\<open>jsonwebtoken\<close>, \<^verbatim>\<open>governor\<close>. What is needed of them is a hypothesis of the theorem that needs it.

  \<^bold>\<open>Storage.\<close>
  \<^item> \<open>Grumpy_Prelude\<close>: the result type, state-passing operations, buffers and little-endian integers,
    UTF-8 validity, \<^verbatim>\<open>BTreeMap\<close> as a sorted list, \<^verbatim>\<open>Vec\<close> operations and binary search; lemmas that the
    components share, among them the locale \<open>merge_semilattice\<close> of everything that is merged.
  \<^item> \<open>Document_Codec\<close> (\<^verbatim>\<open>document/value.rs, codec.rs, mod.rs\<close>): values, their byte encoding, documents.
    Encoding and decoding are inverse up to the nesting limit, sizes are exact, and what \<^verbatim>\<open>decode\<close> accepts
    respects all limits.
  \<^item> \<open>Page_Layout\<close> (\<^verbatim>\<open>page/mod.rs\<close>): page headers and checksums.
  \<^item> \<open>Slotted_Page\<close> (\<^verbatim>\<open>page/slotted.rs\<close>): all operations of a slotted page on its 8 KiB buffer. The invariant
    \<open>sp_ok\<close> is kept, nothing panics, and each operation acts as expected on the tuples.
  \<^item> \<open>Page_Store\<close> (\<^verbatim>\<open>page/manager.rs, overflow.rs\<close>): the page file with its free list, and overflow chains.
    The locale \<open>page_device\<close> states what users of the file rely on; it is interpreted on the model, and the
    chains and the B+tree are verified against it.
  \<^item> \<open>Buffer_Pool\<close> (\<^verbatim>\<open>buffer/frame.rs, pool.rs\<close>): frames, pins, dirty pages, eviction of the least recently
    used page and flushing. A fetch succeeds while a frame is unpinned and loses no contents; after a
    flush the file holds the current contents of every page.
  \<^item> \<open>Wal_Record\<close>, \<open>Wal_Log\<close>, \<open>Wal_Recovery\<close> (\<^verbatim>\<open>wal/record.rs, writer.rs, recovery.rs\<close>): record formats, the log
    file with restarts after a crash, and redo/undo over the data and the index file.
  \<^item> \<open>Clocks\<close> (\<^verbatim>\<open>wal/hlc.rs, vclock.rs, applied_set.rs\<close>) and \<open>Crdt_Merge\<close> (\<^verbatim>\<open>document/crdt.rs\<close>): clocks are
    monotone, merging is a least upper bound, records are applied at most once. Replicas that started
    apart and saw the same payloads hold the same bytes, and these record exactly what the payloads
    record (\<open>crdt_facts\<close>); the locale \<open>merge_codec\<close> carries the proof for all five kinds.

  \<^bold>\<open>Indexes.\<close>
  \<^item> \<open>Btree_Node\<close>, \<open>Btree_Ops\<close> (\<^verbatim>\<open>btree/key.rs, node.rs, mod.rs, ops.rs, cursor.rs\<close>): the \<^verbatim>\<open>Key\<close> trait as a record of
    its operations, the byte layout of nodes, and search, insertion with splits, deletion with
    redistribution and merges, cursors, creation and opening. The locale \<open>key_codec\<close> holds the laws of a
    key type; it is interpreted for document ids and for byte strings.
  \<^item> \<open>Btree_Shape\<close>, \<open>Btree_Store\<close>, \<open>Btree_Search\<close>, \<open>Btree_Insert\<close>, \<open>Btree_Update\<close>, \<open>Btree_Delete\<close>, \<open>Btree_Remove\<close>,
    \<open>Btree_Range\<close>, \<open>Btree_Index\<close>: the proof that a tree on disk is a sorted map. A ghost tree describes which
    page holds which node; contexts (a path of frames with a hole) follow the descent path of the code; each
    routine is shown to turn one ghost tree into the next. \<open>Btree_Index\<close> concludes that any run of calls
    answers as the same run on the sorted list of entries.
  \<^item> \<open>Sortable_Key\<close> (\<^verbatim>\<open>index/encoding.rs\<close>): the byte encoding of field values, whose order is the order of the
    values; composite keys and field paths.
  \<^item> \<open>Secondary_Index\<close> (\<^verbatim>\<open>index/mod.rs\<close>): maintenance, rebuild and queries over a B+tree of byte strings. Any
    run of calls answers as a set of pairs of an encoded field and a document id.

  \<^bold>\<open>Protocol.\<close>
  \<^item> \<open>Wire_Text\<close>: what the protocol uses of \<^verbatim>\<open>str\<close>; slicing, trimming, numbers.
  \<^item> \<open>Wire_Command\<close>, \<open>Wire_Parser\<close> (\<^verbatim>\<open>command.rs, parser.rs\<close>): the commands with the action and the resource each
    needs, and the line parser. What it returns is well formed, and every well-formed command is parsed
    back from its line.
  \<^item> \<open>Wire_Response\<close> (\<^verbatim>\<open>response.rs\<close>): serialisation and incremental parsing of responses, with the inputs on
    which the parser panics.

  \<^bold>\<open>Server.\<close>
  \<^item> \<open>Access_Control\<close> (\<^verbatim>\<open>auth/role.rs, session/mod.rs\<close>): roles, scopes and the check of a command. The check
    agrees with \<open>access_matrix\<close>, a table with one row per command, taken from the documented matrix and not
    from the code's own classification of commands.
  \<^item> \<open>Auth_Disk\<close>: the file system calls under the user files, with paths resolved as Unix does.
  \<^item> \<open>Auth_Store\<close> (\<^verbatim>\<open>auth/user.rs, jwt.rs, store.rs\<close>): users and their files, passwords, tokens, refreshing and key
    rotation, opening the store. Tokens verify exactly until they expire; users survive a restart if
    their tenants contain no path separator and their files have different names, and do not otherwise.
  \<^item> \<open>Rate_Limits\<close> (\<^verbatim>\<open>limits.rs\<close>): connection slots as a step relation on the atomic sections of concurrent
    tasks, command buckets, and the login backoff. The caps hold without the loopback bypass and fail
    with it.
  \<^item> \<open>Server_Commands\<close> (\<^verbatim>\<open>execute_command\<close> of \<^verbatim>\<open>tcp/handler.rs\<close>): every branch of the dispatch over the interface
    of the engine and the coordinator, which are parameters on an abstract world; a command of one tenant
    changes nothing of another if the engine keeps tenants apart, and only user management changes the
    store of users.

  \<^bold>\<open>Bounds.\<close> A page file has at most 2^32 - 1 pages; \<open>pm_room\<close> counts the allocations that are certain to
  succeed, and the theorems that allocate assume the room they use. The entry count of a tree is a 64-bit
  field and wraps. The sortable encoding keeps 128 bytes of a string.

  \<^bold>\<open>Not modelled.\<close> Operating system errors of the page file and the log, \<^verbatim>\<open>fsync\<close> and partial writes of a
  single page (the log is the exception: a crash leaves any prefix of it). The layers between the
  indexes and the commands: \<^verbatim>\<open>collection/\<close>, \<^verbatim>\<open>database/\<close> with its transactions, \<^verbatim>\<open>engine.rs\<close>, \<^verbatim>\<open>concurrency/\<close>,
  \<^verbatim>\<open>server/\<close>, \<^verbatim>\<open>naming.rs\<close>. In the server the connection loop, quorum reads and writes, the coordinator, the
  cluster modules, snapshots, the HTTP endpoints and the configuration; of the user store the key files,
  their archive and the migration to RS256. The crates for replication, the hash ring, the client and the
  shell, the test harness, examples, benchmarks and fuzz targets. JSON state files, which are serde calls.
\<close>

end
